(* ===== verification/Tartaruga_Prelude.thy ===== *)
theory Tartaruga_Prelude
  imports Main "HOL-Library.Word"
begin

text \<open>
  What every component of the development shares: the lemma collections, the operators of
  the hardware description language that HOL-Library.Word has no name for (replication,
  concatenation with a width, the 1-bit comparison result), and the counted loop of the C
  sources with its invariant rule.
\<close>

unbundle bit_operations_syntax

named_theorems core_defs \<open>definitions of the combinational logic of the core\<close>
named_theorems field_defs \<open>bit fields of an instruction word\<close>
named_theorems enc_defs \<open>encodings of the reference instruction set\<close>

subsection \<open>Words\<close>

type_synonym bus32_t = "32 word"
type_synonym reg_addr_t = "5 word"

text \<open>Bits \<open>[n + LEN - 1 : n]\<close> of a bus, as a word of their own width.\<close>

definition bits :: "nat \<Rightarrow> 32 word \<Rightarrow> 'a::len word" where
  "bits n w = ucast (drop_bit n w)"

lemma bit_bits [bit_simps]:
  "bit (bits n w :: 'a::len word) i \<longleftrightarrow> i < LENGTH('a) \<and> bit w (n + i)"
  by (auto simp: bits_def bit_simps)

text \<open>The replication \<open>{LEN{b}}\<close> of one bit.\<close>

definition rep :: "bool \<Rightarrow> 'a::len word" where
  "rep b = (if b then - 1 else 0)"

lemma bit_rep [bit_simps]: "bit (rep b :: 'a::len word) i \<longleftrightarrow> i < LENGTH('a) \<and> b"
  by (simp add: rep_def bit_simps)

text \<open>A one-bit result widened with zeros: \<open>{31'b0, c}\<close>.\<close>

definition flag :: "bool \<Rightarrow> bus32_t" where
  "flag b = (if b then 1 else 0)"

lemma flag_eq_0 [simp]: "flag b = 0 \<longleftrightarrow> \<not> b" and flag_eq_1 [simp]: "flag b = 1 \<longleftrightarrow> b"
  by (simp_all add: flag_def)

lemma word_eq_by_bits:
  fixes v w :: "'a::len word"
  assumes "\<And>i. i < LENGTH('a) \<Longrightarrow> bit v i \<longleftrightarrow> bit w i"
  shows "v = w"
  using assms by (rule bit_word_eqI)


subsection \<open>Searching a list\<close>

lemma find_filter: "find P (filter Q xs) = find (\<lambda>x. Q x \<and> P x) xs"
  by (induction xs) auto

lemma find_map: "find P (map f xs) = map_option f (find (\<lambda>x. P (f x)) xs)"
  by (induction xs) auto

subsection \<open>Shift registers\<close>

text \<open>
  Every fixed-latency pipe of the core is an array shifted by one position per clock edge:
  \<open>q[0] <= x; q[i] <= q[i-1]\<close>.
\<close>

definition shift_in :: "'a \<Rightarrow> 'a list \<Rightarrow> 'a list" where
  "shift_in x q = x # butlast q"

lemma length_shift_in [simp]: "length (shift_in x q) = max 1 (length q)"
  by (cases q) (simp_all add: shift_in_def)

lemma shift_in_nonempty [simp]: "shift_in x q \<noteq> []"
  by (simp add: shift_in_def)

lemma nth_shift_in_0 [simp]: "shift_in x q ! 0 = x"
  by (simp add: shift_in_def)

lemma nth_shift_in_Suc [simp]: "Suc i < length q \<Longrightarrow> shift_in x q ! Suc i = q ! i"
  by (simp add: shift_in_def nth_butlast)

text \<open>After \<open>k\<close> more edges, what entered at position 0 is at position \<open>k\<close>.\<close>

lemma fold_shift_in:
  assumes "q \<noteq> []" "length xs + i < length q"
  shows "fold shift_in xs q ! (length xs + i) = q ! i \<and> length (fold shift_in xs q) = length q"
  using assms
proof (induction xs arbitrary: q i)
  case (Cons x xs)
  have "fold shift_in xs (shift_in x q) ! (length xs + Suc i) = shift_in x q ! Suc i
      \<and> length (fold shift_in xs (shift_in x q)) = length (shift_in x q)"
    using Cons.prems by (intro Cons.IH) auto
  with Cons.prems show ?case by (cases q) simp_all
qed simp

text \<open>
  A unit whose answer to the input of one edge appears \<open>L\<close> edges later, whatever enters in
  between: the contract the multiplier and the memory wrappers offer to the pipeline.
\<close>

locale latency_unit =
  fixes clk :: "'i \<Rightarrow> 's \<Rightarrow> 's"
    and ok :: "'s \<Rightarrow> bool"
    and result_of :: "'s \<Rightarrow> 'o"
    and answer :: "'i \<Rightarrow> 'o"
    and L :: nat
  assumes ok_clk: "ok s \<Longrightarrow> ok (clk x s)"
    and latency: "ok s \<Longrightarrow> length xs = L - 1 \<Longrightarrow> result_of (fold clk xs (clk x s)) = answer x"
    and L_pos: "0 < L"
begin

lemma ok_run: "ok s \<Longrightarrow> ok (fold clk xs s)"
  by (induction xs arbitrary: s) (simp_all add: ok_clk)

text \<open>In a stream of inputs, the output at edge \<open>n + L\<close> answers the input of edge \<open>n\<close>.\<close>

lemma stream_answer:
  assumes "ok s" "n + L \<le> length xs"
  shows "result_of (fold clk (take (n + L) xs) s) = answer (xs ! n)"
proof -
  have n: "n < length xs" using assms(2) L_pos by linarith
  have "take (n + L) xs = take n xs @ xs ! n # take (L - 1) (drop (Suc n) xs)"
  proof -
    have "take (n + L) xs = take n xs @ take L (drop n xs)" by (simp add: take_add)
    also have "drop n xs = xs ! n # drop (Suc n) xs" using n by (simp add: Cons_nth_drop_Suc)
    also have "take L (xs ! n # drop (Suc n) xs) = xs ! n # take (L - 1) (drop (Suc n) xs)"
      using L_pos by (cases L) simp_all
    finally show ?thesis .
  qed
  moreover have "length (take (L - 1) (drop (Suc n) xs)) = L - 1" using assms(2) L_pos by simp
  ultimately show ?thesis
    using latency [OF ok_run [OF assms(1)]] by simp
qed

end

end
