(* ===== verification/Tartaruga_Pkg.thy ===== *)
theory Tartaruga_Pkg
  imports Tartaruga_Prelude
begin

text \<open>
  The packages of \<^verbatim>\<open>includes/\<close>: the enumerations and packed structures of
  \<^verbatim>\<open>tartaruga_pkg.sv\<close> and the opcode and function codes of \<^verbatim>\<open>riscv_pkg.sv\<close>. A packed
  structure whose fields are computed becomes a record; the packed union
  \<^verbatim>\<open>instruction_t\<close> becomes the instruction word with one selector per field.
\<close>

subsection \<open>Enumerations\<close>

datatype alu_op_t =
  ADD | SUB | SLT | SLTU | SLL | SRL | SRA | XOR_op | OR_op | AND_op

datatype rs2_or_imm_t = RS2 | IMM

datatype rs1_or_pc_t = RS1 | PC

datatype wb_origin_t = ALU | MEM | MUL | PC_4

datatype jump_kind_t = JUMP | BNE | BEQ | BLT | BLTU | BGE | BGEU | BNONE

subsection \<open>Sizes\<close>

definition REG_COUNT :: nat where "REG_COUNT = 32"
definition ROB_SIZE :: nat where "ROB_SIZE = 16"
definition STORE_BUFFER_SIZE :: nat where "STORE_BUFFER_SIZE = 4"
definition EXE_STAGES_DEFAULT :: nat where "EXE_STAGES_DEFAULT = 1"
definition EXE_STAGES_MULT :: nat where "EXE_STAGES_MULT = 5"
definition MAX_EXE_STAGES :: nat where
  "MAX_EXE_STAGES = (if EXE_STAGES_DEFAULT > EXE_STAGES_MULT then EXE_STAGES_DEFAULT
                     else EXE_STAGES_MULT)"

type_synonym rob_idx_t = "4 word"
type_synonym store_buffer_idx_t = "2 word"

subsection \<open>The fields of an instruction word\<close>

type_synonym instruction_t = "32 word"

definition rt_opcode :: "instruction_t \<Rightarrow> 7 word" where [field_defs]: "rt_opcode w = bits 0 w"
definition rt_rd :: "instruction_t \<Rightarrow> 5 word" where [field_defs]: "rt_rd w = bits 7 w"
definition rt_func3 :: "instruction_t \<Rightarrow> 3 word" where [field_defs]: "rt_func3 w = bits 12 w"
definition rt_rs1 :: "instruction_t \<Rightarrow> 5 word" where [field_defs]: "rt_rs1 w = bits 15 w"
definition rt_rs2 :: "instruction_t \<Rightarrow> 5 word" where [field_defs]: "rt_rs2 w = bits 20 w"
definition rt_func7 :: "instruction_t \<Rightarrow> 7 word" where [field_defs]: "rt_func7 w = bits 25 w"

definition ut_imm :: "instruction_t \<Rightarrow> 20 word" where [field_defs]: "ut_imm w = bits 12 w"
definition it_imm :: "instruction_t \<Rightarrow> 12 word" where [field_defs]: "it_imm w = bits 20 w"
definition st_imm5 :: "instruction_t \<Rightarrow> 7 word" where [field_defs]: "st_imm5 w = bits 25 w"
definition st_imm0 :: "instruction_t \<Rightarrow> 5 word" where [field_defs]: "st_imm0 w = bits 7 w"
definition bt_imm12 :: "instruction_t \<Rightarrow> 1 word" where [field_defs]: "bt_imm12 w = bits 31 w"
definition bt_imm5 :: "instruction_t \<Rightarrow> 6 word" where [field_defs]: "bt_imm5 w = bits 25 w"
definition bt_imm1 :: "instruction_t \<Rightarrow> 4 word" where [field_defs]: "bt_imm1 w = bits 8 w"
definition bt_imm11 :: "instruction_t \<Rightarrow> 1 word" where [field_defs]: "bt_imm11 w = bits 7 w"
definition jt_imm20 :: "instruction_t \<Rightarrow> 1 word" where [field_defs]: "jt_imm20 w = bits 31 w"
definition jt_imm1 :: "instruction_t \<Rightarrow> 10 word" where [field_defs]: "jt_imm1 w = bits 21 w"
definition jt_imm11 :: "instruction_t \<Rightarrow> 1 word" where [field_defs]: "jt_imm11 w = bits 20 w"
definition jt_imm12 :: "instruction_t \<Rightarrow> 8 word" where [field_defs]: "jt_imm12 w = bits 12 w"

subsection \<open>Opcodes and function codes\<close>

definition OP_LW :: "7 word" where "OP_LW = 0b0000011"
definition OP_ALU_I :: "7 word" where "OP_ALU_I = 0b0010011"
definition OP_AUIPC :: "7 word" where "OP_AUIPC = 0b0010111"
definition OP_SW :: "7 word" where "OP_SW = 0b0100011"
definition OP_ALU :: "7 word" where "OP_ALU = 0b0110011"
definition OP_LUI :: "7 word" where "OP_LUI = 0b0110111"
definition OP_BRANCH :: "7 word" where "OP_BRANCH = 0b1100011"
definition OP_JAL :: "7 word" where "OP_JAL = 0b1101111"
definition OP_JALR :: "7 word" where "OP_JALR = 0b1100111"

lemmas opcode_defs = OP_LW_def OP_ALU_I_def OP_AUIPC_def OP_SW_def OP_ALU_def OP_LUI_def
  OP_BRANCH_def OP_JAL_def OP_JALR_def

definition F3_ADD_SUB :: "3 word" where "F3_ADD_SUB = 0b000"
definition F3_SLL :: "3 word" where "F3_SLL = 0b001"
definition F3_SLT :: "3 word" where "F3_SLT = 0b010"
definition F3_SLTU :: "3 word" where "F3_SLTU = 0b011"
definition F3_XOR :: "3 word" where "F3_XOR = 0b100"
definition F3_SRL_SRA :: "3 word" where "F3_SRL_SRA = 0b101"
definition F3_OR :: "3 word" where "F3_OR = 0b110"
definition F3_AND :: "3 word" where "F3_AND = 0b111"

lemmas f3_alu_defs = F3_ADD_SUB_def F3_SLL_def F3_SLT_def F3_SLTU_def F3_XOR_def
  F3_SRL_SRA_def F3_OR_def F3_AND_def

definition F3_BEQ :: "3 word" where "F3_BEQ = 0b000"
definition F3_BNE :: "3 word" where "F3_BNE = 0b001"
definition F3_BLT :: "3 word" where "F3_BLT = 0b100"
definition F3_BGE :: "3 word" where "F3_BGE = 0b101"
definition F3_BLTU :: "3 word" where "F3_BLTU = 0b110"
definition F3_BGEU :: "3 word" where "F3_BGEU = 0b111"

lemmas f3_branch_defs = F3_BEQ_def F3_BNE_def F3_BLT_def F3_BGE_def F3_BLTU_def F3_BGEU_def

definition F7_ALU_NORMAL :: "7 word" where "F7_ALU_NORMAL = 0b0000000"
definition F7_MUL :: "7 word" where "F7_MUL = 0b0000001"
definition F7_ALU_MODIFIED :: "7 word" where "F7_ALU_MODIFIED = 0b0100000"

lemmas f7_defs = F7_ALU_NORMAL_def F7_MUL_def F7_ALU_MODIFIED_def

definition NOP_INSTR_HEX :: bus32_t where "NOP_INSTR_HEX = 0x00000033"

subsection \<open>Structures\<close>

record instr_data_t =
  i_pc :: bus32_t
  i_instr :: instruction_t
  addr_rs1 :: reg_addr_t
  addr_rs2 :: reg_addr_t
  addr_rd :: reg_addr_t
  write_enable :: bool
  rs1_or_pc :: rs1_or_pc_t
  rs2_or_imm :: rs2_or_imm_t
  alu_op :: alu_op_t
  wb_origin :: wb_origin_t
  store_to_mem :: bool
  jump_kind :: jump_kind_t
  exe_stages :: nat
  is_mul :: bool
  rob_idx :: rob_idx_t
  kanata_id :: int

record decode_to_exe_t =
  de_instr :: instr_data_t
  de_valid :: bool
  data_rs1 :: bus32_t
  data_rs2 :: bus32_t
  immediate :: bus32_t

record exe_to_mem_t =
  em_instr :: instr_data_t
  em_valid :: bool
  em_data_rs2 :: bus32_t
  em_result :: bus32_t
  em_branch_taken :: bool

record mem_to_wb_t =
  mw_instr :: instr_data_t
  mw_valid :: bool
  mw_result :: bus32_t
  mw_branch_taken :: bool
  mw_branched_pc :: bus32_t
  mw_store_buffer_idx :: store_buffer_idx_t

definition NOP_INSTR_data :: instr_data_t where
  "NOP_INSTR_data = \<lparr> i_pc = 0, i_instr = 0x00000033, addr_rs1 = 0, addr_rs2 = 0, addr_rd = 0,
     write_enable = False, rs1_or_pc = RS1, rs2_or_imm = RS2, alu_op = ADD, wb_origin = ALU,
     store_to_mem = False, jump_kind = BNONE, exe_stages = 1, is_mul = False, rob_idx = 0,
     kanata_id = 0 \<rparr>"

definition NOP_INSTR :: decode_to_exe_t where
  "NOP_INSTR = \<lparr> de_instr = NOP_INSTR_data, de_valid = False, data_rs1 = 0, data_rs2 = 0,
     immediate = 0 \<rparr>"

definition reg_hazard :: "reg_addr_t \<Rightarrow> reg_addr_t \<Rightarrow> bool \<Rightarrow> bool" where
  "reg_hazard rs rd write_en = (write_en \<and> rd \<noteq> 0 \<and> rd = rs)"

end
