(* ===== verification/Decode_Stage.thy ===== *)
theory Decode_Stage
  imports Tartaruga_Pkg
begin

text \<open>
  \<^verbatim>\<open>rtl/datapath/decode\<close>: the instruction decoder, the immediate generator and the register
  file. The decoder's \<^verbatim>\<open>always_comb\<close> block is a sequence of blocking assignments to one
  structure, so it is a composition of record updates in the block's order: the common
  assignments, the opcode case, and the final hard-wiring of unused source registers.
\<close>

subsection \<open>decoder.sv\<close>

text \<open>The nine assignments every illegal encoding makes: \<open>x0 + x0\<close> without a write.\<close>

definition illegal_as_nop :: "instr_data_t \<Rightarrow> instr_data_t" where
  "illegal_as_nop d = d\<lparr> write_enable := False, rs1_or_pc := RS1, rs2_or_imm := RS2,
     addr_rs1 := 0, addr_rs2 := 0, addr_rd := 0, alu_op := ADD, wb_origin := ALU,
     store_to_mem := False \<rparr>"

definition decode_common ::
  "bus32_t \<Rightarrow> instruction_t \<Rightarrow> rob_idx_t \<Rightarrow> int \<Rightarrow> instr_data_t" where
  "decode_common pc_i instr_in rob_idx_i id_decode_i =
     NOP_INSTR_data\<lparr> i_pc := pc_i, i_instr := instr_in,
       addr_rs1 := rt_rs1 instr_in, addr_rs2 := rt_rs2 instr_in, addr_rd := rt_rd instr_in,
       exe_stages := 1, is_mul := False, rob_idx := rob_idx_i, kanata_id := id_decode_i \<rparr>"

definition decode_alu_i :: "instruction_t \<Rightarrow> instr_data_t \<Rightarrow> instr_data_t" where
  "decode_alu_i w d0 =
     (let d = d0\<lparr> write_enable := True, rs1_or_pc := RS1, rs2_or_imm := IMM,
                  wb_origin := ALU, store_to_mem := False, jump_kind := BNONE \<rparr>;
          f3 = rt_func3 w; f7 = rt_func7 w
      in if f3 = F3_ADD_SUB then d\<lparr> alu_op := ADD \<rparr>
         else if f3 = F3_SLT then d\<lparr> alu_op := SLT \<rparr>
         else if f3 = F3_SLTU then d\<lparr> alu_op := SLTU \<rparr>
         else if f3 = F3_XOR then d\<lparr> alu_op := XOR_op \<rparr>
         else if f3 = F3_OR then d\<lparr> alu_op := OR_op \<rparr>
         else if f3 = F3_AND then d\<lparr> alu_op := AND_op \<rparr>
         else if f3 = F3_SLL then
           (if f7 = F7_ALU_NORMAL then d\<lparr> alu_op := SLL \<rparr> else illegal_as_nop d)
         else if f3 = F3_SRL_SRA then
           (if f7 = F7_ALU_NORMAL then d\<lparr> alu_op := SRL \<rparr>
            else if f7 = F7_ALU_MODIFIED then d\<lparr> alu_op := SRA \<rparr>
            else illegal_as_nop d)
         else illegal_as_nop d)"

definition decode_alu :: "instruction_t \<Rightarrow> instr_data_t \<Rightarrow> instr_data_t" where
  "decode_alu w d0 =
     (let d = d0\<lparr> write_enable := True, rs1_or_pc := RS1, rs2_or_imm := RS2,
                  wb_origin := ALU, store_to_mem := False, jump_kind := BNONE \<rparr>;
          f3 = rt_func3 w; f7 = rt_func7 w;
          normal = (\<lambda>op. if f7 = F7_ALU_NORMAL then d\<lparr> alu_op := op \<rparr> else illegal_as_nop d)
      in if f3 = F3_ADD_SUB then
           (if f7 = F7_ALU_NORMAL then d\<lparr> alu_op := ADD \<rparr>
            else if f7 = F7_ALU_MODIFIED then d\<lparr> alu_op := SUB \<rparr>
            else if f7 = F7_MUL then
              d\<lparr> alu_op := ADD, is_mul := True, exe_stages := EXE_STAGES_MULT \<rparr>
            else illegal_as_nop d)
         else if f3 = F3_SLL then normal SLL
         else if f3 = F3_SLT then normal SLT
         else if f3 = F3_SLTU then normal SLTU
         else if f3 = F3_XOR then normal XOR_op
         else if f3 = F3_SRL_SRA then
           (if f7 = F7_ALU_NORMAL then d\<lparr> alu_op := SRL \<rparr>
            else if f7 = F7_ALU_MODIFIED then d\<lparr> alu_op := SRA \<rparr>
            else illegal_as_nop d)
         else if f3 = F3_OR then normal OR_op
         else if f3 = F3_AND then normal AND_op
         else d\<lparr> write_enable := False, rs1_or_pc := RS1, rs2_or_imm := RS2,
                 addr_rs1 := 0, addr_rs2 := 0, addr_rd := 0, alu_op := ADD,
                 store_to_mem := False \<rparr>)"

definition decode_branch :: "instruction_t \<Rightarrow> instr_data_t \<Rightarrow> instr_data_t" where
  "decode_branch w d0 =
     (let d = d0\<lparr> write_enable := False, rs1_or_pc := PC, rs2_or_imm := IMM, alu_op := ADD,
                  wb_origin := ALU, store_to_mem := False, jump_kind := BNONE \<rparr>;
          f3 = rt_func3 w
      in if f3 = F3_BEQ then d\<lparr> jump_kind := BEQ \<rparr>
         else if f3 = F3_BNE then d\<lparr> jump_kind := BNE \<rparr>
         else if f3 = F3_BLT then d\<lparr> jump_kind := BLT \<rparr>
         else if f3 = F3_BLTU then d\<lparr> jump_kind := BLTU \<rparr>
         else if f3 = F3_BGE then d\<lparr> jump_kind := BGE \<rparr>
         else if f3 = F3_BGEU then d\<lparr> jump_kind := BGEU \<rparr>
         else d\<lparr> jump_kind := BNONE \<rparr>)"

definition decode_opcode :: "instruction_t \<Rightarrow> instr_data_t \<Rightarrow> instr_data_t" where
  "decode_opcode w d =
     (let opc = rt_opcode w
      in if opc = OP_ALU_I then decode_alu_i w d
         else if opc = OP_ALU then decode_alu w d
         else if opc = OP_LUI then
           d\<lparr> write_enable := True, rs1_or_pc := RS1, rs2_or_imm := IMM, alu_op := ADD,
              wb_origin := ALU, store_to_mem := False, jump_kind := BNONE, addr_rs1 := 0 \<rparr>
         else if opc = OP_AUIPC then
           d\<lparr> write_enable := True, rs1_or_pc := PC, rs2_or_imm := IMM, alu_op := ADD,
              wb_origin := ALU, store_to_mem := False, jump_kind := BNONE \<rparr>
         else if opc = OP_LW then
           d\<lparr> write_enable := True, rs1_or_pc := RS1, rs2_or_imm := IMM, alu_op := ADD,
              wb_origin := MEM, store_to_mem := False, jump_kind := BNONE \<rparr>
         else if opc = OP_SW then
           d\<lparr> write_enable := False, rs1_or_pc := RS1, rs2_or_imm := IMM, alu_op := ADD,
              wb_origin := ALU, store_to_mem := True, jump_kind := BNONE \<rparr>
         else if opc = OP_BRANCH then decode_branch w d
         else if opc = OP_JAL then
           d\<lparr> write_enable := True, rs1_or_pc := PC, rs2_or_imm := IMM, alu_op := ADD,
              wb_origin := PC_4, store_to_mem := False, jump_kind := JUMP \<rparr>
         else if opc = OP_JALR then
           d\<lparr> write_enable := True, rs1_or_pc := RS1, rs2_or_imm := IMM, alu_op := ADD,
              wb_origin := PC_4, store_to_mem := False, jump_kind := JUMP \<rparr>
         else (illegal_as_nop d)\<lparr> jump_kind := BNONE \<rparr>)"

text \<open>The two closing \<^verbatim>\<open>if\<close>s: a source register that is not read becomes \<open>x0\<close>.\<close>

definition hardwire_sources :: "instruction_t \<Rightarrow> instr_data_t \<Rightarrow> instr_data_t" where
  "hardwire_sources w d0 =
     (let d = (if rs1_or_pc d0 = PC \<and> jump_kind d0 = BNONE \<or> rt_opcode w = OP_JAL
               then d0\<lparr> addr_rs1 := 0 \<rparr> else d0)
      in if rs2_or_imm d = IMM \<and> jump_kind d = BNONE \<and> \<not> store_to_mem d \<or> rt_opcode w = OP_JAL
         then d\<lparr> addr_rs2 := 0 \<rparr> else d)"

definition decoder ::
  "bus32_t \<Rightarrow> instruction_t \<Rightarrow> rob_idx_t \<Rightarrow> int \<Rightarrow> instr_data_t" where
  "decoder pc_i instr_in rob_idx_i id_decode_i =
     hardwire_sources instr_in
       (decode_opcode instr_in (decode_common pc_i instr_in rob_idx_i id_decode_i))"

lemmas decoder_defs = decoder_def decode_common_def decode_opcode_def decode_alu_i_def
  decode_alu_def decode_branch_def hardwire_sources_def illegal_as_nop_def NOP_INSTR_data_def

subsection \<open>immediate.sv\<close>

definition immediate_gen :: "instr_data_t \<Rightarrow> bus32_t" where
  "immediate_gen d =
     (let w = i_instr d; opc = rt_opcode w
      in if opc = OP_LUI \<or> opc = OP_AUIPC then word_cat (ut_imm w) (0 :: 12 word)
         else if opc = OP_ALU_I \<or> opc = OP_LW \<or> opc = OP_JALR then
           word_cat (rep (bit (it_imm w) 11) :: 20 word) (it_imm w)
         else if opc = OP_SW then
           word_cat (rep (bit (st_imm5 w) 6) :: 20 word)
             (word_cat (st_imm5 w) (st_imm0 w) :: 12 word)
         else if opc = OP_BRANCH then
           word_cat (rep (bit (bt_imm11 w) 0) :: 20 word)
             (word_cat (bt_imm11 w)
               (word_cat (bt_imm5 w) (word_cat (bt_imm1 w) (0 :: 1 word) :: 5 word) :: 11 word)
              :: 12 word)
         else if opc = OP_JAL then
           word_cat (rep (bit (jt_imm20 w) 0) :: 11 word)
             (word_cat (jt_imm20 w)
               (word_cat (jt_imm12 w)
                 (word_cat (jt_imm11 w) (word_cat (jt_imm1 w) (0 :: 1 word) :: 11 word) :: 12 word)
                :: 20 word) :: 21 word)
         else 0)"

subsection \<open>regfile.sv\<close>

text \<open>
  \<^verbatim>\<open>registers_q\<close> is indexed by a 5-bit address. Both loops of the clocked process stop at
  \<^verbatim>\<open>REG_COUNT-1\<close>, exclusive, so the last register is neither reset nor written, and the
  write loop starts at 1.
\<close>

type_synonym regfile_t = "reg_addr_t \<Rightarrow> bus32_t"

definition regfile_reset :: "regfile_t \<Rightarrow> regfile_t" where
  "regfile_reset q = (\<lambda>i. if unat i < REG_COUNT - 1 then 0 else q i)"

definition regfile_clk :: "reg_addr_t \<Rightarrow> bus32_t \<Rightarrow> bool \<Rightarrow> regfile_t \<Rightarrow> regfile_t" where
  "regfile_clk addr_rd_i data_rd_i write_enable_i q =
     (\<lambda>i. if 1 \<le> unat i \<and> unat i < REG_COUNT - 1
          then (if i = addr_rd_i \<and> write_enable_i then data_rd_i else q i)
          else q i)"

definition regfile_read :: "reg_addr_t \<Rightarrow> regfile_t \<Rightarrow> bus32_t" where
  "regfile_read addr q = q addr"

lemmas regfile_defs = regfile_reset_def regfile_clk_def regfile_read_def REG_COUNT_def

text \<open>A sequence of clock edges after reset.\<close>

fun regfile_run :: "(reg_addr_t \<times> bus32_t \<times> bool) list \<Rightarrow> regfile_t \<Rightarrow> regfile_t" where
  "regfile_run [] q = q"
| "regfile_run ((a, v, we) # ws) q = regfile_run ws (regfile_clk a v we q)"

text \<open>What an architectural register file of RV32I holds after the same writes.\<close>

fun arch_run :: "(reg_addr_t \<times> bus32_t \<times> bool) list \<Rightarrow> regfile_t \<Rightarrow> regfile_t" where
  "arch_run [] r = r"
| "arch_run ((a, v, we) # ws) r = arch_run ws (if we \<and> a \<noteq> 0 then r(a := v) else r)"

lemma reg_index_31: "unat (i :: reg_addr_t) < 31 \<longleftrightarrow> i \<noteq> 31"
proof -
  have "unat i < 32" using unsigned_less [of i] by simp
  moreover have "i = 31 \<longleftrightarrow> unat i = 31" by (simp add: word_unat_eq_iff)
  ultimately show ?thesis by auto
qed

lemma reg_index_1: "1 \<le> unat (i :: reg_addr_t) \<longleftrightarrow> i \<noteq> 0"
  by (metis One_nat_def Suc_le_eq unat_gt_0)

lemma regfile_clk_simp:
  "regfile_clk a v we q i = (if i = a \<and> we \<and> i \<noteq> 0 \<and> i \<noteq> 31 then v else q i)"
  using reg_index_31 [of i] reg_index_1 [of i] by (auto simp: regfile_defs)

lemma regfile_reset_simp: "regfile_reset q i = (if i \<noteq> 31 then 0 else q i)"
  using reg_index_31 [of i] by (auto simp: regfile_defs)

lemma regfile_run_arch:
  "i \<noteq> 31 \<Longrightarrow> q i = r i \<Longrightarrow> regfile_run ws q i = arch_run ws r i"
proof (induction ws arbitrary: q r)
  case (Cons w ws)
  obtain a v we where w: "w = (a, v, we)" by (cases w)
  have "regfile_clk a v we q i = (if we \<and> a \<noteq> 0 then r(a := v) else r) i"
    using Cons.prems by (auto simp: regfile_clk_simp)
  then show ?case
    using Cons.IH [OF Cons.prems(1)] by (simp add: w)
qed simp

lemma regfile_run_31: "regfile_run ws q 31 = q 31"
  by (induction ws q rule: regfile_run.induct) (simp_all add: regfile_clk_simp [of _ _ _ _ 31])

text \<open>
  C31. After a reset and any sequence of write-backs, every register but x31 holds what an
  architectural register file would: 0 in x0, otherwise the last value written to it, or 0.
  Register x31 never changes at all, neither by the reset nor by any write, because both loops
  of the register file stop one short.
\<close>

theorem regfile_tracks_all_but_x31:
  "regfile_run ws (regfile_reset q) i = (if i = 31 then q 31 else arch_run ws (\<lambda>_. 0) i)"
  using regfile_run_31 [of ws "regfile_reset q"] regfile_run_arch [of i "regfile_reset q" "\<lambda>_. 0" ws]
  by (simp add: regfile_reset_simp)

end
