(* ===== verification/Exe_Units.thy ===== *)
theory Exe_Units
  imports Decode_Stage
begin

text \<open>
  The combinational units of \<^verbatim>\<open>rtl/datapath/exe\<close> (\<^verbatim>\<open>alu.sv\<close>, \<^verbatim>\<open>branch.sv\<close>, the product of
  \<^verbatim>\<open>mul.sv\<close>), the operand selection of \<^verbatim>\<open>exe.sv\<close> and the write-back selection of
  \<^verbatim>\<open>mem.sv\<close>, and their composition: what one decoded instruction does when it runs alone
  through the pipeline.
\<close>

subsection \<open>alu.sv, branch.sv, mul.sv\<close>

definition shamt :: "bus32_t \<Rightarrow> nat" where
  "shamt b = unat (take_bit 5 b)"

fun alu :: "bus32_t \<Rightarrow> bus32_t \<Rightarrow> alu_op_t \<Rightarrow> bus32_t" where
  "alu a b ADD = a + b"
| "alu a b SUB = a - b"
| "alu a b SLT = flag (sint a < sint b)"
| "alu a b SLTU = flag (a < b)"
| "alu a b SLL = push_bit (shamt b) a"
| "alu a b SRL = drop_bit (shamt b) a"
| "alu a b SRA = signed_drop_bit (shamt b) a"
| "alu a b XOR_op = a XOR b"
| "alu a b OR_op = a OR b"
| "alu a b AND_op = a AND b"

definition branch_unit :: "bus32_t \<Rightarrow> bus32_t \<Rightarrow> jump_kind_t \<Rightarrow> bool" where
  "branch_unit a b jk =
     (let equal = (a = b); less_signed = (sint a < sint b); less_unsigned = (a < b)
      in case jk of
           BNONE \<Rightarrow> False
         | JUMP \<Rightarrow> True
         | BNE \<Rightarrow> \<not> equal
         | BEQ \<Rightarrow> equal
         | BLT \<Rightarrow> less_signed
         | BLTU \<Rightarrow> less_unsigned
         | BGE \<Rightarrow> \<not> less_signed
         | BGEU \<Rightarrow> \<not> less_unsigned)"

definition mul_result :: "bus32_t \<Rightarrow> bus32_t \<Rightarrow> bus32_t" where
  "mul_result a b = a * b"

subsection \<open>Operand selection (exe.sv) and write-back selection (mem.sv)\<close>

definition alu_data_rs1 :: "decode_to_exe_t \<Rightarrow> bus32_t" where
  "alu_data_rs1 d = (if rs1_or_pc (de_instr d) = RS1 then data_rs1 d else i_pc (de_instr d))"

definition alu_data_rs2 :: "decode_to_exe_t \<Rightarrow> bus32_t" where
  "alu_data_rs2 d = (if rs2_or_imm (de_instr d) = RS2 then data_rs2 d else immediate d)"

definition res_alu :: "decode_to_exe_t \<Rightarrow> bus32_t" where
  "res_alu d = alu (alu_data_rs1 d) (alu_data_rs2 d) (alu_op (de_instr d))"

definition res_mul :: "decode_to_exe_t \<Rightarrow> bus32_t" where
  "res_mul d = mul_result (alu_data_rs1 d) (alu_data_rs2 d)"

definition taken_branch :: "decode_to_exe_t \<Rightarrow> bool" where
  "taken_branch d = branch_unit (data_rs1 d) (data_rs2 d) (jump_kind (de_instr d))"

text \<open>The \<^verbatim>\<open>result\<close> case of \<^verbatim>\<open>mem.sv\<close>; \<open>load_data\<close> is what the load returned.\<close>

definition wb_result :: "instr_data_t \<Rightarrow> bus32_t \<Rightarrow> bus32_t \<Rightarrow> bus32_t" where
  "wb_result i exe_result load_data =
     (case wb_origin i of
        ALU \<Rightarrow> exe_result
      | MEM \<Rightarrow> load_data
      | PC_4 \<Rightarrow> i_pc i + 4
      | MUL \<Rightarrow> 0)"

subsection \<open>One instruction alone\<close>

text \<open>
  The register write, the memory access and the next program counter of one instruction, with
  the values read from the register file in the decode stage. A store is its address and
  data; a load is its address, and the loaded word is supplied by the memory.
\<close>

record effect =
  reg_write :: "(reg_addr_t \<times> bus32_t) option"
  load_from :: "bus32_t option"
  store_to :: "(bus32_t \<times> bus32_t) option"
  next_pc :: bus32_t

definition dispatch :: "(reg_addr_t \<Rightarrow> bus32_t) \<Rightarrow> instr_data_t \<Rightarrow> decode_to_exe_t" where
  "dispatch regs d = \<lparr> de_instr = d, de_valid = True, data_rs1 = regs (addr_rs1 d),
     data_rs2 = regs (addr_rs2 d), immediate = immediate_gen d \<rparr>"

definition core_effect ::
  "(bus32_t \<Rightarrow> bus32_t) \<Rightarrow> (reg_addr_t \<Rightarrow> bus32_t) \<Rightarrow> bus32_t \<Rightarrow> instruction_t \<Rightarrow> effect" where
  "core_effect mem regs pc w =
     (let d = decoder pc w 0 0;
          x = dispatch regs d;
          r = (if is_mul d then res_mul x else res_alu x);
          tb = taken_branch x \<and> jump_kind d \<noteq> BNONE
      in \<lparr> reg_write = (if write_enable d \<and> addr_rd d \<noteq> 0
                        then Some (addr_rd d, wb_result d r (mem r)) else None),
           load_from = (if wb_origin d = MEM then Some r else None),
           store_to = (if store_to_mem d then Some (r, data_rs2 x) else None),
           next_pc = (if tb then r else pc + 4) \<rparr>)"

lemmas core_effect_defs = core_effect_def dispatch_def res_alu_def res_mul_def
  alu_data_rs1_def alu_data_rs2_def taken_branch_def wb_result_def mul_result_def
  branch_unit_def Let_def

end
