(* ===== verification/Isa_Reference.thy ===== *)
theory Isa_Reference
  imports Exe_Units
begin

text \<open>
  The reference the core is compared with: the RV32I instructions that
  \<^verbatim>\<open>README.md\<close> lists as supported (with JALR, which the decoder also accepts, and MUL of
  RV32M), their effect on the architectural state as the RISC-V manual gives it, and their
  32-bit encodings. Nothing here is translated from the repository.
\<close>

subsection \<open>Instructions and their effect\<close>

datatype instr =
    R_TYPE alu_op_t reg_addr_t reg_addr_t reg_addr_t    \<comment> \<open>op rd rs1 rs2\<close>
  | R_MUL reg_addr_t reg_addr_t reg_addr_t
  | I_TYPE alu_op_t reg_addr_t reg_addr_t "12 word"     \<comment> \<open>op rd rs1 imm\<close>
  | I_SHIFT alu_op_t reg_addr_t reg_addr_t "5 word"     \<comment> \<open>op rd rs1 shamt\<close>
  | LUI reg_addr_t "20 word"
  | AUIPC reg_addr_t "20 word"
  | LW reg_addr_t reg_addr_t "12 word"                  \<comment> \<open>rd rs1 imm\<close>
  | SW reg_addr_t reg_addr_t "12 word"                  \<comment> \<open>rs1 rs2 imm\<close>
  | BRANCH jump_kind_t reg_addr_t reg_addr_t "12 word"  \<comment> \<open>kind rs1 rs2 offset[12:1]\<close>
  | JAL reg_addr_t "20 word"                            \<comment> \<open>rd offset[20:1]\<close>
  | JALR reg_addr_t reg_addr_t "12 word"

text \<open>Which operations and branch conditions exist as instructions.\<close>

fun valid_instr :: "instr \<Rightarrow> bool" where
  "valid_instr (I_TYPE op _ _ _) = (op \<in> {ADD, SLT, SLTU, XOR_op, OR_op, AND_op})"
| "valid_instr (I_SHIFT op _ _ _) = (op \<in> {SLL, SRL, SRA})"
| "valid_instr (BRANCH k _ _ _) = (k \<in> {BEQ, BNE, BLT, BGE, BLTU, BGEU})"
| "valid_instr _ = True"

definition sext12 :: "12 word \<Rightarrow> bus32_t" where "sext12 i = scast i"
definition upper20 :: "20 word \<Rightarrow> bus32_t" where "upper20 i = push_bit 12 (ucast i)"
definition branch_offset :: "12 word \<Rightarrow> bus32_t" where 
  "branch_offset i = word_cat (scast i :: 31 word) (0 :: 1 word)"
definition jal_offset :: "20 word \<Rightarrow> bus32_t" where 
  "jal_offset i = word_cat (scast i :: 31 word) (0 :: 1 word)"

lemmas offset_defs = sext12_def upper20_def branch_offset_def jal_offset_def

definition wr :: "reg_addr_t \<Rightarrow> bus32_t \<Rightarrow> (reg_addr_t \<times> bus32_t) option" where
  "wr rd v = (if rd = 0 then None else Some (rd, v))"

fun isa_alu :: "alu_op_t \<Rightarrow> bus32_t \<Rightarrow> bus32_t \<Rightarrow> bus32_t" where
  "isa_alu ADD a b = a + b"
| "isa_alu SUB a b = a - b"
| "isa_alu SLT a b = (if sint a < sint b then 1 else 0)"
| "isa_alu SLTU a b = (if uint a < uint b then 1 else 0)"
| "isa_alu SLL a b = a * 2 ^ (unat b mod 32)"
| "isa_alu SRL a b = word_of_int (uint a div 2 ^ (unat b mod 32))"
| "isa_alu SRA a b = word_of_int (sint a div 2 ^ (unat b mod 32))"
| "isa_alu XOR_op a b = a XOR b"
| "isa_alu OR_op a b = a OR b"
| "isa_alu AND_op a b = a AND b"

fun isa_cond :: "jump_kind_t \<Rightarrow> bus32_t \<Rightarrow> bus32_t \<Rightarrow> bool" where
  "isa_cond BEQ a b = (a = b)"
| "isa_cond BNE a b = (a \<noteq> b)"
| "isa_cond BLT a b = (sint a < sint b)"
| "isa_cond BGE a b = (sint b \<le> sint a)"
| "isa_cond BLTU a b = (uint a < uint b)"
| "isa_cond BGEU a b = (uint b \<le> uint a)"
| "isa_cond JUMP a b = True"
| "isa_cond BNONE a b = False"

definition plain :: "(reg_addr_t \<times> bus32_t) option \<Rightarrow> bus32_t \<Rightarrow> effect" where
  "plain w npc = \<lparr> reg_write = w, load_from = None, store_to = None, next_pc = npc \<rparr>"

fun isa_effect ::
  "(bus32_t \<Rightarrow> bus32_t) \<Rightarrow> (reg_addr_t \<Rightarrow> bus32_t) \<Rightarrow> bus32_t \<Rightarrow> instr \<Rightarrow> effect" where
  "isa_effect m r pc (R_TYPE op rd rs1 rs2) = plain (wr rd (isa_alu op (r rs1) (r rs2))) (pc + 4)"
| "isa_effect m r pc (R_MUL rd rs1 rs2) =
     plain (wr rd (word_of_int (sint (r rs1) * sint (r rs2)))) (pc + 4)"
| "isa_effect m r pc (I_TYPE op rd rs1 i) = plain (wr rd (isa_alu op (r rs1) (sext12 i))) (pc + 4)"
| "isa_effect m r pc (I_SHIFT op rd rs1 s) = plain (wr rd (isa_alu op (r rs1) (ucast s))) (pc + 4)"
| "isa_effect m r pc (LUI rd i) = plain (wr rd (upper20 i)) (pc + 4)"
| "isa_effect m r pc (AUIPC rd i) = plain (wr rd (pc + upper20 i)) (pc + 4)"
| "isa_effect m r pc (LW rd rs1 i) =
     (let a = r rs1 + sext12 i
      in \<lparr> reg_write = wr rd (m a), load_from = Some a, store_to = None, next_pc = pc + 4 \<rparr>)"
| "isa_effect m r pc (SW rs1 rs2 i) =
     \<lparr> reg_write = None, load_from = None, store_to = Some (r rs1 + sext12 i, r rs2),
       next_pc = pc + 4 \<rparr>"
| "isa_effect m r pc (BRANCH k rs1 rs2 i) =
     plain None (if isa_cond k (r rs1) (r rs2) then pc + branch_offset i else pc + 4)"
| "isa_effect m r pc (JAL rd i) = plain (wr rd (pc + 4)) (pc + jal_offset i)"
| "isa_effect m r pc (JALR rd rs1 i) = plain (wr rd (pc + 4)) ((r rs1 + sext12 i) AND NOT 1)"

subsection \<open>Encodings\<close>

text \<open>
  Every format is the R format with its fields filled from the immediate: the bits of an
  immediate never straddle an R-format field boundary except at a field's edge.
\<close>

definition enc :: "7 word \<Rightarrow> 5 word \<Rightarrow> 5 word \<Rightarrow> 3 word \<Rightarrow> 5 word \<Rightarrow> 7 word \<Rightarrow> 32 word" where
  "enc f7 rs2 rs1 f3 rd opc =
     push_bit 25 (ucast f7) OR push_bit 20 (ucast rs2) OR push_bit 15 (ucast rs1)
     OR push_bit 12 (ucast f3) OR push_bit 7 (ucast rd) OR ucast opc"

definition sub :: "nat \<Rightarrow> 'a::len word \<Rightarrow> 'b::len word" where
  "sub n v = ucast (drop_bit n v)"

lemma bit_sub [bit_simps]:
  "bit (sub n v :: 'b::len word) i \<longleftrightarrow> i < LENGTH('b) \<and> bit (v :: 'a::len word) (n + i)"
  by (auto simp: sub_def bit_simps)

fun f3_of :: "alu_op_t \<Rightarrow> 3 word" where
  "f3_of ADD = 0" | "f3_of SUB = 0" | "f3_of SLL = 1" | "f3_of SLT = 2" | "f3_of SLTU = 3"
| "f3_of XOR_op = 4" | "f3_of SRL = 5" | "f3_of SRA = 5" | "f3_of OR_op = 6" | "f3_of AND_op = 7"

definition f7_of :: "alu_op_t \<Rightarrow> 7 word" where
  "f7_of op = (if op = SUB \<or> op = SRA then 32 else 0)"

fun f3_br :: "jump_kind_t \<Rightarrow> 3 word" where
  "f3_br BEQ = 0" | "f3_br BNE = 1" | "f3_br BLT = 4" | "f3_br BGE = 5" | "f3_br BLTU = 6"
| "f3_br BGEU = 7" | "f3_br JUMP = 2" | "f3_br BNONE = 3"

fun encode :: "instr \<Rightarrow> 32 word" where
  "encode (R_TYPE op rd rs1 rs2) = enc (f7_of op) rs2 rs1 (f3_of op) rd 0x33"
| "encode (R_MUL rd rs1 rs2) = enc 1 rs2 rs1 0 rd 0x33"
| "encode (I_TYPE op rd rs1 i) = enc (sub 5 i) (sub 0 i) rs1 (f3_of op) rd 0x13"
| "encode (I_SHIFT op rd rs1 s) = enc (f7_of op) s rs1 (f3_of op) rd 0x13"
| "encode (LUI rd i) = enc (sub 13 i) (sub 8 i) (sub 3 i) (sub 0 i) rd 0x37"
| "encode (AUIPC rd i) = enc (sub 13 i) (sub 8 i) (sub 3 i) (sub 0 i) rd 0x17"
| "encode (LW rd rs1 i) = enc (sub 5 i) (sub 0 i) rs1 2 rd 0x03"
| "encode (SW rs1 rs2 i) = enc (sub 5 i) rs2 rs1 2 (sub 0 i) 0x23"
| "encode (BRANCH k rs1 rs2 i) =
     enc (word_cat (sub 11 i :: 1 word) (sub 4 i :: 6 word)) rs2 rs1 (f3_br k)
       (word_cat (sub 0 i :: 4 word) (sub 10 i :: 1 word)) 0x63"
| "encode (JAL rd i) =
     enc (word_cat (sub 19 i :: 1 word) (sub 4 i :: 6 word))
         (word_cat (sub 0 i :: 4 word) (sub 10 i :: 1 word))
         (sub 14 i) (sub 11 i) rd 0x6F"
| "encode (JALR rd rs1 i) = enc (sub 5 i) (sub 0 i) rs1 0 rd 0x67"

lemma enc_opcode [enc_defs]: "rt_opcode (enc f7 rs2 rs1 f3 rd opc) = opc"
  by (rule word_eq_by_bits) (auto simp: enc_def field_defs bit_simps)

lemma enc_rd [enc_defs]: "rt_rd (enc f7 rs2 rs1 f3 rd opc) = rd"
  by (rule word_eq_by_bits) (auto simp: enc_def field_defs bit_simps dest: bit_imp_le_length)

lemma enc_func3 [enc_defs]: "rt_func3 (enc f7 rs2 rs1 f3 rd opc) = f3"
  by (rule word_eq_by_bits) (auto simp: enc_def field_defs bit_simps dest: bit_imp_le_length)

lemma enc_rs1 [enc_defs]: "rt_rs1 (enc f7 rs2 rs1 f3 rd opc) = rs1"
  by (rule word_eq_by_bits) (auto simp: enc_def field_defs bit_simps dest: bit_imp_le_length)

lemma enc_rs2 [enc_defs]: "rt_rs2 (enc f7 rs2 rs1 f3 rd opc) = rs2"
  by (rule word_eq_by_bits) (auto simp: enc_def field_defs bit_simps dest: bit_imp_le_length)

lemma enc_func7 [enc_defs]: "rt_func7 (enc f7 rs2 rs1 f3 rd opc) = f7"
  by (rule word_eq_by_bits) (auto simp: enc_def field_defs bit_simps dest: bit_imp_le_length)

end
