(* ===== verification/Isa_Refinement.thy ===== *)
theory Isa_Refinement
  imports Isa_Reference
begin

text \<open>
  The decode and execute logic against the reference instruction set: for every valid
  instruction, the decoder, the immediate generator, the units and the write-back
  selection together have the effect the reference gives, with the two exceptions the code
  has (the sign of branch offsets, bit 0 of a JALR target) made explicit.
\<close>

subsection \<open>Immediate fields of an encoded instruction\<close>

lemmas cat_simps = bit_simps

lemma between_eq: "m \<le> n \<Longrightarrow> n < Suc m \<Longrightarrow> n = m"
  by simp

lemma enc_it_imm [enc_defs]: "it_imm (enc f7 rs2 rs1 f3 rd opc) = word_cat f7 rs2"
  by (rule word_eq_by_bits) (auto simp: enc_def field_defs cat_simps dest: bit_imp_le_length)

lemma enc_st_imm5 [enc_defs]: "st_imm5 (enc f7 rs2 rs1 f3 rd opc) = f7"
  using enc_func7 by (simp add: rt_func7_def st_imm5_def)

lemma enc_st_imm0 [enc_defs]: "st_imm0 (enc f7 rs2 rs1 f3 rd opc) = rd"
  using enc_rd by (simp add: rt_rd_def st_imm0_def)

lemma enc_ut_imm [enc_defs]:
  "ut_imm (enc f7 rs2 rs1 f3 rd opc) =
     word_cat (word_cat f7 rs2 :: 12 word) (word_cat rs1 f3 :: 8 word)"
  by (rule word_eq_by_bits) (auto simp: enc_def field_defs cat_simps dest: bit_imp_le_length)

lemma enc_bt [enc_defs]:
  "bt_imm11 (enc f7 rs2 rs1 f3 rd opc) = sub 0 rd"
  "bt_imm5 (enc f7 rs2 rs1 f3 rd opc) = sub 0 f7"
  "bt_imm1 (enc f7 rs2 rs1 f3 rd opc) = sub 1 rd"
  by (rule word_eq_by_bits; auto simp: enc_def field_defs cat_simps dest: bit_imp_le_length)+

lemma enc_jt [enc_defs]:
  "jt_imm20 (enc f7 rs2 rs1 f3 rd opc) = sub 6 f7"
  "jt_imm12 (enc f7 rs2 rs1 f3 rd opc) = word_cat rs1 f3"
  "jt_imm11 (enc f7 rs2 rs1 f3 rd opc) = sub 0 rs2"
  "jt_imm1 (enc f7 rs2 rs1 f3 rd opc) = word_cat (sub 0 f7 :: 6 word) (sub 1 rs2 :: 4 word)"
  by (rule word_eq_by_bits; auto simp: enc_def field_defs cat_simps dest: bit_imp_le_length)+

lemma imm_split12: "word_cat (sub 5 i :: 7 word) (sub 0 i :: 5 word) = (i :: 12 word)"
  by (rule word_eq_by_bits) (auto simp: cat_simps)

lemma imm_I_sext: "word_cat (rep (bit i 11) :: 20 word) (i :: 12 word) = sext12 i"
  by (rule word_eq_by_bits) (auto simp: cat_simps offset_defs min_def dest: between_eq [of 11, simplified])

lemma imm_U_upper:
  "word_cat (word_cat (word_cat (sub 13 i :: 7 word) (sub 8 i :: 5 word) :: 12 word)
     (word_cat (sub 3 i :: 5 word) (sub 0 i :: 3 word) :: 8 word) :: 20 word) (0 :: 12 word)
   = upper20 i"
  by (rule word_eq_by_bits) (auto simp: cat_simps offset_defs)

subsection \<open>Branch and jump offsets\<close>

text \<open>
  The branch case of \<^verbatim>\<open>immediate.sv\<close> replicates instruction bit 7 (offset bit 11) where the
  manual replicates bit 31 (offset bit 12). The value it builds is \<open>imm_B_code\<close>.
\<close>

definition imm_B_code :: "12 word \<Rightarrow> bus32_t" where
  "imm_B_code i =
     word_cat (word_cat (rep (bit i 10) :: 20 word) (sub 0 i :: 11 word) :: 31 word) (0 :: 1 word)"

lemma imm_B_code_iff: "imm_B_code i = branch_offset i \<longleftrightarrow> (bit i 11 \<longleftrightarrow> bit i 10)"
proof
  assume eq: "imm_B_code i = branch_offset i"
  have "bit (imm_B_code i) 12 \<longleftrightarrow> bit (branch_offset i) 12" by (simp only: eq)
  then show "bit i 11 \<longleftrightarrow> bit i 10"
    by (simp add: imm_B_code_def offset_defs cat_simps)
next
  assume s: "bit i 11 \<longleftrightarrow> bit i 10"
  show "imm_B_code i = branch_offset i"
  proof (rule word_eq_by_bits)
    fix n assume n: "n < LENGTH(32)"
    consider "n = 0" | "1 \<le> n" "n < 12" | "n = 12" | "12 < n" by linarith
    then show "bit (imm_B_code i) n \<longleftrightarrow> bit (branch_offset i) n"
      using n s by cases (auto simp: imm_B_code_def offset_defs cat_simps min_def)
  qed
qed

lemma imm_B_fields:
  assumes w_def: "w = encode (BRANCH k rs1 rs2 i)"
  shows "word_cat (rep (bit (bt_imm11 w) 0) :: 20 word)
      (word_cat (bt_imm11 w)
        (word_cat (bt_imm5 w) (word_cat (bt_imm1 w) (0 :: 1 word) :: 5 word) :: 11 word) :: 12 word)
    = imm_B_code i"
proof (rule word_eq_by_bits)
  fix n assume n: "n < LENGTH(32)"
  have b: "bt_imm11 w = sub 10 i" "bt_imm5 w = sub 4 i" "bt_imm1 w = sub 0 i"
    by (rule word_eq_by_bits; auto simp: w_def enc_defs cat_simps)+
  consider "n = 0" | "1 \<le> n" "n < 5" | "5 \<le> n" "n < 11" | "n = 11" | "12 \<le> n" using n by linarith
  then show "bit (word_cat (rep (bit (bt_imm11 w) 0) :: 20 word)
      (word_cat (bt_imm11 w)
        (word_cat (bt_imm5 w) (word_cat (bt_imm1 w) (0 :: 1 word) :: 5 word) :: 11 word) :: 12 word)
      :: 32 word) n = bit (imm_B_code i) n"
    using n by cases (auto simp: b imm_B_code_def cat_simps)
qed

lemma imm_J_fields:
  assumes w_def: "w = encode (JAL rd i)"
  shows "word_cat (rep (bit (jt_imm20 w) 0) :: 11 word)
      (word_cat (jt_imm20 w)
        (word_cat (jt_imm12 w)
          (word_cat (jt_imm11 w) (word_cat (jt_imm1 w) (0 :: 1 word) :: 11 word) :: 12 word)
         :: 20 word) :: 21 word)
    = jal_offset i"
proof (rule word_eq_by_bits)
  fix n assume n: "n < LENGTH(32)"
  have b: "jt_imm20 w = sub 19 i" "jt_imm12 w = sub 11 i" "jt_imm11 w = sub 10 i"
    "jt_imm1 w = sub 0 i"
    by (rule word_eq_by_bits; auto simp: w_def enc_defs cat_simps)+
  consider "n = 0" | "1 \<le> n" "n < 11" | "n = 11" | "12 \<le> n" "n < 20" | "20 \<le> n" using n by linarith
  then show "bit (word_cat (rep (bit (jt_imm20 w) 0) :: 11 word)
      (word_cat (jt_imm20 w)
        (word_cat (jt_imm12 w)
          (word_cat (jt_imm11 w) (word_cat (jt_imm1 w) (0 :: 1 word) :: 11 word) :: 12 word)
         :: 20 word) :: 21 word) :: 32 word) n = bit (jal_offset i) n"
    using n by cases (auto simp: b offset_defs cat_simps min_def)
qed

subsection \<open>The units\<close>

lemma shamt_eq: "shamt b = unat b mod 32"
  by (simp add: shamt_def take_bit_eq_mod unat_mod)

lemma drop_bit_uint: "drop_bit n (a :: bus32_t) = word_of_int (drop_bit n (uint a))"
  by (rule bit_word_eqI) (auto simp: bit_simps)

lemma alu_isa: "alu a b op = isa_alu op a b"
proof (cases op)
  case SLL
  then show ?thesis by (simp add: shamt_eq push_bit_eq_mult)
next
  case SRL
  then show ?thesis
    by (simp add: shamt_eq drop_bit_uint flip: drop_bit_eq_div)
next
  case SRA
  then show ?thesis
    by (simp add: shamt_eq sint_signed_drop_bit_eq [symmetric] flip: drop_bit_eq_div)
qed (simp_all add: flag_def word_less_def)

lemma mul_isa: "mul_result a b = word_of_int (sint a * sint b)"
  by (simp add: mul_result_def)

lemma branch_isa: "branch_unit a b k = isa_cond k a b"
  by (cases k) (auto simp: branch_unit_def word_less_def not_less)

lemmas opc_simps = opcode_defs f3_alu_defs f3_branch_defs f7_defs

subsection \<open>One format at a time\<close>

lemmas eff_simps = core_effect_defs decoder_defs enc_defs opc_simps f7_of_def alu_isa plain_def
  wr_def immediate_gen_def imm_split12 imm_I_sext bit_sub

lemma eff_R:
  "core_effect m r pc (encode (R_TYPE op rd rs1 rs2)) = isa_effect m r pc (R_TYPE op rd rs1 rs2)"
  by (cases op) (simp_all add: eff_simps)

lemma eff_MUL:
  "core_effect m r pc (encode (R_MUL rd rs1 rs2)) = isa_effect m r pc (R_MUL rd rs1 rs2)"
  by (simp add: eff_simps)

lemma eff_I:
  "valid_instr (I_TYPE op rd rs1 i) \<Longrightarrow>
    core_effect m r pc (encode (I_TYPE op rd rs1 i)) = isa_effect m r pc (I_TYPE op rd rs1 i)"
  by (cases op) (simp_all add: eff_simps)

lemma eff_U:
  "r 0 = 0 \<Longrightarrow> core_effect m r pc (encode (LUI rd i)) = isa_effect m r pc (LUI rd i)"
  "core_effect m r pc (encode (AUIPC rd i)) = isa_effect m r pc (AUIPC rd i)"
  by (simp_all add: eff_simps imm_U_upper)

lemma eff_M:
  "core_effect m r pc (encode (LW rd rs1 i)) = isa_effect m r pc (LW rd rs1 i)"
  "core_effect m r pc (encode (SW rs1 rs2 i)) = isa_effect m r pc (SW rs1 rs2 i)"
  by (simp_all add: eff_simps)

lemma eff_JAL: "core_effect m r pc (encode (JAL rd i)) = isa_effect m r pc (JAL rd i)"
  using imm_J_fields [OF refl, of rd i] by (simp add: eff_simps)

lemma shamt_imm:
  "unat (sext12 (word_cat (f7 :: 7 word) (s :: 5 word))) mod 32 = unat (ucast s :: bus32_t) mod 32"
proof -
  have "take_bit 5 (sext12 (word_cat f7 s)) = take_bit 5 (ucast s)"
    by (rule bit_word_eqI) (auto simp: bit_simps sext12_def)
  then show ?thesis by (metis shamt_eq shamt_def)
qed

lemma shamt_imm_0:
  "unat (sext12 (ucast (s :: 5 word))) mod 32 = unat (ucast s :: bus32_t) mod 32"
proof -
  have "(ucast s :: 12 word) = word_cat (0 :: 7 word) s"
    by (rule bit_word_eqI) (auto simp: bit_simps dest: bit_imp_le_length)
  then show ?thesis by (simp only: shamt_imm)
qed

lemma eff_S:
  "valid_instr (I_SHIFT op rd rs1 s) \<Longrightarrow>
    core_effect m r pc (encode (I_SHIFT op rd rs1 s)) = isa_effect m r pc (I_SHIFT op rd rs1 s)"
  by (cases op) (simp_all add: eff_simps shamt_imm shamt_imm_0)

lemma eff_branch_code:
  assumes "valid_instr (BRANCH k rs1 rs2 i)"
  shows "core_effect m r pc (encode (BRANCH k rs1 rs2 i)) =
    plain None (if isa_cond k (r rs1) (r rs2) then pc + imm_B_code i else pc + 4)"
  using assms imm_B_fields [OF refl, of k rs1 rs2 i]
  by (cases k) (simp_all add: eff_simps word_less_def not_less)

lemma eff_JALR_code:
  "core_effect m r pc (encode (JALR rd rs1 i)) = plain (wr rd (pc + 4)) (r rs1 + sext12 i)"
  by (simp add: eff_simps)

lemma clear_bit0: "(a :: bus32_t) AND NOT 1 = a \<longleftrightarrow> \<not> bit a 0"
proof
  assume "a AND NOT 1 = a"
  then have "bit (a AND NOT 1) 0 = bit a 0" by simp
  then show "\<not> bit a 0" by (simp add: bit_simps)
next
  assume "\<not> bit a 0"
  then show "a AND NOT 1 = a"
    by (intro bit_word_eqI) (auto simp: bit_simps bit_1_iff intro: gr0I)
qed

subsection \<open>What the decoder accepts\<close>



definition has_effect :: "instr_data_t \<Rightarrow> bool" where
  "has_effect d = (write_enable d \<or> store_to_mem d \<or> jump_kind d \<noteq> BNONE)"

lemma hardwire_other [simp]:
  "write_enable (hardwire_sources w d) = write_enable d"
  "store_to_mem (hardwire_sources w d) = store_to_mem d"
  "jump_kind (hardwire_sources w d) = jump_kind d"
  "wb_origin (hardwire_sources w d) = wb_origin d"
  by (simp_all add: hardwire_sources_def Let_def)

lemma alu_not_load [simp]:
  "wb_origin (decode_alu_i w d) = ALU" "wb_origin (decode_alu w d) = ALU" "wb_origin (decode_branch w d) = ALU"
  by (simp_all add: decode_alu_i_def decode_alu_def decode_branch_def illegal_as_nop_def Let_def)

lemma decode_load_writes: "wb_origin (decoder pc w k d) = MEM \<Longrightarrow> write_enable (decoder pc w k d)"
  by (simp add: decoder_def decode_opcode_def illegal_as_nop_def opcode_defs Let_def split: if_split_asm)

lemma illegal_nop: "\<not> has_effect (decoder pc w 0 0) \<Longrightarrow> core_effect m r pc w = plain None (pc + 4)"
  using decode_load_writes [of pc w 0 0]
  by (auto simp add: has_effect_def core_effect_def plain_def Let_def)

lemma f3_cases:
  fixes f :: "3 word"
  obtains "f = 0" | "f = 1" | "f = 2" | "f = 3" | "f = 4" | "f = 5" | "f = 6" | "f = 7"
proof -
  have "unat f < 8" using unsigned_less [of f] by simp
  then have "unat f \<in> {0,1,2,3,4,5,6,7}" by auto
  then show ?thesis using that by (auto simp: word_unat_eq_iff)
qed

lemma effect_alu_i: "has_effect (decode_alu_i w d) \<longleftrightarrow>
   (rt_func3 w = 1 \<longrightarrow> rt_func7 w = 0) \<and> (rt_func3 w = 5 \<longrightarrow> rt_func7 w = 0 \<or> rt_func7 w = 32)"
  by (cases "rt_func3 w" rule: f3_cases)
     (simp_all add: has_effect_def decode_alu_i_def illegal_as_nop_def f3_alu_defs f7_defs Let_def)

lemma effect_alu: "has_effect (decode_alu w d) \<longleftrightarrow>
   rt_func7 w = 0 \<or> rt_func7 w = 32 \<and> (rt_func3 w = 0 \<or> rt_func3 w = 5) \<or> rt_func7 w = 1 \<and> rt_func3 w = 0"
  by (cases "rt_func3 w" rule: f3_cases)
     (simp_all add: has_effect_def decode_alu_def illegal_as_nop_def f3_alu_defs f7_defs Let_def)

lemma effect_branch: "has_effect (decode_branch w d) \<longleftrightarrow> rt_func3 w \<noteq> 2 \<and> rt_func3 w \<noteq> 3"
  by (cases "rt_func3 w" rule: f3_cases)
     (simp_all add: has_effect_def decode_branch_def f3_branch_defs Let_def)

lemma has_effect_decoder: "has_effect (decoder pc w k d) \<longleftrightarrow> 
   has_effect (decode_opcode w (decode_common pc w k d))"
  by (simp add: decoder_def has_effect_def)

lemma effect_opcode: "has_effect (decode_opcode w d) \<longleftrightarrow>
    (if rt_opcode w = 0x13 then has_effect (decode_alu_i w d)
     else if rt_opcode w = 0x33 then has_effect (decode_alu w d)
     else if rt_opcode w = 0x63 then has_effect (decode_branch w d)
     else rt_opcode w \<in> {0x37, 0x17, 0x03, 0x23, 0x6F, 0x67})"
  by (simp add: decode_opcode_def opcode_defs Let_def illegal_as_nop_def)
     (simp add: has_effect_def)


subsection \<open>Words as encodings\<close>

lemma enc_fields:
  "enc (rt_func7 w) (rt_rs2 w) (rt_rs1 w) (rt_func3 w) (rt_rd w) (rt_opcode w) = w"
proof (rule word_eq_by_bits)
  fix n assume n: "n < LENGTH(32)"
  consider "n < 7" | "7 \<le> n" "n < 12" | "12 \<le> n" "n < 15" | "15 \<le> n" "n < 20"
    | "20 \<le> n" "n < 25" | "25 \<le> n" by linarith
  then show "bit (enc (rt_func7 w) (rt_rs2 w) (rt_rs1 w) (rt_func3 w) (rt_rd w) (rt_opcode w)) n
     = bit w n"
    using n by cases (auto simp: enc_def field_defs bit_simps)
qed

definition lax_func3 :: "instruction_t \<Rightarrow> bool" where
  "lax_func3 w = (rt_opcode w = OP_LW \<and> rt_func3 w \<noteq> 2 \<or> rt_opcode w = OP_SW \<and> rt_func3 w \<noteq> 2
     \<or> rt_opcode w = OP_JALR \<and> rt_func3 w \<noteq> 0)"


lemma field_splits:
  "sub 5 (it_imm w) = rt_func7 w" "sub 0 (it_imm w) = rt_rs2 w"
  "sub 13 (ut_imm w) = rt_func7 w" "sub 8 (ut_imm w) = rt_rs2 w"
  "sub 3 (ut_imm w) = rt_rs1 w" "sub 0 (ut_imm w) = rt_func3 w"
  "sub 5 (word_cat (rt_func7 w) (rt_rd w) :: 12 word) = rt_func7 w"
  "sub 0 (word_cat (rt_func7 w) (rt_rd w) :: 12 word) = rt_rd w"
  by (rule word_eq_by_bits; auto simp: field_defs bit_simps)+

definition bt_offset :: "instruction_t \<Rightarrow> 12 word" where
  "bt_offset w = word_cat (bt_imm12 w) (word_cat (bt_imm11 w)
     (word_cat (bt_imm5 w) (bt_imm1 w) :: 10 word) :: 11 word)"

definition jt_offset :: "instruction_t \<Rightarrow> 20 word" where
  "jt_offset w = word_cat (jt_imm20 w) (word_cat (jt_imm12 w)
     (word_cat (jt_imm11 w) (jt_imm1 w) :: 11 word) :: 19 word)"

lemma top_index: "i < 7 \<Longrightarrow> \<not> i < 6 \<Longrightarrow> i = (6 :: nat)" "i < 5 \<Longrightarrow> \<not> i < 4 \<Longrightarrow> i = (4 :: nat)"
   "i < 5 \<Longrightarrow> \<not> 0 < i \<Longrightarrow> i = (0 :: nat)"
  by auto

lemma offset_splits:
  "word_cat (sub 11 (bt_offset w) :: 1 word) (sub 4 (bt_offset w) :: 6 word) = rt_func7 w"
  "word_cat (sub 0 (bt_offset w) :: 4 word) (sub 10 (bt_offset w) :: 1 word) = rt_rd w"
  "word_cat (sub 19 (jt_offset w) :: 1 word) (sub 4 (jt_offset w) :: 6 word) = rt_func7 w"
  "word_cat (sub 0 (jt_offset w) :: 4 word) (sub 10 (jt_offset w) :: 1 word) = rt_rs2 w"
  "sub 14 (jt_offset w) = rt_rs1 w" "sub 11 (jt_offset w) = rt_func3 w"
  by (rule word_eq_by_bits; auto simp: bt_offset_def jt_offset_def field_defs bit_simps dest: top_index)+


lemma normal_op: "\<exists>op. op \<noteq> SUB \<and> op \<noteq> SRA \<and> f3_of op = f3"
proof (cases f3 rule: f3_cases)
  case 1 then show ?thesis by (intro exI [of _ ADD]) simp
next
  case 2 then show ?thesis by (intro exI [of _ SLL]) simp
next
  case 3 then show ?thesis by (intro exI [of _ SLT]) simp
next
  case 4 then show ?thesis by (intro exI [of _ SLTU]) simp
next
  case 5 then show ?thesis by (intro exI [of _ XOR_op]) simp
next
  case 6 then show ?thesis by (intro exI [of _ SRL]) simp
next
  case 7 then show ?thesis by (intro exI [of _ OR_op]) simp
next
  case 8 then show ?thesis by (intro exI [of _ AND_op]) simp
qed

lemma imm_op:
  assumes "f3 \<noteq> 1" "f3 \<noteq> 5"
  shows "\<exists>op \<in> {ADD, SLT, SLTU, XOR_op, OR_op, AND_op}. f3_of op = f3"
proof -
  obtain op where "op \<noteq> SUB" "op \<noteq> SRA" "f3_of op = f3" using normal_op by blast
  with assms show ?thesis by (cases op) auto
qed

lemma branch_kind:
  assumes "f3 \<noteq> 2" "f3 \<noteq> 3"
  shows "\<exists>k \<in> {BEQ, BNE, BLT, BGE, BLTU, BGEU}. f3_br k = f3"
  using assms by (cases f3 rule: f3_cases) auto

lemma encoded_alu_i:
  assumes "rt_opcode w = 0x13" "has_effect (decode_alu_i w d)"
  shows "\<exists>i. valid_instr i \<and> encode i = w"
proof -
  note e = enc_fields [of w] effect_alu_i [of w d]
  consider "rt_func3 w = 1" "rt_func7 w = 0" | "rt_func3 w = 5" "rt_func7 w = 0"
    | "rt_func3 w = 5" "rt_func7 w = 32" | op where "op \<in> {ADD, SLT, SLTU, XOR_op, OR_op, AND_op}" "rt_func3 w = f3_of op"
    using assms(2) imm_op [of "rt_func3 w"] unfolding effect_alu_i by metis
  then show ?thesis
  proof cases
    case 1
    with assms(1) e show ?thesis
      by (intro exI [of _ "I_SHIFT SLL (rt_rd w) (rt_rs1 w) (rt_rs2 w)"]) (simp add: f7_of_def)
  next
    case 2
    with assms(1) e show ?thesis
      by (intro exI [of _ "I_SHIFT SRL (rt_rd w) (rt_rs1 w) (rt_rs2 w)"]) (simp add: f7_of_def)
  next
    case 3
    with assms(1) e show ?thesis
      by (intro exI [of _ "I_SHIFT SRA (rt_rd w) (rt_rs1 w) (rt_rs2 w)"]) (simp add: f7_of_def)
  next
    case 4
    with assms(1) e show ?thesis
      by (intro exI [of _ "I_TYPE op (rt_rd w) (rt_rs1 w) (it_imm w)"]) (simp add: field_splits)
  qed
qed

lemma encoded_alu:
  assumes "rt_opcode w = 0x33" "has_effect (decode_alu w d)"
  shows "\<exists>i. valid_instr i \<and> encode i = w"
proof -
  note e = enc_fields [of w]
  obtain op where op: "op \<noteq> SUB" "op \<noteq> SRA" "f3_of op = rt_func3 w" using normal_op by blast
  have ops: "f7_of SUB = 32" "f7_of SRA = 32" "f7_of op = 0" using op by (simp_all add: f7_of_def)
  consider op where "rt_func3 w = f3_of op" "rt_func7 w = f7_of op" | "rt_func3 w = 0" "rt_func7 w = 1"
    using assms(2) op(3) ops f3_of.simps unfolding effect_alu by metis
  then show ?thesis
  proof cases
    case 1
    with assms(1) e show ?thesis
      by (intro exI [of _ "R_TYPE op (rt_rd w) (rt_rs1 w) (rt_rs2 w)"]) simp
  next
    case 2
    with assms(1) e show ?thesis
      by (intro exI [of _ "R_MUL (rt_rd w) (rt_rs1 w) (rt_rs2 w)"]) simp
  qed
qed

lemma encoded_branch:
  assumes "rt_opcode w = 0x63" "has_effect (decode_branch w d)"
  shows "\<exists>i. valid_instr i \<and> encode i = w"
proof -
  obtain k where "k \<in> {BEQ, BNE, BLT, BGE, BLTU, BGEU}" "rt_func3 w = f3_br k"
    using assms(2) branch_kind [of "rt_func3 w"] unfolding effect_branch by metis
  with assms(1) enc_fields [of w] show ?thesis
    by (intro exI [of _ "BRANCH k (rt_rs1 w) (rt_rs2 w) (bt_offset w)"]) (simp add: offset_splits)
qed

lemma encoded_rest:
  assumes "rt_opcode w \<in> {0x37, 0x17, 0x03, 0x23, 0x6F, 0x67}" "\<not> lax_func3 w"
  shows "\<exists>i. valid_instr i \<and> encode i = w"
proof -
  note e = enc_fields [of w]
  consider "rt_opcode w = 0x37" | "rt_opcode w = 0x17" | "rt_opcode w = 0x03" "rt_func3 w = 2"
    | "rt_opcode w = 0x23" "rt_func3 w = 2" | "rt_opcode w = 0x6F" | "rt_opcode w = 0x67" "rt_func3 w = 0"
    using assms by (auto simp: lax_func3_def opcode_defs)
  then show ?thesis
  proof cases
    case 1
    with e show ?thesis by (intro exI [of _ "LUI (rt_rd w) (ut_imm w)"]) (simp add: field_splits)
  next
    case 2
    with e show ?thesis by (intro exI [of _ "AUIPC (rt_rd w) (ut_imm w)"]) (simp add: field_splits)
  next
    case 3
    with e show ?thesis by (intro exI [of _ "LW (rt_rd w) (rt_rs1 w) (it_imm w)"]) (simp add: field_splits)
  next
    case 4
    with e show ?thesis
      by (intro exI [of _ "SW (rt_rs1 w) (rt_rs2 w) (word_cat (rt_func7 w) (rt_rd w))"]) (simp add: field_splits)
  next
    case 5
    with e show ?thesis by (intro exI [of _ "JAL (rt_rd w) (jt_offset w)"]) (simp add: offset_splits)
  next
    case 6
    with e show ?thesis by (intro exI [of _ "JALR (rt_rd w) (rt_rs1 w) (it_imm w)"]) (simp add: field_splits)
  qed
qed

lemma encode_has_effect: "valid_instr i \<Longrightarrow> has_effect (decode_opcode (encode i) d)"
proof -
  assume v: "valid_instr i"
  show ?thesis
  proof (cases i)
    case (I_TYPE op rd rs1 imm)
    with v show ?thesis by (auto simp: effect_opcode effect_alu_i enc_defs)
  next
    case (I_SHIFT op rd rs1 sh)
    with v show ?thesis by (auto simp: effect_opcode effect_alu_i enc_defs f7_of_def)
  next
    case (BRANCH k rs1 rs2 off)
    with v show ?thesis by (auto simp: effect_opcode effect_branch enc_defs)
  next
    case (R_TYPE op rd rs1 rs2)
    with v show ?thesis by (cases op) (auto simp: effect_opcode effect_alu enc_defs f7_of_def)
  qed (auto simp: effect_opcode effect_alu enc_defs)
qed

lemma decoder_accepts:
  "has_effect (decoder pc w k d) \<longleftrightarrow> (\<exists>i. valid_instr i \<and> encode i = w) \<or> lax_func3 w"
proof
  assume "has_effect (decoder pc w k d)"
  then show "(\<exists>i. valid_instr i \<and> encode i = w) \<or> lax_func3 w"
    unfolding has_effect_decoder effect_opcode
    using encoded_alu_i encoded_alu encoded_branch encoded_rest by (metis (no_types))
next
  assume "(\<exists>i. valid_instr i \<and> encode i = w) \<or> lax_func3 w"
  then show "has_effect (decoder pc w k d)"
    by (auto simp: has_effect_decoder encode_has_effect)
       (auto simp: effect_opcode lax_func3_def opcode_defs)
qed

subsection \<open>Properties\<close>

text \<open>The two places where the code and the manual part ways.\<close>

fun code_exact :: "(reg_addr_t \<Rightarrow> bus32_t) \<Rightarrow> instr \<Rightarrow> bool" where
  "code_exact r (BRANCH k rs1 rs2 i) = (bit i 11 \<longleftrightarrow> bit i 10)"
| "code_exact r (JALR rd rs1 i) = (\<not> bit (r rs1 + sext12 i) 0)"
| "code_exact r _ = True"

text \<open>C1. The decoder, the immediate generator, the ALU, the multiplier, the branch unit and
  the write-back selection implement the instruction set: for every valid instruction whose
  branch offset fits 12 bits (bits 11 and 12 agree) and whose JALR target is even, running its
  encoding through the core's logic writes the register, accesses the memory and continues at
  the address the RV32I reference gives.\<close>

theorem core_implements_isa:
  assumes "valid_instr i" and "r 0 = 0" and "code_exact r i"
  shows "core_effect m r pc (encode i) = isa_effect m r pc i"
proof (cases i)
  case (BRANCH k rs1 rs2 off)
  with assms have "imm_B_code off = branch_offset off" by (simp add: imm_B_code_iff)
  with BRANCH assms show ?thesis by (simp only: eff_branch_code) simp
next
  case (JALR rd rs1 off)
  with assms have "(r rs1 + sext12 off) AND NOT 1 = r rs1 + sext12 off"
    by (simp only: clear_bit0) simp
  with JALR show ?thesis by (simp only: eff_JALR_code isa_effect.simps)
qed (use assms eff_R eff_MUL eff_I eff_S eff_U eff_M eff_JAL in \<open>simp_all only:\<close>)

theorem core_implements_isa_witness:
  "core_effect (\<lambda>_. 7) (\<lambda>_. 0) 0x100 (encode (BRANCH BEQ 1 2 0xFFE)) = plain None 0xFC"
proof -
  have "code_exact (\<lambda>_. 0) (BRANCH BEQ 1 2 0xFFE)" by (simp add: bit_simps)
  then have "core_effect (\<lambda>_. 7) (\<lambda>_. 0) 0x100 (encode (BRANCH BEQ 1 2 0xFFE))
      = isa_effect (\<lambda>_. 7) (\<lambda>_. 0) 0x100 (BRANCH BEQ 1 2 0xFFE)"
    by (intro core_implements_isa) simp_all
  then show ?thesis by (simp add: branch_offset_def word_cat_eq plain_def del: encode.simps)
qed

text \<open>C28. The decoder recognises exactly the encodings of the supported instructions, plus the
  LW, SW and JALR opcodes with a func3 that is not theirs (which it does not check): every
  other 32-bit word is decoded to an instruction that writes no register, stores nothing and
  never jumps.\<close>

theorem decoder_accepts_exactly:
  "has_effect (decoder pc w rob n) \<longleftrightarrow> (\<exists>i. valid_instr i \<and> encode i = w) \<or> lax_func3 w"
  by (rule decoder_accepts)

text \<open>C29. An illegal instruction is executed as a NOP: a word that is no encoding (and not one of
  the unchecked func3 words) changes no register and no memory and execution continues at the
  next word.\<close>

theorem illegal_instruction_is_nop:
  assumes "\<nexists>i. valid_instr i \<and> encode i = w" and "\<not> lax_func3 w"
  shows "core_effect m r pc w = plain None (pc + 4)"
  using assms illegal_nop [of pc w m r] by (simp add: decoder_accepts)

theorem illegal_instruction_is_nop_witness:
  "core_effect (\<lambda>_. 7) (\<lambda>_. 9) 64 0xFFFFFFFF = plain None 68"
proof -
  have "rt_opcode 0xFFFFFFFF = 0x7F"
    by (rule word_eq_by_bits) (auto simp: field_defs bit_simps less_Suc_eq eval_nat_numeral)
  then have "\<not> has_effect (decoder 0 0xFFFFFFFF 0 0)"
    by (simp add: has_effect_decoder effect_opcode)
  then have "(\<nexists>i. valid_instr i \<and> encode i = 0xFFFFFFFF) \<and> \<not> lax_func3 0xFFFFFFFF"
    by (simp only: decoder_accepts) simp
  then show ?thesis using illegal_instruction_is_nop [of "0xFFFFFFFF" "\<lambda>_. 7" "\<lambda>_. 9" 64] by simp
qed

text \<open>C30. A taken branch reaches the address the manual gives exactly when bits 11 and 12 of its
  offset agree, that is for offsets from -2048 to 2046; a branch further away than that, which
  the encoding allows, jumps to the wrong address, because the immediate generator extends the
  sign from instruction bit 7 and not from bit 31.\<close>

theorem branch_target_exact_iff:
  assumes "valid_instr (BRANCH k rs1 rs2 i)" and "isa_cond k (r rs1) (r rs2)"
  shows "next_pc (core_effect m r pc (encode (BRANCH k rs1 rs2 i))) = pc + branch_offset i
    \<longleftrightarrow> (bit i 11 \<longleftrightarrow> bit i 10)"
  using assms by (simp only: eff_branch_code) (simp add: plain_def imm_B_code_iff)

theorem branch_target_exact_iff_witness:
  "next_pc (core_effect (\<lambda>_. 0) (\<lambda>_. 0) 0x1000 (encode (BRANCH BEQ 1 2 0x400))) \<noteq> 0x1800"
  using branch_target_exact_iff [where k = BEQ and ?rs1.0 = 1 and ?rs2.0 = 2 and i = "0x400"
      and r = "\<lambda>_. 0" and m = "\<lambda>_. 0" and pc = "0x1000"]
  by (simp add: branch_offset_def bit_simps word_cat_eq del: encode.simps)

end
