(* ===== verification/Cache_Lines.thy ===== *)
theory Cache_Lines
  imports Tartaruga_Pkg
begin

text \<open>
  Addresses of cache lines: the slices that both caches take of an address (line, index, tag, word in
  the line), and what the lines have to do with the words in them.
\<close>

definition line_addr :: "nat \<Rightarrow> bus32_t \<Rightarrow> bus32_t" where
  "line_addr n a = push_bit n (drop_bit n a)"

lemma bit_line_addr: "bit (line_addr n a) j \<longleftrightarrow> n \<le> j \<and> bit a j"
  by (auto simp: line_addr_def bit_simps dest: bit_imp_le_length)

lemma line_addr_idem [simp]: "line_addr n (line_addr n a) = line_addr n a"
  by (rule bit_word_eqI) (simp add: bit_line_addr)

lemma bits_line_addr [simp]: "n \<le> j \<Longrightarrow> bits j (line_addr n a) = (bits j a :: 'k::len word)"
  by (rule bit_word_eqI) (simp add: bit_bits bit_line_addr)

lemma line_unique:
  assumes "line_addr n a = a" "bits n a = (bits n b :: 'i::len word)" "bits (n + LENGTH('i)) a = (bits (n + LENGTH('i)) b :: 't::len word)"
    and "n + LENGTH('i) + LENGTH('t) = 32"
  shows "a = line_addr n b"
proof (rule bit_word_eqI)
  fix j assume j: "j < LENGTH(32)"
  consider "j < n" | "n \<le> j" "j < n + LENGTH('i)" | "n + LENGTH('i) \<le> j" by linarith
  then show "bit a j \<longleftrightarrow> bit (line_addr n b) j"
  proof cases
    case 1
    then show ?thesis using assms(1) bit_line_addr [of n a j] by (simp add: bit_line_addr)
  next
    case 2
    with arg_cong [OF assms(2), of "\<lambda>x. bit x (j - n)"] show ?thesis by (auto simp: bit_bits bit_line_addr)
  next
    case 3
    with arg_cong [OF assms(3), of "\<lambda>x. bit x (j - (n + LENGTH('i)))"] j assms(4) show ?thesis
      by (auto simp: bit_bits bit_line_addr)
  qed
qed

text \<open>Adding an offset below the size of the line changes the low bits only.\<close>

lemma offset_bit: "take_bit n x = (x :: bus32_t) \<Longrightarrow> bit x j \<Longrightarrow> j < n"
  by (metis bit_take_bit_iff)

lemma line_plus_offset:
  assumes "take_bit n x = (x :: bus32_t)"
  shows "line_addr n a + x = line_addr n a OR x"
proof (rule disjunctive_add_eq_or)
  show "line_addr n a AND x = 0"
    by (rule bit_word_eqI) (auto simp: bit_and_iff bit_line_addr dest: offset_bit [OF assms])
qed

lemma line_of_offset:
  assumes "take_bit n x = (x :: bus32_t)"
  shows "line_addr n (line_addr n a + x) = line_addr n a" "take_bit n (line_addr n a + x) = x"
  unfolding line_plus_offset [OF assms]
  by (rule bit_word_eqI, auto simp: bit_line_addr bit_or_iff bit_take_bit_iff dest: offset_bit [OF assms])+

lemma word_in_line:
  fixes a :: bus32_t
  assumes "LENGTH('k) + 2 = n" "n \<le> 32"
  shows "line_addr n a + word_of_nat (4 * unat (bits 2 a :: 'k::len word)) = a AND NOT 3"
proof -
  have w: "word_of_nat (4 * unat (bits 2 a :: 'k word)) = (push_bit 2 (take_bit LENGTH('k) (drop_bit 2 a)) :: bus32_t)"
  proof -
    have "(word_of_nat (unat (bits 2 a :: 'k word)) :: bus32_t) = take_bit LENGTH('k) (drop_bit 2 a)"
      unfolding bits_def by (rule bit_word_eqI) (use assms in \<open>auto simp: bit_simps\<close>)
    then show ?thesis by (simp add: push_bit_eq_mult mult.commute)
  qed
  have t: "take_bit n (push_bit 2 (take_bit LENGTH('k) (drop_bit 2 a))) = push_bit 2 (take_bit LENGTH('k) (drop_bit 2 a))"
    by (rule bit_word_eqI) (use assms in \<open>auto simp: bit_simps\<close>)
  have "line_addr n a OR push_bit 2 (take_bit LENGTH('k) (drop_bit 2 a)) = a AND NOT (mask 2)"
  proof (rule bit_word_eqI)
    fix j assume j: "j < LENGTH(32)"
    consider "j < 2" | "2 \<le> j" "j < n" | "n \<le> j" by linarith
    then show "bit (line_addr n a OR push_bit 2 (take_bit LENGTH('k) (drop_bit 2 a))) j \<longleftrightarrow> bit (a AND NOT (mask 2)) j"
    proof cases
      case 2
      then have "Suc (Suc (j - 2)) = j" by simp
      with 2 j assms show ?thesis by (auto simp: bit_line_addr bit_simps)
    qed (use j assms in \<open>auto simp: bit_line_addr bit_simps\<close>)
  qed
  then show ?thesis unfolding w line_plus_offset [OF t] by (simp add: mask_eq_exp_minus_1)
qed

end
