(* ===== verification/Instr_Cache.thy ===== *)
theory Instr_Cache
  imports Cache_Lines
begin

text \<open>
  The instruction side of the memory system: \<^verbatim>\<open>rtl/caches/imem_wrapper.sv\<close> (a request pipe and a
  response pipe of five stages each), \<^verbatim>\<open>rtl/caches/icache.sv\<close> (sixteen sets of two ways, lines of
  sixteen words) and \<^verbatim>\<open>rtl/datapath/fetch/fetch.sv\<close>. The simulator's function \<^verbatim>\<open>read_mem\<close> is the
  parameter \<open>rd\<close>. A 512-bit line is the list of its words, least significant first.
\<close>

subsection \<open>imem\_wrapper.sv\<close>

definition LAT :: nat where "LAT = 5"

record imem_rsp =
  r_valid :: bool
  r_data :: "bus32_t list"
  r_addr :: bus32_t

record imem_wrapper =
  req_pipe :: "(bool \<times> bus32_t) list"
  rsp_pipe :: "imem_rsp list"

definition imem_reset :: imem_wrapper where
  "imem_reset = \<lparr> req_pipe = replicate LAT (False, 0),
     rsp_pipe = replicate LAT \<lparr> r_valid = False, r_data = replicate 16 0, r_addr = 0 \<rparr> \<rparr>"

definition imem_req_ready_o :: "imem_wrapper \<Rightarrow> bool" where
  "imem_req_ready_o w = ((\<forall>r \<in> set (rsp_pipe w). \<not> r_valid r) \<and> (\<forall>r \<in> set (req_pipe w). \<not> fst r))"

definition imem_rsp_o :: "imem_wrapper \<Rightarrow> imem_rsp" where
  "imem_rsp_o w = rsp_pipe w ! (LAT - 1)"

definition read_line :: "(bus32_t \<Rightarrow> bus32_t) \<Rightarrow> bus32_t \<Rightarrow> bus32_t list" where
  "read_line rd a = map (\<lambda>k. rd (a + word_of_nat (4 * k))) [0..<16]"

text \<open>One pass of the shifting loop: \<open>q\<close> holds the registers, \<open>d\<close> their next values.\<close>

definition imem_move :: "imem_rsp list \<Rightarrow> nat \<Rightarrow> imem_rsp list \<Rightarrow> imem_rsp list" where
  "imem_move q i d = (if r_valid (q ! i) then d
     else (d[i := q ! (i - 1)])[i - 1 := (d ! (i - 1))\<lparr> r_valid := False \<rparr>])"

definition imem_clk :: "(bus32_t \<Rightarrow> bus32_t) \<Rightarrow> bool \<Rightarrow> bus32_t \<Rightarrow> bool \<Rightarrow> imem_wrapper \<Rightarrow> imem_wrapper" where
  "imem_clk rd req_valid_i pc_i rsp_ready_i w =
     (let q = rsp_pipe w;
          d = (if r_valid (imem_rsp_o w) \<and> rsp_ready_i
               then q[LAT - 1 := (q ! (LAT - 1))\<lparr> r_valid := False \<rparr>] else q);
          d = fold (imem_move q) (rev [1..<LAT]) d;
          (v, a) = req_pipe w ! (LAT - 1);
          d = (if v then d[0 := \<lparr> r_valid = True, r_data = read_line rd a, r_addr = a \<rparr>] else d)
      in \<lparr> req_pipe = shift_in (req_valid_i, pc_i) (req_pipe w), rsp_pipe = d \<rparr>)"

subsection \<open>icache.sv\<close>

record icache_line_t =
  ic_valid :: bool
  ic_tag :: "22 word"
  ic_data :: "bus32_t list"

record icache =
  cache_mem :: "nat \<Rightarrow> nat \<Rightarrow> icache_line_t"
  lru_counter :: "nat \<Rightarrow> 1 word"
  pending_req :: bool
  pending_index :: nat
  pending_tag :: "22 word"

definition ic_index :: "bus32_t \<Rightarrow> nat" where "ic_index pc = unat (bits 6 pc :: 4 word)"
definition ic_tag_in :: "bus32_t \<Rightarrow> 22 word" where "ic_tag_in pc = bits 10 pc"
definition ic_word :: "bus32_t \<Rightarrow> nat" where "ic_word pc = unat (bits 2 pc :: 4 word)"
definition ic_line_addr :: "bus32_t \<Rightarrow> bus32_t" where "ic_line_addr pc = line_addr 6 pc"

definition icache_reset :: icache where
  "icache_reset = \<lparr> cache_mem = (\<lambda>_ _. \<lparr> ic_valid = False, ic_tag = 0, ic_data = replicate 16 0 \<rparr>),
     lru_counter = (\<lambda>_. 1), pending_req = False, pending_index = 0, pending_tag = 0 \<rparr>"

text \<open>The way that hits, by the loop over the ways: the last match counts.\<close>

definition ic_hit :: "icache \<Rightarrow> bus32_t \<Rightarrow> nat option" where
  "ic_hit s pc = fold (\<lambda>i h. let l = cache_mem s (ic_index pc) i
     in if ic_valid l \<and> ic_tag l = ic_tag_in pc then Some i else h) [0..<2] None"

definition icache_instr_o :: "icache \<Rightarrow> bus32_t \<Rightarrow> instruction_t" where
  "icache_instr_o s pc = (case ic_hit s pc of None \<Rightarrow> NOP_INSTR_HEX
     | Some w \<Rightarrow> ic_data (cache_mem s (ic_index pc) w) ! ic_word pc)"

definition icache_valid_o :: "icache \<Rightarrow> bus32_t \<Rightarrow> bool" where
  "icache_valid_o s pc = (ic_hit s pc \<noteq> None)"

definition icache_req_valid_o :: "icache \<Rightarrow> bus32_t \<Rightarrow> bool" where
  "icache_req_valid_o s pc = (\<not> icache_valid_o s pc \<and> \<not> pending_req s)"

text \<open>The counter of a set after a hit in way \<open>h\<close>, and after way \<open>w\<close> was filled; \<open>l\<close> is its register.\<close>

definition lru_on_hit :: "nat \<Rightarrow> 1 word \<Rightarrow> 1 word" where
  "lru_on_hit h l = fold (\<lambda>i d. if i = h then 0 else if l < l then l + 1 else d) [0..<2] l"

definition lru_on_fill :: "nat \<Rightarrow> 1 word \<Rightarrow> 1 word" where
  "lru_on_fill w l = fold (\<lambda>i d. if i = w then 0 else if l < 1 then l + 1 else d) [0..<2] l"

definition lru_way :: "1 word \<Rightarrow> nat" where
  "lru_way l = fold (\<lambda>i w. if l = 1 then i else w) [0..<2] 0"

definition icache_clk :: "bus32_t \<Rightarrow> bool \<Rightarrow> imem_rsp \<Rightarrow> icache \<Rightarrow> icache" where
  "icache_clk pc req_ready_i rsp s =
     (let d = (if icache_req_valid_o s pc \<and> req_ready_i
               then s\<lparr> pending_req := True, pending_index := ic_index pc, pending_tag := ic_tag_in pc \<rparr>
               else if r_valid rsp then s\<lparr> pending_req := False \<rparr> else s);
          d = (case ic_hit s pc of None \<Rightarrow> d | Some h \<Rightarrow>
               d\<lparr> lru_counter := (lru_counter d)(ic_index pc := lru_on_hit h (lru_counter s (ic_index pc))) \<rparr>)
      in if r_valid rsp
         then (let i = ic_index (r_addr rsp); w = lru_way (lru_counter s i)
               in d\<lparr> cache_mem := (cache_mem d)(i := (cache_mem d i)(w :=
                      \<lparr> ic_valid = True, ic_tag = ic_tag_in (r_addr rsp), ic_data = r_data rsp \<rparr>)),
                     lru_counter := (lru_counter d)(i := lru_on_fill w (lru_counter s i)) \<rparr>)
         else d)"

subsection \<open>fetch.sv\<close>

record fetch =
  pc_q :: bus32_t
  kanata_id_counter :: "32 word"
  f_icache :: icache
  f_imem :: imem_wrapper

record fetch_in =
  taken_branch_i :: bool
  new_pc_i :: bus32_t
  stall_i :: bool

definition fetch_reset :: fetch where
  "fetch_reset = \<lparr> pc_q = 0, kanata_id_counter = 0, f_icache = icache_reset, f_imem = imem_reset \<rparr>"

definition fetch_valid_o :: "fetch \<Rightarrow> bool" where
  "fetch_valid_o s = icache_valid_o (f_icache s) (pc_q s)"

definition fetch_instr_o :: "fetch \<Rightarrow> instruction_t" where
  "fetch_instr_o s = icache_instr_o (f_icache s) (pc_q s)"

definition fetch_pc_d :: "fetch_in \<Rightarrow> fetch \<Rightarrow> bus32_t" where
  "fetch_pc_d i s = (if taken_branch_i i then new_pc_i i else pc_q s + 4)"

definition fetch_clk :: "(bus32_t \<Rightarrow> bus32_t) \<Rightarrow> fetch_in \<Rightarrow> fetch \<Rightarrow> fetch" where
  "fetch_clk rd i s =
     (let ic = f_icache s; w = f_imem s; pc = pc_q s;
          go = (\<not> stall_i i \<or> taken_branch_i i)
      in \<lparr> pc_q = (if go then fetch_pc_d i s else pc),
           kanata_id_counter = (if go \<and> \<not> stall_i i \<and> \<not> taken_branch_i i then kanata_id_counter s + 1 else kanata_id_counter s),
           f_icache = icache_clk pc (imem_req_ready_o w) (imem_rsp_o w) ic,
           f_imem = imem_clk rd (icache_req_valid_o ic pc) (ic_line_addr pc) True w \<rparr>)"

definition fetch_run :: "(bus32_t \<Rightarrow> bus32_t) \<Rightarrow> fetch_in list \<Rightarrow> fetch \<Rightarrow> fetch" where
  "fetch_run rd is s = fold (fetch_clk rd) is s"

subsection \<open>At most one request is in flight\<close>

text \<open>
  \<open>flight rd k a w\<close>: the wrapper holds one request for the line at \<open>a\<close>, whose answer leaves it in
  \<open>k\<close> edges, in the request pipe while \<open>k > 5\<close>; for \<open>k = 0\<close> it is empty.
\<close>

definition flight :: "(bus32_t \<Rightarrow> bus32_t) \<Rightarrow> nat \<Rightarrow> bus32_t \<Rightarrow> imem_wrapper \<Rightarrow> bool" where
  "flight rd k a w \<longleftrightarrow> k \<le> 10
     \<and> map fst (req_pipe w) = map (\<lambda>i. k = 10 - i) [0..<5]
     \<and> map r_valid (rsp_pipe w) = map (\<lambda>i. k = 5 - i) [0..<5]
     \<and> (\<forall>r \<in> set (req_pipe w). fst r \<longrightarrow> snd r = a)
     \<and> (\<forall>r \<in> set (rsp_pipe w). r_valid r \<longrightarrow> r_data r = read_line rd a \<and> r_addr r = a)"

lemma five: "map f [0..<5] = [f 0, f 1, f 2, f 3, f 4 :: 'a]"
  by (simp add: numeral_eq_Suc)

lemma five_list: "map g xs = [a, b, c, d, e] \<longleftrightarrow> (\<exists>v w x y z. xs = [v, w, x, y, z] \<and> g v = a \<and> g w = b \<and> g x = c \<and> g y = d \<and> g z = e)"
  by (auto simp: map_eq_Cons_conv)

lemma rev_LAT: "rev [1..<LAT] = [4, 3, 2, 1]"
  by (simp add: LAT_def numeral_eq_Suc)

lemma flight_cases:
  assumes "flight rd k a w"
  obtains v0 a0 v1 a1 v2 a2 v3 a3 v4 a4 s0 s1 s2 s3 s4
  where "w = \<lparr> req_pipe = [(v0, a0), (v1, a1), (v2, a2), (v3, a3), (v4, a4)], rsp_pipe = [s0, s1, s2, s3, s4] \<rparr>"
    "k \<in> {0, 1, 2, 3, 4, 5, 6, 7, 8, 9, 10}"
proof -
  have "k \<le> 10" using assms unfolding flight_def by simp
  then have "k \<in> {0, 1, 2, 3, 4, 5, 6, 7, 8, 9, 10}" by (simp, arith)
  moreover obtain v0 a0 v1 a1 v2 a2 v3 a3 v4 a4 s0 s1 s2 s3 s4 where "w = \<lparr> req_pipe = [(v0, a0), (v1, a1), (v2, a2), (v3, a3), (v4, a4)], rsp_pipe = [s0, s1, s2, s3, s4] \<rparr>"
    using assms unfolding flight_def five five_list by (cases w) force
  ultimately show ?thesis using that by blast
qed

lemma flight_ready:
  assumes "flight rd k a w"
  shows "imem_req_ready_o w \<longleftrightarrow> k = 0"
proof -
  obtain v0 a0 v1 a1 v2 a2 v3 a3 v4 a4 s0 s1 s2 s3 s4 where w: "w = \<lparr> req_pipe = [(v0, a0), (v1, a1), (v2, a2), (v3, a3), (v4, a4)], rsp_pipe = [s0, s1, s2, s3, s4] \<rparr>"
    and k: "k \<in> {0, 1, 2, 3, 4, 5, 6, 7, 8, 9, 10}" using assms by (rule flight_cases)
  show ?thesis using k assms unfolding w flight_def five by (elim insertE) (simp_all add: imem_req_ready_o_def)
qed

lemma flight_rsp: "flight rd k a w \<Longrightarrow> r_valid (imem_rsp_o w) \<longleftrightarrow> k = 1"
  "flight rd 1 a w \<Longrightarrow> r_data (imem_rsp_o w) = read_line rd a \<and> r_addr (imem_rsp_o w) = a"
  unfolding flight_def five five_list by (auto simp: imem_rsp_o_def LAT_def)

lemma flight_step:
  assumes "flight rd k a w" "v \<longrightarrow> k = 0"
  shows "flight rd (if k = 0 then if v then 10 else 0 else k - 1) (if k = 0 then p else a) (imem_clk rd v p True w)"
proof -
  obtain v0 a0 v1 a1 v2 a2 v3 a3 v4 a4 s0 s1 s2 s3 s4 where w: "w = \<lparr> req_pipe = [(v0, a0), (v1, a1), (v2, a2), (v3, a3), (v4, a4)], rsp_pipe = [s0, s1, s2, s3, s4] \<rparr>"
    and k: "k \<in> {0, 1, 2, 3, 4, 5, 6, 7, 8, 9, 10}" using assms(1) by (rule flight_cases)
  show ?thesis
    using k assms unfolding w flight_def five imem_clk_def imem_rsp_o_def rev_LAT imem_move_def shift_in_def
    by (elim insertE) (simp_all add: LAT_def Let_def)
qed

subsection \<open>Every valid line is a line of memory\<close>

definition ic_coherent :: "(bus32_t \<Rightarrow> bus32_t) \<Rightarrow> icache \<Rightarrow> bool" where
  "ic_coherent rd s \<longleftrightarrow> (\<forall>i w. ic_valid (cache_mem s i w) \<longrightarrow>
     (\<exists>a. ic_line_addr a = a \<and> ic_index a = i \<and> ic_tag_in a = ic_tag (cache_mem s i w)
       \<and> ic_data (cache_mem s i w) = read_line rd a))"

definition fetch_at :: "(bus32_t \<Rightarrow> bus32_t) \<Rightarrow> nat \<Rightarrow> bus32_t \<Rightarrow> fetch \<Rightarrow> bool" where
  "fetch_at rd k a s \<longleftrightarrow> flight rd k a (f_imem s) \<and> ic_line_addr a = a
     \<and> (pending_req (f_icache s) \<longleftrightarrow> k \<noteq> 0) \<and> ic_coherent rd (f_icache s)"

lemma two: "[0..<2] = [0, 1]"
  by (simp add: numeral_eq_Suc)

lemma line_of_line [simp]: "ic_line_addr (ic_line_addr a) = ic_line_addr a"
  by (simp add: ic_line_addr_def)

lemma same_line:
  assumes "ic_line_addr a = a" "ic_index a = ic_index pc" "ic_tag_in a = ic_tag_in pc"
  shows "a = ic_line_addr pc"
  unfolding ic_line_addr_def
  by (rule line_unique [where 'i = 4 and 't = 22])
     (use assms in \<open>simp_all add: ic_line_addr_def ic_index_def ic_tag_in_def unsigned_word_eqI\<close>)

lemma line_fields [simp]: "ic_index (ic_line_addr pc) = ic_index pc" "ic_tag_in (ic_line_addr pc) = ic_tag_in pc"
  by (simp_all add: ic_line_addr_def ic_index_def ic_tag_in_def)

lemma line_word: "ic_line_addr pc + word_of_nat (4 * ic_word pc) = pc AND NOT 3"
  unfolding ic_line_addr_def ic_word_def by (rule word_in_line) simp_all

lemma line_entry: "read_line rd (ic_line_addr pc) ! ic_word pc = rd (pc AND NOT 3)"
proof -
  have "ic_word pc < 16" unfolding ic_word_def using unsigned_less [of "bits 2 pc :: 4 word"] by simp
  then show ?thesis using line_word [of pc] by (simp add: read_line_def del: of_nat_mult)
qed

lemma ic_hit_line:
  assumes "ic_hit s pc = Some w"
  shows "w < 2" "ic_valid (cache_mem s (ic_index pc) w)" "ic_tag (cache_mem s (ic_index pc) w) = ic_tag_in pc"
  using assms unfolding ic_hit_def two by (auto simp: Let_def split: if_splits)

lemma ic_hit_iff:
  "ic_hit s pc \<noteq> None \<longleftrightarrow> (\<exists>w < 2. ic_valid (cache_mem s (ic_index pc) w) \<and> ic_tag (cache_mem s (ic_index pc) w) = ic_tag_in pc)"
proof -
  have "(\<exists>w < 2. P w) \<longleftrightarrow> P 0 \<or> P 1" for P :: "nat \<Rightarrow> bool" by (auto simp: less_2_cases_iff)
  then show ?thesis unfolding ic_hit_def two by (auto simp: Let_def)
qed

lemma coherent_instr:
  assumes "ic_coherent rd s"
  shows "icache_instr_o s pc = (if icache_valid_o s pc then rd (pc AND NOT 3) else NOP_INSTR_HEX)"
proof (cases "ic_hit s pc")
  case (Some w)
  obtain a where "ic_line_addr a = a" "ic_index a = ic_index pc" "ic_tag_in a = ic_tag_in pc"
    "ic_data (cache_mem s (ic_index pc) w) = read_line rd a"
    using assms ic_hit_line [OF Some] unfolding ic_coherent_def by metis
  then have "ic_data (cache_mem s (ic_index pc) w) = read_line rd (ic_line_addr pc)" using same_line by simp
  with Some show ?thesis by (simp add: icache_instr_o_def icache_valid_o_def line_entry)
qed (simp add: icache_instr_o_def icache_valid_o_def)

lemma coherent_clk:
  assumes "ic_coherent rd s" "r_valid rsp \<Longrightarrow> ic_line_addr (r_addr rsp) = r_addr rsp \<and> r_data rsp = read_line rd (r_addr rsp)"
  shows "ic_coherent rd (icache_clk pc ready rsp s)"
proof -
  have "cache_mem (icache_clk pc ready rsp s) = (if r_valid rsp then (cache_mem s)(ic_index (r_addr rsp) :=
      (cache_mem s (ic_index (r_addr rsp)))(lru_way (lru_counter s (ic_index (r_addr rsp))) :=
        \<lparr> ic_valid = True, ic_tag = ic_tag_in (r_addr rsp), ic_data = r_data rsp \<rparr>)) else cache_mem s)"
    by (simp add: icache_clk_def Let_def split: option.split)
  with assms show ?thesis unfolding ic_coherent_def by auto
qed

lemma pending_clk:
  "pending_req (icache_clk pc ready rsp s) = (if icache_req_valid_o s pc \<and> ready then True
     else if r_valid rsp then False else pending_req s)"
  by (auto simp: icache_clk_def Let_def split: option.split)

text \<open>The state after an edge: a request is made only when nothing is in flight.\<close>

lemma fetch_step:
  assumes "fetch_at rd k a s"
  shows "fetch_at rd (if k = 0 then if fetch_valid_o s then 0 else 10 else k - 1)
    (if k = 0 then ic_line_addr (pc_q s) else a) (fetch_clk rd i s)"
proof -
  note f = assms [unfolded fetch_at_def]
  have req: "icache_req_valid_o (f_icache s) (pc_q s) \<longleftrightarrow> k = 0 \<and> \<not> fetch_valid_o s"
    using f by (auto simp: icache_req_valid_o_def fetch_valid_o_def)
  have ready: "imem_req_ready_o (f_imem s) \<longleftrightarrow> k = 0" using f flight_ready by blast
  have rsp: "r_valid (imem_rsp_o (f_imem s)) \<longleftrightarrow> k = 1" using f flight_rsp(1) by blast
  have "flight rd (if k = 0 then if fetch_valid_o s then 0 else 10 else k - 1)
    (if k = 0 then ic_line_addr (pc_q s) else a) (f_imem (fetch_clk rd i s))"
    using flight_step [of rd k a "f_imem s" "icache_req_valid_o (f_icache s) (pc_q s)" "ic_line_addr (pc_q s)"] f req
    by (auto simp: fetch_clk_def Let_def)
  moreover have "ic_coherent rd (f_icache (fetch_clk rd i s))"
    unfolding fetch_clk_def Let_def fetch.simps
    by (rule coherent_clk) (use f rsp flight_rsp(2) in auto)
  moreover have "pending_req (f_icache (fetch_clk rd i s)) \<longleftrightarrow> (if k = 0 then if fetch_valid_o s then 0 else 10 else k - 1) \<noteq> 0"
    unfolding fetch_clk_def Let_def fetch.simps pending_clk req ready rsp using f by auto
  ultimately show ?thesis using f by (simp add: fetch_at_def)
qed

lemma fetch_at_reset: "fetch_at rd 0 0 fetch_reset"
  by (simp add: line_addr_def fetch_at_def fetch_reset_def flight_def five imem_reset_def icache_reset_def ic_coherent_def
      ic_line_addr_def LAT_def numeral_eq_Suc)

definition fetch_ok :: "(bus32_t \<Rightarrow> bus32_t) \<Rightarrow> fetch \<Rightarrow> bool" where
  "fetch_ok rd s \<longleftrightarrow> (\<exists>k a. fetch_at rd k a s)"

lemma fetch_ok_clk: "fetch_ok rd s \<Longrightarrow> fetch_ok rd (fetch_clk rd i s)"
  unfolding fetch_ok_def by (blast intro: fetch_step)

lemma fetch_ok_run: "fetch_ok rd s \<Longrightarrow> fetch_ok rd (fetch_run rd is s)"
  unfolding fetch_run_def by (induction "is" arbitrary: s) (simp_all add: fetch_ok_clk)

lemma fetch_ok_reset: "fetch_ok rd fetch_reset"
  unfolding fetch_ok_def using fetch_at_reset by blast

lemma fetch_ok_instr:
  "fetch_ok rd s \<Longrightarrow> fetch_instr_o s = (if fetch_valid_o s then rd (pc_q s AND NOT 3) else NOP_INSTR_HEX)"
  unfolding fetch_ok_def fetch_at_def fetch_instr_o_def fetch_valid_o_def using coherent_instr by blast

text \<open>C13. in every state that fetch reaches from reset, whatever branches and stalls it saw and whichever fills are
  under way, it offers the word of memory at its program counter or, on a miss, a NOP that is not valid.\<close>

theorem fetch_serves_memory:
  "fetch_instr_o (fetch_run rd is fetch_reset) =
     (if fetch_valid_o (fetch_run rd is fetch_reset) then rd (pc_q (fetch_run rd is fetch_reset) AND NOT 3)
      else NOP_INSTR_HEX)"
  by (rule fetch_ok_instr [OF fetch_ok_run [OF fetch_ok_reset]])

subsection \<open>A held program counter is served\<close>

abbreviation held :: "bus32_t \<Rightarrow> fetch_in" where
  "held p \<equiv> \<lparr> taken_branch_i = False, new_pc_i = p, stall_i = True \<rparr>"

lemma held_pc [simp]: "pc_q (fetch_clk rd (held p) s) = pc_q s"
  by (simp add: fetch_clk_def Let_def)

lemma held_pc_run [simp]: "pc_q (fetch_run rd (replicate n (held p)) s) = pc_q s"
  by (induction n arbitrary: s) (simp_all add: fetch_run_def)

lemma fetch_run_append: "fetch_run rd (xs @ ys) s = fetch_run rd ys (fetch_run rd xs s)"
  by (simp add: fetch_run_def)

lemma flight_drains:
  "fetch_at rd (n + k) a s \<Longrightarrow> \<exists>b. fetch_at rd k b (fetch_run rd (replicate n (held p)) s) \<and> (0 < k \<longrightarrow> b = a)"
proof (induction n arbitrary: s)
  case (Suc n)
  from fetch_step [OF Suc.prems, of "held p"] Suc.IH show ?case by (simp add: fetch_run_def)
qed (auto simp: fetch_run_def)

lemma fill_makes_hit:
  assumes "r_valid r" "ic_index (r_addr r) = ic_index pc" "ic_tag_in (r_addr r) = ic_tag_in pc"
  shows "icache_valid_o (icache_clk pc' rdy r s) pc"
proof -
  have "lru_way l < 2" for l by (simp add: lru_way_def two)
  with assms show ?thesis
    unfolding icache_valid_o_def ic_hit_iff
    by (intro exI [of _ "lru_way (lru_counter s (ic_index pc))"]) (simp add: icache_clk_def Let_def split: option.split)
qed

lemma answer_makes_valid:
  assumes "fetch_at rd 1 (ic_line_addr (pc_q s)) s"
  shows "fetch_valid_o (fetch_clk rd (held p) s)"
proof -
  have "flight rd 1 (ic_line_addr (pc_q s)) (f_imem s)" using assms unfolding fetch_at_def by blast
  from flight_rsp(1) [OF this] flight_rsp(2) [OF this]
  have "r_valid (imem_rsp_o (f_imem s))" "r_addr (imem_rsp_o (f_imem s)) = ic_line_addr (pc_q s)" by auto
  then have "icache_valid_o (icache_clk (pc_q s) (imem_req_ready_o (f_imem s)) (imem_rsp_o (f_imem s)) (f_icache s)) (pc_q s)"
    by (intro fill_makes_hit) simp_all
  then show ?thesis by (simp add: fetch_valid_o_def fetch_clk_def Let_def)
qed

lemma idle_served:
  assumes "fetch_at rd 0 a s"
  shows "\<exists>n \<le> 11. fetch_valid_o (fetch_run rd (replicate n (held p)) s)"
proof (cases "fetch_valid_o s")
  case False
  have "fetch_at rd (9 + 1) (ic_line_addr (pc_q s)) (fetch_clk rd (held p) s)"
    using fetch_step [OF assms, of "held p"] False by simp
  from flight_drains [OF this, of p] have "fetch_at rd 1 (ic_line_addr (pc_q s)) (fetch_run rd (replicate 9 (held p)) (fetch_clk rd (held p) s))"
    by auto
  then have "fetch_valid_o (fetch_clk rd (held p) (fetch_run rd (replicate 9 (held p)) (fetch_clk rd (held p) s)))"
    by (intro answer_makes_valid) simp
  also have "fetch_clk rd (held p) (fetch_run rd (replicate 9 (held p)) (fetch_clk rd (held p) s)) = fetch_run rd (replicate 11 (held p)) s"
    by (simp add: fetch_run_def numeral_eq_Suc)
  finally show ?thesis by blast
qed (auto simp: fetch_run_def intro: exI [of _ 0])

lemma fetch_ok_served:
  assumes "fetch_ok rd s"
  shows "\<exists>n \<le> 21. fetch_valid_o (fetch_run rd (replicate n (held p)) s)"
proof -
  obtain k a where at: "fetch_at rd (k + 0) a s" using assms unfolding fetch_ok_def by auto
  then have k: "k \<le> 10" unfolding fetch_at_def flight_def by simp
  obtain b where "fetch_at rd 0 b (fetch_run rd (replicate k (held p)) s)" using flight_drains [OF at] by blast
  from idle_served [OF this] obtain n where n: "n \<le> 11"
    "fetch_valid_o (fetch_run rd (replicate n (held p)) (fetch_run rd (replicate k (held p)) s))" by blast
  then have "fetch_valid_o (fetch_run rd (replicate (k + n) (held p)) s)" by (simp add: fetch_run_append replicate_add)
  moreover have "k + n \<le> 21" using k n by simp
  ultimately show ?thesis by blast
qed

text \<open>C15. from every state that fetch reaches, a program counter that is held is served within 21 edges (a request
  under way for another line drains in at most 10, the fill of the missing line takes 11), with the word of
  memory at that address.\<close>

theorem fetch_progress:
  "\<exists>n \<le> 21. fetch_valid_o (fetch_run rd (is @ replicate n \<lparr> taken_branch_i = False, new_pc_i = p, stall_i = True \<rparr>) fetch_reset)
     \<and> fetch_instr_o (fetch_run rd (is @ replicate n \<lparr> taken_branch_i = False, new_pc_i = p, stall_i = True \<rparr>) fetch_reset)
       = rd (pc_q (fetch_run rd is fetch_reset) AND NOT 3)"
proof -
  let ?s = "fetch_run rd is fetch_reset"
  have ok: "fetch_ok rd ?s" by (rule fetch_ok_run [OF fetch_ok_reset])
  then obtain n where "n \<le> 21" and v: "fetch_valid_o (fetch_run rd (replicate n (held p)) ?s)" using fetch_ok_served by blast
  moreover have "fetch_instr_o (fetch_run rd (replicate n (held p)) ?s) = rd (pc_q ?s AND NOT 3)"
    using fetch_ok_instr [OF fetch_ok_run [OF ok]] v by simp
  ultimately show ?thesis by (auto simp: fetch_run_append)
qed

subsection \<open>The replacement\<close>

text \<open>A hit clears the one counter of its set whatever the way, and a fill with a cleared counter replaces
  way 0: a line that has just been used in way 0 is the next one to be replaced.\<close>

lemma lru_on_hit_clears: "h < 2 \<Longrightarrow> lru_on_hit h l = 0"
  by (auto simp: lru_on_hit_def two less_2_cases_iff)

lemma ic_hit_0:
  "ic_hit s pc = Some 0 \<Longrightarrow> \<not> (ic_valid (cache_mem s (ic_index pc) 1) \<and> ic_tag (cache_mem s (ic_index pc) 1) = ic_tag_in pc)"
  unfolding ic_hit_def two by (simp add: Let_def split: if_splits)

lemma hit_clears_counter:
  assumes "ic_hit s pc = Some w" "\<not> r_valid r"
  shows "cache_mem (icache_clk pc rdy r s) = cache_mem s" "lru_counter (icache_clk pc rdy r s) (ic_index pc) = 0"
  using assms lru_on_hit_clears [OF ic_hit_line(1) [OF assms(1)]] by (simp_all add: icache_clk_def Let_def)

lemma fill_with_clear_counter:
  assumes "r_valid r" "lru_counter s (ic_index (r_addr r)) = 0"
  shows "cache_mem (icache_clk pc rdy r s) (ic_index (r_addr r)) = (cache_mem s (ic_index (r_addr r)))(0 :=
      \<lparr> ic_valid = True, ic_tag = ic_tag_in (r_addr r), ic_data = r_data r \<rparr>)"
proof -
  have "lru_way 0 = 0" by (simp add: lru_way_def two)
  with assms show ?thesis by (cases "ic_hit s pc") (simp_all add: icache_clk_def Let_def)
qed

lemma last_used_line_is_replaced:
  assumes "ic_hit s pc = Some 0" "\<not> r_valid r0" "r_valid r" "ic_index (r_addr r) = ic_index pc" "ic_tag_in (r_addr r) \<noteq> ic_tag_in pc"
  shows "\<not> icache_valid_o (icache_clk pc' rdy r (icache_clk pc rdy0 r0 s)) pc"
proof -
  note mid = hit_clears_counter [OF assms(1,2), of rdy0]
  have m: "cache_mem (icache_clk pc' rdy r (icache_clk pc rdy0 r0 s)) (ic_index pc) = (cache_mem s (ic_index pc))(0 :=
      \<lparr> ic_valid = True, ic_tag = ic_tag_in (r_addr r), ic_data = r_data r \<rparr>)"
    using fill_with_clear_counter [OF assms(3), of "icache_clk pc rdy0 r0 s" pc' rdy] mid assms(4) by simp
  show ?thesis
    unfolding icache_valid_o_def ic_hit_iff m
    using ic_hit_0 [OF assms(1)] assms(5) by (simp add: less_Suc_eq numeral_2_eq_2)
qed

end
