(* ===== verification/Data_Cache.thy ===== *)
theory Data_Cache
  imports Instr_Cache
begin

text \<open>
  The data side of the memory system: \<^verbatim>\<open>rtl/caches/dcache.sv\<close> (sixteen direct-mapped lines of four words,
  write-through, a line is loaded before it is written) and \<^verbatim>\<open>rtl/caches/dmem_wrapper.sv\<close> (request and
  response pipes of five stages). The memory behind \<^verbatim>\<open>read_mem\<close> and \<^verbatim>\<open>write_mem\<close> is a function from
  addresses to words. A 128-bit line is the list of its words, least significant first.
\<close>

subsection \<open>dmem\_wrapper.sv\<close>

definition DLAT :: nat where "DLAT = 5"

record dmem_req =
  q_valid :: bool
  q_addr :: bus32_t
  q_we :: bool
  q_data :: "bus32_t list"

record dmem_wrapper =
  d_req_pipe :: "dmem_req list"
  d_rsp_pipe :: "(bool \<times> bus32_t) list"
  d_data_pipe :: "bus32_t list list"

definition no_req :: dmem_req where
  "no_req = \<lparr> q_valid = False, q_addr = 0, q_we = False, q_data = replicate 4 0 \<rparr>"

text \<open>The reset leaves the response pipe alone: it holds whatever \<open>g\<close> and \<open>h\<close> say.\<close>

definition dmem_reset :: "(nat \<Rightarrow> bool \<times> bus32_t) \<Rightarrow> (nat \<Rightarrow> bus32_t list) \<Rightarrow> dmem_wrapper" where
  "dmem_reset g h = \<lparr> d_req_pipe = replicate DLAT no_req, d_rsp_pipe = map g [0..<DLAT], d_data_pipe = map h [0..<DLAT] \<rparr>"

definition dmem_req_ready_o :: "dmem_wrapper \<Rightarrow> bool" where
  "dmem_req_ready_o w = ((\<forall>r \<in> set (d_req_pipe w). \<not> q_valid r) \<and> (\<forall>r \<in> set (d_rsp_pipe w). \<not> fst r))"

definition dmem_rsp_valid_o :: "dmem_wrapper \<Rightarrow> bool" where
  "dmem_rsp_valid_o w = fst (d_rsp_pipe w ! (DLAT - 1))"

definition dmem_data_line_o :: "dmem_wrapper \<Rightarrow> bus32_t list" where
  "dmem_data_line_o w = d_data_pipe w ! (DLAT - 1)"

definition read_words :: "(bus32_t \<Rightarrow> bus32_t) \<Rightarrow> bus32_t \<Rightarrow> bus32_t list" where
  "read_words m a = map (\<lambda>i. m (a + word_of_nat (4 * i))) [0..<4]"

definition write_words :: "bus32_t \<Rightarrow> bus32_t list \<Rightarrow> (bus32_t \<Rightarrow> bus32_t) \<Rightarrow> bus32_t \<Rightarrow> bus32_t" where
  "write_words a ws m = fold (\<lambda>i m. m(a + word_of_nat (4 * i) := ws ! i)) [0..<4] m"

definition dmem_clk :: "dmem_req \<Rightarrow> dmem_wrapper \<Rightarrow> (bus32_t \<Rightarrow> bus32_t) \<Rightarrow> dmem_wrapper \<times> (bus32_t \<Rightarrow> bus32_t)" where
  "dmem_clk i w m =
     (let r = d_req_pipe w ! (DLAT - 1)
      in (\<lparr> d_req_pipe = shift_in i (d_req_pipe w),
            d_rsp_pipe = shift_in (if q_valid r then (True, q_addr r) else (False, snd (d_rsp_pipe w ! 0))) (d_rsp_pipe w),
            d_data_pipe = shift_in (if q_valid r \<and> \<not> q_we r then read_words m (q_addr r) else d_data_pipe w ! 0) (d_data_pipe w) \<rparr>,
          if q_valid r \<and> q_we r then write_words (q_addr r) (q_data r) m else m))"

subsection \<open>dcache.sv\<close>

record dcache_line_t =
  dc_valid :: bool
  dc_tag :: "24 word"
  dc_data :: "bus32_t list"

datatype dc_state_t = IDLE | MISS | LOAD_LINE

record dcache =
  dc_mem :: "nat \<Rightarrow> dcache_line_t"
  dc_state :: dc_state_t

record dcache_in =
  dc_addr_i :: bus32_t
  dc_data_wr_i :: bus32_t
  dc_we_i :: bool
  dc_valid_i :: bool

definition dc_index :: "bus32_t \<Rightarrow> nat" where "dc_index a = unat (bits 4 a :: 4 word)"
definition dc_tag_in :: "bus32_t \<Rightarrow> 24 word" where "dc_tag_in a = bits 8 a"
definition dc_word :: "bus32_t \<Rightarrow> nat" where "dc_word a = unat (bits 2 a :: 2 word)"
definition dc_line_addr :: "bus32_t \<Rightarrow> bus32_t" where "dc_line_addr a = line_addr 4 a"

definition dcache_reset :: dcache where
  "dcache_reset = \<lparr> dc_mem = (\<lambda>_. \<lparr> dc_valid = False, dc_tag = 0, dc_data = replicate 4 0 \<rparr>), dc_state = IDLE \<rparr>"

definition dc_hit :: "dcache \<Rightarrow> bus32_t \<Rightarrow> bool" where
  "dc_hit s a = (let l = dc_mem s (dc_index a) in dc_valid l \<and> dc_tag l = dc_tag_in a)"

definition dcache_ready_o :: "dcache_in \<Rightarrow> bool \<Rightarrow> dcache \<Rightarrow> bool" where
  "dcache_ready_o i rsp_valid s = (dc_state s = IDLE \<and>
     (\<not> dc_valid_i i \<or> dc_hit s (dc_addr_i i) \<and> \<not> dc_we_i i \<or> dc_hit s (dc_addr_i i) \<and> dc_we_i i \<and> rsp_valid))"

fun dcache_next_state :: "dc_state_t \<Rightarrow> bool \<Rightarrow> bool \<Rightarrow> bool \<Rightarrow> dc_state_t" where
  "dcache_next_state IDLE valid_i hit rsp_valid = (if valid_i \<and> \<not> hit then MISS else IDLE)"
| "dcache_next_state MISS valid_i hit rsp_valid = (if rsp_valid then LOAD_LINE else MISS)"
| "dcache_next_state LOAD_LINE valid_i hit rsp_valid = IDLE"

definition dcache_data_rd_o :: "dcache_in \<Rightarrow> dcache \<Rightarrow> bus32_t" where
  "dcache_data_rd_o i s = (let a = dc_addr_i i in
     if dc_state s = IDLE \<and> dc_valid_i i \<and> dc_hit s a \<and> \<not> dc_we_i i then dc_data (dc_mem s (dc_index a)) ! dc_word a else 0)"

definition dcache_mem_req :: "dcache_in \<Rightarrow> bool \<Rightarrow> dcache \<Rightarrow> dmem_req" where
  "dcache_mem_req i req_ready s = (let a = dc_addr_i i in
     case dc_state s of
       IDLE \<Rightarrow> if dc_valid_i i \<and> dc_hit s a \<and> dc_we_i i
         then \<lparr> q_valid = True, q_addr = dc_line_addr a, q_we = True,
                q_data = (dc_data (dc_mem s (dc_index a)))[dc_word a := dc_data_wr_i i] \<rparr>
         else no_req
     | MISS \<Rightarrow> if req_ready then no_req\<lparr> q_valid := True, q_addr := dc_line_addr a \<rparr> else no_req
     | LOAD_LINE \<Rightarrow> no_req)"

definition dcache_clk :: "dcache_in \<Rightarrow> bool \<Rightarrow> bus32_t list \<Rightarrow> dcache \<Rightarrow> dcache" where
  "dcache_clk i rsp_valid mem_line s =
     (let a = dc_addr_i i; l = dc_mem s (dc_index a);
          l' = (case dc_state s of
                  IDLE \<Rightarrow> if dc_valid_i i \<and> dc_hit s a \<and> dc_we_i i
                    then l\<lparr> dc_data := (dc_data l)[dc_word a := dc_data_wr_i i] \<rparr> else l
                | MISS \<Rightarrow> l
                | LOAD_LINE \<Rightarrow> \<lparr> dc_valid = True, dc_tag = dc_tag_in a, dc_data = mem_line \<rparr>)
      in \<lparr> dc_mem = (dc_mem s)(dc_index a := l'),
           dc_state = dcache_next_state (dc_state s) (dc_valid_i i) (dc_hit s a) rsp_valid \<rparr>)"

subsection \<open>The data cache on its memory\<close>

text \<open>The two modules connected as in \<^verbatim>\<open>mem.sv\<close>, with the memory.\<close>

record dsys =
  ds_cache :: dcache
  ds_wrap :: dmem_wrapper
  ds_mem :: "bus32_t \<Rightarrow> bus32_t"

definition dsys_reset :: "(nat \<Rightarrow> bool \<times> bus32_t) \<Rightarrow> (nat \<Rightarrow> bus32_t list) \<Rightarrow> (bus32_t \<Rightarrow> bus32_t) \<Rightarrow> dsys" where
  "dsys_reset g h m = \<lparr> ds_cache = dcache_reset, ds_wrap = dmem_reset g h, ds_mem = m \<rparr>"

definition dsys_ready_o :: "dcache_in \<Rightarrow> dsys \<Rightarrow> bool" where
  "dsys_ready_o i s = dcache_ready_o i (dmem_rsp_valid_o (ds_wrap s)) (ds_cache s)"

definition dsys_data_o :: "dcache_in \<Rightarrow> dsys \<Rightarrow> bus32_t" where
  "dsys_data_o i s = dcache_data_rd_o i (ds_cache s)"

definition dsys_clk :: "dcache_in \<Rightarrow> dsys \<Rightarrow> dsys" where
  "dsys_clk i s =
     (let w = ds_wrap s;
          (w', m') = dmem_clk (dcache_mem_req i (dmem_req_ready_o w) (ds_cache s)) w (ds_mem s)
      in \<lparr> ds_cache = dcache_clk i (dmem_rsp_valid_o w) (dmem_data_line_o w) (ds_cache s), ds_wrap = w', ds_mem = m' \<rparr>)"

definition dsys_run :: "dcache_in list \<Rightarrow> dsys \<Rightarrow> dsys" where
  "dsys_run is s = fold dsys_clk is s"

text \<open>
  A client that holds a request until it is accepted. \<open>dsys_serve\<close> returns the data of that cycle and the
  state after the accepting edge and \<open>n\<close> further edges without a request.
\<close>

abbreviation idle_in :: dcache_in where
  "idle_in \<equiv> \<lparr> dc_addr_i = 0, dc_data_wr_i = 0, dc_we_i = False, dc_valid_i = False \<rparr>"

partial_function (option) dsys_hold :: "dcache_in \<Rightarrow> dsys \<Rightarrow> dsys option" where
  "dsys_hold i s = (if dsys_ready_o i s then Some s else dsys_hold i (dsys_clk i s))"

definition dsys_serve :: "dcache_in \<Rightarrow> nat \<Rightarrow> dsys \<Rightarrow> (bus32_t \<times> dsys) option" where
  "dsys_serve i n s = map_option (\<lambda>t. (dsys_data_o i t, dsys_run (replicate n idle_in) (dsys_clk i t))) (dsys_hold i s)"

subsection \<open>The pipes\<close>

text \<open>The valid bits of both pipes form one shift register of ten places.\<close>

definition vld :: "dmem_wrapper \<Rightarrow> bool list" where
  "vld w = map q_valid (d_req_pipe w) @ map fst (d_rsp_pipe w)"

definition dmem_wf :: "dmem_wrapper \<Rightarrow> bool" where
  "dmem_wf w \<longleftrightarrow> length (d_req_pipe w) = 5 \<and> length (d_rsp_pipe w) = 5 \<and> length (d_data_pipe w) = 5"

lemma length_5: "length xs = 5 \<longleftrightarrow> (\<exists>a b c d e. xs = [a, b, c, d, e])"
  by (auto simp: numeral_eq_Suc length_Suc_conv)

lemma dmem_wf_cases:
  assumes "dmem_wf w"
  obtains r0 r1 r2 r3 r4 s0 s1 s2 s3 s4 l0 l1 l2 l3 l4
  where "w = \<lparr> d_req_pipe = [r0, r1, r2, r3, r4], d_rsp_pipe = [s0, s1, s2, s3, s4], d_data_pipe = [l0, l1, l2, l3, l4] \<rparr>"
  using assms unfolding dmem_wf_def length_5 by (cases w) force

lemma dmem_clk_wf [simp]: "dmem_wf w \<Longrightarrow> dmem_wf (fst (dmem_clk i w m))"
  by (simp add: dmem_wf_def dmem_clk_def Let_def)

lemma vld_clk: "dmem_wf w \<Longrightarrow> vld (fst (dmem_clk i w m)) = shift_in (q_valid i) (vld w)"
  by (erule dmem_wf_cases) (simp add: vld_def dmem_clk_def Let_def shift_in_def DLAT_def)

lemma length_vld: "dmem_wf w \<Longrightarrow> length (vld w) = 10"
  by (simp add: vld_def dmem_wf_def)

lemma dmem_ready_vld: "dmem_req_ready_o w \<longleftrightarrow> True \<notin> set (vld w)"
  by (auto simp: dmem_req_ready_o_def vld_def image_iff)

lemma dmem_rsp_vld: "dmem_wf w \<Longrightarrow> dmem_rsp_valid_o w \<longleftrightarrow> vld w ! 9"
  by (erule dmem_wf_cases) (simp add: vld_def dmem_rsp_valid_o_def DLAT_def)

text \<open>Every request under way writes the line \<open>ws\<close> at \<open>a\<close>.\<close>

definition writes_of :: "bus32_t \<Rightarrow> bus32_t list \<Rightarrow> dmem_wrapper \<Rightarrow> bool" where
  "writes_of a ws w \<longleftrightarrow> (\<forall>r \<in> set (d_req_pipe w). q_valid r \<longrightarrow> q_we r \<and> q_addr r = a \<and> q_data r = ws)"

lemma writes_clk:
  assumes "dmem_wf w" "writes_of a ws w" "q_valid i \<Longrightarrow> q_we i \<and> q_addr i = a \<and> q_data i = ws"
  shows "writes_of a ws (fst (dmem_clk i w m))" "snd (dmem_clk i w m) = (if vld w ! 4 then write_words a ws m else m)"
  using assms(2,3) by (rule_tac dmem_wf_cases [OF assms(1)];
      simp add: writes_of_def vld_def dmem_clk_def Let_def shift_in_def DLAT_def)+

lemma data_clk:
  assumes "dmem_wf w" "writes_of a ws w"
  shows "d_data_pipe (fst (dmem_clk i w m)) = shift_in (d_data_pipe w ! 0) (d_data_pipe w)"
  using assms(2) by (rule_tac dmem_wf_cases [OF assms(1)]; auto simp: writes_of_def dmem_clk_def Let_def DLAT_def)

lemma no_writes: "True \<notin> set (vld w) \<Longrightarrow> writes_of a ws w"
  by (force simp: vld_def writes_of_def)

text \<open>One request under way, reading the line at \<open>a\<close>; its answer leaves in \<open>k\<close> edges, and the data pipe
  holds the line \<open>ws\<close> from its first place to the place of the answer.\<close>

definition read_at :: "nat \<Rightarrow> bus32_t \<Rightarrow> bus32_t list \<Rightarrow> dmem_wrapper \<Rightarrow> bool" where
  "read_at k a ws w \<longleftrightarrow> dmem_wf w \<and> k \<le> 10 \<and> vld w = map (\<lambda>i. k = 10 - i) [0..<10]
     \<and> (\<forall>r \<in> set (d_req_pipe w). q_valid r \<longrightarrow> \<not> q_we r \<and> q_addr r = a)
     \<and> (\<forall>j < 5. k + j \<le> 5 \<longrightarrow> d_data_pipe w ! j = ws)"

lemma ten: "map f [0..<10] = [f 0, f 1, f 2, f 3, f 4, f 5, f 6, f 7, f 8, f 9 :: 'a]"
  by (simp add: numeral_eq_Suc)

lemma all_less_5: "(\<forall>j < 5. P j) \<longleftrightarrow> P 0 \<and> P 1 \<and> P 2 \<and> P 3 \<and> P (4 :: nat)"
  by (simp add: numeral_eq_Suc less_Suc_eq all_conj_distrib imp_conjR)

lemma read_step:
  assumes "read_at k a ws w" "0 < k" "\<not> q_valid i" "read_words m a = ws"
  shows "read_at (k - 1) a ws (fst (dmem_clk i w m))" "snd (dmem_clk i w m) = m"
proof -
  have wf: "dmem_wf w" and "k \<le> 10" using assms(1) unfolding read_at_def by auto
  then have k: "k \<in> {1, 2, 3, 4, 5, 6, 7, 8, 9, 10}" using assms(2) by (simp, arith)
  obtain r0 r1 r2 r3 r4 s0 s1 s2 s3 s4 l0 l1 l2 l3 l4 where
    w: "w = \<lparr> d_req_pipe = [r0, r1, r2, r3, r4], d_rsp_pipe = [s0, s1, s2, s3, s4], d_data_pipe = [l0, l1, l2, l3, l4] \<rparr>"
    using wf by (rule dmem_wf_cases)
  show "read_at (k - 1) a ws (fst (dmem_clk i w m))" "snd (dmem_clk i w m) = m"
    using k assms unfolding w read_at_def ten vld_def all_less_5 dmem_wf_def dmem_clk_def
    by (elim insertE; simp add: DLAT_def Let_def shift_in_def)+
qed

lemma read_start:
  assumes "dmem_wf w" "True \<notin> set (vld w)" "q_valid i" "\<not> q_we i" "q_addr i = a"
  shows "read_at 10 a ws (fst (dmem_clk i w m))" "snd (dmem_clk i w m) = m"
  using assms(2-) by (rule_tac dmem_wf_cases [OF assms(1)];
      simp add: read_at_def vld_def ten dmem_wf_def dmem_clk_def Let_def shift_in_def DLAT_def)+

lemma read_at_0: "read_at 0 a ws w \<Longrightarrow> dmem_wf w \<and> True \<notin> set (vld w) \<and> dmem_data_line_o w = ws"
  unfolding read_at_def ten all_less_5 by (simp add: dmem_data_line_o_def DLAT_def)

lemma read_at_rsp:
  assumes "read_at k a ws w"
  shows "dmem_rsp_valid_o w \<longleftrightarrow> k = 1" "dmem_req_ready_o w \<longleftrightarrow> k = 0"
proof -
  have f: "dmem_wf w" "k \<le> 10" "vld w = map (\<lambda>i. k = 10 - i) [0..<10]" using assms unfolding read_at_def by auto
  from f(2) have k: "k \<in> {0, 1, 2, 3, 4, 5, 6, 7, 8, 9, 10}" by (simp, arith)
  show "dmem_rsp_valid_o w \<longleftrightarrow> k = 1" unfolding dmem_rsp_vld [OF f(1)] f(3) ten by auto
  show "dmem_req_ready_o w \<longleftrightarrow> k = 0" using k unfolding dmem_ready_vld f(3) ten by (elim insertE) simp_all
qed

subsection \<open>Lines of memory\<close>

lemma dc_line_fields [simp]: "dc_index (dc_line_addr a) = dc_index a" "dc_tag_in (dc_line_addr a) = dc_tag_in a"
  "dc_line_addr (dc_line_addr a) = dc_line_addr a"
  by (simp_all add: dc_line_addr_def dc_index_def dc_tag_in_def)

lemma dc_same_line:
  assumes "dc_line_addr b = b" "dc_index b = dc_index a" "dc_tag_in b = dc_tag_in a"
  shows "b = dc_line_addr a"
  unfolding dc_line_addr_def
  by (rule line_unique [where 'i = 4 and 't = 24])
     (use assms in \<open>simp_all add: dc_line_addr_def dc_index_def dc_tag_in_def unsigned_word_eqI\<close>)

lemma dc_line_word: "dc_line_addr a + word_of_nat (4 * dc_word a) = a AND NOT 3"
  unfolding dc_line_addr_def dc_word_def by (rule word_in_line) simp_all

lemma dc_word_less: "dc_word a < 4"
  using unsigned_less [of "bits 2 a :: 2 word"] by (simp add: dc_word_def)

lemma upt_4: "[0..<4] = [0, 1, 2, 3]"
  by (simp add: numeral_eq_Suc)

lemma offset_in_line: "i < 4 \<Longrightarrow> take_bit 4 (word_of_nat (4 * i)) = (word_of_nat (4 * i) :: bus32_t)"
proof -
  assume "i < 4"
  then have "i \<in> {0, 1, 2, 3}" by auto
  then show ?thesis by (elim insertE) simp_all
qed

lemma word_addr_inj:
  assumes "dc_line_addr a = a" "dc_line_addr b = b" "i < 4" "j < 4" "a + word_of_nat (4 * i) = b + word_of_nat (4 * j)"
  shows "a = b \<and> i = j"
proof -
  note off = line_of_offset [OF offset_in_line]
  have "line_addr 4 (a + word_of_nat (4 * i)) = a" "line_addr 4 (b + word_of_nat (4 * j)) = b"
    using off(1) [OF assms(3), of a] off(1) [OF assms(4), of b] assms(1,2) unfolding dc_line_addr_def by simp_all
  moreover have "(word_of_nat (4 * i) :: bus32_t) = word_of_nat (4 * j)"
    using off(2) [OF assms(3), of a] off(2) [OF assms(4), of b] assms(1,2,5) unfolding dc_line_addr_def by metis
  moreover have "i \<in> {0, 1, 2, 3}" "j \<in> {0, 1, 2, 3}" using assms(3,4) by auto
  ultimately show ?thesis using assms(5) by auto
qed

lemma read_line_word: "read_words m (dc_line_addr a) ! dc_word a = m (a AND NOT 3)"
  using dc_line_word [of a] dc_word_less [of a] by (simp add: read_words_def del: of_nat_mult)

text \<open>Writing back a line in which one word was replaced replaces that word of memory.\<close>


lemma write_one_word:
  "write_words (dc_line_addr a) ((read_words m (dc_line_addr a))[dc_word a := d]) m = m(a AND NOT 3 := d)"
proof
  fix x
  have w: "dc_word a \<in> {0, 1, 2, 3}" using dc_word_less [of a] by auto
  show "write_words (dc_line_addr a) ((read_words m (dc_line_addr a))[dc_word a := d]) m x = (m(a AND NOT 3 := d)) x"
    unfolding dc_line_word [of a, symmetric] using w
    by (elim insertE) (simp_all add: write_words_def read_words_def upt_4)
qed

lemma read_after_write:
  assumes "length ws = 4"
  shows "read_words (write_words (dc_line_addr a) ws m) (dc_line_addr a) = ws"
proof -
  obtain p q r s where "ws = [p, q, r, s]" using assms by (auto simp: numeral_eq_Suc length_Suc_conv)
  then show ?thesis by (simp add: write_words_def read_words_def upt_4)
qed

lemma read_other_line:
  assumes "dc_line_addr b = b" "b \<noteq> dc_line_addr a"
  shows "read_words (write_words (dc_line_addr a) ws m) b = read_words m b"
proof -
  have ne: "b + word_of_nat (4 * i) \<noteq> dc_line_addr a + word_of_nat (4 * j)" if "i < 4" "j < 4" for i j
    using word_addr_inj [of b "dc_line_addr a" i j] that assms by auto
  have "fold (\<lambda>i m. m(dc_line_addr a + word_of_nat (4 * i) := ws ! i)) js m (b + word_of_nat (4 * i)) = m (b + word_of_nat (4 * i))"
    if "i < 4" "\<forall>j \<in> set js. j < 4" for i js m
    using that(2) by (induction js arbitrary: m) (simp_all add: ne [OF that(1)] del: of_nat_mult)
  then show ?thesis unfolding read_words_def write_words_def by (simp del: of_nat_mult)
qed

lemma write_twice: "length ws = 4 \<Longrightarrow> write_words a ws (write_words a ws m) = write_words a ws m"
proof
  fix x assume "length ws = 4"
  show "write_words a ws (write_words a ws m) x = write_words a ws m x" by (simp add: write_words_def upt_4)
qed

text \<open>Every valid line of the cache is the line of memory at its address.\<close>

definition dc_coherent :: "(bus32_t \<Rightarrow> bus32_t) \<Rightarrow> (nat \<Rightarrow> dcache_line_t) \<Rightarrow> bool" where
  "dc_coherent m c \<longleftrightarrow> (\<forall>i. dc_valid (c i) \<longrightarrow> (\<exists>a. dc_line_addr a = a \<and> dc_index a = i
     \<and> dc_tag_in a = dc_tag (c i) \<and> dc_data (c i) = read_words m a))"

lemma coherent_hit:
  assumes "dc_coherent m (dc_mem s)" "dc_hit s a"
  shows "dc_data (dc_mem s (dc_index a)) = read_words m (dc_line_addr a)"
  using assms dc_same_line [of _ a] unfolding dc_coherent_def dc_hit_def Let_def by metis

lemma coherent_load:
  "dc_coherent m c \<Longrightarrow> dc_coherent m (c(dc_index a := \<lparr> dc_valid = True, dc_tag = dc_tag_in a, dc_data = read_words m (dc_line_addr a) \<rparr>))"
  unfolding dc_coherent_def by (auto intro: exI [of _ "dc_line_addr a"])

lemma coherent_store:
  assumes "dc_coherent m c" "dc_tag (c (dc_index a)) = dc_tag_in a" "length ws = 4"
  shows "dc_coherent (write_words (dc_line_addr a) ws m) (c(dc_index a := (c (dc_index a))\<lparr> dc_data := ws \<rparr>))"
  unfolding dc_coherent_def
proof (intro allI impI)
  fix i assume v: "dc_valid ((c(dc_index a := (c (dc_index a))\<lparr> dc_data := ws \<rparr>)) i)"
  show "\<exists>b. dc_line_addr b = b \<and> dc_index b = i \<and> dc_tag_in b = dc_tag ((c(dc_index a := (c (dc_index a))\<lparr> dc_data := ws \<rparr>)) i)
    \<and> dc_data ((c(dc_index a := (c (dc_index a))\<lparr> dc_data := ws \<rparr>)) i) = read_words (write_words (dc_line_addr a) ws m) b"
  proof (cases "i = dc_index a")
    case True
    with assms(2,3) show ?thesis by (auto simp: read_after_write intro: exI [of _ "dc_line_addr a"])
  next
    case False
    with v assms(1) obtain b where b: "dc_line_addr b = b" "dc_index b = i" "dc_tag_in b = dc_tag (c i)" "dc_data (c i) = read_words m b"
      unfolding dc_coherent_def by auto
    then have "b \<noteq> dc_line_addr a" using False by auto
    with b False show ?thesis using read_other_line [of b a] by auto
  qed
qed

subsection \<open>A request that is held\<close>

lemma dsys_run_simps [simp]: "dsys_run [] s = s" "dsys_run (i # is) s = dsys_run is (dsys_clk i s)"
  by (simp_all add: dsys_run_def)

lemma dsys_parts:
  "ds_cache (dsys_clk i s) = dcache_clk i (dmem_rsp_valid_o (ds_wrap s)) (dmem_data_line_o (ds_wrap s)) (ds_cache s)"
  "ds_wrap (dsys_clk i s) = fst (dmem_clk (dcache_mem_req i (dmem_req_ready_o (ds_wrap s)) (ds_cache s)) (ds_wrap s) (ds_mem s))"
  "ds_mem (dsys_clk i s) = snd (dmem_clk (dcache_mem_req i (dmem_req_ready_o (ds_wrap s)) (ds_cache s)) (ds_wrap s) (ds_mem s))"
  by (simp_all add: dsys_clk_def Let_def case_prod_beta)

lemma hold_ready: "dsys_ready_o i s \<Longrightarrow> dsys_hold i s = Some s"
  by (subst dsys_hold.simps) simp

lemma hold_wait: "\<not> dsys_ready_o i s \<Longrightarrow> dsys_hold i s = dsys_hold i (dsys_clk i s)"
  by (subst dsys_hold.simps) simp

text \<open>Nothing is under way and the cache agrees with memory.\<close>

definition dquiet :: "dsys \<Rightarrow> bool" where
  "dquiet s \<longleftrightarrow> dmem_wf (ds_wrap s) \<and> True \<notin> set (vld (ds_wrap s)) \<and> dc_state (ds_cache s) = IDLE
     \<and> dc_coherent (ds_mem s) (dc_mem (ds_cache s))"

lemma quiet_idle_req:
  assumes "dmem_wf w" "True \<notin> set (vld w)" "\<not> q_valid i"
  shows "True \<notin> set (vld (fst (dmem_clk i w m)))" "snd (dmem_clk i w m) = m"
proof -
  show "True \<notin> set (vld (fst (dmem_clk i w m)))"
    using assms(2,3) unfolding vld_clk [OF assms(1)] by (auto simp: shift_in_def dest: in_set_butlastD)
  have "vld w ! 4 \<in> set (vld w)" using length_vld [OF assms(1)] by (intro nth_mem) simp
  then have "\<not> vld w ! 4" using assms(2) by metis
  then show "snd (dmem_clk i w m) = m"
    using writes_clk(2) [OF assms(1) no_writes [OF assms(2)], of i] assms(3) by simp
qed

text \<open>A miss: the line is read and loaded, and the request is still not accepted.\<close>

definition missing :: "dcache_in \<Rightarrow> dsys \<Rightarrow> dsys \<Rightarrow> bool" where
  "missing i s0 s \<longleftrightarrow> dc_state (ds_cache s) \<noteq> IDLE \<and> dc_mem (ds_cache s) = dc_mem (ds_cache s0) \<and> ds_mem s = ds_mem s0"

lemma missing_not_ready: "missing i s0 s \<Longrightarrow> dsys_hold i s = dsys_hold i (dsys_clk i s)"
  by (rule hold_wait) (simp add: missing_def dsys_ready_o_def dcache_ready_o_def)

definition fetching :: "dcache_in \<Rightarrow> nat \<Rightarrow> dsys \<Rightarrow> dsys \<Rightarrow> bool" where
  "fetching i k s0 s \<longleftrightarrow> missing i s0 s \<and> dc_state (ds_cache s) = (if k = 0 then LOAD_LINE else MISS)
     \<and> read_at k (dc_line_addr (dc_addr_i i)) (read_words (ds_mem s0) (dc_line_addr (dc_addr_i i))) (ds_wrap s)"

lemma fetching_step:
  assumes "fetching i k s0 s" "0 < k"
  shows "fetching i (k - 1) s0 (dsys_clk i s)"
proof -
  note f = assms(1) [unfolded fetching_def missing_def]
  let ?w = "ds_wrap s"
  have r: "read_at k (dc_line_addr (dc_addr_i i)) (read_words (ds_mem s0) (dc_line_addr (dc_addr_i i))) ?w" using f by blast
  have st: "dc_state (ds_cache s) = MISS" and m: "ds_mem s = ds_mem s0" using f assms(2) by auto
  have "dmem_req_ready_o ?w = False" "dmem_rsp_valid_o ?w \<longleftrightarrow> k = 1" using read_at_rsp [OF r] assms(2) by auto
  moreover have q: "\<not> q_valid (dcache_mem_req i False (ds_cache s))" using st by (simp add: dcache_mem_req_def no_req_def)
  ultimately show ?thesis
    using read_step [OF r assms(2) q refl] f st m
    by (auto simp: fetching_def missing_def dsys_parts dcache_clk_def Let_def m)
qed

lemma fetching_hold:
  "fetching i k s0 s \<Longrightarrow> \<exists>t. fetching i 0 s0 t \<and> dsys_hold i s = dsys_hold i t"
proof (induction k arbitrary: s)
  case (Suc k)
  have "fetching i k s0 (dsys_clk i s)" using fetching_step [OF Suc.prems] by simp
  moreover have "dsys_hold i s = dsys_hold i (dsys_clk i s)"
    using Suc.prems missing_not_ready unfolding fetching_def by blast
  ultimately show ?case using Suc.IH by metis
qed blast

lemma miss_loads:
  assumes "dquiet s" "dc_valid_i i" "\<not> dc_hit (ds_cache s) (dc_addr_i i)"
  obtains t where "dquiet t" "dc_hit (ds_cache t) (dc_addr_i i)" "ds_mem t = ds_mem s" "dsys_hold i s = dsys_hold i t"
proof -
  let ?a = "dc_addr_i i"
  note q = assms(1) [unfolded dquiet_def]
  have wf: "dmem_wf (ds_wrap s)" and idle: "True \<notin> set (vld (ds_wrap s))" using q by auto
  let ?s1 = "dsys_clk i s"
  have "\<not> q_valid (dcache_mem_req i r (ds_cache s))" for r using q assms(3) by (simp add: dcache_mem_req_def no_req_def)
  note w1 = quiet_idle_req [OF wf idle this]
  have s1: "dc_state (ds_cache ?s1) = MISS" "dc_mem (ds_cache ?s1) = dc_mem (ds_cache s)" "ds_mem ?s1 = ds_mem s"
    "dmem_wf (ds_wrap ?s1)" "True \<notin> set (vld (ds_wrap ?s1))"
    using q assms(2,3) w1 by (simp_all add: dsys_parts dcache_clk_def Let_def)
  have h0: "dsys_hold i s = dsys_hold i ?s1"
    by (rule hold_wait) (simp add: dsys_ready_o_def dcache_ready_o_def assms)
  let ?s2 = "dsys_clk i ?s1"
  have req: "dcache_mem_req i (dmem_req_ready_o (ds_wrap ?s1)) (ds_cache ?s1) = no_req\<lparr> q_valid := True, q_addr := dc_line_addr ?a \<rparr>"
    using s1 by (simp add: dcache_mem_req_def dmem_ready_vld)
  have "vld (ds_wrap ?s1) ! 9 \<in> set (vld (ds_wrap ?s1))" using length_vld [OF s1(4)] by (intro nth_mem) simp
  then have nr: "\<not> dmem_rsp_valid_o (ds_wrap ?s1)" using s1(5) dmem_rsp_vld [OF s1(4)] by metis
  have "dc_state (ds_cache ?s2) = MISS" "dc_mem (ds_cache ?s2) = dc_mem (ds_cache s)"
    using s1(1,2) nr by (simp_all add: dsys_parts(1) [of i ?s1] dcache_clk_def Let_def)
  moreover have "read_at 10 (dc_line_addr ?a) (read_words (ds_mem s) (dc_line_addr ?a)) (ds_wrap ?s2)" "ds_mem ?s2 = ds_mem s"
    using read_start [OF s1(4,5), of "no_req\<lparr> q_valid := True, q_addr := dc_line_addr ?a \<rparr>"] s1(3)
    unfolding dsys_parts(2,3) [of i ?s1] req by (simp_all add: no_req_def)
  ultimately have "fetching i 10 s ?s2" by (simp add: fetching_def missing_def)
  moreover have h1: "dsys_hold i ?s1 = dsys_hold i ?s2"
    by (rule hold_wait) (simp add: dsys_ready_o_def dcache_ready_o_def s1)
  ultimately obtain u where u: "fetching i 0 s u" "dsys_hold i ?s2 = dsys_hold i u" using fetching_hold by blast
  note f = u(1) [unfolded fetching_def missing_def]
  have r: "dmem_wf (ds_wrap u)" "True \<notin> set (vld (ds_wrap u))" "dmem_data_line_o (ds_wrap u) = read_words (ds_mem s) (dc_line_addr ?a)"
    using read_at_0 f by blast+
  let ?t = "dsys_clk i u"
  have "\<not> q_valid (dcache_mem_req i r (ds_cache u))" for r using f by (simp add: dcache_mem_req_def no_req_def)
  note wt = quiet_idle_req [OF r(1,2) this]
  have line: "dc_mem (ds_cache ?t) = (dc_mem (ds_cache s))(dc_index ?a := \<lparr> dc_valid = True, dc_tag = dc_tag_in ?a, dc_data = read_words (ds_mem s) (dc_line_addr ?a) \<rparr>)"
    using f r by (simp add: dsys_parts dcache_clk_def Let_def)
  have "dquiet ?t" using q f r wt unfolding dquiet_def line by (simp add: dsys_parts dcache_clk_def Let_def coherent_load)
  moreover have "dc_hit (ds_cache ?t) ?a" by (simp add: dc_hit_def line)
  moreover have "ds_mem ?t = ds_mem s" using f wt by (simp add: dsys_parts)
  moreover have "dsys_hold i s = dsys_hold i ?t"
    using h0 h1 u(2) missing_not_ready u(1) unfolding fetching_def by metis
  ultimately show ?thesis using that by blast
qed

text \<open>A store that hits: its request is sent on every edge until the first answer arrives, ten edges later.\<close>

definition storing :: "dcache_in \<Rightarrow> bus32_t list \<Rightarrow> nat \<Rightarrow> dsys \<Rightarrow> dsys \<Rightarrow> bool" where
  "storing i ws n s0 s \<longleftrightarrow> dc_state (ds_cache s) = IDLE \<and> dmem_wf (ds_wrap s)
     \<and> vld (ds_wrap s) = replicate n True @ replicate (10 - n) False
     \<and> writes_of (dc_line_addr (dc_addr_i i)) ws (ds_wrap s)
     \<and> (dc_data (dc_mem (ds_cache s) (dc_index (dc_addr_i i))))[dc_word (dc_addr_i i) := dc_data_wr_i i] = ws
     \<and> (dc_mem (ds_cache s))(dc_index (dc_addr_i i) := (dc_mem (ds_cache s) (dc_index (dc_addr_i i)))\<lparr> dc_data := ws \<rparr>)
       = (dc_mem (ds_cache s0))(dc_index (dc_addr_i i) := (dc_mem (ds_cache s0) (dc_index (dc_addr_i i)))\<lparr> dc_data := ws \<rparr>)
     \<and> dc_hit (ds_cache s) (dc_addr_i i)
     \<and> (\<forall>j \<le> n. j < 5 \<longrightarrow> d_data_pipe (ds_wrap s) ! j = d_data_pipe (ds_wrap s0) ! 0)
     \<and> ds_mem s = (if 5 < n then write_words (dc_line_addr (dc_addr_i i)) ws (ds_mem s0) else ds_mem s0)"

lemma hit_cong:
  "dc_valid (dc_mem t (dc_index a)) = dc_valid (dc_mem s (dc_index a)) \<Longrightarrow> dc_tag (dc_mem t (dc_index a)) = dc_tag (dc_mem s (dc_index a))
   \<Longrightarrow> dc_hit t a = dc_hit s a"
  by (simp add: dc_hit_def Let_def)

lemma store_clk:
  assumes "storing i ws n s0 s" "dc_valid_i i" "dc_we_i i" "length ws = 4"
  defines "t \<equiv> dsys_clk i s"
  shows "dc_state (ds_cache t) = IDLE" "dmem_wf (ds_wrap t)" "vld (ds_wrap t) = shift_in True (vld (ds_wrap s))"
    "writes_of (dc_line_addr (dc_addr_i i)) ws (ds_wrap t)"
    "dc_mem (ds_cache t) = (dc_mem (ds_cache s0))(dc_index (dc_addr_i i) := (dc_mem (ds_cache s0) (dc_index (dc_addr_i i)))\<lparr> dc_data := ws \<rparr>)"
    "dc_hit (ds_cache t) (dc_addr_i i)"
    "ds_mem t = (if vld (ds_wrap s) ! 4 then write_words (dc_line_addr (dc_addr_i i)) ws (ds_mem s) else ds_mem s)"
    "d_data_pipe (ds_wrap t) = shift_in (d_data_pipe (ds_wrap s) ! 0) (d_data_pipe (ds_wrap s))"
proof -
  note f = assms(1) [unfolded storing_def]
  let ?a = "dc_addr_i i"
  let ?q = "\<lparr> q_valid = True, q_addr = dc_line_addr ?a, q_we = True, q_data = ws \<rparr>"
  have req: "dcache_mem_req i r (ds_cache s) = ?q" for r using f assms(2,3) by (simp add: dcache_mem_req_def Let_def)
  have wf: "dmem_wf (ds_wrap s)" and wr: "writes_of (dc_line_addr ?a) ws (ds_wrap s)" using f by auto
  show "dmem_wf (ds_wrap t)" using wf by (simp add: t_def dsys_parts)
  show "vld (ds_wrap t) = shift_in True (vld (ds_wrap s))" using vld_clk [OF wf] by (simp add: t_def dsys_parts req)
  show "writes_of (dc_line_addr ?a) ws (ds_wrap t)" using writes_clk(1) [OF wf wr, of ?q] by (simp add: t_def dsys_parts req)
  show "ds_mem t = (if vld (ds_wrap s) ! 4 then write_words (dc_line_addr ?a) ws (ds_mem s) else ds_mem s)"
    using writes_clk(2) [OF wf wr, of ?q] by (simp add: t_def dsys_parts req)
  show "d_data_pipe (ds_wrap t) = shift_in (d_data_pipe (ds_wrap s) ! 0) (d_data_pipe (ds_wrap s))"
    using data_clk [OF wf wr] by (simp add: t_def dsys_parts)
  show "dc_state (ds_cache t) = IDLE" using f assms(2) by (simp add: t_def dsys_parts dcache_clk_def Let_def)
  have "dc_mem (ds_cache t) = (dc_mem (ds_cache s))(dc_index ?a := (dc_mem (ds_cache s) (dc_index ?a))\<lparr> dc_data := ws \<rparr>)"
    using f assms(2,3) by (simp add: t_def dsys_parts dcache_clk_def Let_def)
  then show m: "dc_mem (ds_cache t) = (dc_mem (ds_cache s0))(dc_index ?a := (dc_mem (ds_cache s0) (dc_index ?a))\<lparr> dc_data := ws \<rparr>)"
    using f by simp
  have "dc_hit (ds_cache s) ?a" using f by blast
  moreover have "dc_mem (ds_cache t) = (dc_mem (ds_cache s))(dc_index ?a := (dc_mem (ds_cache s) (dc_index ?a))\<lparr> dc_data := ws \<rparr>)"
    using f m by simp
  ultimately show "dc_hit (ds_cache t) ?a" using hit_cong [of "ds_cache t" ?a "ds_cache s"] by simp
qed

lemma storing_step:
  assumes "storing i ws n s0 s" "n < 10" "dc_valid_i i" "dc_we_i i" "length ws = 4" "dc_word (dc_addr_i i) < 4"
    "ws ! dc_word (dc_addr_i i) = dc_data_wr_i i"
  shows "storing i ws (Suc n) s0 (dsys_clk i s)" "dsys_hold i s = dsys_hold i (dsys_clk i s)"
proof -
  note f = assms(1) [unfolded storing_def]
  note c = store_clk [OF assms(1,3,4,5)]
  have v: "vld (ds_wrap s) = replicate n True @ replicate (10 - n) False" using f by blast
  obtain j where j: "10 - n = Suc j" using assms(2) by (metis diff_is_0_eq not_less old.nat.exhaust)
  have "shift_in True (vld (ds_wrap s)) = replicate (Suc n) True @ replicate (10 - Suc n) False"
  proof -
    have "butlast (replicate (Suc j) False) = replicate j False" by (simp only: butlast_conv_take length_replicate take_replicate) simp
    moreover have "10 - Suc n = j" using j by simp
    ultimately show ?thesis unfolding v j by (simp add: shift_in_def butlast_append del: replicate.simps(2)) simp
  qed
  moreover have "vld (ds_wrap s) ! 4 \<longleftrightarrow> 4 < n" using assms(2) unfolding v by (simp add: nth_append)
  moreover have "ws[dc_word (dc_addr_i i) := dc_data_wr_i i] = ws" using assms(7) by (metis list_update_id)
  moreover have "length (d_data_pipe (ds_wrap s)) = 5" using f unfolding dmem_wf_def by blast
  then have "d_data_pipe (ds_wrap (dsys_clk i s)) ! j = d_data_pipe (ds_wrap s0) ! 0" if "j \<le> Suc n" "j < 5" for j
    using f that unfolding c(8) by (cases j) simp_all
  ultimately show "storing i ws (Suc n) s0 (dsys_clk i s)"
    using c(1-7) f write_twice [OF assms(5)] unfolding storing_def by auto
  have "\<not> vld (ds_wrap s) ! 9" using assms(2) unfolding v by (simp add: nth_append)
  then show "dsys_hold i s = dsys_hold i (dsys_clk i s)"
    using f dmem_rsp_vld [of "ds_wrap s"] assms(3,4)
    by (intro hold_wait) (simp add: dsys_ready_o_def dcache_ready_o_def)
qed

lemma storing_hold:
  assumes "dc_valid_i i" "dc_we_i i" "length ws = 4" "dc_word (dc_addr_i i) < 4" "ws ! dc_word (dc_addr_i i) = dc_data_wr_i i"
  shows "n + k = 10 \<Longrightarrow> storing i ws n s0 s \<Longrightarrow> \<exists>t. storing i ws 10 s0 t \<and> dsys_hold i s = Some t"
proof (induction k arbitrary: n s)
  case 0
  then have st: "storing i ws 10 s0 s" by simp
  then have "vld (ds_wrap s) ! 9" "dmem_wf (ds_wrap s)" unfolding storing_def by simp_all
  then have "dsys_ready_o i s" using st dmem_rsp_vld assms(1,2)
    unfolding storing_def by (simp add: dsys_ready_o_def dcache_ready_o_def)
  with st hold_ready show ?case by blast
next
  case (Suc k)
  then have "n < 10" by simp
  note step = storing_step [OF Suc.prems(2) this assms]
  from Suc.IH [OF _ step(1)] Suc.prems(1) step(2) show ?case by simp
qed

text \<open>Edges without a request: the pipes drain.\<close>

definition draining :: "bus32_t \<Rightarrow> bus32_t list \<Rightarrow> dsys \<Rightarrow> bool" where
  "draining a ws s \<longleftrightarrow> dc_state (ds_cache s) = IDLE \<and> dmem_wf (ds_wrap s) \<and> writes_of a ws (ds_wrap s)
     \<and> (True \<in> set (take 5 (vld (ds_wrap s))) \<longrightarrow> write_words a ws (ds_mem s) = ds_mem s)"

lemma drain_step:
  assumes "draining a ws s" "\<not> dc_valid_i i"
  shows "draining a ws (dsys_clk i s)" "ds_cache (dsys_clk i s) = ds_cache s" "ds_mem (dsys_clk i s) = ds_mem s"
    "vld (ds_wrap (dsys_clk i s)) = shift_in False (vld (ds_wrap s))"
proof -
  note f = assms(1) [unfolded draining_def]
  have wf: "dmem_wf (ds_wrap s)" and wr: "writes_of a ws (ds_wrap s)" using f by auto
  have req: "dcache_mem_req i r (ds_cache s) = no_req" for r using f assms(2) by (simp add: dcache_mem_req_def Let_def)
  have nv: "\<not> q_valid no_req" by (simp add: no_req_def)
  show v: "vld (ds_wrap (dsys_clk i s)) = shift_in False (vld (ds_wrap s))"
    using vld_clk [OF wf, of no_req] nv by (simp add: dsys_parts req)
  show c: "ds_cache (dsys_clk i s) = ds_cache s" using f assms(2) by (simp add: dsys_parts dcache_clk_def Let_def)
  have "True \<in> set (take 5 (vld (ds_wrap s)))" if "vld (ds_wrap s) ! 4"
    using that length_vld [OF wf] by (auto simp: in_set_conv_nth intro: exI [of _ 4])
  then show m: "ds_mem (dsys_clk i s) = ds_mem s"
    using writes_clk(2) [OF wf wr, of no_req] nv f by (auto simp: dsys_parts req)
  have "True \<in> set (take 5 (vld (ds_wrap s)))" if "True \<in> set (take 5 (shift_in False (vld (ds_wrap s))))"
    using that set_take_subset_set_take [of 4 5 "vld (ds_wrap s)"]
    by (auto simp: shift_in_def take_Cons' take_butlast length_vld [OF wf])
  then show "draining a ws (dsys_clk i s)"
    using f wf writes_clk(1) [OF wf wr, of no_req] nv unfolding draining_def m v c
    by (simp add: dsys_parts req)
qed

lemma drain_run:
  "draining a ws s \<Longrightarrow> draining a ws (dsys_run (replicate n idle_in) s)
     \<and> ds_cache (dsys_run (replicate n idle_in) s) = ds_cache s \<and> ds_mem (dsys_run (replicate n idle_in) s) = ds_mem s
     \<and> vld (ds_wrap (dsys_run (replicate n idle_in) s)) = ((shift_in False) ^^ n) (vld (ds_wrap s))"
proof (induction n arbitrary: s)
  case (Suc n)
  note d = drain_step [OF Suc.prems, of idle_in]
  from Suc.IH [of "dsys_clk idle_in s"] d show ?case by (simp add: funpow_swap1)
qed simp

lemma shifted_out:
  "length xs = k \<Longrightarrow> k \<le> n \<Longrightarrow> 0 < k \<Longrightarrow> True \<notin> set (((shift_in False) ^^ n) xs)"
proof -
  assume k: "length xs = k" "k \<le> n" "0 < k"
  have "((shift_in False) ^^ n) xs = replicate (min n k) False @ take (k - n) xs" for n
  proof (induction n)
    case (Suc n)
    show ?case
    proof (cases "n < k")
      case True
      then have "take (k - n) xs \<noteq> []" "butlast (take (k - n) xs) = take (k - Suc n) xs"
        using k by (auto simp: butlast_take)
      with Suc True show ?thesis by (simp add: shift_in_def butlast_append)
    next
      case False
      have "butlast (replicate k False) = replicate (k - 1) False" by (simp add: butlast_conv_take)
      moreover have "False # replicate (k - 1) False = replicate k False" using k(3) by (cases k) simp_all
      ultimately show ?thesis using Suc False by (simp add: shift_in_def)
    qed
  qed (use k in simp)
  then show ?thesis using k by simp
qed

lemma drained:
  assumes "draining a ws s" "10 \<le> n" "dc_coherent (ds_mem s) (dc_mem (ds_cache s))"
  shows "dquiet (dsys_run (replicate n idle_in) s)" "ds_mem (dsys_run (replicate n idle_in) s) = ds_mem s"
proof -
  note d = drain_run [OF assms(1), of n]
  have "length (vld (ds_wrap s)) = 10" using assms(1) length_vld unfolding draining_def by blast
  from shifted_out [OF this assms(2)] d assms(3) show "dquiet (dsys_run (replicate n idle_in) s)"
    unfolding dquiet_def by (auto simp: draining_def)
  show "ds_mem (dsys_run (replicate n idle_in) s) = ds_mem s" using d by blast
qed

lemma quiet_idle:
  assumes "dquiet s"
  shows "dquiet (dsys_run (replicate n idle_in) s)" "ds_mem (dsys_run (replicate n idle_in) s) = ds_mem s"
proof -
  have "draining 0 [] s" if "dquiet s" for s
    using that no_writes [of "ds_wrap s" 0 "[]"] unfolding dquiet_def draining_def by (auto dest: in_set_takeD)
  note d = drain_step [OF this, of _ idle_in]
  have step: "dquiet (dsys_clk idle_in s) \<and> ds_mem (dsys_clk idle_in s) = ds_mem s" if "dquiet s" for s
    using d [OF that] that unfolding dquiet_def draining_def by (auto simp: shift_in_def dest: in_set_butlastD)
  have "dquiet (dsys_run (replicate n idle_in) s) \<and> ds_mem (dsys_run (replicate n idle_in) s) = ds_mem s"
    using assms step by (induction n arbitrary: s) simp_all
  then show "dquiet (dsys_run (replicate n idle_in) s)" "ds_mem (dsys_run (replicate n idle_in) s) = ds_mem s" by blast+
qed

subsection \<open>Requests one by one\<close>

lemma serve_idle:
  assumes "dquiet s" "\<not> dc_valid_i i"
  shows "\<exists>t. dsys_serve i n s = Some (0, t) \<and> dquiet t \<and> ds_mem t = ds_mem s"
proof -
  have h: "dsys_hold i s = Some s"
    using assms by (intro hold_ready) (simp add: dquiet_def dsys_ready_o_def dcache_ready_o_def)
  have "draining 0 [] s" using assms(1) no_writes [of "ds_wrap s" 0 "[]"] unfolding dquiet_def draining_def by (auto dest: in_set_takeD)
  note d = drain_step [OF this assms(2)]
  have q: "dquiet (dsys_clk i s)"
    using d assms(1) unfolding dquiet_def draining_def by (auto simp: shift_in_def dest: in_set_butlastD)
  show ?thesis using quiet_idle [OF q, of n] h d(3) assms(2)
    by (simp add: dsys_serve_def dsys_data_o_def dcache_data_rd_o_def Let_def)
qed

lemma serve_hit:
  assumes "dquiet s" "dc_valid_i i" "dc_hit (ds_cache s) (dc_addr_i i)" "\<not> dc_we_i i"
  shows "\<exists>t. dsys_serve i n s = Some (ds_mem s (dc_addr_i i AND NOT 3), t) \<and> dquiet t \<and> ds_mem t = ds_mem s"
proof -
  let ?a = "dc_addr_i i"
  note q = assms(1) [unfolded dquiet_def]
  have wf: "dmem_wf (ds_wrap s)" and idle: "True \<notin> set (vld (ds_wrap s))" using q by auto
  have h: "dsys_hold i s = Some s"
    using assms by (intro hold_ready) (simp add: dquiet_def dsys_ready_o_def dcache_ready_o_def)
  have "\<not> q_valid (dcache_mem_req i r (ds_cache s))" for r using q assms(4) by (simp add: dcache_mem_req_def no_req_def)
  note w = quiet_idle_req [OF wf idle this]
  have c: "dquiet (dsys_clk i s)" "ds_mem (dsys_clk i s) = ds_mem s"
    using q w assms(3,4) unfolding dquiet_def by (simp_all add: dsys_parts dcache_clk_def Let_def)
  have "dsys_data_o i s = ds_mem s (?a AND NOT 3)"
    using q assms coherent_hit [of "ds_mem s" "ds_cache s" ?a]
    by (simp add: dsys_data_o_def dcache_data_rd_o_def Let_def read_line_word)
  then show ?thesis using quiet_idle [OF c(1), of n] c(2) h by (simp add: dsys_serve_def)
qed

lemma store_hit_accepted:
  assumes "dquiet s" "dc_valid_i i" "dc_hit (ds_cache s) (dc_addr_i i)" "dc_we_i i"
  obtains u where "storing i ((read_words (ds_mem s) (dc_line_addr (dc_addr_i i)))[dc_word (dc_addr_i i) := dc_data_wr_i i]) 10 s u"
    "dsys_hold i s = Some u"
proof -
  let ?a = "dc_addr_i i" and ?d = "dc_data_wr_i i"
  let ?ws = "(read_words (ds_mem s) (dc_line_addr ?a))[dc_word ?a := ?d]"
  note q = assms(1) [unfolded dquiet_def]
  have len: "length ?ws = 4" by (simp add: read_words_def)
  have lt: "dc_word ?a < 4" by (rule dc_word_less)
  have at: "?ws ! dc_word ?a = ?d" using lt by (simp add: read_words_def)
  have "vld (ds_wrap s) = replicate 10 False"
    using q length_vld [of "ds_wrap s"] by (intro replicate_eqI) auto
  moreover have "dc_data (dc_mem (ds_cache s) (dc_index ?a)) = read_words (ds_mem s) (dc_line_addr ?a)"
    using q assms(3) coherent_hit by blast
  ultimately have "storing i ?ws 0 s s"
    using q assms(3) no_writes [of "ds_wrap s"] by (simp add: storing_def)
  from storing_hold [OF assms(2,4) len lt at, of 0 10, OF _ this] that show ?thesis by auto
qed

lemma serve_store_hit:
  assumes "dquiet s" "dc_valid_i i" "dc_hit (ds_cache s) (dc_addr_i i)" "dc_we_i i" "10 \<le> n"
  shows "\<exists>t. dsys_serve i n s = Some (0, t) \<and> dquiet t \<and> ds_mem t = (ds_mem s)(dc_addr_i i AND NOT 3 := dc_data_wr_i i)"
proof -
  let ?a = "dc_addr_i i" and ?d = "dc_data_wr_i i"
  let ?ws = "(read_words (ds_mem s) (dc_line_addr ?a))[dc_word ?a := ?d]"
  note q = assms(1) [unfolded dquiet_def]
  have len: "length ?ws = 4" by (simp add: read_words_def)
  obtain u where u: "storing i ?ws 10 s u" "dsys_hold i s = Some u"
    using store_hit_accepted [OF assms(1-4)] by blast
  let ?t = "dsys_clk i u"
  note f = u(1) [unfolded storing_def]
  note c = store_clk [OF u(1) assms(2,4) len]
  have m: "ds_mem ?t = write_words (dc_line_addr ?a) ?ws (ds_mem s)"
    using c(7) f by (simp add: write_twice [OF len])
  have dr: "draining (dc_line_addr ?a) ?ws ?t"
    using c(1,2,4) write_twice [OF len, of "dc_line_addr ?a" "ds_mem s"] unfolding draining_def m by simp
  have "dc_tag (dc_mem (ds_cache s) (dc_index ?a)) = dc_tag_in ?a" using assms(3) by (simp add: dc_hit_def Let_def)
  then have "dc_coherent (ds_mem ?t) (dc_mem (ds_cache ?t))"
    using q coherent_store [OF _ _ len] unfolding c(5) m by blast
  note fin = drained [OF dr assms(5) this]
  have "dsys_data_o i u = 0" using assms(4) by (simp add: dsys_data_o_def dcache_data_rd_o_def Let_def)
  then show ?thesis using fin u(2) m by (simp add: dsys_serve_def write_one_word)
qed

text \<open>What the memory does with a request.\<close>

definition memory_serve :: "dcache_in \<Rightarrow> (bus32_t \<Rightarrow> bus32_t) \<Rightarrow> bus32_t \<times> (bus32_t \<Rightarrow> bus32_t)" where
  "memory_serve i m = (if \<not> dc_valid_i i then (0, m)
     else if dc_we_i i then (0, m(dc_addr_i i AND NOT 3 := dc_data_wr_i i))
     else (m (dc_addr_i i AND NOT 3), m))"

lemma serve_correct:
  assumes "dquiet s" "dc_we_i i \<longrightarrow> 10 \<le> n"
  shows "\<exists>t. dsys_serve i n s = Some (fst (memory_serve i (ds_mem s)), t) \<and> dquiet t \<and> ds_mem t = snd (memory_serve i (ds_mem s))"
proof (cases "dc_valid_i i")
  case True
  obtain s' where s': "dquiet s'" "dc_hit (ds_cache s') (dc_addr_i i)" "ds_mem s' = ds_mem s" "dsys_hold i s = dsys_hold i s'"
    using miss_loads [OF assms(1) True] assms(1) by blast
  then have "dsys_serve i n s = dsys_serve i n s'" by (simp add: dsys_serve_def)
  with serve_hit [OF s'(1) True s'(2), of n] serve_store_hit [OF s'(1) True s'(2), of n] s'(3) assms(2) True show ?thesis
    by (cases "dc_we_i i") (simp_all add: memory_serve_def)
next
  case False
  with serve_idle [OF assms(1), of i n] show ?thesis by (simp add: memory_serve_def)
qed

text \<open>A conversation: each request is held until it is accepted and followed by \<open>n\<close> edges without a request,
  after a store by ten more.\<close>

fun dsys_serves :: "(dcache_in \<times> nat) list \<Rightarrow> dsys \<Rightarrow> (bus32_t list \<times> dsys) option" where
  "dsys_serves [] s = Some ([], s)"
| "dsys_serves ((i, n) # ops) s =
     (case dsys_serve i (if dc_we_i i then 10 + n else n) s of None \<Rightarrow> None
      | Some (d, t) \<Rightarrow> map_option (\<lambda>(ds, u). (d # ds, u)) (dsys_serves ops t))"

fun memory_serves :: "(dcache_in \<times> nat) list \<Rightarrow> (bus32_t \<Rightarrow> bus32_t) \<Rightarrow> bus32_t list \<times> (bus32_t \<Rightarrow> bus32_t)" where
  "memory_serves [] m = ([], m)"
| "memory_serves ((i, n) # ops) m =
     (let (d, m') = memory_serve i m; (ds, m'') = memory_serves ops m' in (d # ds, m''))"

lemma serves_correct:
  "dquiet s \<Longrightarrow> map_option (map_prod id ds_mem) (dsys_serves ops s) = Some (memory_serves ops (ds_mem s))"
proof (induction ops arbitrary: s)
  case (Cons x ops)
  obtain i n where x: "x = (i, n)" by (cases x)
  obtain t where t: "dsys_serve i (if dc_we_i i then 10 + n else n) s = Some (fst (memory_serve i (ds_mem s)), t)" "dquiet t"
    "ds_mem t = snd (memory_serve i (ds_mem s))"
    using serve_correct [OF Cons.prems, of i "if dc_we_i i then 10 + n else n"] by auto
  from Cons.IH [OF t(2)] t show ?case by (auto simp: x case_prod_beta prod_eq_iff)
qed simp

lemma reset_drains:
  "draining 0 [] (dsys_reset g h m) \<and> dc_coherent m (dc_mem (ds_cache (dsys_reset g h m)))"
  by (simp add: draining_def dsys_reset_def dcache_reset_def dmem_wf_def dmem_reset_def writes_of_def no_req_def vld_def
      dc_coherent_def DLAT_def)

text \<open>C14. The data cache and its memory wrapper implement a memory. After reset, with any contents of the response
  pipe, which the reset does not clear, and ten edges without a request, every request that is held is accepted in the
  end; loads return the word stored last, stores change that word only, and nothing else changes. The client has to
  leave ten edges after a store, while its requests drain.\<close>

theorem data_cache_implements_memory:
  "map_option (map_prod id ds_mem) (dsys_serves ops (dsys_run (replicate (10 + k) idle_in) (dsys_reset g h m)))
     = Some (memory_serves ops m)"
proof -
  have r: "draining 0 [] (dsys_reset g h m)" "dc_coherent (ds_mem (dsys_reset g h m)) (dc_mem (ds_cache (dsys_reset g h m)))"
    using reset_drains [of g h m] by (simp_all add: dsys_reset_def)
  note d = drained [OF r(1) le_add1 r(2), of k]
  from serves_correct [OF d(1), of ops] show ?thesis unfolding d(2) by (simp add: dsys_reset_def)
qed

subsection \<open>Without the ten edges\<close>

text \<open>
  The answers of a store go on arriving for ten edges after it was accepted. A load that misses in that
  time takes the first of them for its own: it returns a word of the line that was read last, whatever the
  memory holds at its address.
\<close>

lemma waiting_step:
  assumes "dmem_wf (ds_wrap s)" "writes_of a ws (ds_wrap s)" "True \<in> set (vld (ds_wrap s))" "\<not> dc_we_i j"
  defines "t \<equiv> dsys_clk j s"
  shows "dmem_wf (ds_wrap t)" "writes_of a ws (ds_wrap t)" "vld (ds_wrap t) = shift_in False (vld (ds_wrap s))"
    "d_data_pipe (ds_wrap t) = shift_in (d_data_pipe (ds_wrap s) ! 0) (d_data_pipe (ds_wrap s))"
proof -
  have q: "\<not> q_valid (dcache_mem_req j (dmem_req_ready_o (ds_wrap s)) (ds_cache s))"
    using assms(3,4) by (simp add: dcache_mem_req_def no_req_def dmem_ready_vld Let_def split: dc_state_t.split)
  show "dmem_wf (ds_wrap t)" using assms(1) by (simp add: t_def dsys_parts)
  show "writes_of a ws (ds_wrap t)" unfolding t_def dsys_parts
    by (rule writes_clk(1) [OF assms(1,2)]) (use q in blast)
  show "vld (ds_wrap t) = shift_in False (vld (ds_wrap s))" using vld_clk [OF assms(1)] q by (simp add: t_def dsys_parts)
  show "d_data_pipe (ds_wrap t) = shift_in (d_data_pipe (ds_wrap s) ! 0) (d_data_pipe (ds_wrap s))"
    using data_clk [OF assms(1,2)] by (simp add: t_def dsys_parts)
qed

lemma load_after_store_reads_wrong_line:
  assumes "dquiet s" "dc_valid_i i" "dc_hit (ds_cache s) (dc_addr_i i)" "dc_we_i i"
    and "dc_valid_i j" "\<not> dc_we_i j" "\<not> dc_hit (ds_cache s) (dc_addr_i j)"
  shows "\<exists>t u. dsys_serve i 0 s = Some (0, t) \<and> dsys_serve j 0 t = Some (d_data_pipe (ds_wrap s) ! 0 ! dc_word (dc_addr_i j), u)"
proof -
  let ?ws = "(read_words (ds_mem s) (dc_line_addr (dc_addr_i i)))[dc_word (dc_addr_i i) := dc_data_wr_i i]"
  have len: "length ?ws = 4" by (simp add: read_words_def)
  obtain u where u: "storing i ?ws 10 s u" "dsys_hold i s = Some u" using store_hit_accepted [OF assms(1-4)] by blast
  note f = u(1) [unfolded storing_def]
  let ?t = "dsys_clk i u"
  note c = store_clk [OF u(1) assms(2,4) len]
  have full: "vld (ds_wrap ?t) = replicate 10 True" using c(3) f by (simp add: shift_in_def numeral_eq_Suc)
  have miss: "\<not> dc_hit (ds_cache ?t) (dc_addr_i j)"
    using assms(7) unfolding dc_hit_def c(5)
    by (cases "dc_index (dc_addr_i j) = dc_index (dc_addr_i i)") (simp_all add: Let_def)
  have data: "length (d_data_pipe (ds_wrap u)) = 5" "d_data_pipe (ds_wrap u) ! 1 = d_data_pipe (ds_wrap s) ! 0"
    using f unfolding dmem_wf_def by auto
  note w1 = waiting_step [OF c(2,4) _ assms(6)]
  let ?t1 = "dsys_clk j ?t"
  have s1: "dc_state (ds_cache ?t1) = MISS" "dmem_wf (ds_wrap ?t1)" "writes_of (dc_line_addr (dc_addr_i i)) ?ws (ds_wrap ?t1)"
    "vld (ds_wrap ?t1) = False # replicate 9 True"
    using w1 full miss c(1) assms(5) by (simp_all add: dsys_parts(1) [of j ?t] dcache_clk_def Let_def shift_in_def numeral_eq_Suc)
  note w2 = waiting_step [OF s1(2,3) _ assms(6)]
  let ?t2 = "dsys_clk j ?t1"
  have s2: "dc_state (ds_cache ?t2) = LOAD_LINE" "dmem_data_line_o (ds_wrap ?t2) = d_data_pipe (ds_wrap s) ! 0"
    using w2 s1 dmem_rsp_vld [OF s1(2)] w1(4) full c(8) data
    by (simp_all add: dsys_parts(1) [of j ?t1] dcache_clk_def Let_def dmem_data_line_o_def DLAT_def numeral_eq_Suc)
  let ?t3 = "dsys_clk j ?t2"
  have s3: "dc_state (ds_cache ?t3) = IDLE"
    "dc_mem (ds_cache ?t3) (dc_index (dc_addr_i j)) = \<lparr> dc_valid = True, dc_tag = dc_tag_in (dc_addr_i j), dc_data = d_data_pipe (ds_wrap s) ! 0 \<rparr>"
    using s2 by (simp_all add: dsys_parts(1) [of j ?t2] dcache_clk_def Let_def)
  then have hit: "dc_hit (ds_cache ?t3) (dc_addr_i j)" by (simp add: dc_hit_def)
  have "dsys_hold j ?t = dsys_hold j ?t1" by (rule hold_wait) (use miss assms(5) in \<open>simp add: dsys_ready_o_def dcache_ready_o_def\<close>)
  also have "\<dots> = dsys_hold j ?t2" by (rule hold_wait) (simp add: dsys_ready_o_def dcache_ready_o_def s1(1))
  also have "\<dots> = dsys_hold j ?t3" by (rule hold_wait) (simp add: dsys_ready_o_def dcache_ready_o_def s2(1))
  also have "\<dots> = Some ?t3" by (rule hold_ready) (simp add: dsys_ready_o_def dcache_ready_o_def s3(1) hit assms(6))
  finally have "dsys_serve j 0 ?t = Some (d_data_pipe (ds_wrap s) ! 0 ! dc_word (dc_addr_i j), dsys_clk j ?t3)"
    using s3 hit assms(5,6) by (simp add: dsys_serve_def dsys_data_o_def dcache_data_rd_o_def)
  moreover have "dsys_serve i 0 s = Some (0, ?t)"
    using u(2) assms(4) by (simp add: dsys_serve_def dsys_data_o_def dcache_data_rd_o_def Let_def)
  ultimately show ?thesis by blast
qed

text \<open>The line that arrives is stored at the address of the moment: when the request changes during a miss, as it does
  when a store leaves the store buffer in that time, it is stored as a line it is not.\<close>

lemma line_tagged_with_current_address:
  assumes "dc_state s = LOAD_LINE"
  shows "dc_hit (dcache_clk i r ws s) (dc_addr_i i)" "dc_data (dc_mem (dcache_clk i r ws s) (dc_index (dc_addr_i i))) = ws"
  using assms by (simp_all add: dcache_clk_def dc_hit_def Let_def)

end
