(* ===== verification/Exe_Pipeline.thy ===== *)
theory Exe_Pipeline
  imports Exe_Units "HOL-Library.Multiset"
begin

text \<open>
  The sequential part of \<^verbatim>\<open>rtl/datapath/exe\<close>: the multiplier's delay registers
  (\<^verbatim>\<open>mul.sv\<close>) and the metadata pipe of \<^verbatim>\<open>exe.sv\<close> that lets a 5-stage multiplication
  and 1-stage operations share the stage's single exit.
\<close>

subsection \<open>mul.sv\<close>

text \<open>\<^verbatim>\<open>delay[0] <= result; delay[i] <= delay[i-1]\<close>, with \<^verbatim>\<open>EXE_STAGES_MULT - 1\<close> registers.\<close>

definition mul_reset :: "bus32_t list" where
  "mul_reset = replicate (EXE_STAGES_MULT - 1) 0"

definition mul_clk :: "bus32_t \<times> bus32_t \<Rightarrow> bus32_t list \<Rightarrow> bus32_t list" where
  "mul_clk ab delay = shift_in (mul_result (fst ab) (snd ab)) delay"

definition mul_out :: "bus32_t list \<Rightarrow> bus32_t" where
  "mul_out delay = delay ! (EXE_STAGES_MULT - 2)"

definition mul_ok :: "bus32_t list \<Rightarrow> bool" where
  "mul_ok delay = (length delay = EXE_STAGES_MULT - 1)"

lemmas mul_defs = mul_reset_def mul_clk_def mul_out_def mul_ok_def EXE_STAGES_MULT_def

lemma mul_clk_fold:
  "fold mul_clk xs q = fold shift_in (map (\<lambda>ab. mul_result (fst ab) (snd ab)) xs) q"
  by (induction xs arbitrary: q) (simp_all add: mul_clk_def)

interpretation mul_pipe: latency_unit mul_clk mul_ok mul_out "\<lambda>ab. mul_result (fst ab) (snd ab)"
  "EXE_STAGES_MULT - 1"
proof unfold_locales
  fix s x assume "mul_ok s"
  then show "mul_ok (mul_clk x s)" by (cases s) (auto simp: mul_defs)
next
  fix s :: "bus32_t list" and xs :: "(bus32_t \<times> bus32_t) list" and x
  assume s: "mul_ok s" and xs: "length xs = EXE_STAGES_MULT - 1 - 1"
  let ?ys = "map (\<lambda>ab. mul_result (fst ab) (snd ab)) xs"
  from s have "s \<noteq> []" by (auto simp: mul_defs)
  then have "fold shift_in ?ys (mul_clk x s) ! (length ?ys + 0) = mul_clk x s ! 0"
    using s xs by (subst fold_shift_in [THEN conjunct1]) (simp_all add: mul_defs)
  then show "mul_out (fold mul_clk xs (mul_clk x s)) = mul_result (fst x) (snd x)"
    using xs by (simp add: mul_clk_fold mul_out_def mul_clk_def EXE_STAGES_MULT_def numeral_3_eq_3)
qed (simp add: mul_defs)

subsection \<open>exe.sv\<close>

record exe_state =
  exe_pipe_q :: "decode_to_exe_t list"
  mul_delay :: "bus32_t list"

definition exe_reset :: exe_state where
  "exe_reset = \<lparr> exe_pipe_q = replicate MAX_EXE_STAGES NOP_INSTR, mul_delay = mul_reset \<rparr>"

text \<open>
  The combinational block: shift, clear position 0, then place the incoming instruction at the
  position from which it needs \<^verbatim>\<open>exe_stages\<close> edges to leave, unless that position is taken,
  which stalls it. An index past the array (\<^verbatim>\<open>exe_stages\<close> is 0 in the all-zero word the
  stage register holds after reset) reads as invalid and the write is dropped.
\<close>

definition exe_shifted :: "exe_state \<Rightarrow> decode_to_exe_t list" where
  "exe_shifted s = shift_in NOP_INSTR (exe_pipe_q s)"

definition exe_slot :: "decode_to_exe_t \<Rightarrow> nat" where
  "exe_slot d = MAX_EXE_STAGES - exe_stages (de_instr d)"

definition exe_stall :: "decode_to_exe_t \<Rightarrow> exe_state \<Rightarrow> bool" where
  "exe_stall d s = (exe_slot d < MAX_EXE_STAGES \<and> de_valid (exe_shifted s ! exe_slot d))"

definition exe_pipe_d :: "decode_to_exe_t \<Rightarrow> exe_state \<Rightarrow> decode_to_exe_t list" where
  "exe_pipe_d d s = (if exe_stall d s then exe_shifted s else (exe_shifted s)[exe_slot d := d])"

definition exe_out :: "decode_to_exe_t \<Rightarrow> exe_state \<Rightarrow> exe_to_mem_t" where
  "exe_out d s =
     (let x = exe_pipe_d d s ! (MAX_EXE_STAGES - 1)
      in \<lparr> em_instr = de_instr x,
           em_valid = de_valid x,
           em_data_rs2 = data_rs2 x,
           em_result = (if is_mul (de_instr x) then mul_out (mul_delay s) else res_alu d),
           em_branch_taken = (taken_branch d \<and> jump_kind (de_instr x) \<noteq> BNONE \<and> de_valid x) \<rparr>)"

definition exe_clk :: "decode_to_exe_t \<Rightarrow> exe_state \<Rightarrow> exe_state" where
  "exe_clk d s = \<lparr> exe_pipe_q = exe_pipe_d d s,
                   mul_delay = mul_clk (alu_data_rs1 d, alu_data_rs2 d) (mul_delay s) \<rparr>"

lemmas exe_defs = exe_shifted_def exe_slot_def exe_stall_def exe_pipe_d_def exe_out_def
  exe_clk_def MAX_EXE_STAGES_def EXE_STAGES_MULT_def EXE_STAGES_DEFAULT_def

subsection \<open>Invariants and helper lemmas\<close>

definition exe_ok :: "exe_state \<Rightarrow> bool" where
  "exe_ok s = (length (exe_pipe_q s) = MAX_EXE_STAGES \<and> mul_ok (mul_delay s))"

text \<open>What the decoder produces, and the all-zero stage register after reset.\<close>

definition stages_ok :: "decode_to_exe_t \<Rightarrow> bool" where
  "stages_ok d = (exe_stages (de_instr d) \<in> {0, EXE_STAGES_DEFAULT, EXE_STAGES_MULT})"

lemma MAX5: "MAX_EXE_STAGES = 5"
  by (simp add: exe_defs)

lemma exe_ok_reset: "exe_ok exe_reset"
  by (simp add: exe_ok_def exe_reset_def mul_defs)

lemma exe_ok_clk: "exe_ok s \<Longrightarrow> exe_ok (exe_clk d s)"
  using mul_pipe.ok_clk by (auto simp: exe_ok_def exe_clk_def exe_pipe_d_def exe_shifted_def MAX5)

lemma length_shifted: "exe_ok s \<Longrightarrow> length (exe_shifted s) = 5"
  by (auto simp: exe_ok_def exe_shifted_def MAX5)

lemma shifted_nth: "exe_ok s \<Longrightarrow> i < 4 \<Longrightarrow> exe_shifted s ! Suc i = exe_pipe_q s ! i"
  by (simp add: exe_ok_def exe_shifted_def MAX5)

lemma shifted_0: "exe_shifted s ! 0 = NOP_INSTR"
  by (simp add: exe_shifted_def)

lemma NOP_invalid [simp]: "\<not> de_valid NOP_INSTR"
  by (simp add: NOP_INSTR_def)

lemma slot_cases:
  assumes "stages_ok d"
  obtains "exe_slot d = 5" | "exe_slot d = 4" "exe_stages (de_instr d) = 1"
    | "exe_slot d = 0" "exe_stages (de_instr d) = 5"
  using assms by (auto simp: stages_ok_def exe_defs)

lemma pipe_d_middle:
  assumes "exe_ok s" "stages_ok d" "1 \<le> i" "i \<le> 3"
  shows "exe_pipe_d d s ! i = exe_shifted s ! i"
  using assms(2) by (cases rule: slot_cases) (use assms in \<open>auto simp: exe_pipe_d_def\<close>)

lemma clk_moves:
  assumes "exe_ok s" "stages_ok d" "i < 3"
  shows "exe_pipe_q (exe_clk d s) ! Suc i = exe_pipe_q s ! i"
  using assms pipe_d_middle [of s d "Suc i"] by (simp add: exe_clk_def shifted_nth)

lemma fold_moves:
  assumes "exe_ok s" "\<forall>x\<in>set xs. stages_ok x" "length xs + i < 4"
  shows "exe_pipe_q (fold exe_clk xs s) ! (length xs + i) = exe_pipe_q s ! i
    \<and> exe_ok (fold exe_clk xs s)"
  using assms
proof (induction xs arbitrary: s i)
  case (Cons x xs)
  have "exe_pipe_q (fold exe_clk xs (exe_clk x s)) ! (length xs + Suc i)
      = exe_pipe_q (exe_clk x s) ! Suc i \<and> exe_ok (fold exe_clk xs (exe_clk x s))"
    using Cons.prems by (intro Cons.IH) (auto simp: exe_ok_clk)
  with Cons.prems show ?case by (simp add: clk_moves)
qed simp

lemma fold_mul_delay:
  "mul_delay (fold exe_clk xs s) =
     fold mul_clk (map (\<lambda>x. (alu_data_rs1 x, alu_data_rs2 x)) xs) (mul_delay s)"
  by (induction xs arbitrary: s) (simp_all add: exe_clk_def)

lemma stall_iff:
  assumes "exe_ok s" "stages_ok d"
  shows "exe_stall d s \<longleftrightarrow> exe_stages (de_instr d) = 1 \<and> de_valid (exe_pipe_q s ! 3)"
  using assms(2)
proof (cases rule: slot_cases)
  case 2
  with assms(1) shifted_nth [of s 3] show ?thesis by (simp add: exe_stall_def MAX5)
qed (use assms(1) in \<open>auto simp: exe_stall_def MAX5 shifted_0 exe_slot_def\<close>)

subsection \<open>Properties\<close>

text \<open>C12. A multiplication that enters the execute stage leaves it exactly four clock edges later
  with the product of the operands it entered with, whatever instructions enter in between,
  and at that moment every 1-stage instruction waiting at the entrance is stalled, so the two
  never compete for the exit.\<close>

theorem exe_mul_latency:
  assumes "exe_ok s" and "is_mul (de_instr m)" and "exe_stages (de_instr m) = EXE_STAGES_MULT"
    and "de_valid m" and "length xs = 3" and "\<forall>x \<in> set (y # xs). stages_ok x"
  shows "let t = fold exe_clk xs (exe_clk m s) in
    em_valid (exe_out y t) \<and> em_instr (exe_out y t) = de_instr m
    \<and> em_result (exe_out y t) = alu_data_rs1 m * alu_data_rs2 m
    \<and> (exe_stall y t \<longleftrightarrow> exe_stages (de_instr y) = EXE_STAGES_DEFAULT)"
proof -
  let ?t = "fold exe_clk xs (exe_clk m s)"
  have ok: "exe_ok (exe_clk m s)" using assms(1) by (rule exe_ok_clk)
  have "exe_slot m = 0" using assms(3) by (simp add: exe_defs)
  then have m0: "exe_pipe_q (exe_clk m s) ! 0 = m"
    using assms(1) length_shifted [of s]
    by (simp add: exe_clk_def exe_pipe_d_def exe_stall_def shifted_0)
  have t: "exe_pipe_q ?t ! 3 = m" "exe_ok ?t"
    using fold_moves [OF ok, of xs 0] assms(5,6) m0 by auto
  have st: "exe_stall y ?t \<longleftrightarrow> exe_stages (de_instr y) = 1"
    using stall_iff [OF t(2)] assms(4,6) t(1) by simp
  have exit: "exe_pipe_d y ?t ! 4 = m"
  proof -
    have sh: "exe_shifted ?t ! 4 = m" using shifted_nth [OF t(2), of 3] t(1) by simp
    have "stages_ok y" using assms(6) by simp
    then show ?thesis
      by (cases rule: slot_cases) (use sh st in \<open>auto simp: exe_pipe_d_def\<close>)
  qed
  have "mul_ok (mul_delay s)" using assms(1) by (simp add: exe_ok_def)
  then have "mul_out (mul_delay ?t) = mul_result (alu_data_rs1 m) (alu_data_rs2 m)"
    using mul_pipe.latency [of "mul_delay s" "map (\<lambda>x. (alu_data_rs1 x, alu_data_rs2 x)) xs"
        "(alu_data_rs1 m, alu_data_rs2 m)"] assms(5)
    by (simp add: fold_mul_delay exe_clk_def EXE_STAGES_MULT_def)
  then show ?thesis
    using exit st assms(2,4) by (simp add: exe_out_def MAX5 EXE_STAGES_DEFAULT_def mul_result_def)
qed

definition sample_mul :: decode_to_exe_t where
  "sample_mul = \<lparr> de_instr = NOP_INSTR_data\<lparr> is_mul := True, exe_stages := 5 \<rparr>, de_valid = True,
     data_rs1 = 7, data_rs2 = 6, immediate = 0 \<rparr>"

theorem exe_mul_latency_witness:
  "em_result (exe_out NOP_INSTR (fold exe_clk [NOP_INSTR, NOP_INSTR, NOP_INSTR]
     (exe_clk sample_mul exe_reset))) = 42"
  using exe_mul_latency [OF exe_ok_reset, of sample_mul "[NOP_INSTR, NOP_INSTR, NOP_INSTR]" NOP_INSTR]
  by (simp add: sample_mul_def stages_ok_def NOP_INSTR_def NOP_INSTR_data_def Let_def
      alu_data_rs1_def alu_data_rs2_def EXE_STAGES_MULT_def EXE_STAGES_DEFAULT_def)

text \<open>A 1-stage instruction that is not stalled leaves the execute stage in the same cycle,
  with its own ALU result and its own branch decision.\<close>

theorem exe_single_cycle:
  assumes "exe_ok s" and "exe_stages (de_instr d) = EXE_STAGES_DEFAULT"
    and "\<not> is_mul (de_instr d)" and "\<not> exe_stall d s"
  shows "exe_out d s = \<lparr> em_instr = de_instr d, em_valid = de_valid d, em_data_rs2 = data_rs2 d,
    em_result = res_alu d, em_branch_taken = (taken_branch d \<and> de_valid d) \<rparr>"
proof -
  have "exe_slot d = 4" using assms(2) by (simp add: exe_defs)
  then have "exe_pipe_d d s ! 4 = d"
    using assms(1,4) length_shifted [of s] by (simp add: exe_pipe_d_def)
  then show ?thesis
    using assms(3) by (cases "jump_kind (de_instr d)")
      (auto simp: exe_out_def MAX5 taken_branch_def branch_unit_def)
qed

theorem exe_single_cycle_witness:
  "exe_out (NOP_INSTR\<lparr> de_valid := True, data_rs1 := 2, data_rs2 := 3 \<rparr>) exe_reset =
    \<lparr> em_instr = NOP_INSTR_data, em_valid = True, em_data_rs2 = 3, em_result = 5,
      em_branch_taken = False \<rparr>"
proof -
  let ?d = "NOP_INSTR\<lparr> de_valid := True, data_rs1 := 2, data_rs2 := 3 \<rparr>"
  have "stages_ok ?d" by (simp add: stages_ok_def NOP_INSTR_def NOP_INSTR_data_def EXE_STAGES_DEFAULT_def)
  then have "\<not> exe_stall ?d exe_reset"
    by (simp add: stall_iff [OF exe_ok_reset]) (simp add: exe_reset_def MAX5)
  then have "exe_out ?d exe_reset = \<lparr> em_instr = de_instr ?d, em_valid = de_valid ?d,
      em_data_rs2 = data_rs2 ?d, em_result = res_alu ?d,
      em_branch_taken = (taken_branch ?d \<and> de_valid ?d) \<rparr>"
    by (intro exe_single_cycle exe_ok_reset)
       (simp_all add: NOP_INSTR_def NOP_INSTR_data_def EXE_STAGES_DEFAULT_def)
  then show ?thesis
    by (simp add: NOP_INSTR_def NOP_INSTR_data_def res_alu_def alu_data_rs1_def alu_data_rs2_def
        taken_branch_def branch_unit_def)
qed

subsection \<open>Nothing is lost, duplicated or exchanged\<close>

text \<open>
  What the decoder hands over: an instruction that is valid is a multiplication of five stages that does
  not branch, or takes one stage. An invalid one is a bubble, or the all-zero word after reset.
\<close>

definition issue_ok :: "decode_to_exe_t \<Rightarrow> bool" where
  "issue_ok d \<longleftrightarrow> stages_ok d \<and> (de_valid d \<longrightarrow>
     exe_stages (de_instr d) = (if is_mul (de_instr d) then EXE_STAGES_MULT else EXE_STAGES_DEFAULT)
     \<and> (is_mul (de_instr d) \<longrightarrow> jump_kind (de_instr d) = BNONE))"

definition issue_instr :: "instr_data_t \<Rightarrow> bool" where
  "issue_instr i \<longleftrightarrow> exe_stages i = (if is_mul i then 5 else 1) \<and> (is_mul i \<longrightarrow> jump_kind i = BNONE)"

lemma issue_if: "issue_instr x \<Longrightarrow> issue_instr y \<Longrightarrow> issue_instr (if c then x else y)"
  by simp

lemma issue_opcode: "issue_instr (decode_opcode w (decode_common pc w idx n))"
proof -
  note parts = issue_instr_def decode_common_def illegal_as_nop_def NOP_INSTR_data_def EXE_STAGES_MULT_def
  have i: "issue_instr (decode_alu_i w (decode_common pc w idx n))"
    unfolding decode_alu_i_def Let_def by (intro issue_if) (simp_all add: parts)
  have r: "issue_instr (decode_alu w (decode_common pc w idx n))"
    unfolding decode_alu_def Let_def by (intro issue_if) (simp_all add: parts)
  have b: "issue_instr (decode_branch w (decode_common pc w idx n))"
    unfolding decode_branch_def Let_def by (intro issue_if) (simp_all add: parts)
  show ?thesis
    unfolding decode_opcode_def Let_def by (intro issue_if i r b) (simp_all add: parts)
qed

lemma issue_hardwire: "issue_instr i \<Longrightarrow> issue_instr (hardwire_sources w i)"
  by (simp add: issue_instr_def hardwire_sources_def Let_def)

lemma decoder_issue_ok: "issue_ok \<lparr> de_instr = decoder pc w idx n, de_valid = v, data_rs1 = a, data_rs2 = b, immediate = c \<rparr>"
  using issue_hardwire [OF issue_opcode, of w w pc idx n]
  by (auto simp: issue_ok_def stages_ok_def issue_instr_def decoder_def EXE_STAGES_MULT_def EXE_STAGES_DEFAULT_def)

lemma bubble_issue_ok: "issue_ok NOP_INSTR"
  by (simp add: issue_ok_def stages_ok_def NOP_INSTR_def NOP_INSTR_data_def EXE_STAGES_DEFAULT_def)

lemma issue_valid:
  "issue_ok d \<Longrightarrow> de_valid d \<Longrightarrow> (is_mul (de_instr d) \<longleftrightarrow> exe_stages (de_instr d) = 5)
    \<and> (exe_stages (de_instr d) = 5 \<longrightarrow> jump_kind (de_instr d) = BNONE) \<and> exe_stages (de_instr d) \<noteq> 0"
  by (simp add: issue_ok_def EXE_STAGES_MULT_def EXE_STAGES_DEFAULT_def split: if_splits)

text \<open>What an instruction has to look like when it leaves, from the operands it entered with.\<close>

definition finished :: "decode_to_exe_t \<Rightarrow> exe_to_mem_t" where
  "finished d = \<lparr> em_instr = de_instr d, em_valid = True, em_data_rs2 = data_rs2 d,
     em_result = (if is_mul (de_instr d) then alu_data_rs1 d * alu_data_rs2 d else res_alu d),
     em_branch_taken = taken_branch d \<rparr>"

text \<open>
  The instructions in positions 0 to 3, as they will leave: a multiplication at position \<open>i\<close> has its
  product at place \<open>i\<close> of the delay line.
\<close>

definition inside_at :: "exe_state \<Rightarrow> nat \<Rightarrow> exe_to_mem_t multiset" where
  "inside_at s i = (let x = exe_pipe_q s ! i in if de_valid x
     then {# \<lparr> em_instr = de_instr x, em_valid = True, em_data_rs2 = data_rs2 x, em_result = mul_delay s ! i,
               em_branch_taken = False \<rparr> #} else {#})"

definition inside :: "exe_state \<Rightarrow> exe_to_mem_t multiset" where
  "inside s = inside_at s 0 + inside_at s 1 + inside_at s 2 + inside_at s 3"

definition only_mul :: "exe_state \<Rightarrow> bool" where
  "only_mul s \<longleftrightarrow> (\<forall>i < 4. de_valid (exe_pipe_q s ! i) \<longrightarrow>
     is_mul (de_instr (exe_pipe_q s ! i)) \<and> jump_kind (de_instr (exe_pipe_q s ! i)) = BNONE)"

definition leaving :: "decode_to_exe_t \<Rightarrow> exe_state \<Rightarrow> exe_to_mem_t list" where
  "leaving d s = (if em_valid (exe_out d s) then [exe_out d s] else [])"

definition entering :: "decode_to_exe_t \<Rightarrow> exe_state \<Rightarrow> exe_to_mem_t list" where
  "entering d s = (if de_valid d \<and> \<not> exe_stall d s then [finished d] else [])"

text \<open>A run: what left, and what was accepted, in the order of the edges.\<close>

fun exe_left :: "decode_to_exe_t list \<Rightarrow> exe_state \<Rightarrow> exe_to_mem_t list" where
  "exe_left [] s = []"
| "exe_left (d # ds) s = leaving d s @ exe_left ds (exe_clk d s)"

fun exe_entered :: "decode_to_exe_t list \<Rightarrow> exe_state \<Rightarrow> exe_to_mem_t list" where
  "exe_entered [] s = []"
| "exe_entered (d # ds) s = entering d s @ exe_entered ds (exe_clk d s)"

lemma branch_none: "jump_kind (de_instr d) = BNONE \<Longrightarrow> \<not> taken_branch d"
  by (simp add: taken_branch_def branch_unit_def Let_def)

lemma all_4: "(\<forall>i < 4. P i) \<longleftrightarrow> P 0 \<and> P 1 \<and> P 2 \<and> P (3 :: nat)"
  by (simp add: numeral_eq_Suc less_Suc_eq all_conj_distrib imp_conjR)

lemma exe_ok_cases:
  assumes "exe_ok s"
  obtains q0 q1 q2 q3 q4 m0 m1 m2 m3 where "s = \<lparr> exe_pipe_q = [q0, q1, q2, q3, q4], mul_delay = [m0, m1, m2, m3] \<rparr>"
proof -
  have "length (exe_pipe_q s) = 5" "length (mul_delay s) = 4"
    using assms by (simp_all add: exe_ok_def MAX5 mul_ok_def EXE_STAGES_MULT_def)
  then show ?thesis using that by (cases s) (auto simp: numeral_eq_Suc length_Suc_conv)
qed

text \<open>One edge.\<close>

lemma exe_step:
  assumes "exe_ok s" "only_mul s" "issue_ok d"
  shows "only_mul (exe_clk d s)"
    "mset (leaving d s) + inside (exe_clk d s) = inside s + mset (entering d s)"
proof -
  obtain q0 q1 q2 q3 q4 m0 m1 m2 m3 where s: "s = \<lparr> exe_pipe_q = [q0, q1, q2, q3, q4], mul_delay = [m0, m1, m2, m3] \<rparr>"
    using assms(1) by (rule exe_ok_cases)
  have st: "stages_ok d" using assms(3) by (simp add: issue_ok_def)
  note defs = only_mul_def all_4 exe_clk_def exe_pipe_d_def exe_stall_def exe_shifted_def shift_in_def MAX5
    inside_def inside_at_def leaving_def entering_def exe_out_def mul_clk_def mul_out_def mul_result_def
    EXE_STAGES_MULT_def Let_def
  note v = issue_valid [OF assms(3)]
  have empty: "exe_slot d = 5 \<Longrightarrow> \<not> de_valid d" using v by (auto simp: exe_slot_def MAX5)
  show "only_mul (exe_clk d s)"
    using st by (cases rule: slot_cases) (use assms(2) v empty in \<open>auto simp: s defs\<close>)
  show "mset (leaving d s) + inside (exe_clk d s) = inside s + mset (entering d s)"
    using st by (cases rule: slot_cases)
      (use assms(2) v empty in \<open>auto simp: s defs finished_def branch_none ac_simps\<close>)
qed

lemma exe_conserves:
  assumes "exe_ok s" "only_mul s" "\<forall>d \<in> set ds. issue_ok d"
  shows "mset (exe_left ds s) + inside (fold exe_clk ds s) = inside s + mset (exe_entered ds s)"
  using assms
proof (induction ds arbitrary: s)
  case (Cons d ds)
  note step = exe_step [OF Cons.prems(1,2), of d]
  have "mset (exe_left ds (exe_clk d s)) + inside (fold exe_clk ds (exe_clk d s))
      = inside (exe_clk d s) + mset (exe_entered ds (exe_clk d s))"
    using Cons.prems step(1) by (intro Cons.IH) (auto simp: exe_ok_clk)
  with step(2) Cons.prems(3) show ?case by (simp add: ac_simps)
qed simp

lemma reset_inside: "only_mul exe_reset" "inside exe_reset = {#}"
  by (simp_all add: only_mul_def inside_def inside_at_def exe_reset_def MAX5 nth_replicate)

text \<open>C8. The execute stage neither loses, duplicates nor exchanges an instruction. Over any run from
  reset, what has left through the exit together with what is still inside is, counted with
  multiplicity, what was accepted: an instruction leaves with its own instruction fields, store
  data and branch decision and with the result of the operands it entered with. A stalled
  instruction is not accepted and is offered again. The instructions offered are those the decoder
  issues or bubbles. The property ends at the output port: the pipe does not look at a stall of the
  memory stage, which may miss what leaves in such a cycle.\<close>

theorem exe_conservation:
  assumes "\<forall>d \<in> set ds. issue_ok d"
  shows "mset (exe_left ds exe_reset) + inside (fold exe_clk ds exe_reset) = mset (exe_entered ds exe_reset)"
  using exe_conserves [OF exe_ok_reset reset_inside(1) assms] by (simp add: reset_inside(2))

text \<open>A multiplication, three bubbles, and an addition that waits one edge for the exit.\<close>

definition sample_add :: decode_to_exe_t where
  "sample_add = NOP_INSTR\<lparr> de_valid := True, data_rs1 := 2, data_rs2 := 3 \<rparr>"

theorem exe_conservation_witness:
  "map em_result (exe_left [sample_mul, NOP_INSTR, NOP_INSTR, NOP_INSTR, sample_add, sample_add] exe_reset) = [42, 5]
   \<and> mset (exe_left [sample_mul, NOP_INSTR, NOP_INSTR, NOP_INSTR, sample_add, sample_add] exe_reset)
      = {# finished sample_mul, finished sample_add #}"
proof -
  let ?ds = "[sample_mul, NOP_INSTR, NOP_INSTR, NOP_INSTR, sample_add, sample_add]"
  note smp = sample_mul_def sample_add_def NOP_INSTR_def NOP_INSTR_data_def
  have "issue_ok sample_mul" "issue_ok sample_add"
    by (simp_all add: smp issue_ok_def stages_ok_def EXE_STAGES_MULT_def EXE_STAGES_DEFAULT_def)
  then have "\<forall>d \<in> set ?ds. issue_ok d" using bubble_issue_ok by simp
  note total = exe_conservation [OF this]
  note defs = exe_reset_def exe_clk_def exe_pipe_d_def exe_stall_def exe_slot_def exe_shifted_def shift_in_def MAX5
    mul_clk_def mul_reset_def EXE_STAGES_MULT_def
  have run: "exe_entered ?ds exe_reset = [finished sample_mul, finished sample_add]" "inside (fold exe_clk ?ds exe_reset) = {#}"
    by (simp_all add: entering_def inside_def inside_at_def defs numeral_eq_Suc smp)
  have "map em_result (exe_left ?ds exe_reset) = [42, 5]"
    by (simp add: leaving_def exe_out_def mul_out_def mul_result_def defs numeral_eq_Suc smp alu_data_rs1_def alu_data_rs2_def res_alu_def)
  with total show ?thesis unfolding run by simp
qed

end
