(* ===== verification/Ring_Buffer.thy ===== *)
theory Ring_Buffer
  imports Tartaruga_Prelude
begin

text \<open>
  The circular buffer that the store buffer and the reorder buffer share: an array of \<open>N\<close>
  entries with a head pointer, a tail pointer and one valid bit per entry. The occupied
  positions, oldest first, are the \<open>ring_window\<close>; allocating at the tail appends to it and
  freeing the head takes its first element away. Head and tail are equal both when the
  buffer is empty and when it is full; the head's valid bit tells the two apart.
\<close>

definition ring_idx :: "nat \<Rightarrow> nat \<Rightarrow> nat \<Rightarrow> nat" where
  "ring_idx N h k = (h + k) mod N"

definition ring_next :: "nat \<Rightarrow> nat \<Rightarrow> nat" where
  "ring_next N i = (i + 1) mod N"

definition ring_count :: "nat \<Rightarrow> nat \<Rightarrow> nat \<Rightarrow> (nat \<Rightarrow> bool) \<Rightarrow> nat" where
  "ring_count N h t v = (if h = t then (if v h then N else 0) else (t + N - h) mod N)"

definition ring_window :: "nat \<Rightarrow> nat \<Rightarrow> nat \<Rightarrow> (nat \<Rightarrow> bool) \<Rightarrow> nat list" where
  "ring_window N h t v = map (ring_idx N h) [0..<ring_count N h t v]"

definition ring_inv :: "nat \<Rightarrow> nat \<Rightarrow> nat \<Rightarrow> (nat \<Rightarrow> bool) \<Rightarrow> bool" where
  "ring_inv N h t v = (h < N \<and> t < N \<and> (\<forall>k<N. v (ring_idx N h k) = (k < ring_count N h t v)))"

definition ring_full :: "nat \<Rightarrow> nat \<Rightarrow> (nat \<Rightarrow> bool) \<Rightarrow> bool" where
  "ring_full h t v = (h = t \<and> v h)"

text \<open>
  The backward scan of both modules,
  \<^verbatim>\<open>for (i = (tail - 1) % N; i != tail; i = (i - 1 + N) % N)\<close>, as the list of the indices it
  visits. The loop stops at the tail, so it never visits the tail entry itself.
\<close>

function ring_scan :: "nat \<Rightarrow> nat \<Rightarrow> nat \<Rightarrow> nat list" where
  "ring_scan N t i = (if i = t \<or> N \<le> i \<or> N \<le> t then []
                      else i # ring_scan N t ((i + N - 1) mod N))"
  by pat_completeness auto
termination
proof (relation "measure (\<lambda>(N, t, i). (i + N - t) mod N)")
  fix N t i :: nat
  assume a: "\<not> (i = t \<or> N \<le> i \<or> N \<le> t)"
  have "((i + N - 1) mod N + N - t) mod N < (i + N - t) mod N"
  proof (cases "i = 0")
    case True
    with a have t: "0 < t" "t < N" by auto
    then have "(N - 1 + N - t) mod N = N - 1 - t" "(N - t) mod N = N - t" "(N - 1) mod N = N - 1"
      using mod_add_self2 [of "N - 1 - t" N] by (simp_all add: mod_if)
    with True t show ?thesis by simp
  next
    case False
    with a have "i + N - 1 = (i - 1) + N" "i - 1 < N" by auto
    then have i: "(i + N - 1) mod N = i - 1" by (metis mod_add_self2 mod_less)
    from a False show ?thesis unfolding i by (simp add: mod_if) linarith
  qed
  then show "((N, t, (i + N - 1) mod N), (N, t, i)) \<in> measure (\<lambda>(N, t, i). (i + N - t) mod N)"
    by simp
qed simp

declare ring_scan.simps [simp del]

locale ring_buffer =
  fixes N :: nat
  assumes two: "1 < N"
begin

lemma idx_if: "h < N \<Longrightarrow> k < N \<Longrightarrow> ring_idx N h k = (if h + k < N then h + k else h + k - N)"
  by (simp add: ring_idx_def mod_if)

lemma next_if: "i < N \<Longrightarrow> ring_next N i = (if i + 1 < N then i + 1 else 0)"
  by (simp add: ring_next_def mod_if)

lemma next_less: "ring_next N i < N"
  using two by (simp add: ring_next_def)

lemma count_if:
  "h < N \<Longrightarrow> t < N \<Longrightarrow> ring_count N h t v =
    (if h = t then (if v h then N else 0) else if h < t then t - h else t + N - h)"
  by (auto simp: ring_count_def mod_if)

lemma count_le: "h < N \<Longrightarrow> t < N \<Longrightarrow> ring_count N h t v \<le> N"
  by (auto simp: count_if)

lemma idx_inj: "h < N \<Longrightarrow> j < N \<Longrightarrow> k < N \<Longrightarrow> ring_idx N h j = ring_idx N h k \<longleftrightarrow> j = k"
  by (auto simp: idx_if split: if_splits)

lemma idx_surj: "h < N \<Longrightarrow> i < N \<Longrightarrow> \<exists>k<N. i = ring_idx N h k"
proof -
  assume a: "h < N" "i < N"
  let ?k = "if h \<le> i then i - h else i + N - h"
  have "?k < N" "i = ring_idx N h ?k" using a by (auto simp: idx_if)
  then show ?thesis by blast
qed

lemma window_distinct:
  assumes "h < N" "t < N"
  shows "distinct (ring_window N h t v)"
proof -
  have "inj_on (ring_idx N h) {0..<ring_count N h t v}"
    using count_le [OF assms, of v] by (intro inj_onI) (simp add: idx_inj [OF assms(1)])
  then show ?thesis by (simp add: ring_window_def distinct_map)
qed

lemma window_set: "ring_inv N h t v \<Longrightarrow> set (ring_window N h t v) = {i. i < N \<and> v i}"
proof -
  assume inv: "ring_inv N h t v"
  then have ht: "h < N" "t < N" by (simp_all add: ring_inv_def)
  show ?thesis
  proof (intro set_eqI iffI)
    fix i assume "i \<in> set (ring_window N h t v)"
    then obtain k where "i = ring_idx N h k" "k < ring_count N h t v"
      by (auto simp: ring_window_def)
    with inv ht count_le [OF ht, of v] show "i \<in> {i. i < N \<and> v i}"
      by (auto simp: ring_inv_def ring_idx_def)
  next
    fix i assume "i \<in> {i. i < N \<and> v i}"
    with inv ht idx_surj [of h i] show "i \<in> set (ring_window N h t v)"
      by (auto simp: ring_window_def ring_inv_def)
  qed
qed

lemma window_length: "length (ring_window N h t v) = ring_count N h t v"
  by (simp add: ring_window_def)

lemma window_empty_iff: "ring_inv N h t v \<Longrightarrow> ring_window N h t v = [] \<longleftrightarrow> \<not> v h"
  using two by (auto simp: ring_window_def ring_inv_def ring_idx_def dest: spec [of _ 0])

lemma window_hd: "ring_inv N h t v \<Longrightarrow> v h \<Longrightarrow> hd (ring_window N h t v) = h"
proof -
  assume inv: "ring_inv N h t v" and "v h"
  then have "0 < ring_count N h t v" "h < N"
    using two by (auto simp: ring_inv_def ring_idx_def dest: spec [of _ 0])
  then show ?thesis by (simp add: ring_window_def ring_idx_def upt_conv_Cons)
qed

lemma tail_free: "ring_inv N h t v \<Longrightarrow> \<not> ring_full h t v \<Longrightarrow> \<not> v t"
proof -
  assume inv: "ring_inv N h t v" and nf: "\<not> ring_full h t v"
  then have ht: "h < N" "t < N" by (simp_all add: ring_inv_def)
  let ?k = "ring_count N h t v"
  have "?k < N" "ring_idx N h ?k = t"
    using ht nf by (auto simp: ring_full_def count_if idx_if)
  with inv show "\<not> v t" by (force simp: ring_inv_def)
qed

lemma room_iff: "ring_inv N h t v \<Longrightarrow> length (ring_window N h t v) < N \<longleftrightarrow> \<not> ring_full h t v"
  by (auto simp: window_length ring_inv_def ring_full_def count_if)

lemma inv_push:
  assumes inv: "ring_inv N h t v" and nf: "\<not> ring_full h t v"
  shows "ring_inv N h (ring_next N t) (v(t := True))"
    and "ring_window N h (ring_next N t) (v(t := True)) = ring_window N h t v @ [t]"
proof -
  from inv have ht: "h < N" "t < N" by (simp_all add: ring_inv_def)
  let ?k = "ring_count N h t v"
  have k: "?k < N" "ring_idx N h ?k = t"
    using ht nf by (auto simp: ring_full_def count_if idx_if)
  have vh: "h \<noteq> t \<Longrightarrow> v h"
  proof -
    assume "h \<noteq> t"
    then have "0 < ?k" using ht by (simp add: count_if)
    moreover have "v (ring_idx N h 0) = (0 < ?k)" using inv two by (simp add: ring_inv_def)
    moreover have "ring_idx N h 0 = h" using ht by (simp add: ring_idx_def)
    ultimately show "v h" by simp
  qed
  have c: "ring_count N h (ring_next N t) (v(t := True)) = Suc ?k"
  proof (cases "h = t")
    case True
    with nf have "?k = 0" by (simp add: ring_full_def ring_count_def)
    moreover have "ring_count N h (ring_next N t) (v(t := True)) = 1"
      unfolding count_if [OF ht(1) next_less] using True ht two by (simp add: next_if) linarith
    ultimately show ?thesis by simp
  next
    case False
    with vh have vh: "v h" by simp
    have k2: "?k = (if h < t then t - h else t + N - h)" using False ht by (simp add: count_if)
    show ?thesis
    proof (cases "t + 1 < N")
      case True
      then have "ring_next N t = t + 1" using ht by (simp add: next_if)
      with True False vh k2 ht show ?thesis by (cases "h = t + 1") (auto simp: count_if)
    next
      case wrap: False
      then have w: "ring_next N t = 0" "N = t + 1" using ht by (simp_all add: next_if)
      have "ring_count N h (ring_next N t) (v(t := True)) = N - h"
        unfolding count_if [OF ht(1) next_less] using w(1) False vh by auto
      with w(2) k2 ht False show ?thesis by simp
    qed
  qed
  show "ring_inv N h (ring_next N t) (v(t := True))"
    unfolding ring_inv_def
  proof (intro conjI allI impI ht next_less)
    fix j assume j: "j < N"
    have "ring_idx N h j = t \<longleftrightarrow> j = ?k" using idx_inj [OF ht(1) j k(1)] k(2) by simp
    with inv j show "(v(t := True)) (ring_idx N h j) =
        (j < ring_count N h (ring_next N t) (v(t := True)))"
      by (auto simp: ring_inv_def c)
  qed
  show "ring_window N h (ring_next N t) (v(t := True)) = ring_window N h t v @ [t]"
    using k(2) by (simp add: ring_window_def c)
qed

lemma inv_pop:
  assumes inv: "ring_inv N h t v" and vh: "v h"
  shows "ring_inv N (ring_next N h) t (v(h := False))"
    and "ring_window N (ring_next N h) t (v(h := False)) = tl (ring_window N h t v)"
proof -
  from inv have ht: "h < N" "t < N" by (simp_all add: ring_inv_def)
  let ?k = "ring_count N h t v"
  have k: "0 < ?k" "?k \<le> N"
    using inv vh ht two count_le [OF ht, of v]
    by (auto simp: ring_inv_def ring_idx_def dest: spec [of _ 0])
  have nh: "ring_next N h < N" by (rule next_less)
  have step: "ring_idx N (ring_next N h) j = ring_idx N h (Suc j)" for j
    by (simp add: ring_idx_def ring_next_def mod_simps)
  have c: "ring_count N (ring_next N h) t (v(h := False)) = ?k - 1"
  proof -
    have d: "(if ring_next N h = t then 0 else if ring_next N h < t then t - ring_next N h
        else t + N - ring_next N h) = ?k - 1"
    proof (cases "h = t")
      case True
      with vh have "?k = N" by (simp add: ring_count_def)
      with True ht two show ?thesis by (simp add: next_if) linarith
    next
      case False
      with ht show ?thesis by (simp add: count_if next_if) linarith
    qed
    have "\<not> (v(h := False)) t" if e: "ring_next N h = t"
    proof -
      have "h \<noteq> t" using e ht two by (auto simp: next_if split: if_splits)
      then have "\<not> ring_full h t v" by (simp add: ring_full_def)
      from tail_free [OF inv this] show ?thesis by simp
    qed
    with d show ?thesis by (auto simp: count_if [OF nh ht(2)] split: if_splits)
  qed
  show "ring_inv N (ring_next N h) t (v(h := False))"
    unfolding ring_inv_def
  proof (intro conjI allI impI ht nh)
    fix j assume j: "j < N"
    show "(v(h := False)) (ring_idx N (ring_next N h) j) =
        (j < ring_count N (ring_next N h) t (v(h := False)))"
    proof (cases "Suc j = N")
      case True
      then have "ring_idx N (ring_next N h) j = h" using ht by (simp add: step) (simp add: ring_idx_def)
      with True k show ?thesis by (auto simp: c)
    next
      case False
      with j have s: "Suc j < N" by simp
      then have "ring_idx N h (Suc j) \<noteq> ring_idx N h 0"
        using idx_inj [OF ht(1) s, of 0] two by simp
      then have "ring_idx N h (Suc j) \<noteq> h" using ht by (simp add: ring_idx_def)
      with inv s show ?thesis by (auto simp: step c ring_inv_def)
    qed
  qed
  have "ring_window N h t v = ring_idx N h 0 # map (ring_idx N h) (map Suc [0..<?k - 1])"
    using k by (simp only: ring_window_def map_Suc_upt) (simp add: upt_conv_Cons)
  then show "ring_window N (ring_next N h) t (v(h := False)) = tl (ring_window N h t v)"
    by (simp add: ring_window_def c step)
qed

text \<open>The backward scan visits every position but the tail, from the youngest to the oldest.\<close>

lemma scan_back:
  assumes t: "t < N"
  shows "k < N \<Longrightarrow> ring_scan N t (ring_idx N t k) = rev (map (ring_idx N t) [1..<Suc k])"
proof (induction k)
  case 0
  then show ?case using t by (simp add: ring_scan.simps ring_idx_def)
next
  case (Suc k)
  have ne: "ring_idx N t (Suc k) \<noteq> t"
    using idx_inj [OF t Suc.prems, of 0] t two by (simp add: ring_idx_def)
  have "(ring_idx N t (Suc k) + N - 1) mod N = ring_idx N t k"
  proof -
    have "(ring_idx N t (Suc k) + N - 1) mod N = ((t + Suc k) mod N + (N - 1)) mod N"
      using two by (simp add: ring_idx_def)
    also have "\<dots> = (t + k + N) mod N" using two by (simp only: mod_add_left_eq) simp
    finally show ?thesis by (simp add: ring_idx_def)
  qed
  moreover have "ring_idx N t (Suc k) < N" using two by (simp add: ring_idx_def)
  ultimately show ?case using ne t Suc.IH Suc.prems
    by (subst ring_scan.simps) simp
qed

lemma scan_valid:
  assumes inv: "ring_inv N h t v"
  shows "filter v (ring_scan N t ((t + N - 1) mod N)) =
    rev (if ring_full h t v then tl (ring_window N h t v) else ring_window N h t v)"
proof -
  from inv have ht: "h < N" "t < N" by (simp_all add: ring_inv_def)
  let ?c = "ring_count N h t v"
  have start: "(t + N - 1) mod N = ring_idx N t (N - 1)" using two by (simp add: ring_idx_def)
  have scan: "ring_scan N t ((t + N - 1) mod N) = rev (map (ring_idx N t) [1..<N])"
    unfolding start using scan_back [OF ht(2), of "N - 1"] two by simp
  have "filter v (map (ring_idx N t) [1..<N]) =
      (if ring_full h t v then tl (ring_window N h t v) else ring_window N h t v)"
  proof (cases "ring_full h t v")
    case True
    then have c: "?c = N" "h = t" by (auto simp: ring_full_def ring_count_def)
    then have "ring_window N h t v = map (ring_idx N t) (0 # [1..<N])"
      using two by (simp add: ring_window_def upt_conv_Cons)
    moreover have "filter v (map (ring_idx N t) [1..<N]) = map (ring_idx N t) [1..<N]"
      using inv c by (auto simp: ring_inv_def intro!: filter_True)
    ultimately show ?thesis using True by simp
  next
    case False
    then have c: "?c < N" "t = ring_idx N h ?c"
      using ht by (auto simp: ring_full_def count_if idx_if)
    have free: "\<not> v (ring_idx N t k)" if "k < N - ?c" for k
    proof -
      have "ring_idx N t k = ring_idx N h (?c + k)"
        using that by (subst c(2)) (simp add: ring_idx_def mod_simps add.assoc)
      with inv that show ?thesis by (simp add: ring_inv_def)
    qed
    have occ: "ring_idx N t (N - ?c + k) = ring_idx N h k" if "k < ?c" for k
    proof -
      have "ring_idx N t (N - ?c + k) = (h + ?c + (N - ?c + k)) mod N"
        by (subst c(2)) (simp add: ring_idx_def mod_simps)
      also have "h + ?c + (N - ?c + k) = h + k + N" using c(1) by simp
      finally show ?thesis by (simp add: ring_idx_def)
    qed
    have split: "[1..<N] = [1..<N - ?c] @ map (\<lambda>k. N - ?c + k) [0..<?c]"
      using upt_add_eq_append [of 1 "N - ?c" ?c] map_add_upt [of "N - ?c" ?c] c(1)
      by (simp add: add.commute)
    have w: "map (ring_idx N t) (map (\<lambda>k. N - ?c + k) [0..<?c]) = ring_window N h t v"
      by (simp add: ring_window_def occ)
    have "filter v (map (ring_idx N t) [1..<N - ?c]) = []"
      by (auto simp: filter_empty_conv free)
    moreover have "filter v (ring_window N h t v) = ring_window N h t v"
      using window_set [OF inv] by (auto intro!: filter_True)
    ultimately show ?thesis using False by (simp only: split map_append filter_append w) simp
  qed
  then show ?thesis by (simp only: scan rev_filter [symmetric])
qed

end

end
