(* ===== verification/Store_Buffer.thy ===== *)
theory Store_Buffer
  imports Tartaruga_Pkg Ring_Buffer "HOL-Library.Sublist"
begin

text \<open>
  The store buffer of \<^verbatim>\<open>rtl/datapath/mem/store_buffer.sv\<close>: its registers, one clock edge, its
  combinational outputs, and the queue of pending stores it implements. A store enters at the
  tail when memory executes it, is marked by the reorder buffer when it commits or is
  discarded, and leaves from the head: to the data cache when committed, to nowhere when
  discarded.
\<close>

interpretation sb_ring: ring_buffer STORE_BUFFER_SIZE
  by unfold_locales (simp add: STORE_BUFFER_SIZE_def)

record store_buffer_entry_t =
  sb_data :: bus32_t
  sb_addr :: bus32_t
  sb_valid :: bool
  sb_committed :: bool
  sb_discarded :: bool

record store_buffer_state =
  store_buffer_q :: "nat \<Rightarrow> store_buffer_entry_t"
  sb_head_ptr_q :: nat
  sb_tail_ptr_q :: nat

record store_buffer_in =
  sb_data_i :: bus32_t
  sb_addr_i :: bus32_t
  sb_req_valid_i :: bool
  sb_rsp_ready_i :: bool
  sb_commit_i :: bool
  sb_idx_commit_i :: nat
  sb_discard_i :: "nat \<Rightarrow> bool"

definition sb_reset_entry :: store_buffer_entry_t where
  "sb_reset_entry = \<lparr>sb_data = 0, sb_addr = 0, sb_valid = False, sb_committed = False,
                     sb_discarded = False\<rparr>"

definition sb_reset :: store_buffer_state where
  "sb_reset = \<lparr>store_buffer_q = (\<lambda>_. sb_reset_entry), sb_head_ptr_q = 0, sb_tail_ptr_q = 0\<rparr>"

subsection \<open>The circuit\<close>

definition sb_req_ready_o :: "store_buffer_state \<Rightarrow> bool" where
  "sb_req_ready_o s = (\<not> (sb_tail_ptr_q s = sb_head_ptr_q s \<and> sb_valid (store_buffer_q s (sb_head_ptr_q s))))"

text \<open>The write request to the data cache: address and data, when \<open>rsp_valid_o\<close> is high.\<close>

definition sb_rsp_o :: "store_buffer_state \<Rightarrow> (bus32_t \<times> bus32_t) option" where
  "sb_rsp_o s =
    (let e = store_buffer_q s (sb_head_ptr_q s)
     in if sb_valid e \<and> sb_committed e then Some (sb_addr e, sb_data e) else None)"

definition sb_new_entry :: "store_buffer_in \<Rightarrow> store_buffer_entry_t" where
  "sb_new_entry i = \<lparr>sb_data = sb_data_i i, sb_addr = sb_addr_i i, sb_valid = True,
                     sb_committed = False, sb_discarded = False\<rparr>"

definition sb_enqueue :: "store_buffer_in \<Rightarrow> store_buffer_state \<Rightarrow> store_buffer_state" where
  "sb_enqueue i s =
    (if sb_req_valid_i i \<and> sb_req_ready_o s
     then s\<lparr>store_buffer_q := (store_buffer_q s)(sb_tail_ptr_q s := sb_new_entry i),
            sb_tail_ptr_q := (sb_tail_ptr_q s + 1) mod STORE_BUFFER_SIZE\<rparr>
     else s)"

text \<open>Free the head of \<open>d\<close>, the next-state value the block has built so far.\<close>

definition sb_free_head :: "store_buffer_state \<Rightarrow> store_buffer_state" where
  "sb_free_head d =
     d\<lparr>store_buffer_q := (store_buffer_q d)
         (sb_head_ptr_q d := (store_buffer_q d (sb_head_ptr_q d))\<lparr>sb_valid := False\<rparr>),
       sb_head_ptr_q := (sb_head_ptr_q d + 1) mod STORE_BUFFER_SIZE\<rparr>"

text \<open>The drain branch reads the registers \<open>s\<close> and updates the next state \<open>d\<close>.\<close>

definition sb_drain :: "store_buffer_in \<Rightarrow> store_buffer_state \<Rightarrow> store_buffer_state \<Rightarrow> store_buffer_state" where
  "sb_drain i s d =
    (let e = store_buffer_q s (sb_head_ptr_q s)
     in if sb_valid e \<and> sb_committed e then (if sb_rsp_ready_i i then sb_free_head d else d)
        else if sb_valid e \<and> sb_discarded e then sb_free_head d
        else d)"

definition sb_mark :: "store_buffer_in \<Rightarrow> nat \<Rightarrow> store_buffer_entry_t \<Rightarrow> store_buffer_entry_t" where
  "sb_mark i k e =
    (let e1 = if sb_commit_i i \<and> k = sb_idx_commit_i i then e\<lparr>sb_committed := True\<rparr> else e
     in if sb_discard_i i k then e1\<lparr>sb_discarded := True\<rparr> else e1)"

definition sb_clk :: "store_buffer_in \<Rightarrow> store_buffer_state \<Rightarrow> store_buffer_state" where
  "sb_clk i s =
    (let d = sb_drain i s (sb_enqueue i s)
     in d\<lparr>store_buffer_q := (\<lambda>k. sb_mark i k (store_buffer_q d k))\<rparr>)"

text \<open>The bypass of a load: the data of the first matching entry the backward scan meets.\<close>

definition sb_bypass_o :: "bus32_t \<Rightarrow> store_buffer_state \<Rightarrow> bus32_t option" where
  "sb_bypass_o a s =
    map_option (\<lambda>k. sb_data (store_buffer_q s k))
      (find (\<lambda>k. sb_valid (store_buffer_q s k) \<and> sb_addr (store_buffer_q s k) = a)
        (ring_scan STORE_BUFFER_SIZE (sb_tail_ptr_q s)
          ((sb_tail_ptr_q s + STORE_BUFFER_SIZE - 1) mod STORE_BUFFER_SIZE)))"

definition sb_run :: "store_buffer_in list \<Rightarrow> store_buffer_state \<Rightarrow> store_buffer_state" where
  "sb_run is s = fold sb_clk is s"

subsection \<open>The queue it implements\<close>

definition sb_valids :: "store_buffer_state \<Rightarrow> nat \<Rightarrow> bool" where
  "sb_valids s k = sb_valid (store_buffer_q s k)"

definition sb_ok :: "store_buffer_state \<Rightarrow> bool" where
  "sb_ok s = ring_inv STORE_BUFFER_SIZE (sb_head_ptr_q s) (sb_tail_ptr_q s) (sb_valids s)"

definition sb_slots :: "store_buffer_state \<Rightarrow> nat list" where
  "sb_slots s = ring_window STORE_BUFFER_SIZE (sb_head_ptr_q s) (sb_tail_ptr_q s) (sb_valids s)"

text \<open>The pending stores, oldest first, each with its slot.\<close>

definition sb_fifo :: "store_buffer_state \<Rightarrow> (nat \<times> store_buffer_entry_t) list" where
  "sb_fifo s = map (\<lambda>k. (k, store_buffer_q s k)) (sb_slots s)"

definition fifo_leaves :: "store_buffer_in \<Rightarrow> (nat \<times> store_buffer_entry_t) list \<Rightarrow> bool" where
  "fifo_leaves i f = (case f of [] \<Rightarrow> False
     | (k, e) # _ \<Rightarrow> if sb_committed e then sb_rsp_ready_i i else sb_discarded e)"

text \<open>
  One step of the specification: the head leaves when it may, a new store is appended when
  there is room, and the marks of the cycle reach every remaining entry.
\<close>

definition fifo_step ::
  "store_buffer_in \<Rightarrow> nat \<Rightarrow> (nat \<times> store_buffer_entry_t) list \<Rightarrow> (nat \<times> store_buffer_entry_t) list" where
  "fifo_step i slot f =
     map (\<lambda>(k, e). (k, sb_mark i k e))
       ((if fifo_leaves i f then tl f else f)
        @ (if sb_req_valid_i i \<and> length f < STORE_BUFFER_SIZE then [(slot, sb_new_entry i)] else []))"

subsection \<open>Every operation keeps the ring and acts on the queue\<close>

lemmas sb_unfold = sb_ok_def sb_fifo_def sb_slots_def

lemma sb_ready_iff: "sb_req_ready_o s \<longleftrightarrow> \<not> ring_full (sb_head_ptr_q s) (sb_tail_ptr_q s) (sb_valids s)"
  by (auto simp: sb_req_ready_o_def ring_full_def sb_valids_def)

lemma sb_ready_length: "sb_ok s \<Longrightarrow> sb_req_ready_o s \<longleftrightarrow> length (sb_fifo s) < STORE_BUFFER_SIZE"
  by (simp add: sb_ready_iff sb_unfold sb_ring.room_iff)

lemma sb_fifo_cong:
  assumes "sb_slots s' = sb_slots s" "\<And>k. k \<in> set (sb_slots s) \<Longrightarrow> store_buffer_q s' k = store_buffer_q s k"
  shows "sb_fifo s' = sb_fifo s"
  using assms by (simp add: sb_fifo_def)

lemma sb_slots_valid: "sb_ok s \<Longrightarrow> k \<in> set (sb_slots s) \<Longrightarrow> sb_valids s k"
  using sb_ring.window_set by (auto simp: sb_ok_def sb_slots_def)

lemma sb_fifo_Nil_iff: "sb_ok s \<Longrightarrow> sb_fifo s = [] \<longleftrightarrow> \<not> sb_valid (store_buffer_q s (sb_head_ptr_q s))"
  using sb_ring.window_empty_iff by (simp add: sb_unfold sb_valids_def)

lemma sb_fifo_hd:
  assumes ok: "sb_ok s" and vh: "sb_valid (store_buffer_q s (sb_head_ptr_q s))"
  shows "sb_fifo s = (sb_head_ptr_q s, store_buffer_q s (sb_head_ptr_q s)) # tl (sb_fifo s)"
proof -
  have "hd (sb_slots s) = sb_head_ptr_q s"
    using sb_ring.window_hd ok vh by (simp add: sb_ok_def sb_slots_def sb_valids_def)
  moreover have "sb_slots s \<noteq> []" using sb_fifo_Nil_iff [OF ok] vh by (simp add: sb_fifo_def)
  ultimately show ?thesis by (cases "sb_slots s") (simp_all add: sb_fifo_def)
qed

lemma sb_enqueue_fifo:
  assumes ok: "sb_ok s"
  shows "sb_ok (sb_enqueue i s)"
    and "sb_fifo (sb_enqueue i s) = sb_fifo s @
      (if sb_req_valid_i i \<and> length (sb_fifo s) < STORE_BUFFER_SIZE
       then [(sb_tail_ptr_q s, sb_new_entry i)] else [])"
proof -
  let ?t = "sb_tail_ptr_q s" and ?s = "sb_enqueue i s"
  have "sb_ok ?s \<and> sb_fifo ?s = sb_fifo s @ [(?t, sb_new_entry i)]"
    if p: "sb_req_valid_i i" "sb_req_ready_o s"
  proof -
    have v: "sb_valids ?s = (sb_valids s)(?t := True)"
      using p by (intro ext) (simp add: sb_enqueue_def sb_valids_def sb_new_entry_def)
    have nf: "\<not> ring_full (sb_head_ptr_q s) ?t (sb_valids s)" using p by (simp add: sb_ready_iff)
    have tl: "sb_tail_ptr_q ?s = ring_next STORE_BUFFER_SIZE ?t" "sb_head_ptr_q ?s = sb_head_ptr_q s"
      using p by (simp_all add: sb_enqueue_def ring_next_def)
    have inv: "ring_inv STORE_BUFFER_SIZE (sb_head_ptr_q s) ?t (sb_valids s)"
      using ok by (simp add: sb_ok_def)
    have w: "sb_slots ?s = sb_slots s @ [?t]"
      using sb_ring.inv_push(2) [OF inv nf] by (simp add: sb_slots_def v tl)
    have "?t \<notin> set (sb_slots s)"
      using sb_ring.tail_free [OF inv nf] sb_slots_valid [OF ok] by blast
    moreover have "store_buffer_q ?s = (store_buffer_q s)(?t := sb_new_entry i)"
      using p by (simp add: sb_enqueue_def)
    ultimately have "map (\<lambda>k. (k, store_buffer_q ?s k)) (sb_slots s) = sb_fifo s"
      and "store_buffer_q ?s ?t = sb_new_entry i"
      by (auto simp: sb_fifo_def intro!: map_cong)
    then have "sb_fifo ?s = sb_fifo s @ [(?t, sb_new_entry i)]"
      unfolding sb_fifo_def w map_append by simp
    with sb_ring.inv_push(1) [OF inv nf] show ?thesis by (simp add: sb_ok_def v tl)
  qed
  moreover have "sb_ok ?s \<and> sb_fifo ?s = sb_fifo s" if "\<not> (sb_req_valid_i i \<and> sb_req_ready_o s)"
    using that ok by (auto simp: sb_enqueue_def)
  ultimately show "sb_ok ?s" and "sb_fifo ?s = sb_fifo s @
      (if sb_req_valid_i i \<and> length (sb_fifo s) < STORE_BUFFER_SIZE
       then [(?t, sb_new_entry i)] else [])"
    using sb_ready_length [OF ok] by (cases "sb_req_valid_i i"; cases "sb_req_ready_o s"; force)+
qed

lemma sb_free_head_fifo:
  assumes ok: "sb_ok d" and vh: "sb_valid (store_buffer_q d (sb_head_ptr_q d))"
  shows "sb_ok (sb_free_head d)" and "sb_fifo (sb_free_head d) = tl (sb_fifo d)"
proof -
  let ?h = "sb_head_ptr_q d" and ?d = "sb_free_head d"
  have v: "sb_valids ?d = (sb_valids d)(?h := False)"
    by (intro ext) (simp add: sb_free_head_def sb_valids_def)
  have hd: "sb_head_ptr_q ?d = ring_next STORE_BUFFER_SIZE ?h" "sb_tail_ptr_q ?d = sb_tail_ptr_q d"
    by (simp_all add: sb_free_head_def ring_next_def)
  have inv: "ring_inv STORE_BUFFER_SIZE ?h (sb_tail_ptr_q d) (sb_valids d)"
    using ok by (simp add: sb_ok_def)
  have vd: "sb_valids d ?h" using vh by (simp add: sb_valids_def)
  show ok': "sb_ok ?d" using sb_ring.inv_pop(1) [OF inv vd] by (simp add: sb_ok_def v hd)
  have w: "sb_slots ?d = tl (sb_slots d)"
    using sb_ring.inv_pop(2) [OF inv vd] by (simp add: sb_slots_def v hd)
  have "store_buffer_q ?d k = store_buffer_q d k" if "k \<in> set (sb_slots ?d)" for k
  proof -
    have "sb_valids ?d k" by (rule sb_slots_valid [OF ok' that])
    then have "k \<noteq> ?h" unfolding v by auto
    then show ?thesis by (simp add: sb_free_head_def)
  qed
  then show "sb_fifo ?d = tl (sb_fifo d)" by (simp add: sb_fifo_def map_tl w flip: map_tl)
qed

lemma sb_mark_valid [simp]:
  "sb_valid (sb_mark i k e) = sb_valid e" "sb_addr (sb_mark i k e) = sb_addr e"
  "sb_data (sb_mark i k e) = sb_data e"
  by (simp_all add: sb_mark_def Let_def)

lemma sb_marks_fifo:
  fixes d :: store_buffer_state
  assumes "sb_ok d"
  shows "sb_ok (d\<lparr>store_buffer_q := (\<lambda>k. sb_mark i k (store_buffer_q d k))\<rparr>)"
    and "sb_fifo (d\<lparr>store_buffer_q := (\<lambda>k. sb_mark i k (store_buffer_q d k))\<rparr>) =
      map (\<lambda>(k, e). (k, sb_mark i k e)) (sb_fifo d)"
proof -
  have v: "sb_valids (d\<lparr>store_buffer_q := (\<lambda>k. sb_mark i k (store_buffer_q d k))\<rparr>) = sb_valids d"
    by (intro ext) (simp add: sb_valids_def)
  show "sb_ok (d\<lparr>store_buffer_q := (\<lambda>k. sb_mark i k (store_buffer_q d k))\<rparr>)"
    and "sb_fifo (d\<lparr>store_buffer_q := (\<lambda>k. sb_mark i k (store_buffer_q d k))\<rparr>) =
      map (\<lambda>(k, e). (k, sb_mark i k e)) (sb_fifo d)"
    using assms by (simp_all add: sb_unfold v)
qed

lemma sb_drain_fifo:
  assumes ok: "sb_ok s"
  shows "sb_ok (sb_drain i s (sb_enqueue i s))"
    and "sb_fifo (sb_drain i s (sb_enqueue i s)) =
      (if fifo_leaves i (sb_fifo s) then tl (sb_fifo (sb_enqueue i s)) else sb_fifo (sb_enqueue i s))"
proof -
  let ?h = "sb_head_ptr_q s" and ?d = "sb_enqueue i s"
  have h: "sb_head_ptr_q ?d = ?h" by (simp add: sb_enqueue_def)
  have e: "store_buffer_q ?d ?h = store_buffer_q s ?h" if "sb_valid (store_buffer_q s ?h)"
    using that by (auto simp: sb_enqueue_def sb_req_ready_o_def)
  have l: "fifo_leaves i (sb_fifo s) \<longleftrightarrow> sb_valid (store_buffer_q s ?h) \<and>
      (if sb_committed (store_buffer_q s ?h) then sb_rsp_ready_i i else sb_discarded (store_buffer_q s ?h))"
    using sb_fifo_Nil_iff [OF ok] sb_fifo_hd [OF ok]
    by (cases "sb_fifo s") (auto simp: fifo_leaves_def)
  have d: "sb_drain i s ?d = (if fifo_leaves i (sb_fifo s) then sb_free_head ?d else ?d)"
    unfolding l by (auto simp: sb_drain_def Let_def)
  show "sb_ok (sb_drain i s ?d)"
    and "sb_fifo (sb_drain i s ?d) = (if fifo_leaves i (sb_fifo s) then tl (sb_fifo ?d) else sb_fifo ?d)"
    using sb_enqueue_fifo [OF ok, of i] sb_free_head_fifo [of ?d] e l by (auto simp: d h)
qed


lemma sb_reset_ok: "sb_ok sb_reset"
  and sb_reset_fifo: "sb_fifo sb_reset = []"
  by (simp_all add: sb_reset_def sb_unfold sb_valids_def sb_reset_entry_def ring_inv_def ring_count_def
      ring_window_def STORE_BUFFER_SIZE_def)

lemma fifo_step_mark_order: "map fst (fifo_step i slot f) =
    map fst ((if fifo_leaves i f then tl f else f)
      @ (if sb_req_valid_i i \<and> length f < STORE_BUFFER_SIZE then [(slot, sb_new_entry i)] else []))"
  by (simp add: fifo_step_def split_def comp_def)

lemma sb_clk_ok: "sb_ok s \<Longrightarrow> sb_ok (sb_clk i s)"
  unfolding sb_clk_def Let_def by (intro sb_marks_fifo sb_drain_fifo)

lemma sb_clk_fifo:
  assumes ok: "sb_ok s"
  shows "sb_fifo (sb_clk i s) = fifo_step i (sb_tail_ptr_q s) (sb_fifo s)"
proof -
  have "fifo_leaves i (sb_fifo s) \<Longrightarrow> sb_fifo s \<noteq> []" by (auto simp: fifo_leaves_def)
  then show ?thesis
    using sb_marks_fifo(2) [OF sb_drain_fifo(1) [OF ok]] sb_drain_fifo(2) [OF ok]
      sb_enqueue_fifo(2) [OF ok]
    by (simp add: sb_clk_def Let_def fifo_step_def)
qed

lemma sb_run_ok: "sb_ok s \<Longrightarrow> sb_ok (sb_run is s)"
  unfolding sb_run_def by (induction "is" arbitrary: s) (simp_all add: sb_clk_ok)

lemma store_buffer_rsp:
  assumes "sb_ok s"
  shows "sb_rsp_o s = (case sb_fifo s of [] \<Rightarrow> None
    | (k, e) # _ \<Rightarrow> if sb_committed e then Some (sb_addr e, sb_data e) else None)"
  using sb_fifo_Nil_iff [OF assms] sb_fifo_hd [OF assms]
  by (cases "sb_fifo s") (auto simp: sb_rsp_o_def Let_def)

subsection \<open>Properties\<close>

text \<open>
  C3. One clock edge of the store buffer is one step of the bounded FIFO of pending stores:
  from every state whose valid bits are those of a ring, the next state is again such a state,
  the head leaves exactly when it is committed and the cache accepts it or when it is discarded
  and not committed, an offered store is appended exactly when fewer than
  \<^const>\<open>STORE_BUFFER_SIZE\<close> are pending, and the commit and discard marks reach every entry
  that remains, the new one included.
\<close>

theorem store_buffer_refines_fifo:
  assumes "sb_ok s"
  shows "sb_ok (sb_clk i s) \<and> sb_fifo (sb_clk i s) = fifo_step i (sb_tail_ptr_q s) (sb_fifo s)
    \<and> sb_rsp_o s = (case sb_fifo s of [] \<Rightarrow> None
        | (k, e) # _ \<Rightarrow> if sb_committed e then Some (sb_addr e, sb_data e) else None)"
  using sb_clk_ok [OF assms] sb_clk_fifo [OF assms] store_buffer_rsp [OF assms] by blast

definition sb_sample_in :: "bus32_t \<Rightarrow> bus32_t \<Rightarrow> store_buffer_in" where
  "sb_sample_in a d = \<lparr>sb_data_i = d, sb_addr_i = a, sb_req_valid_i = True, sb_rsp_ready_i = True,
     sb_commit_i = False, sb_idx_commit_i = 0, sb_discard_i = (\<lambda>_. False)\<rparr>"

lemma sb_sample_step:
  "fifo_step (sb_sample_in a d) k [] = [(k, sb_new_entry (sb_sample_in a d))]"
  by (simp add: fifo_step_def fifo_leaves_def sb_sample_in_def sb_mark_def STORE_BUFFER_SIZE_def)

theorem store_buffer_refines_fifo_witness:
  "sb_fifo (sb_clk (sb_sample_in 8 5) sb_reset) =
    [(sb_tail_ptr_q sb_reset, sb_new_entry (sb_sample_in 8 5))]"
  using store_buffer_refines_fifo [OF sb_reset_ok, of "sb_sample_in 8 5"]
  by (simp only: sb_reset_fifo sb_sample_step)

text \<open>The data that reach the cache in a run, and the stores the buffer accepts, both in time order.\<close>

primrec sb_sent :: "store_buffer_in list \<Rightarrow> store_buffer_state \<Rightarrow> (bus32_t \<times> bus32_t) list" where
  "sb_sent [] s = []"
| "sb_sent (i # is) s =
    (case sb_rsp_o s of Some w \<Rightarrow> if sb_rsp_ready_i i then [w] else [] | None \<Rightarrow> [])
    @ sb_sent is (sb_clk i s)"

primrec sb_accepted :: "store_buffer_in list \<Rightarrow> store_buffer_state \<Rightarrow> (bus32_t \<times> bus32_t) list" where
  "sb_accepted [] s = []"
| "sb_accepted (i # is) s =
    (if sb_req_valid_i i \<and> sb_req_ready_o s then [(sb_addr_i i, sb_data_i i)] else [])
    @ sb_accepted is (sb_clk i s)"


definition sb_payload :: "nat \<times> store_buffer_entry_t \<Rightarrow> bus32_t \<times> bus32_t" where
  "sb_payload p = (sb_addr (snd p), sb_data (snd p))"

lemma sb_payload_step:
  assumes ok: "sb_ok s"
  shows "map sb_payload (sb_fifo (sb_clk i s)) =
    (if fifo_leaves i (sb_fifo s) then tl (map sb_payload (sb_fifo s)) else map sb_payload (sb_fifo s))
    @ (if sb_req_valid_i i \<and> sb_req_ready_o s then [(sb_addr_i i, sb_data_i i)] else [])"
  unfolding sb_clk_fifo [OF ok] sb_ready_length [OF ok] fifo_step_def
  by (simp add: sb_payload_def [abs_def] split_def comp_def map_tl sb_new_entry_def)

lemma sb_sent_subseq:
  "sb_ok s \<Longrightarrow> subseq (sb_sent is s) (map sb_payload (sb_fifo s) @ sb_accepted is s)"
proof (induction "is" arbitrary: s)
  case (Cons i "is")
  let ?n = "if sb_req_valid_i i \<and> sb_req_ready_o s then [(sb_addr_i i, sb_data_i i)] else []"
  let ?r = "?n @ sb_accepted is (sb_clk i s)"
  note ih = Cons.IH [OF sb_clk_ok [OF Cons.prems], of i, unfolded sb_payload_step [OF Cons.prems] append_assoc]
  show ?case
  proof (cases "sb_fifo s")
    case Nil
    then have "sb_rsp_o s = None" using store_buffer_rsp [OF Cons.prems] by simp
    with ih Nil show ?thesis by (simp add: fifo_leaves_def)
  next
    case (Cons p f)
    obtain k e where p: "p = (k, e)" by (cases p)
    have rsp: "sb_rsp_o s = (if sb_committed e then Some (sb_payload p) else None)"
      using store_buffer_rsp [OF \<open>sb_ok s\<close>] by (simp add: Cons p sb_payload_def)
    have lv: "fifo_leaves i (p # f) \<longleftrightarrow> (if sb_committed e then sb_rsp_ready_i i else sb_discarded e)"
      by (simp add: p fifo_leaves_def)
    show ?thesis
    proof (cases "fifo_leaves i (sb_fifo s)")
      case True
      with ih have "subseq (sb_sent is (sb_clk i s)) (map sb_payload f @ ?r)" by (simp add: Cons)
      with True show ?thesis by (auto simp: Cons rsp lv intro: list_emb_Cons)
    next
      case False
      with ih have "subseq (sb_sent is (sb_clk i s)) (sb_payload p # map sb_payload f @ ?r)"
        by (simp add: Cons)
      with False show ?thesis by (auto simp: Cons rsp lv)
    qed
  qed
qed simp

text \<open>
  C7. Whatever the pipeline, the reorder buffer and the cache do, the stores the buffer writes
  to the data cache are, in order, a subsequence of the stores it accepted: none is invented,
  duplicated or reordered (what is missing was discarded or is still pending).
\<close>

theorem stores_drain_in_program_order:
  "subseq (sb_sent is sb_reset) (sb_accepted is sb_reset)"
  using sb_sent_subseq [OF sb_reset_ok] by (simp add: sb_reset_fifo)

text \<open>
  C27. The value the store buffer forwards to a load is that of the youngest pending store to
  the same address, except that a full buffer never forwards its oldest entry: the backward scan
  of the code stops at the tail, which in a full buffer is also the head.
\<close>

theorem store_buffer_bypass_youngest:
  assumes "sb_ok s"
  shows "sb_bypass_o a s = map_option (\<lambda>p. sb_data (snd p))
    (find (\<lambda>p. sb_addr (snd p) = a)
      (rev (if length (sb_fifo s) = STORE_BUFFER_SIZE then tl (sb_fifo s) else sb_fifo s)))"
proof -
  let ?slots = "if sb_req_ready_o s then sb_slots s else tl (sb_slots s)"
  have full: "length (sb_fifo s) = STORE_BUFFER_SIZE \<longleftrightarrow> \<not> sb_req_ready_o s"
  proof -
    have "length (sb_fifo s) \<le> STORE_BUFFER_SIZE"
      using assms sb_ring.count_le by (simp add: sb_unfold sb_ring.window_length ring_inv_def)
    then show ?thesis using sb_ready_length [OF assms] by linarith
  qed
  have scan: "filter (sb_valids s) (ring_scan STORE_BUFFER_SIZE (sb_tail_ptr_q s)
      ((sb_tail_ptr_q s + STORE_BUFFER_SIZE - 1) mod STORE_BUFFER_SIZE)) = rev ?slots"
    using sb_ring.scan_valid [OF assms [unfolded sb_ok_def]] by (simp add: sb_ready_iff sb_slots_def)
  have "sb_bypass_o a s = map_option (\<lambda>k. sb_data (store_buffer_q s k))
      (find (\<lambda>k. sb_addr (store_buffer_q s k) = a) (rev ?slots))"
    unfolding sb_bypass_o_def scan [symmetric] by (simp add: find_filter sb_valids_def)
  also have "\<dots> = map_option (\<lambda>p. sb_data (snd p)) (find (\<lambda>p. sb_addr (snd p) = a)
      (rev (map (\<lambda>k. (k, store_buffer_q s k)) ?slots)))"
    by (simp add: rev_map find_map option.map_comp comp_def)
  also have "map (\<lambda>k. (k, store_buffer_q s k)) ?slots =
      (if length (sb_fifo s) = STORE_BUFFER_SIZE then tl (sb_fifo s) else sb_fifo s)"
    unfolding full by (simp add: sb_fifo_def map_tl)
  finally show ?thesis .
qed

text \<open>Four stores with nothing committed fill the buffer; the first one is then not forwarded.\<close>

definition sb_full_state :: store_buffer_state where
  "sb_full_state = sb_run (map (\<lambda>a. sb_sample_in a 7) [0, 1, 2, 3]) sb_reset"

lemma sb_full_ok: "sb_ok sb_full_state"
  unfolding sb_full_state_def by (intro sb_run_ok sb_reset_ok)

lemma sb_full_fifo:
  "sb_fifo sb_full_state = map (\<lambda>n. (n, sb_new_entry (sb_sample_in (of_nat n) 7))) [0, 1, 2, 3]"
  by code_simp

theorem store_buffer_bypass_youngest_witness:
  "sb_bypass_o 0 sb_full_state = None \<and> sb_bypass_o 1 sb_full_state = Some 7"
  by (simp add: store_buffer_bypass_youngest [OF sb_full_ok] sb_full_fifo
      sb_new_entry_def sb_sample_in_def
     STORE_BUFFER_SIZE_def sb_new_entry_def sb_sample_in_def)

end
