(* ===== verification/Reorder_Buffer.thy ===== *)
theory Reorder_Buffer
  imports Tartaruga_Pkg Ring_Buffer "HOL-Library.Sublist"
begin

text \<open>
  The reorder buffer of \<^verbatim>\<open>rtl/datapath/wb/rob.sv\<close> (the build without the test-bench flush
  port): its entries, the five phases of its combinational block in their order (allocate,
  write back, commit, flush, hazard scan), one clock edge, and the queue of in-flight
  instructions it implements.
\<close>

interpretation rob_ring: ring_buffer ROB_SIZE
  by unfold_locales (simp add: ROB_SIZE_def)

record rob_entry_t =
  re_valid :: bool
  re_completed :: bool
  re_pc :: bus32_t
  re_instr :: instruction_t
  re_addr_rd :: reg_addr_t
  re_write_enable :: bool
  re_store_to_mem :: bool
  re_result :: bus32_t
  re_new_pc :: bus32_t
  re_branch_taken :: bool
  re_store_buffer_idx :: nat
  re_kanata_id :: int

record rob_state =
  rob_q :: "nat \<Rightarrow> rob_entry_t"
  rob_head_ptr_q :: nat
  rob_tail_ptr_q :: nat

record rob_in =
  ri_valid_decode :: bool
  ri_pc :: bus32_t
  ri_instr :: instruction_t
  ri_rd_addr :: reg_addr_t
  ri_write_enable :: bool
  ri_store_to_mem :: bool
  ri_kanata_id :: int
  ri_entry_commit :: nat
  ri_valid_wb :: bool
  ri_result :: bus32_t
  ri_new_pc :: bus32_t
  ri_branch_taken :: bool
  ri_store_buffer_idx :: nat

definition rob_reset :: "(nat \<Rightarrow> nat) \<Rightarrow> rob_state" where
  "rob_reset idx = \<lparr>rob_q = (\<lambda>k. \<lparr>re_valid = False, re_completed = False, re_pc = 0, re_instr = 0,
      re_addr_rd = 0, re_write_enable = False, re_store_to_mem = False, re_result = 0,
      re_new_pc = 0, re_branch_taken = False, re_store_buffer_idx = idx k, re_kanata_id = 0\<rparr>),
    rob_head_ptr_q = 0, rob_tail_ptr_q = 0\<rparr>"

subsection \<open>The circuit\<close>

definition rob_full_o :: "rob_state \<Rightarrow> bool" where
  "rob_full_o s = ((rob_tail_ptr_q s + 1) mod ROB_SIZE = rob_head_ptr_q s
                   \<and> re_valid (rob_q s (rob_head_ptr_q s)))"

text \<open>The fields the allocation writes; the others keep what the entry held before.\<close>

definition rob_new_entry :: "rob_in \<Rightarrow> rob_entry_t \<Rightarrow> rob_entry_t" where
  "rob_new_entry i e = e\<lparr>re_valid := True, re_pc := ri_pc i, re_instr := ri_instr i,
     re_addr_rd := ri_rd_addr i, re_write_enable := ri_write_enable i,
     re_store_to_mem := ri_store_to_mem i, re_completed := False, re_kanata_id := ri_kanata_id i\<rparr>"

definition rob_alloc :: "rob_in \<Rightarrow> rob_state \<Rightarrow> rob_state" where
  "rob_alloc i s =
    (if ri_valid_decode i
     then s\<lparr>rob_q := (rob_q s)(rob_tail_ptr_q s := rob_new_entry i (rob_q s (rob_tail_ptr_q s))),
            rob_tail_ptr_q := (rob_tail_ptr_q s + 1) mod ROB_SIZE\<rparr>
     else s)"

definition rob_complete :: "rob_in \<Rightarrow> rob_entry_t \<Rightarrow> rob_entry_t" where
  "rob_complete i e = e\<lparr>re_completed := True, re_result := ri_result i, re_new_pc := ri_new_pc i,
     re_branch_taken := ri_branch_taken i, re_store_buffer_idx := ri_store_buffer_idx i\<rparr>"

text \<open>The later phases read the registers \<open>s\<close> and update the next state \<open>d\<close> built so far.\<close>

definition rob_writeback :: "rob_in \<Rightarrow> rob_state \<Rightarrow> rob_state \<Rightarrow> rob_state" where
  "rob_writeback i s d =
    (let k = ri_entry_commit i
     in if ri_valid_wb i \<and> re_valid (rob_q s k)
        then d\<lparr>rob_q := (rob_q d)(k := rob_complete i (rob_q d k))\<rparr> else d)"

definition rob_commits :: "rob_state \<Rightarrow> bool" where
  "rob_commits s = (re_valid (rob_q s (rob_head_ptr_q s)) \<and> re_completed (rob_q s (rob_head_ptr_q s)))"

text \<open>The commit port: the head entry, when \<open>commit_valid_o\<close> is high.\<close>

definition rob_commit_o :: "rob_state \<Rightarrow> rob_entry_t option" where
  "rob_commit_o s = (if rob_commits s then Some (rob_q s (rob_head_ptr_q s)) else None)"

definition rob_free_head :: "rob_state \<Rightarrow> rob_state" where
  "rob_free_head d =
     d\<lparr>rob_q := (rob_q d)(rob_head_ptr_q d := (rob_q d (rob_head_ptr_q d))\<lparr>re_valid := False\<rparr>),
       rob_head_ptr_q := (rob_head_ptr_q d + 1) mod ROB_SIZE\<rparr>"

definition rob_commit :: "rob_state \<Rightarrow> rob_state \<Rightarrow> rob_state" where
  "rob_commit s d = (if rob_commits s then rob_free_head d else d)"

definition rob_flushes :: "rob_state \<Rightarrow> bool" where
  "rob_flushes s = (rob_commits s \<and> re_branch_taken (rob_q s (rob_head_ptr_q s)))"

definition rob_flush :: "rob_state \<Rightarrow> rob_state \<Rightarrow> rob_state" where
  "rob_flush s d =
    (if rob_flushes s
     then d\<lparr>rob_q := (\<lambda>k. if k < ROB_SIZE then (rob_q d k)\<lparr>re_valid := False\<rparr> else rob_q d k),
            rob_head_ptr_q := 0, rob_tail_ptr_q := 0\<rparr>
     else d)"

definition rob_before_flush :: "rob_in \<Rightarrow> rob_state \<Rightarrow> rob_state" where
  "rob_before_flush i s = rob_commit s (rob_writeback i s (rob_alloc i s))"

definition rob_clk :: "rob_in \<Rightarrow> rob_state \<Rightarrow> rob_state" where
  "rob_clk i s = rob_flush s (rob_before_flush i s)"

definition rob_discard_o :: "rob_in \<Rightarrow> rob_state \<Rightarrow> nat \<Rightarrow> bool" where
  "rob_discard_o i s n = (rob_flushes s \<and>
     (\<exists>k<ROB_SIZE. re_valid (rob_q (rob_before_flush i s) k)
        \<and> re_store_to_mem (rob_q (rob_before_flush i s) k)
        \<and> re_store_buffer_idx (rob_q (rob_before_flush i s) k) = n))"

definition rob_still_alive_o :: "rob_in \<Rightarrow> rob_state \<Rightarrow> nat \<Rightarrow> bool" where
  "rob_still_alive_o i s k = re_valid (rob_q (rob_clk i s) k)"

text \<open>The hazard scan for one source register: the entry, whether it completed, its result.\<close>

definition rob_writes :: "reg_addr_t \<Rightarrow> rob_entry_t \<Rightarrow> bool" where
  "rob_writes r e = (re_addr_rd e = r \<and> re_write_enable e \<and> re_addr_rd e \<noteq> 0)"

definition rob_hazard_o :: "reg_addr_t \<Rightarrow> rob_state \<Rightarrow> (nat \<times> bool \<times> bus32_t) option" where
  "rob_hazard_o r s =
    map_option (\<lambda>k. (k, re_completed (rob_q s k), re_result (rob_q s k)))
      (find (\<lambda>k. re_valid (rob_q s k) \<and> rob_writes r (rob_q s k))
        (ring_scan ROB_SIZE (rob_tail_ptr_q s) ((rob_tail_ptr_q s + ROB_SIZE - 1) mod ROB_SIZE)))"

subsection \<open>The queue it implements\<close>

definition rob_valids :: "rob_state \<Rightarrow> nat \<Rightarrow> bool" where
  "rob_valids s k = re_valid (rob_q s k)"

text \<open>The ring is well formed and, one slot being kept free, never full.\<close>

definition rob_ok :: "rob_state \<Rightarrow> bool" where
  "rob_ok s = (ring_inv ROB_SIZE (rob_head_ptr_q s) (rob_tail_ptr_q s) (rob_valids s)
               \<and> \<not> ring_full (rob_head_ptr_q s) (rob_tail_ptr_q s) (rob_valids s))"

definition rob_slots :: "rob_state \<Rightarrow> nat list" where
  "rob_slots s = ring_window ROB_SIZE (rob_head_ptr_q s) (rob_tail_ptr_q s) (rob_valids s)"

definition rob_fifo :: "rob_state \<Rightarrow> (nat \<times> rob_entry_t) list" where
  "rob_fifo s = map (\<lambda>k. (k, rob_q s k)) (rob_slots s)"

definition inflight_commits :: "(nat \<times> rob_entry_t) list \<Rightarrow> bool" where
  "inflight_commits f = (f \<noteq> [] \<and> re_completed (snd (hd f)))"

definition inflight_flushes :: "(nat \<times> rob_entry_t) list \<Rightarrow> bool" where
  "inflight_flushes f = (inflight_commits f \<and> re_branch_taken (snd (hd f)))"

text \<open>
  The specification of one edge on the list of in-flight instructions, oldest first: append the
  decoded one, complete the written-back one if it is still in flight, retire the oldest one if
  it was complete, and drop every younger one if it was a taken branch.
\<close>

definition inflight_update ::
  "rob_in \<Rightarrow> nat \<times> rob_entry_t \<Rightarrow> (nat \<times> rob_entry_t) list \<Rightarrow> (nat \<times> rob_entry_t) list" where
  "inflight_update i tail f =
    (let f1 = f @ (if ri_valid_decode i then [(fst tail, rob_new_entry i (snd tail))] else []);
         f2 = map (\<lambda>(k, e). (k, if ri_valid_wb i \<and> k = ri_entry_commit i \<and> k \<in> fst ` set f
                                 then rob_complete i e else e)) f1
     in if inflight_commits f then tl f2 else f2)"

definition inflight_step ::
  "rob_in \<Rightarrow> nat \<times> rob_entry_t \<Rightarrow> (nat \<times> rob_entry_t) list \<Rightarrow> (nat \<times> rob_entry_t) list" where
  "inflight_step i tail f = (if inflight_flushes f then [] else inflight_update i tail f)"

subsection \<open>Every phase keeps the ring and acts on the queue\<close>

lemmas rob_unfold = rob_ok_def rob_fifo_def rob_slots_def

lemma rob_ok_inv: "rob_ok s \<Longrightarrow> ring_inv ROB_SIZE (rob_head_ptr_q s) (rob_tail_ptr_q s) (rob_valids s)"
  and rob_ok_room: "rob_ok s \<Longrightarrow> \<not> ring_full (rob_head_ptr_q s) (rob_tail_ptr_q s) (rob_valids s)"
  by (simp_all add: rob_ok_def)

lemma rob_ok_length:
  "rob_ok s \<longleftrightarrow> ring_inv ROB_SIZE (rob_head_ptr_q s) (rob_tail_ptr_q s) (rob_valids s)
     \<and> length (rob_fifo s) < ROB_SIZE"
  using rob_ring.room_iff by (auto simp: rob_unfold)

lemma rob_set_slots: "rob_ok s \<Longrightarrow> set (rob_slots s) = {k. k < ROB_SIZE \<and> rob_valids s k}"
  using rob_ring.window_set [OF rob_ok_inv] by (simp add: rob_slots_def)

lemma rob_fifo_Nil_iff: "rob_ok s \<Longrightarrow> rob_fifo s = [] \<longleftrightarrow> \<not> re_valid (rob_q s (rob_head_ptr_q s))"
  using rob_ring.window_empty_iff [OF rob_ok_inv] by (simp add: rob_unfold rob_valids_def)

lemma rob_fifo_hd:
  assumes ok: "rob_ok s" and vh: "re_valid (rob_q s (rob_head_ptr_q s))"
  shows "rob_fifo s = (rob_head_ptr_q s, rob_q s (rob_head_ptr_q s)) # tl (rob_fifo s)"
proof -
  have "hd (rob_slots s) = rob_head_ptr_q s"
    using rob_ring.window_hd [OF rob_ok_inv [OF ok]] vh by (simp add: rob_slots_def rob_valids_def)
  moreover have "rob_slots s \<noteq> []" using rob_fifo_Nil_iff [OF ok] vh by (simp add: rob_fifo_def)
  ultimately show ?thesis by (cases "rob_slots s") (simp_all add: rob_fifo_def)
qed

lemma rob_commits_fifo:
  assumes ok: "rob_ok s"
  shows "rob_commits s \<longleftrightarrow> inflight_commits (rob_fifo s)"
    and "rob_flushes s \<longleftrightarrow> inflight_flushes (rob_fifo s)"
proof -
  show c: "rob_commits s \<longleftrightarrow> inflight_commits (rob_fifo s)"
  proof (cases "re_valid (rob_q s (rob_head_ptr_q s))")
    case True
    then obtain r where "rob_fifo s = (rob_head_ptr_q s, rob_q s (rob_head_ptr_q s)) # r"
      using rob_fifo_hd [OF ok] by blast
    with True show ?thesis by (simp add: rob_commits_def inflight_commits_def)
  next
    case False
    then show ?thesis using rob_fifo_Nil_iff [OF ok] by (simp add: rob_commits_def inflight_commits_def)
  qed
  show "rob_flushes s \<longleftrightarrow> inflight_flushes (rob_fifo s)"
  proof (cases "rob_commits s")
    case True
    then have "re_valid (rob_q s (rob_head_ptr_q s))" by (simp add: rob_commits_def)
    then obtain r where "rob_fifo s = (rob_head_ptr_q s, rob_q s (rob_head_ptr_q s)) # r"
      using rob_fifo_hd [OF ok] by blast
    with c show ?thesis by (simp add: rob_flushes_def inflight_flushes_def)
  next
    case False
    with c show ?thesis by (simp add: rob_flushes_def inflight_flushes_def)
  qed
qed

text \<open>The environment's obligation: decode does not insert into a full reorder buffer.\<close>

definition rob_req_ok :: "rob_in \<Rightarrow> rob_state \<Rightarrow> bool" where
  "rob_req_ok i s = (ri_valid_decode i \<longrightarrow> \<not> rob_full_o s)"

lemma rob_alloc_fifo:
  assumes ok: "rob_ok s" and req: "rob_req_ok i s"
  shows "rob_ok (rob_alloc i s)"
    and "rob_fifo (rob_alloc i s) = rob_fifo s @
      (if ri_valid_decode i then [(rob_tail_ptr_q s, rob_new_entry i (rob_q s (rob_tail_ptr_q s)))] else [])"
proof -
  let ?t = "rob_tail_ptr_q s" and ?s = "rob_alloc i s"
  have "rob_ok ?s \<and> rob_fifo ?s = rob_fifo s @ [(?t, rob_new_entry i (rob_q s ?t))]"
    if v: "ri_valid_decode i"
  proof -
    note inv = rob_ok_inv [OF ok] and nf = rob_ok_room [OF ok]
    have vs: "rob_valids ?s = (rob_valids s)(?t := True)"
      using v by (intro ext) (simp add: rob_alloc_def rob_valids_def rob_new_entry_def)
    have ptr: "rob_tail_ptr_q ?s = ring_next ROB_SIZE ?t" "rob_head_ptr_q ?s = rob_head_ptr_q s"
      using v by (simp_all add: rob_alloc_def ring_next_def)
    have w: "rob_slots ?s = rob_slots s @ [?t]"
      using rob_ring.inv_push(2) [OF inv nf] by (simp add: rob_slots_def vs ptr)
    have nt: "?t \<notin> set (rob_slots s)"
      using rob_ring.tail_free [OF inv nf] rob_set_slots [OF ok] by blast
    have q: "rob_q ?s = (rob_q s)(?t := rob_new_entry i (rob_q s ?t))"
      using v by (simp add: rob_alloc_def)
    have "map (\<lambda>k. (k, rob_q ?s k)) (rob_slots s) = rob_fifo s"
      using nt by (auto simp: rob_fifo_def q intro!: map_cong)
    then have f: "rob_fifo ?s = rob_fifo s @ [(?t, rob_new_entry i (rob_q s ?t))]"
      unfolding rob_fifo_def w map_append by (simp add: q)
    have t: "?t < ROB_SIZE" using inv by (simp add: ring_inv_def)
    have "ring_next ROB_SIZE ?t \<noteq> ?t" using rob_ring.next_if [OF t] t by (simp add: ROB_SIZE_def split: if_splits)
    then have "\<not> ring_full (rob_head_ptr_q ?s) (rob_tail_ptr_q ?s) (rob_valids ?s)"
      using req v by (auto simp: ring_full_def ptr vs rob_req_ok_def rob_full_o_def rob_valids_def ring_next_def)
    with rob_ring.inv_push(1) [OF inv nf] f show ?thesis by (simp add: rob_ok_def vs ptr)
  qed
  moreover have "rob_ok ?s \<and> rob_fifo ?s = rob_fifo s" if "\<not> ri_valid_decode i"
    using that ok by (simp add: rob_alloc_def)
  ultimately show "rob_ok ?s" and "rob_fifo ?s = rob_fifo s @
      (if ri_valid_decode i then [(?t, rob_new_entry i (rob_q s ?t))] else [])"
    by (cases "ri_valid_decode i"; force)+
qed

lemma rob_writeback_fifo:
  assumes ok: "rob_ok d" and sub: "re_valid (rob_q s (ri_entry_commit i)) \<longrightarrow> re_valid (rob_q d (ri_entry_commit i))"
  shows "rob_ok (rob_writeback i s d)"
    and "rob_fifo (rob_writeback i s d) = map (\<lambda>(k, e). (k,
      if ri_valid_wb i \<and> k = ri_entry_commit i \<and> re_valid (rob_q s k) then rob_complete i e else e)) (rob_fifo d)"
proof -
  let ?d = "rob_writeback i s d"
  have v: "rob_valids ?d = rob_valids d"
    using sub by (intro ext) (simp add: rob_writeback_def Let_def rob_valids_def rob_complete_def)
  have p: "rob_head_ptr_q ?d = rob_head_ptr_q d" "rob_tail_ptr_q ?d = rob_tail_ptr_q d"
    by (simp_all add: rob_writeback_def Let_def)
  show "rob_ok ?d" using ok by (simp add: rob_ok_def v p)
  have q: "rob_q ?d k = (if ri_valid_wb i \<and> k = ri_entry_commit i \<and> re_valid (rob_q s k)
      then rob_complete i (rob_q d k) else rob_q d k)" for k
    by (auto simp: rob_writeback_def Let_def)
  show "rob_fifo ?d = map (\<lambda>(k, e). (k,
      if ri_valid_wb i \<and> k = ri_entry_commit i \<and> re_valid (rob_q s k) then rob_complete i e else e)) (rob_fifo d)"
    by (simp add: rob_fifo_def rob_slots_def v p q comp_def)
qed

lemma rob_free_head_fifo:
  assumes ok: "rob_ok d" and vh: "re_valid (rob_q d (rob_head_ptr_q d))"
  shows "rob_ok (rob_free_head d)" and "rob_fifo (rob_free_head d) = tl (rob_fifo d)"
proof -
  let ?h = "rob_head_ptr_q d" and ?d = "rob_free_head d"
  note inv = rob_ok_inv [OF ok]
  have vs: "rob_valids ?d = (rob_valids d)(?h := False)"
    by (intro ext) (simp add: rob_free_head_def rob_valids_def)
  have ptr: "rob_head_ptr_q ?d = ring_next ROB_SIZE ?h" "rob_tail_ptr_q ?d = rob_tail_ptr_q d"
    by (simp_all add: rob_free_head_def ring_next_def)
  have vd: "rob_valids d ?h" using vh by (simp add: rob_valids_def)
  have inv': "ring_inv ROB_SIZE (rob_head_ptr_q ?d) (rob_tail_ptr_q ?d) (rob_valids ?d)"
    using rob_ring.inv_pop(1) [OF inv vd] by (simp add: vs ptr)
  have w: "rob_slots ?d = tl (rob_slots d)"
    using rob_ring.inv_pop(2) [OF inv vd] by (simp add: rob_slots_def vs ptr)
  have "rob_q ?d k = rob_q d k" if "k \<in> set (rob_slots ?d)" for k
  proof -
    have "rob_valids ?d k" using rob_ring.window_set [OF inv'] that by (auto simp: rob_slots_def)
    then have "k \<noteq> ?h" unfolding vs by auto
    then show ?thesis by (simp add: rob_free_head_def)
  qed
  then show f: "rob_fifo ?d = tl (rob_fifo d)" by (simp add: rob_fifo_def map_tl w flip: map_tl)
  show "rob_ok ?d" using inv' ok by (auto simp: rob_ok_length f)
qed

lemma rob_flushed_fifo: "rob_flushes s \<Longrightarrow> rob_ok (rob_flush s d) \<and> rob_fifo (rob_flush s d) = []"
proof -
  assume "rob_flushes s"
  then have p: "rob_head_ptr_q (rob_flush s d) = 0" "rob_tail_ptr_q (rob_flush s d) = 0"
    and v: "\<And>k. k < ROB_SIZE \<Longrightarrow> \<not> rob_valids (rob_flush s d) k"
    by (simp_all add: rob_flush_def rob_valids_def)
  have "ring_count ROB_SIZE 0 0 (rob_valids (rob_flush s d)) = 0"
    using v [of 0] by (simp add: ring_count_def ROB_SIZE_def)
  then show ?thesis
    using v by (simp add: rob_unfold p ring_inv_def ring_full_def ring_window_def ring_idx_def ROB_SIZE_def)
qed

lemma rob_before_flush_fifo:
  assumes ok: "rob_ok s" and req: "rob_req_ok i s"
  shows "rob_ok (rob_before_flush i s)"
    and "rob_fifo (rob_before_flush i s) =
      inflight_update i (rob_tail_ptr_q s, rob_q s (rob_tail_ptr_q s)) (rob_fifo s)"
proof -
  let ?t = "rob_tail_ptr_q s" and ?h = "rob_head_ptr_q s"
  let ?a = "rob_alloc i s" let ?w = "rob_writeback i s ?a"
  note alloc = rob_alloc_fifo [OF ok req]
  have nt: "\<not> re_valid (rob_q s ?t)"
    using rob_ring.tail_free [OF rob_ok_inv [OF ok] rob_ok_room [OF ok]] by (simp add: rob_valids_def)
  have keep: "rob_q ?a k = rob_q s k" if "re_valid (rob_q s k)" for k
    using that nt by (auto simp: rob_alloc_def)
  have sub: "re_valid (rob_q s k) \<longrightarrow> re_valid (rob_q ?a k)" for k
    using keep by simp
  note wb = rob_writeback_fifo [OF alloc(1) sub]
  have h: "rob_head_ptr_q ?w = ?h" by (simp add: rob_writeback_def Let_def rob_alloc_def)
  have vh: "re_valid (rob_q ?w ?h)" if "re_valid (rob_q s ?h)"
    using keep [OF that] that by (auto simp: rob_writeback_def Let_def rob_complete_def)
  have in_slots: "k \<in> fst ` set (rob_fifo s) \<longleftrightarrow> re_valid (rob_q s k)" if "k \<in> fst ` set (rob_fifo ?a)" for k
  proof -
    have "k < ROB_SIZE" using that rob_set_slots [OF alloc(1)] by (force simp: rob_fifo_def)
    then show ?thesis using rob_set_slots [OF ok] by (force simp: rob_fifo_def rob_valids_def)
  qed
  have "rob_fifo ?w = map (\<lambda>(k, e). (k, if ri_valid_wb i \<and> k = ri_entry_commit i
      \<and> k \<in> fst ` set (rob_fifo s) then rob_complete i e else e)) (rob_fifo ?a)"
    unfolding wb(2) using in_slots by (intro map_cong refl) force
  note w = this [unfolded alloc(2)]
  have c: "rob_before_flush i s = (if inflight_commits (rob_fifo s) then rob_free_head ?w else ?w)"
    by (simp add: rob_before_flush_def rob_commit_def rob_commits_fifo [OF ok])
  have v: "inflight_commits (rob_fifo s) \<Longrightarrow> re_valid (rob_q ?w (rob_head_ptr_q ?w))"
    using vh by (simp add: h rob_commits_fifo(1) [OF ok, symmetric] rob_commits_def)
  show "rob_ok (rob_before_flush i s)"
    unfolding c using rob_free_head_fifo(1) [OF wb(1)] v wb(1) by simp
  show "rob_fifo (rob_before_flush i s) = inflight_update i (?t, rob_q s ?t) (rob_fifo s)"
    unfolding c inflight_update_def Let_def fst_conv snd_conv w [symmetric]
    using rob_free_head_fifo(2) [OF wb(1)] v by simp
qed

lemma rob_clk_fifo:
  assumes ok: "rob_ok s" and req: "rob_req_ok i s"
  shows "rob_ok (rob_clk i s)"
    and "rob_fifo (rob_clk i s) =
      inflight_step i (rob_tail_ptr_q s, rob_q s (rob_tail_ptr_q s)) (rob_fifo s)"
proof -
  have n: "\<not> rob_flushes s \<Longrightarrow> rob_clk i s = rob_before_flush i s"
    by (simp add: rob_clk_def rob_flush_def)
  show "rob_ok (rob_clk i s)"
    and "rob_fifo (rob_clk i s) = inflight_step i (rob_tail_ptr_q s, rob_q s (rob_tail_ptr_q s)) (rob_fifo s)"
    using rob_flushed_fifo [of s "rob_before_flush i s"] rob_before_flush_fifo [OF ok req] n
    by (cases "rob_flushes s"; simp add: inflight_step_def rob_commits_fifo [OF ok] rob_clk_def)+
qed

lemma rob_reset_fifo: "rob_ok (rob_reset idx)" "rob_fifo (rob_reset idx) = []"
  by (simp_all add: rob_reset_def rob_unfold rob_valids_def ring_inv_def ring_full_def ring_count_def
      ring_window_def ROB_SIZE_def)

lemma rob_discard_fifo:
  assumes ok: "rob_ok s" and req: "rob_req_ok i s"
  shows "rob_discard_o i s n \<longleftrightarrow> rob_flushes s \<and>
    (\<exists>p \<in> set (inflight_update i (rob_tail_ptr_q s, rob_q s (rob_tail_ptr_q s)) (rob_fifo s)).
       re_store_to_mem (snd p) \<and> re_store_buffer_idx (snd p) = n)"
proof -
  note b = rob_before_flush_fifo [OF ok req]
  have "set (rob_fifo (rob_before_flush i s)) =
      (\<lambda>k. (k, rob_q (rob_before_flush i s) k)) ` {k. k < ROB_SIZE \<and> re_valid (rob_q (rob_before_flush i s) k)}"
    using rob_set_slots [OF b(1)] by (simp add: rob_fifo_def rob_valids_def)
  then show ?thesis unfolding b(2) rob_discard_o_def by auto
qed

subsection \<open>Properties\<close>

lemma rob_commit_o_fifo:
  assumes ok: "rob_ok s"
  shows "rob_commit_o s = (if inflight_commits (rob_fifo s) then Some (snd (hd (rob_fifo s))) else None)"
proof (cases "rob_commits s")
  case True
  then have "re_valid (rob_q s (rob_head_ptr_q s))" by (simp add: rob_commits_def)
  then obtain r where "rob_fifo s = (rob_head_ptr_q s, rob_q s (rob_head_ptr_q s)) # r"
    using rob_fifo_hd [OF ok] by blast
  then have "snd (hd (rob_fifo s)) = rob_q s (rob_head_ptr_q s)" by simp
  with True show ?thesis unfolding rob_commit_o_def rob_commits_fifo(1) [OF ok, symmetric] by simp
next
  case False
  then show ?thesis by (simp add: rob_commit_o_def rob_commits_fifo(1) [OF ok, symmetric])
qed

text \<open>
  C2. One clock edge of the reorder buffer is one step of the queue of in-flight instructions:
  provided decode inserts only when the buffer is not full, the ring stays well formed, the
  decoded instruction is appended, a write-back completes exactly the entry it names if that
  entry is in flight, the commit port shows the oldest instruction once it is complete, a
  committing taken branch empties the queue, and then the stores it discards are exactly the
  stores among the younger instructions.
\<close>

theorem reorder_buffer_refines_queue:
  assumes "rob_ok s" "rob_req_ok i s"
  shows "rob_ok (rob_clk i s)
    \<and> rob_fifo (rob_clk i s) = inflight_step i (rob_tail_ptr_q s, rob_q s (rob_tail_ptr_q s)) (rob_fifo s)
    \<and> rob_commit_o s = (if inflight_commits (rob_fifo s) then Some (snd (hd (rob_fifo s))) else None)
    \<and> (rob_discard_o i s n \<longleftrightarrow> inflight_flushes (rob_fifo s) \<and>
        (\<exists>p \<in> set (inflight_update i (rob_tail_ptr_q s, rob_q s (rob_tail_ptr_q s)) (rob_fifo s)).
           re_store_to_mem (snd p) \<and> re_store_buffer_idx (snd p) = n))"
  using rob_clk_fifo [OF assms] rob_commit_o_fifo [OF assms(1)] rob_discard_fifo [OF assms]
    rob_commits_fifo(2) [OF assms(1)] by simp

definition rob_sample_in :: "bus32_t \<Rightarrow> reg_addr_t \<Rightarrow> rob_in" where
  "rob_sample_in pc rd = \<lparr>ri_valid_decode = True, ri_pc = pc, ri_instr = 0, ri_rd_addr = rd,
     ri_write_enable = True, ri_store_to_mem = False, ri_kanata_id = 0, ri_entry_commit = 0,
     ri_valid_wb = False, ri_result = 0, ri_new_pc = 0, ri_branch_taken = False,
     ri_store_buffer_idx = 0\<rparr>"

lemma rob_sample_req: "rob_req_ok (rob_sample_in pc rd) (rob_reset idx)"
  by (simp add: rob_req_ok_def rob_full_o_def rob_reset_def)

lemma inflight_sample_step:
  "inflight_step (rob_sample_in pc rd) (t, e) [] = [(t, rob_new_entry (rob_sample_in pc rd) e)]"
  by (simp add: inflight_step_def inflight_flushes_def inflight_commits_def inflight_update_def
      rob_sample_in_def)

theorem reorder_buffer_refines_queue_witness:
  "map (re_pc \<circ> snd) (rob_fifo (rob_clk (rob_sample_in 64 3) (rob_reset id))) = [64]"
  using reorder_buffer_refines_queue [OF rob_reset_fifo(1) rob_sample_req, of 64 3 id]
  by (simp only: rob_reset_fifo inflight_sample_step)
     (simp add: rob_new_entry_def rob_sample_in_def)

text \<open>
  C11. The hazard port of a source register reports the youngest in-flight instruction that
  writes that register (never register 0), with its completion flag and its result, and nothing
  when there is none: the backward scan over the ring is exact because one slot is kept free.
\<close>

theorem rob_hazard_youngest_writer:
  assumes "rob_ok s"
  shows "rob_hazard_o r s = map_option (\<lambda>p. (fst p, re_completed (snd p), re_result (snd p)))
    (find (\<lambda>p. rob_writes r (snd p)) (rev (rob_fifo s)))"
proof -
  have scan: "filter (rob_valids s) (ring_scan ROB_SIZE (rob_tail_ptr_q s)
      ((rob_tail_ptr_q s + ROB_SIZE - 1) mod ROB_SIZE)) = rev (rob_slots s)"
    using rob_ring.scan_valid [OF rob_ok_inv [OF assms]] rob_ok_room [OF assms]
    by (simp add: rob_slots_def)
  have "rob_hazard_o r s = map_option (\<lambda>k. (k, re_completed (rob_q s k), re_result (rob_q s k)))
      (find (\<lambda>k. rob_writes r (rob_q s k)) (rev (rob_slots s)))"
    unfolding rob_hazard_o_def scan [symmetric] by (simp add: find_filter rob_valids_def)
  also have "\<dots> = map_option (\<lambda>p. (fst p, re_completed (snd p), re_result (snd p)))
      (find (\<lambda>p. rob_writes r (snd p)) (rev (map (\<lambda>k. (k, rob_q s k)) (rob_slots s))))"
    by (simp add: rev_map find_map option.map_comp comp_def)
  finally show ?thesis by (simp add: rob_fifo_def)
qed

theorem rob_hazard_youngest_writer_witness:
  "rob_hazard_o 3 (rob_clk (rob_sample_in 64 3) (rob_reset id)) = Some (0, False, 0)
   \<and> rob_hazard_o 4 (rob_clk (rob_sample_in 64 3) (rob_reset id)) = None"
  unfolding rob_hazard_youngest_writer [OF rob_clk_fifo(1) [OF rob_reset_fifo(1) rob_sample_req]]
    rob_clk_fifo(2) [OF rob_reset_fifo(1) rob_sample_req] rob_reset_fifo inflight_sample_step
  by (simp add: rob_writes_def rob_new_entry_def rob_sample_in_def rob_reset_def)

text \<open>What identifies an instruction from decode to commit, and the two traces of a run.\<close>

type_synonym rob_payload = "bus32_t \<times> instruction_t \<times> reg_addr_t \<times> bool \<times> bool \<times> int"

definition entry_payload :: "rob_entry_t \<Rightarrow> rob_payload" where
  "entry_payload e = (re_pc e, re_instr e, re_addr_rd e, re_write_enable e, re_store_to_mem e, re_kanata_id e)"

definition rob_allocated :: "rob_in list \<Rightarrow> rob_payload list" where
  "rob_allocated is = map (\<lambda>i. (ri_pc i, ri_instr i, ri_rd_addr i, ri_write_enable i,
     ri_store_to_mem i, ri_kanata_id i)) (filter ri_valid_decode is)"

primrec rob_committed :: "rob_in list \<Rightarrow> rob_state \<Rightarrow> rob_payload list" where
  "rob_committed [] s = []"
| "rob_committed (i # is) s =
    (case rob_commit_o s of Some e \<Rightarrow> [entry_payload e] | None \<Rightarrow> []) @ rob_committed is (rob_clk i s)"

primrec rob_reqs_ok :: "rob_in list \<Rightarrow> rob_state \<Rightarrow> bool" where
  "rob_reqs_ok [] s = True"
| "rob_reqs_ok (i # is) s = (rob_req_ok i s \<and> rob_reqs_ok is (rob_clk i s))"

primrec rob_never_flushes :: "rob_in list \<Rightarrow> rob_state \<Rightarrow> bool" where
  "rob_never_flushes [] s = True"
| "rob_never_flushes (i # is) s = (\<not> rob_flushes s \<and> rob_never_flushes is (rob_clk i s))"

abbreviation fifo_payload :: "rob_state \<Rightarrow> rob_payload list" where
  "fifo_payload s \<equiv> map (entry_payload \<circ> snd) (rob_fifo s)"

lemma payload_new [simp]: "entry_payload (rob_new_entry i e) =
    (ri_pc i, ri_instr i, ri_rd_addr i, ri_write_enable i, ri_store_to_mem i, ri_kanata_id i)"
  and payload_complete [simp]: "entry_payload (rob_complete i e) = entry_payload e"
  by (simp_all add: entry_payload_def rob_new_entry_def rob_complete_def)

lemma payload_update:
  "map (entry_payload \<circ> snd) (inflight_update i tail f) =
    (if inflight_commits f then tl else id) (map (entry_payload \<circ> snd) f @ rob_allocated [i])"
proof -
  have c: "map (entry_payload \<circ> snd) (map (\<lambda>(k, e). (k, if P k then rob_complete i e else e)) g)
      = map (entry_payload \<circ> snd) g" for P g
    by (auto simp: comp_def)
  show ?thesis
    unfolding inflight_update_def Let_def
    by (cases "inflight_commits f") (simp_all only: if_True if_False map_tl c map_append,
        simp_all add: rob_allocated_def)
qed

lemma rob_payload_step:
  assumes "rob_ok s" "rob_req_ok i s"
  shows "fifo_payload (rob_clk i s) = (if rob_flushes s then [] else
    (if rob_commits s then tl else id) (fifo_payload s @ rob_allocated [i]))"
  unfolding rob_clk_fifo(2) [OF assms] inflight_step_def rob_commits_fifo [OF assms(1)]
  by (simp add: payload_update)

lemma commit_payload:
  assumes ok: "rob_ok s"
  shows "(case rob_commit_o s of Some e \<Rightarrow> [entry_payload e] | None \<Rightarrow> []) =
    (if rob_commits s then [hd (fifo_payload s)] else []) \<and> (rob_commits s \<longrightarrow> rob_fifo s \<noteq> [])"
  unfolding rob_commit_o_fifo [OF ok] rob_commits_fifo [OF ok]
  by (auto simp: inflight_commits_def hd_map)

lemma rob_allocated_Cons: "rob_allocated (i # is) = rob_allocated [i] @ rob_allocated is"
  by (simp add: rob_allocated_def)

lemma rob_committed_subseq:
  "rob_ok s \<Longrightarrow> rob_reqs_ok is s \<Longrightarrow> subseq (rob_committed is s) (fifo_payload s @ rob_allocated is)"
proof (induction "is" arbitrary: s)
  case (Cons i "is")
  then have ok: "rob_ok s" and req: "rob_req_ok i s" by simp_all
  have ih: "subseq (rob_committed is (rob_clk i s)) (fifo_payload (rob_clk i s) @ rob_allocated is)"
    by (rule Cons.IH [OF rob_clk_fifo(1) [OF ok req]]) (use Cons.prems in simp_all)
  obtain c where c: "(case rob_commit_o s of Some e \<Rightarrow> [entry_payload e] | None \<Rightarrow> []) = c"
    "c = (if rob_commits s then [hd (fifo_payload s)] else [])" "rob_commits s \<longrightarrow> rob_fifo s \<noteq> []"
    using commit_payload [OF ok] by blast
  have h: "subseq (c @ fifo_payload (rob_clk i s)) (fifo_payload s @ rob_allocated [i])"
    unfolding rob_payload_step [OF ok req] using c(2,3)
    by (cases "rob_fifo s") (auto simp: rob_flushes_def)
  have "subseq (c @ rob_committed is (rob_clk i s)) (c @ fifo_payload (rob_clk i s) @ rob_allocated is)"
    by (rule list_emb_append_mono [OF subseq_order.order_refl ih])
  also have "subseq (c @ fifo_payload (rob_clk i s) @ rob_allocated is)
      ((fifo_payload s @ rob_allocated [i]) @ rob_allocated is)"
    unfolding append_assoc [of c, symmetric] by (rule list_emb_append_mono [OF h subseq_order.order_refl])
  finally show ?case unfolding rob_committed.simps c(1) rob_allocated_Cons [of i "is"] append_assoc .
qed (simp add: rob_allocated_def)

lemma rob_committed_exact:
  "rob_ok s \<Longrightarrow> rob_reqs_ok is s \<Longrightarrow> rob_never_flushes is s \<Longrightarrow>
    rob_committed is s @ fifo_payload (fold rob_clk is s) = fifo_payload s @ rob_allocated is"
proof (induction "is" arbitrary: s)
  case (Cons i "is")
  then have ok: "rob_ok s" and req: "rob_req_ok i s" and nf: "\<not> rob_flushes s" by simp_all
  have ih: "rob_committed is (rob_clk i s) @ fifo_payload (fold rob_clk is (rob_clk i s)) =
      fifo_payload (rob_clk i s) @ rob_allocated is"
    by (rule Cons.IH [OF rob_clk_fifo(1) [OF ok req]]) (use Cons.prems in simp_all)
  let ?c = "case rob_commit_o s of Some e \<Rightarrow> [entry_payload e] | None \<Rightarrow> []"
  have "?c @ fifo_payload (rob_clk i s) = fifo_payload s @ rob_allocated [i]"
    unfolding rob_payload_step [OF ok req] using commit_payload [OF ok] nf by (cases "rob_fifo s") auto
  then have "?c @ fifo_payload (rob_clk i s) @ rob_allocated is = fifo_payload s @ rob_allocated (i # is)"
    unfolding rob_allocated_Cons [of i "is"] append_assoc [symmetric] by (rule arg_cong)
  then show ?case
    unfolding rob_committed.simps fold_simps append_assoc ih .
qed (simp add: rob_allocated_def)

text \<open>
  C6. Instructions commit in program order: along every run in which decode respects the full
  flag, the committed instructions are, in order, a subsequence of the decoded ones, whatever the
  order in which their results arrive.
\<close>

theorem rob_commits_in_program_order:
  assumes "rob_reqs_ok is (rob_reset idx)"
  shows "subseq (rob_committed is (rob_reset idx)) (rob_allocated is)"
  using rob_committed_subseq [OF rob_reset_fifo(1) assms] by (simp add: rob_reset_fifo)

text \<open>Two instructions decoded in order and completed out of order.\<close>

definition rob_sample_wb :: "nat \<Rightarrow> rob_in" where
  "rob_sample_wb k = (rob_sample_in 0 0)\<lparr>ri_valid_decode := False, ri_valid_wb := True, ri_entry_commit := k\<rparr>"

definition rob_sample_run :: "rob_in list" where
  "rob_sample_run = [rob_sample_in 64 3, rob_sample_in 68 4, rob_sample_wb 1, rob_sample_wb 0,
     rob_sample_wb 5, rob_sample_wb 5]"

theorem rob_commits_in_program_order_witness:
  "rob_reqs_ok rob_sample_run (rob_reset id)
   \<and> map fst (rob_committed rob_sample_run (rob_reset id)) = [64, 68]
   \<and> subseq (rob_committed rob_sample_run (rob_reset id)) (rob_allocated rob_sample_run)"
proof -
  have r: "rob_reqs_ok rob_sample_run (rob_reset id)"
    "map fst (rob_committed rob_sample_run (rob_reset id)) = [64, 68]" by code_simp+
  then show ?thesis using rob_commits_in_program_order [OF r(1)] by simp
qed

text \<open>
  C26. While no taken branch commits, the reorder buffer neither loses nor invents an
  instruction: what has committed followed by what is in flight is exactly what was in flight
  followed by what was decoded.
\<close>

theorem rob_conserves_instructions:
  assumes "rob_reqs_ok is (rob_reset idx)" "rob_never_flushes is (rob_reset idx)"
  shows "rob_committed is (rob_reset idx) @ fifo_payload (fold rob_clk is (rob_reset idx)) = rob_allocated is"
  using rob_committed_exact [OF rob_reset_fifo(1) assms] by (simp add: rob_reset_fifo)

theorem rob_conserves_instructions_witness:
  "length (rob_committed rob_sample_run (rob_reset id)) = 2
   \<and> fifo_payload (fold rob_clk rob_sample_run (rob_reset id)) = []"
proof -
  have r: "rob_reqs_ok rob_sample_run (rob_reset id)" "rob_never_flushes rob_sample_run (rob_reset id)"
    "length (rob_committed rob_sample_run (rob_reset id)) = 2" "length (rob_allocated rob_sample_run) = 2"
    by code_simp+
  then show ?thesis
    using rob_conserves_instructions [OF r(1,2), THEN arg_cong [where f = length]] by simp
qed

end
