(* ===== verification/C_Prelude.thy ===== *)
theory C_Prelude
  imports Tartaruga_Prelude
begin

text \<open>
  What the models of the C sources share. A C \<^verbatim>\<open>int\<close> or \<^verbatim>\<open>unsigned\<close> is a 32-bit word with
  wrap-around (the arithmetic of the compiled code; signed comparison is \<open><s\<close>), an array
  is a list, an array reached only through a pointer of unknown extent is a function from
  indices, and a counted loop is \<open>c_for\<close>, defined by its test and increment.
\<close>

type_synonym c_int = "32 word"

subsection \<open>Counted loops\<close>

text \<open>\<^verbatim>\<open>for (i = lo; i < hi; i += st) body\<close>, for a body that does not assign the index.\<close>

function c_for :: "nat \<Rightarrow> nat \<Rightarrow> nat \<Rightarrow> (nat \<Rightarrow> 's \<Rightarrow> 's) \<Rightarrow> 's \<Rightarrow> 's" where
  "c_for lo hi st body s =
     (if lo < hi \<and> 0 < st then c_for (lo + st) hi st body (body lo s) else s)"
  by pat_completeness auto
termination
  by (relation "measure (\<lambda>(lo, hi, st, _, _). hi - lo)") auto

declare c_for.simps [simp del]

text \<open>The indices it visits.\<close>

function c_range :: "nat \<Rightarrow> nat \<Rightarrow> nat \<Rightarrow> nat list" where
  "c_range lo hi st = (if lo < hi \<and> 0 < st then lo # c_range (lo + st) hi st else [])"
  by pat_completeness auto
termination
  by (relation "measure (\<lambda>(lo, hi, st). hi - lo)") auto

declare c_range.simps [simp del]

lemma c_for_fold: "c_for lo hi st body s = fold body (c_range lo hi st) s"
proof (induction lo hi st body s rule: c_for.induct)
  case (1 lo hi st body s)
  then show ?case
    by (subst c_for.simps, subst c_range.simps) simp
qed

lemma c_range_1 [simp]: "c_range lo hi (Suc 0) = [lo..<hi]"
proof (induction lo hi "Suc 0" rule: c_range.induct)
  case (1 lo hi)
  then show ?case by (subst c_range.simps) (simp add: upt_conv_Cons)
qed

lemma c_for_1: "c_for lo hi (Suc 0) body = fold body [lo..<hi]"
  by (intro ext) (simp add: c_for_fold)

text \<open>A range with a step that divides its length, as multiples of the step.\<close>

lemma c_range_mult: "0 < st \<Longrightarrow> c_range lo (lo + n * st) st = map (\<lambda>k. lo + k * st) [0..<n]"
proof (induction n arbitrary: lo)
  case 0
  then show ?case by (subst c_range.simps) simp
next
  case (Suc n)
  have "c_range lo (lo + Suc n * st) st = lo # c_range (lo + st) (lo + st + n * st) st"
    using Suc.prems by (subst c_range.simps) (simp add: add.assoc)
  also have "\<dots> = map (\<lambda>k. lo + k * st) [0..<Suc n]"
    unfolding Suc.IH [OF Suc.prems] by (simp add: upt_conv_Cons map_Suc_upt [symmetric] del: upt_Suc)
  finally show ?case .
qed

lemma c_for_mult:
  "0 < st \<Longrightarrow> c_for lo (lo + n * st) st body s = fold (\<lambda>k. body (lo + k * st)) [0..<n] s"
  by (simp add: c_for_fold c_range_mult fold_map comp_def)

text \<open>Membership, whatever the step.\<close>

lemma c_range_mem: "0 < st \<Longrightarrow> i \<in> set (c_range lo hi st) \<longleftrightarrow> i < hi \<and> (\<exists>k. i = lo + k * st)"
proof (induction lo hi st rule: c_range.induct)
  case (1 lo hi st)
  show ?case
  proof (cases "lo < hi")
    case True
    have "(\<exists>k. i = lo + k * st) \<longleftrightarrow> i = lo \<or> (\<exists>k. i = lo + st + k * st)"
    proof
      assume "\<exists>k. i = lo + k * st"
      then obtain k where "i = lo + k * st" ..
      then show "i = lo \<or> (\<exists>k. i = lo + st + k * st)" by (cases k) auto
    next
      assume "i = lo \<or> (\<exists>k. i = lo + st + k * st)"
      then show "\<exists>k. i = lo + k * st"
        by (elim disjE exE) (rule exI [of _ 0], simp, rule_tac x = "Suc k" in exI, simp)
    qed
    then show ?thesis using "1.IH" True "1.prems" by (subst c_range.simps) auto
  next
    case False
    then show ?thesis by (subst c_range.simps) auto
  qed
qed

lemma c_range_distinct: "distinct (c_range lo hi st)"
proof (induction lo hi st rule: c_range.induct)
  case (1 lo hi st)
  show ?case
  proof (cases "lo < hi \<and> 0 < st")
    case True
    then have "lo \<notin> set (c_range (lo + st) hi st)" by (simp add: c_range_mem)
    with 1 True show ?thesis by (subst c_range.simps) simp
  next
    case False
    then show ?thesis by (subst c_range.simps) auto
  qed
qed

subsection \<open>Loops over arrays\<close>

text \<open>A loop that assigns, at each visited index, a value that its own earlier assignments do not affect.\<close>

lemma fold_assign_at:
  assumes "distinct is" "\<And>i zs. i \<in> set is \<Longrightarrow> length zs = length xs \<Longrightarrow> zs ! i = xs ! i \<Longrightarrow> f i zs = g i"
  shows "length (fold (\<lambda>i zs. zs[i := f i zs]) is xs) = length xs
    \<and> (\<forall>j < length xs. fold (\<lambda>i zs. zs[i := f i zs]) is xs ! j = (if j \<in> set is then g j else xs ! j))"
  using assms
proof (induction "is" arbitrary: xs)
  case (Cons i "is")
  let ?ys = "xs[i := f i xs]"
  have fi: "f i xs = g i" using Cons.prems(2) [of i xs] by simp
  have "length (fold (\<lambda>i zs. zs[i := f i zs]) is ?ys) = length ?ys
    \<and> (\<forall>j < length ?ys. fold (\<lambda>i zs. zs[i := f i zs]) is ?ys ! j = (if j \<in> set is then g j else ?ys ! j))"
  proof (rule Cons.IH)
    show "distinct is" using Cons.prems(1) by simp
  next
    fix k zs assume k: "k \<in> set is" "length zs = length ?ys" "zs ! k = ?ys ! k"
    then have "k \<noteq> i" using Cons.prems(1) by auto
    with k show "f k zs = g k" using Cons.prems(2) [of k zs] by simp
  qed
  with Cons.prems(1) show ?case by (auto simp: fi nth_list_update)
qed simp

text \<open>A loop that assigns one element per iteration.\<close>

lemma fold_assign:
  "n \<le> length xs \<Longrightarrow> fold (\<lambda>j xs. xs[j := f j]) [0..<n] xs = map f [0..<n] @ drop n xs"
  by (induction n) (auto simp: list_update_append Cons_nth_drop_Suc [symmetric] nth_append)

text \<open>A loop that adds to an accumulator.\<close>

lemma fold_plus: "fold (\<lambda>k s. s + f k) ks (v :: 'a::comm_monoid_add) = v + sum_list (map f ks)"
  by (induction ks arbitrary: v) (simp_all add: add.assoc)

text \<open>
  A loop each of whose iterations adds, at every index, a value that does not depend on the
  array: the whole loop adds the sum.
\<close>

lemma fold_contrib:
  assumes "\<And>k C. k \<in> set ks \<Longrightarrow> body k C = (\<lambda>x. C x + g k x)"
  shows "fold body ks (C :: 'i \<Rightarrow> 'a::comm_monoid_add) = (\<lambda>x. C x + sum_list (map (\<lambda>k. g k x) ks))"
  using assms by (induction ks arbitrary: C) (simp_all add: add.assoc)

lemma sum_upt_blocks:
  "sum_list (map (\<lambda>k. sum_list (map (\<lambda>l. f (k * st + l)) [0..<st])) [0..<n]) =
   (sum_list (map f [0..<n * st]) :: 'a::comm_monoid_add)"
proof (induction n)
  case (Suc n)
  have u: "[n * st..<n * st + st] = map (\<lambda>l. l + n * st) [0..<st]"
    by (simp add: map_add_upt add.commute)
  have "[0..<Suc n * st] = [0..<n * st] @ [n * st..<n * st + st]"
    using upt_add_eq_append [of 0 "n * st" st] by (simp add: add.commute)
  then have "sum_list (map f [0..<Suc n * st]) =
      sum_list (map f [0..<n * st]) + sum_list (map (\<lambda>l. f (n * st + l)) [0..<st])"
    unfolding u by (simp add: comp_def add.commute)
  with Suc.IH show ?case by simp
qed simp

end
