(* ===== verification/Own_Benchmarks.thy ===== *)
theory Own_Benchmarks
  imports C_Prelude
begin

text \<open>
  The repository's own C programs: the three benchmarks the core runs
  (\<^verbatim>\<open>benchmarks/matrix_mul\<close>, \<^verbatim>\<open>benchmarks/buffer_sum\<close>, \<^verbatim>\<open>benchmarks/memcpy\<close>) with their data,
  and the memory stubs of the cache test benches (\<^verbatim>\<open>rtl/caches/tb_*/read_mem.c\<close>).
\<close>

subsection \<open>Matrix multiplication\<close>

type_synonym matrix = "c_int list list"

definition mm_a :: matrix where "mm_a = replicate 128 (replicate 128 1)"
definition mm_b :: matrix where "mm_b = replicate 128 (replicate 128 2)"
definition mm_c :: matrix where "mm_c = replicate 128 (replicate 128 3)"

definition mget :: "matrix \<Rightarrow> nat \<Rightarrow> nat \<Rightarrow> c_int" where
  "mget m i j = m ! i ! j"

definition mset2 :: "nat \<Rightarrow> nat \<Rightarrow> c_int \<Rightarrow> matrix \<Rightarrow> matrix" where
  "mset2 i j v m = m[i := (m ! i)[j := v]]"

definition matmul_loops :: "nat \<Rightarrow> matrix \<Rightarrow> matrix \<Rightarrow> matrix \<Rightarrow> matrix" where
  "matmul_loops n a b c =
     c_for 0 n 1 (\<lambda>i. c_for 0 n 1 (\<lambda>j c.
       c_for 0 n 1 (\<lambda>k c. mset2 i j (mget c i j + mget a i k * mget b k j) c)
         (mset2 i j 0 c))) c"

text \<open>\<^verbatim>\<open>main\<close>: the final \<^verbatim>\<open>c\<close> and the return value.\<close>

definition matmul_main :: "matrix \<times> c_int" where
  "matmul_main = (matmul_loops 128 mm_a mm_b mm_c, 0)"

definition is_matrix :: "nat \<Rightarrow> matrix \<Rightarrow> bool" where
  "is_matrix n m = (length m = n \<and> (\<forall>r \<in> set m. length r = n))"

lemma is_matrix_row: "is_matrix n m \<Longrightarrow> i < n \<Longrightarrow> length (m ! i) = n"
  by (simp add: is_matrix_def)

definition dot :: "nat \<Rightarrow> matrix \<Rightarrow> matrix \<Rightarrow> nat \<Rightarrow> nat \<Rightarrow> c_int" where
  "dot n a b i j = (\<Sum>k\<leftarrow>[0..<n]. mget a i k * mget b k j)"

lemma inner_loop:
  assumes "i < length c" "j < length (c ! i)"
  shows "fold (\<lambda>k c. mset2 i j (mget c i j + g k) c) ks (mset2 i j v c) = mset2 i j (v + sum_list (map g ks)) c"
  using assms by (induction ks arbitrary: v) (simp_all add: mset2_def mget_def add.assoc)

lemma rows_loop:
  assumes "\<And>j r. f j r = r[j := g j]" "i < length c"
  shows "fold (\<lambda>j c. c[i := f j (c ! i)]) js c = c[i := fold f js (c ! i)]"
  using assms(2) by (induction js arbitrary: c) (simp_all add: assms(1))

lemma middle_loop:
  assumes "is_matrix n c" "i < n"
  shows "fold (\<lambda>j c. fold (\<lambda>k c. mset2 i j (mget c i j + mget a i k * mget b k j) c) [0..<n] (mset2 i j 0 c))
      [0..<n] c = c[i := map (dot n a b i) [0..<n]]"
proof -
  let ?f = "\<lambda>j c. fold (\<lambda>k c. mset2 i j (mget c i j + mget a i k * mget b k j) c) [0..<n] (mset2 i j 0 c)"
  have step: "m \<le> n \<Longrightarrow> fold ?f [0..<m] c = c[i := map (dot n a b i) [0..<m] @ drop m (c ! i)]" for m
  proof (induction m)
    case (Suc m)
    let ?r = "map (dot n a b i) [0..<m] @ drop m (c ! i)"
    have r: "length (c ! i) = n" "length c = n" using assms is_matrix_row by (auto simp: is_matrix_def)
    have "fold ?f [0..<Suc m] c = ?f m (c[i := ?r])" using Suc by simp
    also have "\<dots> = mset2 i m (dot n a b i m) (c[i := ?r])"
      using r assms(2) Suc.prems by (subst inner_loop) (simp_all add: dot_def)
    also have "\<dots> = c[i := map (dot n a b i) [0..<Suc m] @ drop (Suc m) (c ! i)]"
      using r assms(2) Suc.prems
      by (simp add: mset2_def list_update_append Cons_nth_drop_Suc [of m "c ! i", symmetric])
    finally show ?case .
  qed simp
  show ?thesis using step [of n] is_matrix_row [OF assms] by simp
qed

lemma is_matrix_update: "is_matrix n c \<Longrightarrow> length r = n \<Longrightarrow> is_matrix n (c[i := r])"
  using set_update_subset_insert [of c i r] by (auto simp: is_matrix_def)

lemma matmul_loops_eq:
  assumes "is_matrix n c"
  shows "matmul_loops n a b c = map (\<lambda>i. map (dot n a b i) [0..<n]) [0..<n]"
proof -
  let ?body = "\<lambda>i c. fold (\<lambda>j c. fold (\<lambda>k c. mset2 i j (mget c i j + mget a i k * mget b k j) c)
      [0..<n] (mset2 i j 0 c)) [0..<n] c"
  let ?rows = "\<lambda>m. fold (\<lambda>i c. c[i := map (dot n a b i) [0..<n]]) [0..<m] c"
  have mat: "is_matrix n (?rows m)" for m
    using assms by (induction m) (simp_all add: is_matrix_update)
  have "m \<le> n \<Longrightarrow> fold ?body [0..<m] c = ?rows m" for m
    by (induction m) (simp_all add: middle_loop [OF mat])
  then have "matmul_loops n a b c = ?rows n" by (simp add: matmul_loops_def c_for_1)
  also have "\<dots> = map (\<lambda>i. map (dot n a b i) [0..<n]) [0..<n]"
    using assms fold_assign [of n c "\<lambda>i. map (dot n a b i) [0..<n]"] by (simp only: is_matrix_def) simp
  finally show ?thesis .
qed

text \<open>
  C32. The matrix-multiplication benchmark computes the matrix product, modulo \<open>2 ^ 32\<close>: for
  square matrices of any size its three loops leave in \<^verbatim>\<open>c\<close>, whatever it held before, the
  product of \<^verbatim>\<open>a\<close> and \<^verbatim>\<open>b\<close>.
\<close>

theorem matmul_computes_product:
  assumes "is_matrix n c"
  shows "matmul_loops n a b c = map (\<lambda>i. map (\<lambda>j. \<Sum>k\<leftarrow>[0..<n]. a ! i ! k * b ! k ! j) [0..<n]) [0..<n]"
  using matmul_loops_eq [OF assms] by (simp add: dot_def [abs_def] mget_def)

theorem matmul_computes_product_witness:
  "fst matmul_main = replicate 128 (replicate 128 256)"
proof -
  have "is_matrix 128 mm_c" by (simp add: is_matrix_def mm_c_def)
  note matmul_computes_product [OF this, of mm_a mm_b]
  also have "map (\<lambda>i. map (\<lambda>j. \<Sum>k\<leftarrow>[0..<128]. mm_a ! i ! k * mm_b ! k ! j) [0..<128]) [0..<128]
      = map (\<lambda>i. map (\<lambda>j. 256) [0..<128]) [0..<128]"
  proof (intro map_cong refl)
    fix i j :: nat assume "i \<in> set [0..<128]" "j \<in> set [0..<128]"
    then have "map (\<lambda>k. mm_a ! i ! k * mm_b ! k ! j) [0..<128] = map (\<lambda>_. 2) [0..<128]"
      by (intro map_cong refl) (simp add: mm_a_def mm_b_def)
    then show "(\<Sum>k\<leftarrow>[0..<128]. mm_a ! i ! k * mm_b ! k ! j) = 256"
      by (simp only:) (simp add: sum_list_triv)
  qed
  finally show ?thesis by (simp add: matmul_main_def map_replicate_const)
qed

subsection \<open>Buffer sum and buffer copy\<close>

definition bs_a :: "c_int list" where "bs_a = replicate 128 1"

definition buffer_sum_main :: "c_int list \<Rightarrow> c_int" where
  "buffer_sum_main a = c_for 0 128 1 (\<lambda>i sum. sum + a ! i) 0"

text \<open>The two zero-initialised arrays of \<^verbatim>\<open>memcpy.c\<close> at the end of \<^verbatim>\<open>main\<close>, and what it returns.\<close>

definition memcpy_main :: "c_int list \<times> c_int list \<times> c_int" where
  "memcpy_main =
     (let a = c_for 0 256 1 (\<lambda>i a. a[i := 5]) (replicate 256 0);
          b = c_for 0 256 1 (\<lambda>i b. b[i := a ! i]) (replicate 256 0)
      in (a, b, b ! 0))"

text \<open>
  The two smaller benchmarks return what they are meant to: \<^verbatim>\<open>buffer_sum\<close> the sum of its
  128 elements modulo \<open>2 ^ 32\<close>, hence 128 on the data it is built with, and \<^verbatim>\<open>memcpy\<close> an
  exact copy of its first buffer, with return value 5.
\<close>

theorem buffer_benchmarks_correct:
  "(length a = 128 \<longrightarrow> buffer_sum_main a = sum_list a) \<and> buffer_sum_main bs_a = 128
   \<and> memcpy_main = (replicate 256 5, replicate 256 5, 5)"
proof -
  have s: "length a = 128 \<Longrightarrow> buffer_sum_main a = sum_list a" for a
    by (simp add: buffer_sum_main_def c_for_1 fold_plus) (metis map_nth)
  have "buffer_sum_main bs_a = 128"
    by (subst s) (simp_all add: bs_a_def sum_list_replicate)
  moreover have "fold (\<lambda>i a. a[i := f i]) [0..<256] (replicate 256 (0 :: c_int)) = map f [0..<256]" for f
    using fold_assign [of 256 "replicate 256 0" f] by simp
  then have "memcpy_main = (replicate 256 5, replicate 256 5, 5)"
    using map_nth [of "replicate 256 (5 :: c_int)"]
    by (simp add: memcpy_main_def c_for_1 Let_def map_replicate_const)
  ultimately show ?thesis using s by simp
qed

theorem buffer_benchmarks_correct_witness:
  "buffer_sum_main (replicate 128 3) = 384"
  using buffer_benchmarks_correct [of "replicate 128 3"] by (simp add: sum_list_replicate)

subsection \<open>The memory stubs of the cache test benches\<close>

definition imem_read_mem :: "c_int \<Rightarrow> c_int" where "imem_read_mem pc = pc + 0x1000"
definition dmem_read_mem :: "c_int \<Rightarrow> c_int" where "dmem_read_mem pc = pc + 0x1000"

end
