(* ===== verification/C_Memory.thy ===== *)
theory C_Memory
  imports C_Prelude
begin

text \<open>
  Byte memory and the block operations of the two C run-time libraries: \<^verbatim>\<open>memcpy\<close> and
  \<^verbatim>\<open>memset\<close> of \<^verbatim>\<open>benchmarks/common/syscalls.c\<close> and \<^verbatim>\<open>memcpy\<close>, \<^verbatim>\<open>memset\<close> and \<^verbatim>\<open>memcmp\<close> of
  \<^verbatim>\<open>env/v/string.c\<close>, on a 64-bit machine (\<^verbatim>\<open>sizeof(uintptr_t) == 8\<close>, little-endian). Memory
  is a function from addresses to bytes; an object never wraps around the end of the address
  space, so addresses are natural numbers.
\<close>

type_synonym byte = "8 word"
type_synonym mem = "nat \<Rightarrow> byte"

subsection \<open>Words in memory\<close>

definition load64 :: "mem \<Rightarrow> nat \<Rightarrow> 64 word" where
  "load64 m a = ucast (m a) OR push_bit 8 (ucast (m (a + 1))) OR push_bit 16 (ucast (m (a + 2)))
     OR push_bit 24 (ucast (m (a + 3))) OR push_bit 32 (ucast (m (a + 4)))
     OR push_bit 40 (ucast (m (a + 5))) OR push_bit 48 (ucast (m (a + 6)))
     OR push_bit 56 (ucast (m (a + 7)))"

definition byte_of :: "nat \<Rightarrow> 64 word \<Rightarrow> byte" where
  "byte_of i w = ucast (drop_bit (8 * i) w)"

definition store64 :: "nat \<Rightarrow> 64 word \<Rightarrow> mem \<Rightarrow> mem" where
  "store64 a w m = (\<lambda>x. if a \<le> x \<and> x < a + 8 then byte_of (x - a) w else m x)"

lemma less_8_cases: "i < 8 \<Longrightarrow> i \<in> {0, 1, 2, 3, 4, 5, 6, 7 :: nat}"
  by auto

lemma byte_beyond: "8 \<le> n \<Longrightarrow> \<not> bit (b :: byte) n"
  by (auto dest: bit_imp_le_length)

lemma bit_byte_of: "bit (byte_of i w) j \<longleftrightarrow> j < 8 \<and> bit w (8 * i + j)"
  by (auto simp: byte_of_def bit_simps)

lemma byte_of_load64:
  assumes "i < 8"
  shows "byte_of i (load64 m a) = m (a + i)"
proof (rule word_eq_by_bits)
  fix j :: nat assume "j < LENGTH(8)"
  then have j: "j < 8" by simp
  then have n: "8 * i + j < 64" using assms by simp
  show "bit (byte_of i (load64 m a)) j \<longleftrightarrow> bit (m (a + i)) j"
    using less_8_cases [OF assms] j n
    by (elim insertE) (simp_all add: bit_byte_of load64_def bit_simps byte_beyond)
qed

text \<open>Copying a block; the source is read from the memory before the copy.\<close>

definition blk_copy :: "nat \<Rightarrow> nat \<Rightarrow> nat \<Rightarrow> mem \<Rightarrow> mem" where
  "blk_copy d s n m = (\<lambda>x. if d \<le> x \<and> x < d + n then m (s + (x - d)) else m x)"

definition blk_fill :: "nat \<Rightarrow> byte \<Rightarrow> nat \<Rightarrow> mem \<Rightarrow> mem" where
  "blk_fill d b n m = (\<lambda>x. if d \<le> x \<and> x < d + n then b else m x)"

definition disjoint_blocks :: "nat \<Rightarrow> nat \<Rightarrow> nat \<Rightarrow> bool" where
  "disjoint_blocks d s n = (d + n \<le> s \<or> s + n \<le> d \<or> n = 0)"

lemma blk_copy_0 [simp]: "blk_copy d s 0 m = m"
  by (rule ext) (auto simp: blk_copy_def)

lemma blk_copy_append:
  "disjoint_blocks d s (n + k) \<Longrightarrow> blk_copy (d + n) (s + n) k (blk_copy d s n m) = blk_copy d s (n + k) m"
  by (rule ext) (auto simp: blk_copy_def disjoint_blocks_def)

lemma store_load: "store64 d (load64 m s) m = blk_copy d s 8 m"
  by (rule ext) (auto simp: store64_def blk_copy_def byte_of_load64)

lemma blk_fill_0 [simp]: "blk_fill d b 0 m = m"
  by (rule ext) (auto simp: blk_fill_def)

lemma blk_fill_append: "blk_fill (d + n) b k (blk_fill d b n m) = blk_fill d b (n + k) m"
  by (rule ext) (auto simp: blk_fill_def)

subsection \<open>The copy loops\<close>

text \<open>\<^verbatim>\<open>while (d < end) *d++ = *s++\<close> on words and on bytes.\<close>

function copy_words :: "nat \<Rightarrow> nat \<Rightarrow> nat \<Rightarrow> mem \<Rightarrow> mem" where
  "copy_words d s e m = (if d < e then copy_words (d + 8) (s + 8) e (store64 d (load64 m s) m) else m)"
  by pat_completeness auto
termination by (relation "measure (\<lambda>(d, s, e, m). e - d)") auto

function copy_bytes :: "nat \<Rightarrow> nat \<Rightarrow> nat \<Rightarrow> mem \<Rightarrow> mem" where
  "copy_bytes d s e m = (if d < e then copy_bytes (d + 1) (s + 1) e (m(d := m s)) else m)"
  by pat_completeness auto
termination by (relation "measure (\<lambda>(d, s, e, m). e - d)") auto

text \<open>
  The unrolled loop: eight words are read into registers and then written, while more than
  eight words remain. It returns the pointers with the memory.
\<close>

definition store_regs :: "nat \<Rightarrow> 64 word list \<Rightarrow> mem \<Rightarrow> mem" where
  "store_regs d regs m = fold (\<lambda>i. store64 (d + 8 * i) (regs ! i)) [0..<8] m"

function copy_unrolled :: "nat \<Rightarrow> nat \<Rightarrow> nat \<Rightarrow> mem \<Rightarrow> nat \<times> nat \<times> mem" where
  "copy_unrolled d s e m =
     (if d + 64 < e
      then copy_unrolled (d + 64) (s + 64) e (store_regs d (map (\<lambda>i. load64 m (s + 8 * i)) [0..<8]) m)
      else (d, s, m))"
  by pat_completeness auto
termination by (relation "measure (\<lambda>(d, s, e, m). e - d)") auto

declare copy_words.simps [simp del] copy_bytes.simps [simp del] copy_unrolled.simps [simp del]

definition memcpy_sys :: "nat \<Rightarrow> nat \<Rightarrow> nat \<Rightarrow> mem \<Rightarrow> nat \<times> mem" where
  "memcpy_sys dest src len m =
     (dest,
      if (dest OR src OR len) AND 7 = 0
      then (let (d, s, m1) = copy_unrolled dest src (dest + len) m in copy_words d s (dest + len) m1)
      else copy_bytes dest src (dest + len) m)"

definition memcpy_v :: "nat \<Rightarrow> nat \<Rightarrow> nat \<Rightarrow> mem \<Rightarrow> nat \<times> mem" where
  "memcpy_v dest src len m =
     (dest,
      if (dest OR src OR len) AND 7 = 0 then copy_words dest src (dest + len) m
      else copy_bytes dest src (dest + len) m)"

lemma aligned_iff: "(x :: nat) AND 7 = 0 \<longleftrightarrow> 8 dvd x"
  using take_bit_eq_mask [of 3 x] by (simp add: mask_eq_exp_minus_1 take_bit_eq_mod dvd_eq_mod_eq_0)

lemma aligned_OR: "((x OR y) AND (7 :: nat)) = 0 \<longleftrightarrow> x AND 7 = 0 \<and> y AND 7 = 0"
  by (simp add: bit_eq_iff bit_simps) blast

lemma copy_words_blk:
  "disjoint_blocks d s (8 * n) \<Longrightarrow> copy_words d s (d + 8 * n) m = blk_copy d s (8 * n) m"
proof (induction n arbitrary: d s m)
  case 0
  then show ?case by (simp add: copy_words.simps [of d s d m])
next
  case (Suc n)
  have dj: "disjoint_blocks (d + 8) (s + 8) (8 * n)" using Suc.prems by (auto simp: disjoint_blocks_def)
  have "copy_words d s (d + 8 * Suc n) m = copy_words (d + 8) (s + 8) (d + 8 + 8 * n) (blk_copy d s 8 m)"
    by (subst copy_words.simps) (simp add: store_load add.assoc)
  also have "\<dots> = blk_copy d s (8 + 8 * n) m"
    unfolding Suc.IH [OF dj] using Suc.prems by (subst blk_copy_append) simp_all
  finally show ?case by simp
qed

lemma copy_bytes_blk:
  "disjoint_blocks d s n \<Longrightarrow> copy_bytes d s (d + n) m = blk_copy d s n m"
proof (induction n arbitrary: d s m)
  case 0
  then show ?case by (simp add: copy_bytes.simps [of d s d m])
next
  case (Suc n)
  have dj: "disjoint_blocks (d + 1) (s + 1) n" using Suc.prems by (auto simp: disjoint_blocks_def)
  have "m(d := m s) = blk_copy d s 1 m" by (auto simp: blk_copy_def)
  then have "copy_bytes d s (d + Suc n) m = copy_bytes (d + 1) (s + 1) (d + 1 + n) (blk_copy d s 1 m)"
    by (subst copy_bytes.simps) (simp add: add.assoc)
  also have "\<dots> = blk_copy d s (1 + n) m"
    unfolding Suc.IH [OF dj] using Suc.prems by (subst blk_copy_append) simp_all
  finally show ?case by simp
qed

lemma store_regs_blk:
  assumes "disjoint_blocks d s 64"
  shows "store_regs d (map (\<lambda>i. load64 m (s + 8 * i)) [0..<8]) m = blk_copy d s 64 m"
proof -
  have "n \<le> 8 \<Longrightarrow> fold (\<lambda>i. store64 (d + 8 * i) (map (\<lambda>i. load64 m (s + 8 * i)) [0..<8] ! i)) [0..<n] m
      = blk_copy d s (8 * n) m" for n
  proof (induction n)
    case (Suc n)
    have "load64 m (s + 8 * n) = load64 (blk_copy d s (8 * n) m) (s + 8 * n)"
      using Suc.prems assms by (auto simp: load64_def blk_copy_def disjoint_blocks_def)
    then have "fold (\<lambda>i. store64 (d + 8 * i) (map (\<lambda>i. load64 m (s + 8 * i)) [0..<8] ! i)) [0..<Suc n] m
        = blk_copy (d + 8 * n) (s + 8 * n) 8 (blk_copy d s (8 * n) m)"
      using Suc by (simp add: store_load)
    also have "\<dots> = blk_copy d s (8 * n + 8) m"
      using Suc.prems assms by (intro blk_copy_append) (auto simp: disjoint_blocks_def)
    finally show ?case by (simp add: add.commute)
  qed simp
  from this [of 8] show ?thesis by (simp add: store_regs_def)
qed

lemma copy_unrolled_blk:
  assumes "disjoint_blocks d s (8 * n)"
  shows "(case copy_unrolled d s (d + 8 * n) m of (d', s', m') \<Rightarrow> copy_words d' s' (d + 8 * n) m')
    = blk_copy d s (8 * n) m"
  using assms
proof (induction n arbitrary: d s m rule: less_induct)
  case (less n)
  show ?case
  proof (cases "d + 64 < d + 8 * n")
    case False
    then show ?thesis
      using copy_words_blk [OF less.prems] by (subst copy_unrolled.simps) simp
  next
    case True
    then obtain k where k: "n = k + 8" using le_Suc_ex [of 8 n] by (auto simp: add.commute)
    have dj: "disjoint_blocks (d + 64) (s + 64) (8 * k)" and d64: "disjoint_blocks d s 64"
      using less.prems True by (auto simp: disjoint_blocks_def k)
    have e: "d + 8 * n = d + 64 + 8 * k" by (simp add: k)
    have "copy_unrolled d s (d + 8 * n) m =
        copy_unrolled (d + 64) (s + 64) (d + 64 + 8 * k) (blk_copy d s 64 m)"
      using True by (subst copy_unrolled.simps) (simp only: store_regs_blk [OF d64] e if_True)
    then show ?thesis
      using less.IH [OF _ dj, of "blk_copy d s 64 m"] blk_copy_append [of d s 64 "8 * k" m] less.prems
      by (simp only: e) (simp add: k add.commute)
  qed
qed

lemma aligned_len: "(x OR len) AND (7 :: nat) = 0 \<Longrightarrow> \<exists>n. len = 8 * n"
  and aligned_len3: "(x OR y OR len) AND (7 :: nat) = 0 \<Longrightarrow> \<exists>n. len = 8 * n"
  unfolding aligned_OR by (auto simp: aligned_iff dvd_def)

lemma memcpy_blk:
  assumes "disjoint_blocks dest src len"
  shows "memcpy_sys dest src len m = (dest, blk_copy dest src len m)"
    and "memcpy_v dest src len m = (dest, blk_copy dest src len m)"
proof -
  show "memcpy_sys dest src len m = (dest, blk_copy dest src len m)"
  proof (cases "(dest OR src OR len) AND 7 = 0")
    case True
    then obtain n where "len = 8 * n" using aligned_len3 by blast
    with True assms show ?thesis
      using copy_unrolled_blk [of dest src n m] by (simp add: memcpy_sys_def)
  qed (use assms in \<open>simp add: memcpy_sys_def copy_bytes_blk\<close>)
  show "memcpy_v dest src len m = (dest, blk_copy dest src len m)"
  proof (cases "(dest OR src OR len) AND 7 = 0")
    case True
    then obtain n where "len = 8 * n" using aligned_len3 by blast
    with True assms show ?thesis
      using copy_words_blk [of dest src n m] by (simp add: memcpy_v_def)
  qed (use assms in \<open>simp add: memcpy_v_def copy_bytes_blk\<close>)
qed

text \<open>
  Both versions of \<^verbatim>\<open>memcpy\<close>, the unrolled one and the plain one, aligned or not, return
  the destination and copy exactly the given number of bytes, changing nothing else, for every
  length and every pair of regions that do not overlap.
\<close>

theorem memcpy_copies:
  assumes "dest + len \<le> src \<or> src + len \<le> dest"
  shows "memcpy_sys dest src len m = (dest, \<lambda>x. if dest \<le> x \<and> x < dest + len then m (src + (x - dest)) else m x)
    \<and> memcpy_v dest src len m = memcpy_sys dest src len m"
  using memcpy_blk [of dest src len m] assms by (auto simp: disjoint_blocks_def blk_copy_def)

theorem memcpy_copies_witness:
  "snd (memcpy_sys 1000 2000 80 (\<lambda>a. word_of_nat a)) 1007 = 2007
   \<and> snd (memcpy_v 1001 2000 3 (\<lambda>a. word_of_nat a)) 1004 = 1004"
  using memcpy_copies [of 1000 80 2000 "\<lambda>a. word_of_nat a"]
    memcpy_copies [of 1001 3 2000 "\<lambda>a. word_of_nat a"] by simp

subsection \<open>memset\<close>

function set_words :: "nat \<Rightarrow> 64 word \<Rightarrow> nat \<Rightarrow> mem \<Rightarrow> mem" where
  "set_words d w e m = (if d < e then set_words (d + 8) w e (store64 d w m) else m)"
  by pat_completeness auto
termination by (relation "measure (\<lambda>(d, w, e, m). e - d)") auto

function set_bytes :: "nat \<Rightarrow> byte \<Rightarrow> nat \<Rightarrow> mem \<Rightarrow> mem" where
  "set_bytes d b e m = (if d < e then set_bytes (d + 1) b e (m(d := b)) else m)"
  by pat_completeness auto
termination by (relation "measure (\<lambda>(d, b, e, m). e - d)") auto

declare set_words.simps [simp del] set_bytes.simps [simp del]

text \<open>The byte replicated over a word: \<^verbatim>\<open>word |= word << 8\<close>, \<^verbatim>\<open>16\<close>, \<^verbatim>\<open>16 << 16\<close>.\<close>

definition memset_word :: "c_int \<Rightarrow> 64 word" where
  "memset_word b =
     (let w0 = scast b AND 0xFF;
          w1 = w0 OR push_bit 8 w0;
          w2 = w1 OR push_bit 16 w1
      in w2 OR push_bit 16 (push_bit 16 w2))"

definition memset_c :: "nat \<Rightarrow> c_int \<Rightarrow> nat \<Rightarrow> mem \<Rightarrow> nat \<times> mem" where
  "memset_c dest b len m =
     (dest,
      if (dest OR len) AND 7 = 0 then set_words dest (memset_word b) (dest + len) m
      else set_bytes dest (ucast b) (dest + len) m)"

lemma memset_low: "(scast (b :: c_int) :: 64 word) AND 0xFF = ucast (ucast b :: byte)"
proof (rule word_eq_by_bits)
  fix n :: nat
  have "bit (0xFF :: 64 word) n \<longleftrightarrow> n < 8"
    using bit_mask_iff [of 8 n, where 'a = "64 word"] by (auto simp: mask_eq_exp_minus_1)
  then show "bit ((scast b :: 64 word) AND 0xFF) n \<longleftrightarrow> bit (ucast (ucast b :: byte) :: 64 word) n"
    by (auto simp: bit_simps)
qed

lemma memset_word_byte: "i < 8 \<Longrightarrow> byte_of i (memset_word b) = ucast b"
proof (rule word_eq_by_bits)
  fix j :: nat assume i: "i < 8" and "j < LENGTH(8)"
  then have j: "j < 8" by simp
  define x :: byte where "x = ucast b"
  show "bit (byte_of i (memset_word b)) j \<longleftrightarrow> bit (ucast b :: byte) j"
    unfolding memset_word_def Let_def memset_low x_def [symmetric]
    using less_8_cases [OF i] j
    by (elim insertE) (simp_all add: bit_byte_of bit_simps byte_beyond)
qed

lemma set_words_blk: "set_words d (memset_word b) (d + 8 * n) m = blk_fill d (ucast b) (8 * n) m"
proof (induction n arbitrary: d m)
  case (Suc n)
  have "store64 d (memset_word b) m = blk_fill d (ucast b) 8 m"
    by (rule ext) (auto simp: store64_def blk_fill_def memset_word_byte)
  then have "set_words d (memset_word b) (d + 8 * Suc n) m =
      set_words (d + 8) (memset_word b) (d + 8 + 8 * n) (blk_fill d (ucast b) 8 m)"
    by (subst set_words.simps) (simp add: add.assoc)
  then show ?case unfolding Suc.IH by (simp add: blk_fill_append)
qed (simp add: set_words.simps)

lemma set_bytes_blk: "set_bytes d b (d + n) m = blk_fill d b n m"
proof (induction n arbitrary: d m)
  case (Suc n)
  have "m(d := b) = blk_fill d b 1 m" by (rule ext) (auto simp: blk_fill_def)
  then have "set_bytes d b (d + Suc n) m = set_bytes (d + 1) b (d + 1 + n) (blk_fill d b 1 m)"
    by (subst set_bytes.simps) (simp add: add.assoc)
  then show ?case unfolding Suc.IH by (simp only: blk_fill_append) simp
qed (simp add: set_bytes.simps)

text \<open>
  \<^verbatim>\<open>memset\<close> returns the destination and writes the low byte of its argument to exactly
  the given number of bytes, whether it goes word by word or byte by byte.
\<close>

theorem memset_fills:
  "memset_c dest b len m = (dest, \<lambda>x. if dest \<le> x \<and> x < dest + len then ucast b else m x)"
proof (cases "(dest OR len) AND 7 = 0")
  case True
  then obtain n where "len = 8 * n" using aligned_len by blast
  with True show ?thesis
    using set_words_blk [of dest b n m] by (simp add: memset_c_def blk_fill_def)
qed (simp add: memset_c_def set_bytes_blk blk_fill_def)

end
