(* ===== verification/C_Strings.thy ===== *)
theory C_Strings
  imports C_Memory
begin

text \<open>
  The string functions of \<^verbatim>\<open>benchmarks/common/syscalls.c\<close> and \<^verbatim>\<open>env/v/string.c\<close> (the two files
  hold the same code) and \<^verbatim>\<open>memcmp\<close>. A loop that looks for the terminating zero byte need not
  stop, so it is a partial function: \<open>None\<close> is the loop that never ends.
\<close>

text \<open>A zero-terminated string in memory.\<close>

definition is_str :: "mem \<Rightarrow> nat \<Rightarrow> byte list \<Rightarrow> bool" where
  "is_str m s xs = ((\<forall>i < length xs. m (s + i) = xs ! i \<and> xs ! i \<noteq> 0) \<and> m (s + length xs) = 0)"

lemma is_str_Nil [simp]: "is_str m s [] \<longleftrightarrow> m s = 0"
  by (simp add: is_str_def)

lemma is_str_Cons [simp]: "is_str m s (x # xs) \<longleftrightarrow> m s = x \<and> x \<noteq> 0 \<and> is_str m (s + 1) xs"
  by (auto simp: is_str_def All_less_Suc2)

lemma is_str_exists:
  assumes "m (s + n) = 0"
  shows "\<exists>xs. is_str m s xs"
  using assms
proof (induction n arbitrary: s)
  case 0
  then show ?case by (intro exI [of _ "[]"]) simp
next
  case (Suc n)
  then have "\<exists>xs. is_str m (s + 1) xs" by simp
  then obtain xs where xs: "is_str m (s + 1) xs" ..
  show ?case
  proof (cases "m s = 0")
    case True
    then show ?thesis by (intro exI [of _ "[]"]) simp
  next
    case False
    with xs show ?thesis by (intro exI [of _ "m s # xs"]) simp
  qed
qed

subsection \<open>strlen and strnlen\<close>

partial_function (option) strlen_loop :: "mem \<Rightarrow> nat \<Rightarrow> nat option" where
  "strlen_loop m p = (if m p \<noteq> 0 then strlen_loop m (p + 1) else Some p)"

definition strlen :: "mem \<Rightarrow> nat \<Rightarrow> nat option" where
  "strlen m s = map_option (\<lambda>p. p - s) (strlen_loop m s)"

function strnlen_loop :: "mem \<Rightarrow> nat \<Rightarrow> nat \<Rightarrow> nat" where
  "strnlen_loop m p n = (if n \<noteq> 0 \<and> m p \<noteq> 0 then strnlen_loop m (p + 1) (n - 1) else p)"
  by pat_completeness auto
termination by (relation "measure (\<lambda>(m, p, n). n)") auto

declare strnlen_loop.simps [simp del]

definition strnlen :: "mem \<Rightarrow> nat \<Rightarrow> nat \<Rightarrow> nat" where
  "strnlen m s n = strnlen_loop m s n - s"

lemma strlen_loop_str: "is_str m s xs \<Longrightarrow> strlen_loop m s = Some (s + length xs)"
proof (induction xs arbitrary: s)
  case Nil
  then show ?case by (subst strlen_loop.simps) simp
next
  case (Cons x xs)
  then show ?case by (subst strlen_loop.simps) simp
qed

lemma strlen_loop_zero:
  assumes "strlen_loop m s = Some p"
  shows "m p = 0 \<and> s \<le> p"
proof (rule strlen_loop.raw_induct [of "\<lambda>m s p. m p = 0 \<and> s \<le> p", OF _ assms])
  fix f m s p
  assume "\<And>m s p. f m s = Some p \<Longrightarrow> m p = 0 \<and> s \<le> p"
    and "(if m s \<noteq> 0 then f m (s + 1) else Some s) = Some (p :: nat)"
  then show "m p = 0 \<and> s \<le> p"
    by (cases "m s = 0") (auto dest: Suc_leD)
qed

lemma strnlen_str: "is_str m s xs \<Longrightarrow> strnlen_loop m s n = s + min n (length xs)"
proof (induction xs arbitrary: s n)
  case Nil
  then show ?case by (subst strnlen_loop.simps) simp
next
  case (Cons x xs)
  then show ?case by (subst strnlen_loop.simps) (cases n; simp)
qed

subsection \<open>strcpy\<close>

text \<open>\<^verbatim>\<open>while ((*d++ = *src++));\<close>\<close>

partial_function (option) strcpy_loop :: "nat \<Rightarrow> nat \<Rightarrow> mem \<Rightarrow> mem option" where
  "strcpy_loop d s m =
     (let b = m s; m' = m(d := b) in if b \<noteq> 0 then strcpy_loop (d + 1) (s + 1) m' else Some m')"

definition strcpy :: "nat \<Rightarrow> nat \<Rightarrow> mem \<Rightarrow> (nat \<times> mem) option" where
  "strcpy dest src m = map_option (\<lambda>m'. (dest, m')) (strcpy_loop dest src m)"

lemma is_str_cong:
  "is_str m s xs \<Longrightarrow> (\<And>i. i \<le> length xs \<Longrightarrow> m' (s + i) = m (s + i)) \<Longrightarrow> is_str m' s xs"
  by (simp add: is_str_def)

lemma strcpy_loop_str:
  "is_str m s xs \<Longrightarrow> disjoint_blocks d s (length xs + 1) \<Longrightarrow>
    strcpy_loop d s m = Some (blk_copy d s (length xs + 1) m)"
proof (induction xs arbitrary: d s m)
  case Nil
  have "m(d := m s) = blk_copy d s 1 m" by (rule ext) (auto simp: blk_copy_def)
  with Nil show ?case by (subst strcpy_loop.simps) (simp add: Let_def)
next
  case (Cons x xs)
  have b: "m(d := m s) = blk_copy d s 1 m" by (rule ext) (auto simp: blk_copy_def)
  have dj: "disjoint_blocks (d + 1) (s + 1) (length xs + 1)"
    using Cons.prems(2) by (auto simp: disjoint_blocks_def)
  have st: "is_str (blk_copy d s 1 m) (s + 1) xs"
  proof (rule is_str_cong)
    show "is_str m (s + 1) xs" using Cons.prems(1) by simp
  next
    fix i assume "i \<le> length xs"
    with Cons.prems(2) show "blk_copy d s 1 m (s + 1 + i) = m (s + 1 + i)"
      by (auto simp: blk_copy_def disjoint_blocks_def)
  qed
  have "strcpy_loop d s m = strcpy_loop (d + 1) (s + 1) (m(d := m s))"
    using Cons.prems(1) by (subst strcpy_loop.simps) (simp add: Let_def)
  also have "\<dots> = strcpy_loop (d + 1) (s + 1) (blk_copy d s 1 m)" by (simp only: b)
  also have "\<dots> = Some (blk_copy d s (1 + (length xs + 1)) m)"
    unfolding Cons.IH [OF st dj] using Cons.prems(2) by (subst blk_copy_append) simp_all
  finally show ?case by simp
qed

subsection \<open>strcmp\<close>

partial_function (option) strcmp_loop :: "mem \<Rightarrow> nat \<Rightarrow> nat \<Rightarrow> (byte \<times> byte) option" where
  "strcmp_loop m s1 s2 =
     (let c1 = m s1; c2 = m s2
      in if c1 \<noteq> 0 \<and> c1 = c2 then strcmp_loop m (s1 + 1) (s2 + 1) else Some (c1, c2))"

definition strcmp :: "mem \<Rightarrow> nat \<Rightarrow> nat \<Rightarrow> int option" where
  "strcmp m s1 s2 = map_option (\<lambda>(c1, c2). uint c1 - uint c2) (strcmp_loop m s1 s2)"

text \<open>The first difference of two terminated strings, as \<^verbatim>\<open>unsigned char\<close> values.\<close>

fun first_diff :: "byte list \<Rightarrow> byte list \<Rightarrow> byte \<times> byte" where
  "first_diff [] [] = (0, 0)"
| "first_diff (x # xs) [] = (x, 0)"
| "first_diff [] (y # ys) = (0, y)"
| "first_diff (x # xs) (y # ys) = (if x = y then first_diff xs ys else (x, y))"

text \<open>Lexicographic order of byte strings, a proper prefix being smaller.\<close>

fun bytes_less :: "byte list \<Rightarrow> byte list \<Rightarrow> bool" where
  "bytes_less xs [] = False"
| "bytes_less [] (y # ys) = True"
| "bytes_less (x # xs) (y # ys) = (x < y \<or> x = y \<and> bytes_less xs ys)"

lemma strcmp_loop_str:
  "is_str m s1 xs \<Longrightarrow> is_str m s2 ys \<Longrightarrow> strcmp_loop m s1 s2 = Some (first_diff xs ys)"
proof (induction xs ys arbitrary: s1 s2 rule: first_diff.induct)
  case (4 x xs y ys)
  then show ?case by (subst strcmp_loop.simps) (simp add: Let_def)
qed (subst strcmp_loop.simps; simp add: Let_def)+

lemma first_diff_order:
  assumes "0 \<notin> set xs" "0 \<notin> set ys"
  shows "(fst (first_diff xs ys) = snd (first_diff xs ys) \<longleftrightarrow> xs = ys)
    \<and> (fst (first_diff xs ys) < snd (first_diff xs ys) \<longleftrightarrow> bytes_less xs ys)"
  using assms
  by (induction xs ys rule: first_diff.induct) (auto simp: word_gt_0)

lemma is_str_nonzero: "is_str m s xs \<Longrightarrow> 0 \<notin> set xs"
  by (auto simp: is_str_def in_set_conv_nth)

lemma strlen_None_iff: "strlen m s = None \<longleftrightarrow> (\<forall>n. m (s + n) \<noteq> 0)"
proof
  assume n: "strlen m s = None"
  show "\<forall>n. m (s + n) \<noteq> 0"
  proof (intro allI notI)
    fix n assume "m (s + n) = 0"
    then obtain xs where "is_str m s xs" using is_str_exists by blast
    with n show False using strlen_loop_str by (simp add: strlen_def)
  qed
next
  assume n: "\<forall>n. m (s + n) \<noteq> 0"
  show "strlen m s = None"
  proof (cases "strlen_loop m s")
    case (Some p)
    then have "m p = 0" "p = s + (p - s)" using strlen_loop_zero by simp_all
    then show ?thesis using n by metis
  qed (simp add: strlen_def)
qed

text \<open>
  \<^verbatim>\<open>strlen\<close> returns exactly when the memory holds a zero byte at or after the address,
  and then it returns the length of the string that ends at the first one; \<^verbatim>\<open>strnlen\<close> always
  returns, the smaller of that length and its bound.
\<close>

theorem strlen_total_iff_terminated:
  "(strlen m s = None \<longleftrightarrow> (\<forall>n. m (s + n) \<noteq> 0)) \<and>
   (is_str m s xs \<longrightarrow> strlen m s = Some (length xs) \<and> strnlen m s n = min n (length xs))"
  using strlen_None_iff [of m s]
  by (auto simp: strlen_def strnlen_def strlen_loop_str strnlen_str)

definition hello_mem :: mem where
  "hello_mem = (\<lambda>a. if a < 5 then 104 else 0)"

theorem strlen_total_iff_terminated_witness:
  "strlen hello_mem 0 = Some 5 \<and> strnlen hello_mem 0 3 = 3"
proof -
  have "is_str hello_mem 0 [104, 104, 104, 104, 104]" by (simp add: hello_mem_def)
  then show ?thesis
    using strlen_total_iff_terminated [of hello_mem 0 "[104, 104, 104, 104, 104]" 3] by simp
qed

text \<open>
  \<^verbatim>\<open>strcmp\<close> on two terminated strings returns, with a result that is 0 exactly when they are
  equal and negative exactly when the first precedes the second in the lexicographic order of
  unsigned bytes; the result always lies between -255 and 255.
\<close>

theorem strcmp_orders_strings:
  assumes "is_str m s1 xs" "is_str m s2 ys"
  shows "\<exists>r. strcmp m s1 s2 = Some r \<and> (r = 0 \<longleftrightarrow> xs = ys) \<and> (r < 0 \<longleftrightarrow> bytes_less xs ys)
    \<and> \<bar>r\<bar> \<le> 255"
proof -
  obtain c1 c2 where c: "first_diff xs ys = (c1, c2)" by fastforce
  have "uint c1 < 256" "uint c2 < 256" using uint_bounded [of c1] uint_bounded [of c2] by simp_all
  then have "\<bar>uint c1 - uint c2\<bar> \<le> 255" using uint_ge_0 [of c1] uint_ge_0 [of c2] by linarith
  moreover have "strcmp m s1 s2 = Some (uint c1 - uint c2)"
    using strcmp_loop_str [OF assms] by (simp add: strcmp_def c)
  ultimately show ?thesis
    using first_diff_order [OF is_str_nonzero [OF assms(1)] is_str_nonzero [OF assms(2)]]
    by (auto simp: c word_less_def word_uint_eq_iff)
qed

definition two_strings :: mem where
  "two_strings = (\<lambda>a. if a = 0 then 97 else if a = 2 then 97 else if a = 3 then 98 else 0)"

theorem strcmp_orders_strings_witness:
  "\<exists>r. strcmp two_strings 0 2 = Some r \<and> r < 0"
proof -
  have "is_str two_strings 0 [97]" "is_str two_strings 2 [97, 98]" by (simp_all add: two_strings_def)
  from strcmp_orders_strings [OF this] show ?thesis by auto
qed

text \<open>
  \<^verbatim>\<open>strcpy\<close> of a terminated string to a region that does not overlap it returns the
  destination, where the same string now stands with its terminator; nothing else changes.
\<close>

theorem strcpy_copies:
  assumes "is_str m src xs" "disjoint_blocks dest src (length xs + 1)"
  shows "\<exists>m'. strcpy dest src m = Some (dest, m') \<and> is_str m' dest xs
    \<and> (\<forall>a. a < dest \<or> dest + length xs < a \<longrightarrow> m' a = m a)"
proof -
  let ?m = "blk_copy dest src (length xs + 1) m"
  have "strcpy dest src m = Some (dest, ?m)"
    by (simp add: strcpy_def strcpy_loop_str [OF assms])
  moreover have "is_str ?m dest xs"
    using assms(1) by (auto simp: is_str_def blk_copy_def)
  ultimately show ?thesis by (intro exI [of _ ?m]) (auto simp: blk_copy_def)
qed

theorem strcpy_copies_witness:
  "\<exists>m'. strcpy 10 2 two_strings = Some (10, m') \<and> is_str m' 10 [97, 98]"
proof -
  have "is_str two_strings 2 [97, 98]" "disjoint_blocks 10 2 (length [97, 98 :: byte] + 1)"
    by (simp_all add: two_strings_def disjoint_blocks_def)
  from strcpy_copies [OF this] show ?thesis by auto
qed

subsection \<open>memcmp\<close>

text \<open>The word loop: it stops at the end or at the first pair of words that differ.\<close>

function memcmp_words :: "mem \<Rightarrow> nat \<Rightarrow> nat \<Rightarrow> nat \<Rightarrow> nat \<times> nat" where
  "memcmp_words m u1 u2 e =
     (if u1 < e \<and> load64 m u1 = load64 m u2 then memcmp_words m (u1 + 8) (u2 + 8) e else (u1, u2))"
  by pat_completeness auto
termination by (relation "measure (\<lambda>(m, u1, u2, e). e - u1)") auto

declare memcmp_words.simps [simp del]

fun memcmp_bytes :: "mem \<Rightarrow> nat \<Rightarrow> nat \<Rightarrow> nat \<Rightarrow> int" where
  "memcmp_bytes m s1 s2 0 = 0"
| "memcmp_bytes m s1 s2 (Suc n) =
     (if m s1 \<noteq> m s2 then uint (m s1) - uint (m s2) else memcmp_bytes m (s1 + 1) (s2 + 1) n)"

definition memcmp :: "mem \<Rightarrow> nat \<Rightarrow> nat \<Rightarrow> nat \<Rightarrow> int" where
  "memcmp m s1 s2 n =
     (if (s1 OR s2) AND 7 = 0
      then (let (u1, u2) = memcmp_words m s1 s2 (s1 + 8 * (n div 8))
            in memcmp_bytes m u1 u2 (n - (u1 - s1)))
      else memcmp_bytes m s1 s2 n)"

lemma load64_eq_iff: "load64 m a = load64 m b \<longleftrightarrow> (\<forall>i<8. m (a + i) = m (b + i))"
proof
  assume "load64 m a = load64 m b"
  then show "\<forall>i<8. m (a + i) = m (b + i)" by (metis byte_of_load64)
next
  assume a: "\<forall>i<8. m (a + i) = m (b + i)"
  show "load64 m a = load64 m b"
    using a [rule_format, of 0] a [rule_format, of 1] a [rule_format, of 2] a
    by (simp add: load64_def)
qed

lemma memcmp_bytes_skip:
  "\<forall>i<k. m (s1 + i) = m (s2 + i) \<Longrightarrow> memcmp_bytes m s1 s2 (k + n) = memcmp_bytes m (s1 + k) (s2 + k) n"
  by (induction k arbitrary: s1 s2) (auto simp: All_less_Suc2)

lemma memcmp_words_bytes:
  "8 * k \<le> n \<Longrightarrow> (case memcmp_words m s1 s2 (s1 + 8 * k) of (u1, u2) \<Rightarrow> memcmp_bytes m u1 u2 (n - (u1 - s1)))
     = memcmp_bytes m s1 s2 n"
proof (induction k arbitrary: n s1 s2)
  case 0
  then show ?case by (subst memcmp_words.simps) simp
next
  case (Suc k)
  show ?case
  proof (cases "load64 m s1 = load64 m s2")
    case False
    then show ?thesis by (subst memcmp_words.simps) simp
  next
    case True
    obtain r where r: "n = 8 + r" "8 * k \<le> r" using Suc.prems le_Suc_ex [of 8 n] by auto
    have ge: "memcmp_words m a b e = (u1, u2) \<Longrightarrow> a \<le> u1" for a b e u1 u2
    proof (induction m a b e rule: memcmp_words.induct)
      case (1 m a b e)
      show ?case
        using "1.prems" "1.IH" by (subst (asm) memcmp_words.simps) (fastforce split: if_splits)
    qed
    obtain u1 u2 where u: "memcmp_words m (s1 + 8) (s2 + 8) (s1 + 8 + 8 * k) = (u1, u2)" by fastforce
    have "memcmp_words m s1 s2 (s1 + 8 * Suc k) = (u1, u2)"
      using True u by (subst memcmp_words.simps) (simp add: add.assoc)
    moreover have "n - (u1 - s1) = r - (u1 - (s1 + 8))" using ge [OF u] by (simp add: r)
    moreover have "memcmp_bytes m u1 u2 (r - (u1 - (s1 + 8))) = memcmp_bytes m (s1 + 8) (s2 + 8) r"
      using Suc.IH [OF r(2), of "s1 + 8" "s2 + 8"] by (simp add: u)
    moreover have "memcmp_bytes m s1 s2 (8 + r) = memcmp_bytes m (s1 + 8) (s2 + 8) r"
      using True memcmp_bytes_skip by (simp add: load64_eq_iff)
    ultimately show ?thesis by (simp add: r(1))
  qed
qed

lemma memcmp_bytewise: "memcmp m s1 s2 n = memcmp_bytes m s1 s2 n"
  using memcmp_words_bytes [of "n div 8" n m s1 s2] by (simp add: memcmp_def Let_def)

lemma memcmp_bytes_sign:
  "(memcmp_bytes m s1 s2 n = 0 \<longleftrightarrow> (\<forall>i<n. m (s1 + i) = m (s2 + i)))
   \<and> (memcmp_bytes m s1 s2 n < 0 \<longleftrightarrow>
       (\<exists>k<n. (\<forall>i<k. m (s1 + i) = m (s2 + i)) \<and> m (s1 + k) < m (s2 + k)))"
proof (induction n arbitrary: s1 s2)
  case (Suc n)
  have z: "m s1 \<noteq> m s2 \<Longrightarrow> uint (m s1) - uint (m s2) \<noteq> 0" by (simp add: word_uint_eq_iff)
  show ?case
  proof (cases "m s1 = m s2")
    case True
    with Suc.IH [of "s1 + 1" "s2 + 1"] show ?thesis
      by (simp add: All_less_Suc2 Ex_less_Suc2)
  next
    case False
    have "(\<exists>k<Suc n. (\<forall>i<k. m (s1 + i) = m (s2 + i)) \<and> m (s1 + k) < m (s2 + k)) \<longleftrightarrow> m s1 < m s2"
      using False by (auto simp: Ex_less_Suc2 All_less_Suc2)
    with False z show ?thesis by (auto simp: All_less_Suc2 word_less_def)
  qed
qed simp

text \<open>
  \<^verbatim>\<open>memcmp\<close>, word-wise or byte-wise, returns 0 exactly when the two regions hold the same
  bytes and a negative value exactly when the first difference has the smaller unsigned byte in
  the first region.
\<close>

theorem memcmp_orders_regions:
  "(memcmp m s1 s2 n = 0 \<longleftrightarrow> (\<forall>i \<in> {0..<n}. m (s1 + i) = m (s2 + i)))
   \<and> (memcmp m s1 s2 n < 0 \<longleftrightarrow>
       (\<exists>k \<in> {0..<n}. (\<forall>i \<in> {0..<k}. m (s1 + i) = m (s2 + i)) \<and> m (s1 + k) < m (s2 + k)))"
  using memcmp_bytes_sign [of m s1 s2 n] by (simp add: memcmp_bytewise Ball_def Bex_def)

theorem memcmp_orders_regions_witness:
  "memcmp (\<lambda>a. if a = 25 then 1 else 7) 0 16 16 > 0 \<and> memcmp (\<lambda>a. 7) 0 16 16 = 0"
proof -
  let ?m = "\<lambda>a :: nat. if a = 25 then 1 else 7 :: byte"
  have "memcmp ?m 0 16 16 \<noteq> 0 \<and> \<not> memcmp ?m 0 16 16 < 0"
    unfolding memcmp_orders_regions [of ?m 0 16 16, THEN conjunct1] memcmp_orders_regions [of ?m 0 16 16, THEN conjunct2]
    by (auto intro!: bexI [of _ 9])
  then show ?thesis using memcmp_orders_regions [of "\<lambda>_. 7" 0 16 16] by simp
qed

subsection \<open>atol\<close>

text \<open>A \<^verbatim>\<open>long\<close> has 64 bits; plain \<^verbatim>\<open>char\<close> is unsigned on RISC-V.\<close>

partial_function (option) skip_spaces :: "mem \<Rightarrow> nat \<Rightarrow> nat option" where
  "skip_spaces m p = (if m p = 32 then skip_spaces m (p + 1) else Some p)"

partial_function (option) atol_loop :: "mem \<Rightarrow> nat \<Rightarrow> 64 word \<Rightarrow> 64 word option" where
  "atol_loop m p res =
     (if m p \<noteq> 0 then atol_loop m (p + 1) (res * 10 + (ucast (m p) - 48)) else Some res)"

definition atol :: "mem \<Rightarrow> nat \<Rightarrow> 64 word option" where
  "atol m str =
     (case skip_spaces m str of
        None \<Rightarrow> None
      | Some p \<Rightarrow>
          (let signed = (m p = 45 \<or> m p = 43);
               sign = (signed \<and> m p = 45)
           in map_option (\<lambda>res. if sign then - res else res)
                (atol_loop m (if signed then p + 1 else p) 0)))"

definition horner :: "byte list \<Rightarrow> 64 word \<Rightarrow> 64 word" where
  "horner xs v = foldl (\<lambda>v x. v * 10 + (ucast x - 48)) v xs"

lemma atol_loop_str: "is_str m p xs \<Longrightarrow> atol_loop m p v = Some (horner xs v)"
proof (induction xs arbitrary: p v)
  case Nil
  then show ?case by (subst atol_loop.simps) (simp add: horner_def)
next
  case (Cons x xs)
  then show ?case by (subst atol_loop.simps) (simp add: horner_def)
qed

lemma skip_spaces_str:
  "is_str m p (replicate n 32 @ xs) \<Longrightarrow> xs = [] \<or> hd xs \<noteq> 32 \<Longrightarrow> skip_spaces m p = Some (p + n)"
proof (induction n arbitrary: p)
  case 0
  then show ?case by (subst skip_spaces.simps) (cases xs; auto)
next
  case (Suc n)
  then show ?case by (subst skip_spaces.simps) simp
qed

lemma is_str_append: "is_str m s (xs @ ys) \<Longrightarrow> is_str m (s + length xs) ys"
proof (induction xs arbitrary: s)
  case (Cons x xs)
  then show ?case using Cons.IH [of "s + 1"] by simp
qed simp

lemma atol_str:
  assumes "is_str m p (replicate n 32 @ xs)" "xs = [] \<or> hd xs \<noteq> 32"
  shows "atol m p = Some (case xs of [] \<Rightarrow> 0
    | c # cs \<Rightarrow> if c = 45 then - horner cs 0 else if c = 43 then horner cs 0 else horner xs 0)"
proof -
  have s: "is_str m (p + n) xs" using is_str_append [OF assms(1)] by simp
  note sk = skip_spaces_str [OF assms]
  show ?thesis
  proof (cases xs)
    case Nil
    with s have "atol_loop m (p + n) 0 = Some (horner [] 0)" using atol_loop_str by blast
    with Nil s show ?thesis by (simp add: atol_def sk Let_def horner_def)
  next
    case (Cons c cs)
    then have "m (p + n) = c" "is_str m (p + n + 1) cs" using s by simp_all
    then show ?thesis
      using Cons atol_loop_str [OF s, of 0] atol_loop_str [of m "p + n + 1" cs 0]
      by (simp add: atol_def sk Let_def)
  qed
qed

end
