(* ===== verification/C_Printf.thy ===== *)
theory C_Printf
  imports C_Strings
begin

text \<open>
  The formatted output of \<^verbatim>\<open>benchmarks/common/syscalls.c\<close>: \<^verbatim>\<open>printnum\<close>, the format interpreter
  \<^verbatim>\<open>vprintfmt\<close>, \<^verbatim>\<open>sprintf\<close>, \<^verbatim>\<open>printhex\<close>, the line-buffered \<^verbatim>\<open>putchar\<close>, and the exit protocol.
  The characters given to \<^verbatim>\<open>putch\<close> are a list of bytes, a format is the bytes before its
  terminator, and the variable arguments are a list: reading one of the wrong kind or past the
  end, undefined in C, is \<open>None\<close>. Field widths are integers (they stay far below \<open>2 ^ 31\<close>).
\<close>

subsection \<open>printnum\<close>

text \<open>
  The digits, least significant first: \<^verbatim>\<open>digs[pos++] = num % base; if (num < base) break;
  num /= base\<close>. Every caller passes base 8, 10 or 16; the test on the base only makes the
  function total.
\<close>

function digs :: "nat \<Rightarrow> nat \<Rightarrow> nat list" where
  "digs num base = num mod base # (if num < base \<or> base < 2 then [] else digs (num div base) base)"
  by pat_completeness auto
termination by (relation "measure fst") auto

declare digs.simps [simp del]

definition digit_char :: "nat \<Rightarrow> byte" where
  "digit_char d = word_of_nat (d + (if d \<ge> 10 then 97 - 10 else 48))"

definition printnum :: "nat \<Rightarrow> nat \<Rightarrow> int \<Rightarrow> byte \<Rightarrow> byte list" where
  "printnum num base width padc =
     (let ds = digs num base
      in replicate (nat (width - int (length ds))) padc @ rev (map digit_char ds))"

subsection \<open>vprintfmt\<close>

datatype va_arg = VInt "64 word" | VStr "byte list option"

text \<open>\<^verbatim>\<open>getuint\<close> and \<^verbatim>\<open>getint\<close>: an \<^verbatim>\<open>int\<close> argument is the low half of its register.\<close>

definition getuint :: "64 word \<Rightarrow> nat \<Rightarrow> nat" where
  "getuint w lflag = (if lflag \<ge> 1 then unat w else unat (ucast w :: c_int))"

definition getint :: "64 word \<Rightarrow> nat \<Rightarrow> int" where
  "getint w lflag = (if lflag \<ge> 1 then sint w else sint (ucast w :: c_int))"

record escape_state =
  padc :: byte
  width :: int
  precision :: int
  lflag :: nat

definition escape_init :: escape_state where
  "escape_init = \<lparr>padc = 32, width = - 1, precision = - 1, lflag = 0\<rparr>"

text \<open>The width field: its value and what is left of the format.\<close>

fun parse_width :: "int \<Rightarrow> byte \<Rightarrow> byte list \<Rightarrow> int \<times> byte list" where
  "parse_width p ch [] = (p * 10 + uint ch - 48, [])"
| "parse_width p ch (c # cs) =
     (let p' = p * 10 + uint ch - 48
      in if c < 48 \<or> 57 < c then (p', c # cs) else parse_width p' c cs)"

definition process_precision :: "int \<Rightarrow> escape_state \<Rightarrow> escape_state" where
  "process_precision p e =
     (if width e < 0 then e\<lparr>width := p, precision := - 1\<rparr> else e\<lparr>precision := p\<rparr>)"

text \<open>The \<^verbatim>\<open>%s\<close> conversion: left padding, the string up to the precision, right padding.\<close>

definition print_string :: "escape_state \<Rightarrow> byte list \<Rightarrow> byte list" where
  "print_string e p =
     (let shown = (if precision e < 0 then p else take (nat (precision e)) p);
          pads = (width e > 0 \<and> padc e \<noteq> 45);
          w1 = (if pads then width e - int (length shown) else width e);
          left = (if pads then replicate (nat w1) (padc e) else []);
          w2 = (if pads then min w1 0 else width e)
      in left @ shown @ replicate (nat (w2 - int (length shown))) 32)"

definition signed_decimal :: "int \<Rightarrow> int \<Rightarrow> byte \<Rightarrow> byte list" where
  "signed_decimal v w pc =
     (if v < 0 then 45 # printnum (nat (- v)) 10 w pc else printnum (nat v) 10 w pc)"

lemma parse_width_length: "length (snd (parse_width p ch cs)) \<le> length cs"
  by (induction p ch cs rule: parse_width.induct) (auto simp: Let_def)

text \<open>
  One escape sequence, from the \<^verbatim>\<open>reswitch\<close> label: \<open>f\<close> is what follows, \<open>lf\<close> is \<^verbatim>\<open>last_fmt\<close>. The
  result is the output, the rest of the format and the remaining arguments.
\<close>

function escape ::
  "byte list \<Rightarrow> byte list \<Rightarrow> escape_state \<Rightarrow> va_arg list \<Rightarrow> (byte list \<times> byte list \<times> va_arg list) option" where
  "escape lf [] e args = Some ([37], lf, args)"
| "escape lf (ch # f) e args =
    (if ch = 45 then escape lf f (e\<lparr>padc := 45\<rparr>) args
     else if ch = 48 then escape lf f (e\<lparr>padc := 48\<rparr>) args
     else if 49 \<le> ch \<and> ch \<le> 57
       then escape lf (snd (parse_width 0 ch f)) (process_precision (fst (parse_width 0 ch f)) e) args
     else if ch = 42
       then (case args of VInt w # r \<Rightarrow> escape lf f (process_precision (sint (ucast w :: c_int)) e) r | _ \<Rightarrow> None)
     else if ch = 46 then escape lf f (if width e < 0 then e\<lparr>width := 0\<rparr> else e) args
     else if ch = 35 then escape lf f e args
     else if ch = 108 then escape lf f (e\<lparr>lflag := lflag e + 1\<rparr>) args
     else if ch = 99
       then (case args of VInt w # r \<Rightarrow> Some ([ucast w], f, r) | _ \<Rightarrow> None)
     else if ch = 115
       then (case args of VStr p # r \<Rightarrow>
               Some (print_string e (case p of None \<Rightarrow> [40, 110, 117, 108, 108, 41] | Some s \<Rightarrow> s), f, r)
             | _ \<Rightarrow> None)
     else if ch = 100
       then (case args of VInt w # r \<Rightarrow> Some (signed_decimal (getint w (lflag e)) (width e) (padc e), f, r)
             | _ \<Rightarrow> None)
     else if ch = 117
       then (case args of VInt w # r \<Rightarrow> Some (printnum (getuint w (lflag e)) 10 (width e) (padc e), f, r)
             | _ \<Rightarrow> None)
     else if ch = 111
       then (case args of VInt w # r \<Rightarrow> Some (printnum (getuint w (lflag e)) 8 (width e) (padc e), f, r)
             | _ \<Rightarrow> None)
     else if ch = 112
       then (case args of VInt w # r \<Rightarrow> Some ([48, 120] @ printnum (getuint w 1) 16 (width e) (padc e), f, r)
             | _ \<Rightarrow> None)
     else if ch = 120
       then (case args of VInt w # r \<Rightarrow> Some (printnum (getuint w (lflag e)) 16 (width e) (padc e), f, r)
             | _ \<Rightarrow> None)
     else if ch = 37 then Some ([37], f, args)
     else Some ([37], lf, args))"
  by pat_completeness auto
termination
  by (relation "measure (\<lambda>(lf, f, e, args). length f)")
     (auto simp: le_imp_less_Suc parse_width_length)

lemma if_SomeE: "(if b then x else y) = Some r \<Longrightarrow> (x = Some r \<Longrightarrow> R) \<Longrightarrow> (y = Some r \<Longrightarrow> R) \<Longrightarrow> R"
  by (simp split: if_splits)

lemma int_argE:
  "(case args of VInt w # r \<Rightarrow> F w r | _ \<Rightarrow> None) = Some x \<Longrightarrow> (\<And>w r. F w r = Some x \<Longrightarrow> R) \<Longrightarrow> R"
  by (simp split: list.splits va_arg.splits)

lemma str_argE:
  "(case args of VStr p # r \<Rightarrow> F p r | _ \<Rightarrow> None) = Some x \<Longrightarrow> (\<And>p r. F p r = Some x \<Longrightarrow> R) \<Longrightarrow> R"
  by (simp split: list.splits va_arg.splits)

lemma escape_rest:
  "escape lf f e args = Some (out, rest, args') \<Longrightarrow> length rest \<le> max (length lf) (length f)"
proof (induction "length f" arbitrary: f e args rule: less_induct)
  case less
  show ?case
  proof (cases f)
    case Nil
    with less.prems show ?thesis by simp
  next
    case (Cons ch g)
    have ih: "escape lf g e' a = Some (out, rest, args') \<Longrightarrow> length rest \<le> max (length lf) (length f)" for e' a
      using less.hyps [of g e' a] Cons by simp
    have ihw: "escape lf (snd (parse_width 0 ch g)) e' a = Some (out, rest, args')
        \<Longrightarrow> length rest \<le> max (length lf) (length f)" for e' a
      using less.hyps [of "snd (parse_width 0 ch g)" e' a] parse_width_length [of 0 ch g] Cons by fastforce
    have here: "length g \<le> max (length lf) (length f)" "length lf \<le> max (length lf) (length f)"
      by (simp_all add: Cons)
    from less.prems show ?thesis
      unfolding Cons escape.simps
      by (elim if_SomeE int_argE str_argE) (erule ih [unfolded Cons] ihw [unfolded Cons] |
          use here [unfolded Cons] in simp)+
  qed
qed

text \<open>The outer loop: plain characters are printed, \<^verbatim>\<open>%\<close> starts an escape.\<close>

function vprintfmt :: "byte list \<Rightarrow> va_arg list \<Rightarrow> (byte list \<times> va_arg list) option" where
  "vprintfmt [] args = Some ([], args)"
| "vprintfmt (ch # f) args =
     (if ch \<noteq> 37 then map_option (\<lambda>(out, r). (ch # out, r)) (vprintfmt f args)
      else (case escape f f escape_init args of
              None \<Rightarrow> None
            | Some (out, rest, args') \<Rightarrow> map_option (\<lambda>(out', r). (out @ out', r)) (vprintfmt rest args')))"
  by pat_completeness auto
termination
  by (relation "measure (\<lambda>(f, args). length f)") (auto dest!: escape_rest)

text \<open>\<^verbatim>\<open>sprintf\<close>: the characters and a terminator are stored at \<^verbatim>\<open>str\<close>; their number is returned.\<close>

definition store_bytes :: "nat \<Rightarrow> byte list \<Rightarrow> mem \<Rightarrow> mem" where
  "store_bytes a xs m = (\<lambda>x. if a \<le> x \<and> x < a + length xs then xs ! (x - a) else m x)"

definition sprintf :: "nat \<Rightarrow> byte list \<Rightarrow> va_arg list \<Rightarrow> mem \<Rightarrow> (nat \<times> mem) option" where
  "sprintf str fmt args m =
     map_option (\<lambda>(out, _). (length out, store_bytes str (out @ [0]) m)) (vprintfmt fmt args)"

definition printf :: "byte list \<Rightarrow> va_arg list \<Rightarrow> (int \<times> byte list) option" where
  "printf fmt args = map_option (\<lambda>(out, _). (0, out)) (vprintfmt fmt args)"

subsection \<open>Digits\<close>

definition num_of :: "nat \<Rightarrow> nat list \<Rightarrow> nat" where
  "num_of base ds = foldr (\<lambda>d v. d + v * base) ds 0"

lemma digs_value: "2 \<le> base \<Longrightarrow> num_of base (digs n base) = n \<and> (\<forall>d \<in> set (digs n base). d < base)"
proof (induction n base rule: digs.induct)
  case (1 n base)
  show ?case
  proof (cases "n < base")
    case True
    with "1.prems" show ?thesis by (subst (1 2) digs.simps) (simp add: num_of_def)
  next
    case False
    with 1 have "num_of base (digs (n div base) base) = n div base
      \<and> (\<forall>d \<in> set (digs (n div base) base). d < base)" by simp
    with False "1.prems" show ?thesis
      by (subst (1 2) digs.simps) (simp add: num_of_def)
  qed
qed

lemma digs_length: "2 \<le> base \<Longrightarrow> n < 2 ^ k \<Longrightarrow> 0 < k \<Longrightarrow> length (digs n base) \<le> k"
proof (induction n base arbitrary: k rule: digs.induct)
  case (1 n base)
  show ?case
  proof (cases "n < base")
    case True
    with "1.prems" show ?thesis by (subst digs.simps) simp
  next
    case False
    then obtain j where k: "k = Suc j" using "1.prems" by (cases k) auto
    have "0 < j" using False "1.prems" k by (cases j) auto
    moreover have "n div base < 2 ^ j"
    proof -
      have "n div base \<le> n div 2" using "1.prems" by (intro div_le_mono2) auto
      also have "\<dots> < 2 ^ j" using "1.prems" k by simp
      finally show ?thesis .
    qed
    ultimately have "length (digs (n div base) base) \<le> j"
      using "1.IH" False "1.prems" by simp
    with False "1.prems" k show ?thesis by (subst digs.simps) simp
  qed
qed

lemma digs_no_leading_zero: "2 \<le> base \<Longrightarrow> n \<noteq> 0 \<Longrightarrow> last (digs n base) \<noteq> 0"
proof (induction n base rule: digs.induct)
  case (1 n base)
  show ?case
  proof (cases "n < base")
    case True
    with "1.prems" show ?thesis by (subst digs.simps) simp
  next
    case False
    then have "n div base \<noteq> 0" using "1.prems" by (simp add: div_eq_0_iff)
    moreover have "digs (n div base) base \<noteq> []" by (subst digs.simps) simp
    ultimately show ?thesis
      using "1.IH" False "1.prems" by (subst digs.simps) simp
  qed
qed

subsection \<open>What is printed can be read back\<close>

definition digit_val :: "byte \<Rightarrow> nat" where
  "digit_val c = (if unat c \<ge> 97 then unat c - 87 else unat c - 48)"

lemma unat_digit_char: "d < 16 \<Longrightarrow> unat (digit_char d) = d + (if d \<ge> 10 then 87 else 48)"
  unfolding digit_char_def by (simp add: unat_of_nat del: of_nat_add of_nat_numeral)

lemma digit_val_char: "d < 16 \<Longrightarrow> digit_val (digit_char d) = d"
  by (simp add: digit_val_def unat_digit_char)

definition read_num :: "nat \<Rightarrow> byte list \<Rightarrow> nat" where
  "read_num base xs = foldl (\<lambda>v c. v * base + digit_val c) 0 xs"

lemma read_num_digits:
  "\<forall>d \<in> set ds. d < 16 \<Longrightarrow> read_num base (rev (map digit_char ds)) = num_of base ds"
  by (induction ds) (simp_all add: read_num_def num_of_def digit_val_char)

text \<open>
  \<^verbatim>\<open>printnum\<close> prints a number correctly in every base it is called with: it never writes
  more digits than its 64-entry buffer holds, it pads on the left to exactly the given width,
  the characters after the padding read back as the number, and they start with a zero only for
  the number 0.
\<close>

theorem printnum_reads_back:
  assumes "base \<in> {8, 10, 16}" "n < 2 ^ 64"
  shows "\<exists>k ds. printnum n base w pc = replicate k pc @ ds \<and> read_num base ds = n \<and> length ds \<le> 64
    \<and> int k = max 0 (w - int (length ds)) \<and> (hd ds = 48 \<longleftrightarrow> n = 0)"
proof -
  let ?d = "digs n base"
  have b: "2 \<le> base" "base \<le> 16" using assms(1) by auto
  note v = digs_value [OF b(1), of n]
  have lt: "\<forall>d \<in> set ?d. d < 16" using v b(2) by fastforce
  have ne: "?d \<noteq> []" by (subst digs.simps) simp
  have last: "last ?d < 16" using lt ne by simp
  have "digit_char d = 48 \<longleftrightarrow> d = 0" if "d < 16" for d
    using unat_digit_char [OF that] by (auto simp: word_unat_eq_iff)
  then have "hd (rev (map digit_char ?d)) = 48 \<longleftrightarrow> last ?d = 0"
    using ne last by (simp add: hd_rev last_map)
  moreover have "last ?d = 0 \<longleftrightarrow> n = 0"
    using digs_no_leading_zero [OF b(1), of n] digs.simps [of 0 base] b(1) by (cases "n = 0") simp_all
  ultimately show ?thesis
    using v read_num_digits [OF lt, of base] digs_length [OF b(1) assms(2)]
    by (intro exI [of _ "nat (w - int (length ?d))"] exI [of _ "rev (map digit_char ?d)"])
       (simp add: printnum_def Let_def)
qed

theorem printnum_reads_back_witness:
  "\<exists>k ds. printnum 255 16 4 48 = replicate k 48 @ ds \<and> read_num 16 ds = 255"
  using printnum_reads_back [of 16 255 4 48] by auto

lemma digit_char_word: "d < 10 \<Longrightarrow> ucast (digit_char d) - 48 = (word_of_nat d :: 64 word)"
proof -
  assume d: "d < 10"
  then have u: "unat (digit_char d) = d + 48" by (simp add: unat_digit_char)
  have "(ucast (digit_char d) :: 64 word) = word_of_nat (unat (digit_char d))" by simp
  also have "\<dots> = word_of_nat (d + 48)" by (simp only: u)
  finally have "(ucast (digit_char d) :: 64 word) = word_of_nat (d + 48)" .
  then show ?thesis by simp
qed

lemma horner_digits:
  "\<forall>d \<in> set ds. d < 10 \<Longrightarrow> horner (rev (map digit_char ds)) 0 = word_of_nat (num_of 10 ds)"
  by (induction ds) (simp_all add: horner_def num_of_def digit_char_word)

lemma decimal_chars:
  "c \<in> set (rev (map digit_char (digs n 10))) \<Longrightarrow> 48 \<le> c \<and> c \<le> 57"
proof -
  assume "c \<in> set (rev (map digit_char (digs n 10)))"
  then obtain d where d: "c = digit_char d" "d < 10" using digs_value [of 10 n] by auto
  then have "unat c = d + 48" by (simp add: unat_digit_char)
  with d(2) show ?thesis by (simp add: word_le_nat_alt)
qed

lemma is_str_store_bytes: "0 \<notin> set xs \<Longrightarrow> is_str (store_bytes a (xs @ [0]) m) a xs"
  by (auto simp: is_str_def store_bytes_def nth_append in_set_conv_nth)

lemma atol_decimal:
  assumes "is_str m p (signed_decimal v (- 1) 32)" "- (2 ^ 63) \<le> v" "v < 2 ^ 63"
  shows "atol m p = Some (word_of_int v)"
proof -
  have h: "horner (rev (map digit_char (digs n 10))) 0 = word_of_nat n" for n
    using horner_digits digs_value [of 10 n] by simp
  have ne: "rev (map digit_char (digs n 10)) \<noteq> []" for n by (subst digs.simps) simp
  show ?thesis
  proof (cases "v < 0")
    case True
    then have "is_str m p (replicate 0 32 @ 45 # rev (map digit_char (digs (nat (- v)) 10)))"
      using assms(1) by (simp add: signed_decimal_def printnum_def)
    from atol_str [OF this] True show ?thesis by (simp add: h)
  next
    case False
    let ?ds = "rev (map digit_char (digs (nat v) 10))"
    obtain c cs where c: "?ds = c # cs" using ne [of "nat v"] by (cases ?ds) blast+
    have "48 \<le> c" using decimal_chars [of c "nat v"] unfolding c by simp
    then have cn: "c \<noteq> 45" "c \<noteq> 43" "c \<noteq> 32" by auto
    have "is_str m p (replicate 0 32 @ c # cs)"
      using assms(1) False c by (simp add: signed_decimal_def printnum_def)
    from atol_str [OF this] cn have "atol m p = Some (horner ?ds 0)" by (simp add: c)
    with False show ?thesis by (simp add: h)
  qed
qed

text \<open>
  C21. Printing and reading a \<^verbatim>\<open>long\<close> are inverse for all \<open>2 ^ 64\<close> values, the most negative one
  included: \<^verbatim>\<open>atol\<close> of the string that \<^verbatim>\<open>sprintf(str, "%ld", x)\<close> stores returns \<^verbatim>\<open>x\<close>.
\<close>

theorem sprintf_atol_roundtrip:
  "\<exists>n m'. sprintf str [37, 108, 100] [VInt w] m = Some (n, m') \<and> atol m' str = Some w"
proof -
  let ?out = "signed_decimal (sint w) (- 1) 32"
  have v: "vprintfmt [37, 108, 100] [VInt w] = Some (?out, [])"
    by (simp add: escape_init_def getint_def)
  have "0 \<notin> set ?out"
    using decimal_chars [of 0 "nat (- sint w)"] decimal_chars [of 0 "nat (sint w)"]
    by (auto simp: signed_decimal_def printnum_def)
  then have "is_str (store_bytes str (?out @ [0]) m) str ?out" by (rule is_str_store_bytes)
  moreover have "- (2 ^ 63) \<le> sint w" "sint w < 2 ^ 63"
    using sint_greater_eq [of w] sint_lt [of w] by simp_all
  ultimately have "atol (store_bytes str (?out @ [0]) m) str = Some (word_of_int (sint w))"
    by (rule atol_decimal)
  then show ?thesis unfolding sprintf_def v by simp
qed

text \<open>
  The flag \<^verbatim>\<open>-\<close> only sets the padding character, so a number with it is padded on the left with
  minus signs: \<^verbatim>\<open>printf("%-5d", 42)\<close> prints \<^verbatim>\<open>---42\<close>.
\<close>

lemma left_justified_number_padded_with_minus:
  "vprintfmt [37, 45, 53, 100] [VInt 42] = Some ([45, 45, 45, 52, 50], [])"
proof -
  have "printnum 42 10 5 45 = [45, 45, 45, 52, 50]" by code_simp
  then show ?thesis
    by (simp add: escape_init_def getint_def process_precision_def signed_decimal_def Let_def)
qed

subsection \<open>printhex\<close>

text \<open>The loop fills \<^verbatim>\<open>str[15]\<close> down to \<^verbatim>\<open>str[0]\<close> from the low digits up.\<close>

definition printhex :: "64 word \<Rightarrow> byte list" where
  "printhex x =
     snd (c_for 0 16 1 (\<lambda>i (x, str). (drop_bit 4 x, str[15 - i := digit_char (unat (x AND 0xF))]))
       (x, replicate 16 0))"

lemma printhex_loop:
  "n \<le> 16 \<Longrightarrow> fold (\<lambda>i (x, str). (drop_bit 4 x, str[15 - i := digit_char (unat (x AND 0xF))])) [0..<n]
     (x, replicate 16 0) =
   (drop_bit (4 * n) x, replicate (16 - n) 0 @ rev (map (\<lambda>i. digit_char (unat (drop_bit (4 * i) x AND 0xF))) [0..<n]))"
proof (induction n)
  case (Suc n)
  then have "replicate (16 - n) (0 :: byte) = replicate (16 - Suc n) 0 @ [0]"
    by (metis Suc_diff_le diff_Suc_Suc replicate_Suc replicate_append_same)
  with Suc show ?case by (simp add: list_update_append drop_bit_drop_bit)
qed simp

lemma low_digit: "unat ((x :: 64 word) AND 0xF) = unat x mod 16"
proof -
  have "x AND 0xF = take_bit 4 x" using take_bit_eq_mask [of 4 x] by (simp add: mask_eq_exp_minus_1)
  then show ?thesis by (simp add: unsigned_take_bit_eq) (simp add: take_bit_eq_mod)
qed

lemma hex_digits_value:
  "num_of 16 (map (\<lambda>i. n div 16 ^ i mod 16) [0..<k]) = n mod 16 ^ k"
proof (induction k arbitrary: n)
  case (Suc k)
  have "map (\<lambda>i. n div 16 ^ i mod 16) [0..<Suc k] =
      n mod 16 # map (\<lambda>i. n div 16 div 16 ^ i mod 16) [0..<k]"
    by (simp add: upt_conv_Cons map_Suc_upt [symmetric] div_mult2_eq del: upt_Suc)
  then have "num_of 16 (map (\<lambda>i. n div 16 ^ i mod 16) [0..<Suc k]) = n mod 16 + (n div 16 mod 16 ^ k) * 16"
    using Suc.IH [of "n div 16"] by (simp add: num_of_def)
  also have "\<dots> = n mod 16 ^ Suc k" by (simp add: mod_mult2_eq)
  finally show ?case .
qed (simp add: num_of_def)

text \<open>
  \<^verbatim>\<open>printhex\<close> prints exactly 16 hexadecimal digits, which read back as the 64-bit value.
\<close>

theorem printhex_reads_back: "length (printhex x) = 16 \<and> read_num 16 (printhex x) = unat x"
proof -
  let ?ds = "map (\<lambda>i. unat x div 16 ^ i mod 16) [0..<16]"
  have "unat (drop_bit (4 * i) x) = unat x div 16 ^ i" for i
    by (subst unat_drop_bit_eq) (simp add: drop_bit_eq_div power_mult)
  then have p: "printhex x = rev (map digit_char ?ds)"
    using printhex_loop [of 16 x] by (simp add: printhex_def c_for_1 low_digit comp_def del: upt_rec_numeral)
  have "unat x < 16 ^ 16" using unsigned_less [of x] by simp
  then show ?thesis
    using read_num_digits [of ?ds 16] hex_digits_value [of "unat x" 16] by (simp add: p del: upt_rec_numeral)
qed

subsection \<open>putchar\<close>

text \<open>
  The thread's line buffer and the arguments of the \<^verbatim>\<open>SYS_write\<close> calls made so far: a write happens
  on a newline and when all 64 bytes are in use.
\<close>

record putchar_state =
  pc_buf :: "byte list"
  pc_buflen :: nat
  pc_written :: "byte list list"

definition putchar_init :: putchar_state where
  "putchar_init = \<lparr>pc_buf = replicate 64 0, pc_buflen = 0, pc_written = []\<rparr>"

definition putchar :: "byte \<Rightarrow> putchar_state \<Rightarrow> putchar_state" where
  "putchar ch s =
     (let buf = (pc_buf s)[pc_buflen s := ch];
          n = pc_buflen s + 1
      in if ch = 10 \<or> n = 64
         then s\<lparr>pc_buf := buf, pc_buflen := 0, pc_written := pc_written s @ [take n buf]\<rparr>
         else s\<lparr>pc_buf := buf, pc_buflen := n\<rparr>)"

definition putchar_ok :: "putchar_state \<Rightarrow> bool" where
  "putchar_ok s = (length (pc_buf s) = 64 \<and> pc_buflen s < 64)"

definition putchar_stream :: "putchar_state \<Rightarrow> byte list" where
  "putchar_stream s = concat (pc_written s) @ take (pc_buflen s) (pc_buf s)"

lemma putchar_step:
  assumes "putchar_ok s"
  shows "putchar_ok (putchar ch s) \<and> putchar_stream (putchar ch s) = putchar_stream s @ [ch]"
proof -
  have "take (pc_buflen s + 1) ((pc_buf s)[pc_buflen s := ch]) = take (pc_buflen s) (pc_buf s) @ [ch]"
    using assms by (simp add: putchar_ok_def take_Suc_conv_app_nth)
  with assms show ?thesis by (auto simp: putchar_def putchar_ok_def putchar_stream_def Let_def)
qed

text \<open>
  \<^verbatim>\<open>putchar\<close> never overruns its 64-byte buffer, and after any sequence of calls the bytes
  written out followed by the bytes still buffered are exactly the characters put, in order.
\<close>

theorem putchar_buffers_in_order:
  "pc_buflen (fold putchar cs putchar_init) < length (pc_buf (fold putchar cs putchar_init))
   \<and> putchar_stream (fold putchar cs putchar_init) = cs"
proof -
  have "putchar_ok s \<Longrightarrow> putchar_ok (fold putchar cs s) \<and> putchar_stream (fold putchar cs s) = putchar_stream s @ cs" for s
    by (induction cs arbitrary: s) (simp_all add: putchar_step)
  from this [of putchar_init] show ?thesis
    by (simp add: putchar_init_def putchar_ok_def putchar_stream_def)
qed

subsection \<open>Statistics and exit\<close>

text \<open>\<^verbatim>\<open>setStats\<close> with the values of the two counter registers at the call.\<close>

definition setStats :: "bool \<Rightarrow> 64 word list \<Rightarrow> 64 word list \<Rightarrow> 64 word list" where
  "setStats enable csrs counters =
     c_for 0 2 1 (\<lambda>i c. c[i := if enable then csrs ! i else csrs ! i - c ! i]) counters"

definition tohost_exit :: "64 word \<Rightarrow> 64 word" where
  "tohost_exit code = push_bit 1 code OR 1"

lemma setStats_interval:
  "length c = 2 \<Longrightarrow> length a = 2 \<Longrightarrow> length b = 2 \<Longrightarrow>
    setStats False b (setStats True a c) = [b ! 0 - a ! 0, b ! 1 - a ! 1]"
  by (auto simp: setStats_def c_for_1 numeral_2_eq_2 length_Suc_conv)

lemma tohost_exit_code: "odd (tohost_exit code) \<and> drop_bit 1 (tohost_exit code) = take_bit 63 code"
proof
  show "odd (tohost_exit code)" by (simp add: tohost_exit_def even_or_iff)
  show "drop_bit 1 (tohost_exit code) = take_bit 63 code"
  proof (rule word_eq_by_bits)
    fix i :: nat assume "i < LENGTH(64)"
    have "bit (push_bit 1 code) (Suc i) \<longleftrightarrow> i < 63 \<and> bit code i"
      unfolding bit_push_bit_iff by auto
    moreover have "\<not> bit (1 :: 64 word) (Suc i)" by (simp add: bit_1_iff)
    ultimately show "bit (drop_bit 1 (tohost_exit code)) i \<longleftrightarrow> bit (take_bit 63 code) i"
      unfolding tohost_exit_def bit_drop_bit_eq comp_def bit_take_bit_iff by (simp only: bit_or_iff add_Suc plus_nat.add_0 One_nat_def) simp
  qed
qed

end
