(* ===== verification/C_Format.thy ===== *)
theory C_Format
  imports C_Printf
begin

text \<open>
  The typing discipline of the format strings that \<^verbatim>\<open>vprintfmt\<close> interprets: which kinds of variable
  argument a format reads, computed from the format alone, and the proof that the interpreter reads
  exactly these. C leaves the call undefined when they do not fit.
\<close>

subsection \<open>What a format reads\<close>

text \<open>
  The kinds of argument a format reads, found by a scan that looks at the format alone, and what a
  variable argument must be for each kind.
\<close>

datatype va_kind = KInt | KStr

fun has_kind :: "va_kind \<Rightarrow> va_arg \<Rightarrow> bool" where
  "has_kind KInt (VInt w) = True"
| "has_kind KStr (VStr s) = True"
| "has_kind _ _ = False"

function escape_kinds :: "byte list \<Rightarrow> byte list \<Rightarrow> va_kind list \<times> byte list" where
  "escape_kinds lf [] = ([], lf)"
| "escape_kinds lf (ch # f) =
    (if ch \<in> {45, 48, 46, 35, 108} then escape_kinds lf f
     else if 49 \<le> ch \<and> ch \<le> 57 then escape_kinds lf (snd (parse_width 0 ch f))
     else if ch = 42 then (KInt # fst (escape_kinds lf f), snd (escape_kinds lf f))
     else if ch = 115 then ([KStr], f)
     else if ch \<in> {99, 100, 117, 111, 112, 120} then ([KInt], f)
     else if ch = 37 then ([], f)
     else ([], lf))"
  by pat_completeness auto
termination
  by (relation "measure (\<lambda>(lf, f). length f)") (auto simp: le_imp_less_Suc parse_width_length)

lemma escape_kinds_rest: "length (snd (escape_kinds lf f)) \<le> max (length lf) (length f)"
proof (induction lf f rule: escape_kinds.induct)
  case (2 lf ch f)
  have "length (snd (escape_kinds lf (snd (parse_width 0 ch f)))) \<le> max (length lf) (length f)" if "49 \<le> ch \<and> ch \<le> 57" "ch \<notin> {45, 48, 46, 35, 108}"
    using "2.IH"(2) [OF that(2,1)] parse_width_length [of 0 ch f] by linarith
  with "2.IH"(1,3) show ?case by (subst escape_kinds.simps) (simp split del: if_split, auto)
qed simp

function format_kinds :: "byte list \<Rightarrow> va_kind list" where
  "format_kinds [] = []"
| "format_kinds (ch # f) = (if ch \<noteq> 37 then format_kinds f
     else fst (escape_kinds f f) @ format_kinds (snd (escape_kinds f f)))"
  by pat_completeness auto
termination
proof (relation "measure length", goal_cases)
  case (3 ch f)
  then show ?case using escape_kinds_rest [of f f] by simp
qed auto

abbreviation args_fit :: "va_kind list \<Rightarrow> va_arg list \<Rightarrow> bool" where
  "args_fit ks args \<equiv> list_all2 has_kind ks (take (length ks) args)"

lemma args_fit_Cons [simp]:
  "args_fit (KInt # ks) args \<longleftrightarrow> (\<exists>w r. args = VInt w # r \<and> args_fit ks r)"
  "args_fit (KStr # ks) args \<longleftrightarrow> (\<exists>s r. args = VStr s # r \<and> args_fit ks r)"
  by (cases args; cases "hd args"; simp)+

lemma args_fit_append:
  "list_all2 has_kind (ks @ ls) (take (length ks + length ls) args) \<longleftrightarrow> args_fit ks args \<and> args_fit ls (drop (length ks) args)"
proof (induction ks arbitrary: args)
  case (Cons k ks)
  then show ?case by (cases k; cases args; cases "hd args") auto
qed simp

lemma escape_kinds_sound:
  "map_option snd (escape lf f e args) = (if args_fit (fst (escape_kinds lf f)) args
     then Some (snd (escape_kinds lf f), drop (length (fst (escape_kinds lf f))) args) else None)"
proof (induction lf f e args rule: escape.induct)
  case (2 lf ch f e args)
  consider "ch = 45" | "ch = 48" | "49 \<le> ch" "ch \<le> 57" | "ch = 42" | "ch \<in> {46, 35, 108}" | "ch = 115" | "ch = 37"
    | "ch \<in> {99, 100, 117, 111, 112, 120}"
    | "ch \<notin> {45, 48, 42, 46, 35, 108, 115, 37, 99, 100, 117, 111, 112, 120}" "\<not> (49 \<le> ch \<and> ch \<le> 57)" by blast
  then show ?case
  proof cases
    case 3
    then have "ch \<noteq> 45" "ch \<noteq> 48" "ch \<noteq> 46" "ch \<noteq> 35" "ch \<noteq> 108" by auto
    with 3 "2.IH"(3) show ?thesis by simp
  next
    case 4
    show ?thesis
    proof (cases "\<exists>w r. args = VInt w # r")
      case True
      then obtain w r where "args = VInt w # r" by blast
      with 4 "2.IH"(4) show ?thesis by simp
    qed (use 4 in \<open>auto split: list.split va_arg.split\<close>)
  next
    case 5
    with "2.IH"(5-7) show ?thesis by auto
  qed (use "2.IH"(1,2) in \<open>auto split: list.split va_arg.split\<close>)
qed simp

text \<open>C22. The formatted output is defined exactly for the argument lists whose kinds match the format, and
  it reads exactly the arguments the format names: no flag, width, precision or truncated escape changes
  what is read, and the remaining arguments are left alone.\<close>

theorem formats_are_type_sound:
  "map_option snd (vprintfmt fmt args) =
     (if list_all2 has_kind (format_kinds fmt) (take (length (format_kinds fmt)) args)
      then Some (drop (length (format_kinds fmt)) args) else None)"
proof (induction fmt args rule: vprintfmt.induct)
  case (2 ch f args)
  show ?case
  proof (cases "ch = 37")
    case True
    show ?thesis
    proof (cases "escape f f escape_init args")
      case None
      with escape_kinds_sound [of f f escape_init args] True show ?thesis
        by (simp add: args_fit_append split: if_splits)
    next
      case (Some x)
      obtain out rest args' where x: "x = (out, rest, args')" by (cases x)
      have "args_fit (fst (escape_kinds f f)) args" "rest = snd (escape_kinds f f)"
        "args' = drop (length (fst (escape_kinds f f))) args"
        using escape_kinds_sound [of f f escape_init args] Some x by (simp_all split: if_splits)
      moreover have "map_option snd (vprintfmt rest args') = (if args_fit (format_kinds rest) args'
          then Some (drop (length (format_kinds rest)) args') else None)"
        by (rule "2.IH"(2)) (use True Some x in auto)
      ultimately show ?thesis using True Some x
        by (simp add: args_fit_append option.map_comp comp_def case_prod_beta add.commute)
    qed
  qed (use "2.IH"(1) in \<open>simp add: option.map_comp comp_def case_prod_beta\<close>)
qed simp

end
