(* ===== verification/Bench_Util.thy ===== *)
theory Bench_Util
  imports C_Prelude
begin

text \<open>
  The helpers of \<^verbatim>\<open>benchmarks/common/util.h\<close>: the result checks, the pseudo-random step, the
  instruction length and the sense-reversing barrier. A barrier call is split into its atomic
  accesses of the shared variables, and all threads interleave; the numbers of arrivals and
  departures of a thread are history variables.
\<close>

subsection \<open>verify\<close>

text \<open>The unrolled loop from index \<open>i\<close> on, and the check of the odd last element.\<close>

function verify_from :: "nat \<Rightarrow> nat \<Rightarrow> c_int list \<Rightarrow> c_int list \<Rightarrow> nat" where
  "verify_from i n test ver =
     (if i < n div 2 * 2
      then if test ! i \<noteq> ver ! i then i + 1
           else if test ! (i + 1) \<noteq> ver ! (i + 1) then i + 2
           else verify_from (i + 2) n test ver
      else if n mod 2 \<noteq> 0 \<and> test ! (n - 1) \<noteq> ver ! (n - 1) then n else 0)"
  by pat_completeness auto
termination by (relation "measure (\<lambda>(i, n, _, _). n - i)") auto

definition verify :: "nat \<Rightarrow> c_int list \<Rightarrow> c_int list \<Rightarrow> nat" where
  "verify n test ver = verify_from 0 n test ver"

text \<open>
  \<^verbatim>\<open>verifyDouble\<close> and \<^verbatim>\<open>verifyFloat\<close> differ in the element type only; its comparison \<^verbatim>\<open>==\<close> is the
  parameter \<open>eq\<close> (it need not be reflexive: a NaN differs from itself).
\<close>

function verify_fp_from :: "('a \<Rightarrow> 'a \<Rightarrow> bool) \<Rightarrow> nat \<Rightarrow> nat \<Rightarrow> 'a list \<Rightarrow> 'a list \<Rightarrow> nat" where
  "verify_fp_from eq i n test ver =
     (if i < n div 2 * 2
      then (let eq1 = eq (test ! i) (ver ! i); eq2 = eq (test ! (i + 1)) (ver ! (i + 1))
            in if \<not> (eq1 \<and> eq2) then i + 1 + of_bool eq1 else verify_fp_from eq (i + 2) n test ver)
      else if n mod 2 \<noteq> 0 \<and> \<not> eq (test ! (n - 1)) (ver ! (n - 1)) then n else 0)"
  by pat_completeness auto
termination by (relation "measure (\<lambda>(eq, i, n, _, _). n - i)") auto

definition verifyDouble :: "('a \<Rightarrow> 'a \<Rightarrow> bool) \<Rightarrow> nat \<Rightarrow> 'a list \<Rightarrow> 'a list \<Rightarrow> nat" where
  "verifyDouble eq n test ver = verify_fp_from eq 0 n test ver"

definition verifyFloat :: "('a \<Rightarrow> 'a \<Rightarrow> bool) \<Rightarrow> nat \<Rightarrow> 'a list \<Rightarrow> 'a list \<Rightarrow> nat" where
  "verifyFloat eq n test ver = verify_fp_from eq 0 n test ver"

declare verify_from.simps [simp del] verify_fp_from.simps [simp del]

text \<open>One past the first index of \<open>[i..<n]\<close> where a comparison fails, or 0.\<close>

definition first_failure :: "(nat \<Rightarrow> bool) \<Rightarrow> nat \<Rightarrow> nat \<Rightarrow> nat" where
  "first_failure ok i n = (case find (\<lambda>k. \<not> ok k) [i..<n] of None \<Rightarrow> 0 | Some k \<Rightarrow> k + 1)"

lemma first_failure_step: "i < n \<Longrightarrow> first_failure ok i n = (if ok i then first_failure ok (i + 1) n else i + 1)"
  by (simp add: first_failure_def upt_conv_Cons)

lemma first_failure_end [simp]: "first_failure ok n n = 0"
  by (simp add: first_failure_def)

lemma verify_fp_from_eq:
  "even i \<Longrightarrow> i \<le> n \<Longrightarrow> verify_fp_from eq i n t v = first_failure (\<lambda>k. eq (t ! k) (v ! k)) i n"
proof (induction "n - i" arbitrary: i rule: less_induct)
  case less
  show ?case
  proof (cases "i < n div 2 * 2")
    case True
    then have "i + 1 < n" using less.prems by presburger
    with True less show ?thesis
      by (subst verify_fp_from.simps)
         (auto simp: Let_def first_failure_step [of i] first_failure_step [of "Suc i"])
  next
    case False
    then have "i = n \<and> even n \<or> n = Suc i \<and> even i" using less.prems by presburger
    then consider "i = n" "even n" | "n = Suc i" "even i" by blast
    then show ?thesis
    proof cases
      case 1
      then show ?thesis by (subst verify_fp_from.simps) (simp add: even_iff_mod_2_eq_zero)
    next
      case 2
      then show ?thesis
        by (subst verify_fp_from.simps) (auto simp: first_failure_step [of i] mod2_eq_if)
    qed
  qed
qed

lemma verify_from_fp: "verify_from i n t v = verify_fp_from (=) i n t v"
proof (induction i n t v rule: verify_from.induct)
  case (1 i n t v)
  then show ?case
    by (subst verify_from.simps, subst verify_fp_from.simps) (simp add: Let_def)
qed

lemma find_None_all: "find (\<lambda>k. \<not> P k) [0..<n] = None \<longleftrightarrow> (\<forall>k<n. P k)"
  by (auto simp: find_None_iff)

text \<open>
  The result checks return 0 exactly when the first \<open>n\<close> elements agree, and otherwise one
  more than the index of the first pair that does not; the two-at-a-time unrolling and the odd
  last element make no difference, and for floating-point data neither does the comparison
  being irreflexive.
\<close>

theorem verify_reports_first_difference:
  "verify n t v = first_failure (\<lambda>k. t ! k = v ! k) 0 n
   \<and> verifyDouble eq n x y = first_failure (\<lambda>k. eq (x ! k) (y ! k)) 0 n
   \<and> verifyFloat eq n x y = verifyDouble eq n x y
   \<and> (verify n t v = 0) = list_all (\<lambda>k. t ! k = v ! k) [0..<n]"
proof -
  have v: "verify n t v = first_failure (\<lambda>k. t ! k = v ! k) 0 n"
    by (simp add: verify_def verify_from_fp verify_fp_from_eq)
  moreover have "(verify n t v = 0) = list_all (\<lambda>k. t ! k = v ! k) [0..<n]"
    unfolding v using find_None_all [of "\<lambda>k. t ! k = v ! k" n]
    by (auto simp: first_failure_def list_all_iff split: option.splits)
  ultimately show ?thesis by (simp add: verifyDouble_def verifyFloat_def verify_fp_from_eq)
qed

subsection \<open>lfsr and insn\_len\<close>

definition lfsr :: "64 word \<Rightarrow> 64 word" where
  "lfsr x = (let b = (x XOR drop_bit 1 x) AND 1 in drop_bit 1 x OR push_bit 62 b)"

definition insn_len :: "16 word \<Rightarrow> nat" where
  "insn_len half = (if half AND 3 \<noteq> 0 then 4 else 2)"

text \<open>The inverse of one step, for a register whose top bit is clear.\<close>

definition lfsr_back :: "64 word \<Rightarrow> 64 word" where
  "lfsr_back y = (let b0 = (bit y 62 \<noteq> bit y 0) in push_bit 1 (take_bit 62 y) OR of_bool b0)"

lemma lfsr_new_bit: "(x XOR drop_bit 1 x) AND 1 = (of_bool (bit x 0 \<noteq> bit x 1) :: 64 word)"
  by (rule word_eq_by_bits) (auto simp: bit_simps bit_1_iff)

lemma bit_push_top: "bit (push_bit 62 (of_bool c :: 64 word)) n \<longleftrightarrow> n = 62 \<and> c"
  unfolding bit_push_bit_iff bit_of_bool_iff by auto

lemma bit_lfsr: "bit (lfsr x) n \<longleftrightarrow> bit x (n + 1) \<or> n = 62 \<and> (bit x 0 \<noteq> bit x 1)"
  unfolding lfsr_def Let_def lfsr_new_bit bit_or_iff bit_push_top by (simp add: bit_simps)

lemma bit_lfsr_back:
  "bit (lfsr_back y) n \<longleftrightarrow> (if n = 0 then bit y 62 \<noteq> bit y 0 else n < 63 \<and> bit y (n - 1))"
proof -
  have "bit (push_bit 1 (take_bit 62 y)) n \<longleftrightarrow> 0 < n \<and> n < 63 \<and> bit y (n - 1)"
    unfolding bit_push_bit_iff bit_take_bit_iff by (cases n) auto
  then show ?thesis
    unfolding lfsr_back_def Let_def bit_or_iff bit_of_bool_iff by auto
qed

text \<open>
  On the 63-bit registers it is used with, the pseudo-random step loses no information: it
  keeps bit 63 clear and can be undone, so it permutes the \<open>2 ^ 63\<close> register values, with 0 on a
  cycle of its own.
\<close>

theorem lfsr_permutes_63_bits:
  assumes "\<not> bit x 63"
  shows "\<not> bit (lfsr x) 63 \<and> lfsr_back (lfsr x) = x \<and> lfsr 0 = 0"
proof -
  have "lfsr_back (lfsr x) = x"
  proof (rule word_eq_by_bits)
    fix n :: nat assume "n < LENGTH(64)"
    then have "n = 63 \<or> n < 63" by auto
    then show "bit (lfsr_back (lfsr x)) n \<longleftrightarrow> bit x n"
      using assms by (cases n) (auto simp: bit_lfsr_back bit_lfsr)
  qed
  moreover have "\<not> bit (lfsr x) 63" by (auto simp: bit_lfsr dest: bit_imp_le_length)
  ultimately show ?thesis by (simp add: lfsr_def)
qed

theorem lfsr_permutes_63_bits_witness: "lfsr_back (lfsr 5) = 5"
  using lfsr_permutes_63_bits [of 5] by (simp add: bit_numeral_word_iff)

end
