(* ===== verification/Bench_Parallel.thy ===== *)
theory Bench_Parallel
  imports Bench_Kernels C_Memory
begin

text \<open>
  The sparse matrix-vector product \<^verbatim>\<open>spmv\<close> and the multi-threaded \<^verbatim>\<open>mt-matmul\<close> and \<^verbatim>\<open>mt-memcpy\<close>
  of \<^verbatim>\<open>riscv-tests/benchmarks\<close>. The threads of a program run in any order; the element type of
  the floating-point kernels is a parameter.
\<close>

subsection \<open>spmv\<close>

text \<open>The four-way unrolled loop of one row; \<^verbatim>\<open>k < ptr[i+1]-3\<close> is signed.\<close>

function spmv_unrolled ::
  "'a::{plus,times} list \<Rightarrow> nat list \<Rightarrow> 'a list \<Rightarrow> nat \<Rightarrow> nat \<Rightarrow> 'a \<times> 'a \<times> 'a \<times> 'a \<Rightarrow> nat \<times> 'a \<times> 'a \<times> 'a \<times> 'a" where
  "spmv_unrolled val idx x k e (y0, y1, y2, y3) =
     (if int k < int e - 3
      then spmv_unrolled val idx x (k + 4) e
             (y0 + val ! k * x ! (idx ! k), y1 + val ! (k + 1) * x ! (idx ! (k + 1)),
              y2 + val ! (k + 2) * x ! (idx ! (k + 2)), y3 + val ! (k + 3) * x ! (idx ! (k + 3)))
      else (k, y0, y1, y2, y3))"
  by pat_completeness auto
termination by (relation "measure (\<lambda>(_, _, _, k, e, _). e - k)") auto

declare spmv_unrolled.simps [simp del]

definition spmv_row :: "'a::{plus,times,zero} list \<Rightarrow> nat list \<Rightarrow> 'a list \<Rightarrow> nat \<Rightarrow> nat \<Rightarrow> 'a" where
  "spmv_row val idx x b e =
     (let (k, y0, y1, y2, y3) = spmv_unrolled val idx x b e (0, 0, 0, 0);
          y0' = c_for k e 1 (\<lambda>k y. y + val ! k * x ! (idx ! k)) y0
      in (y0' + y1) + (y2 + y3))"

definition spmv :: "nat \<Rightarrow> 'a::{plus,times,zero} list \<Rightarrow> nat list \<Rightarrow> 'a list \<Rightarrow> nat list \<Rightarrow> 'a list \<Rightarrow> 'a list" where
  "spmv r val idx x ptr y = c_for 0 r 1 (\<lambda>i y. y[i := spmv_row val idx x (ptr ! i) (ptr ! (i + 1))]) y"

definition spmv_main ::
  "('a::{plus,times,zero} \<Rightarrow> 'a \<Rightarrow> bool) \<Rightarrow> nat \<Rightarrow> 'a list \<Rightarrow> nat list \<Rightarrow> 'a list \<Rightarrow> nat list \<Rightarrow> 'a list \<Rightarrow> 'a list \<Rightarrow> nat" where
  "spmv_main eq r val idx x ptr ver y = verifyDouble eq r (spmv r val idx x ptr y) ver"

lemma spmv_unrolled_sum:
  fixes val x :: "'a::comm_semiring_0 list"
  shows "k \<le> e \<Longrightarrow> (case spmv_unrolled val idx x k e (y0, y1, y2, y3) of (k', z0, z1, z2, z3) \<Rightarrow>
     k \<le> k' \<and> k' \<le> e \<and> (z0 + z1) + (z2 + z3) = (y0 + y1) + (y2 + y3) + (\<Sum>k\<leftarrow>[k..<k']. val ! k * x ! (idx ! k)))"
proof (induction "e - k" arbitrary: k y0 y1 y2 y3 rule: less_induct)
  case less
  show ?case
  proof (cases "int k < int e - 3")
    case True
    let ?g = "\<lambda>k. val ! k * x ! (idx ! k)"
    have k4: "k + 4 \<le> e" "e - (k + 4) < e - k" using True by linarith+
    have "[k..<m] = k # (k + 1) # (k + 2) # (k + 3) # [k + 4..<m]" if "k + 4 \<le> m" for m
      using that by (simp add: upt_conv_Cons eval_nat_numeral)
    with less.hyps [OF k4(2,1), of "y0 + ?g k" "y1 + ?g (k + 1)" "y2 + ?g (k + 2)" "y3 + ?g (k + 3)"] True
    show ?thesis
      by (subst spmv_unrolled.simps) (auto simp: ac_simps split: prod.splits)
  next
    case False
    with less.prems show ?thesis by (subst spmv_unrolled.simps) simp
  qed
qed

text \<open>
  \<^verbatim>\<open>spmv\<close> computes the product of a matrix in compressed-row form with a vector: over any
  commutative semiring every \<^verbatim>\<open>y[i]\<close> is the sum of \<^verbatim>\<open>val[k] * x[idx[k]]\<close> over the row's entries,
  for rows of every length, so the unrolling into four accumulators and the remainder loop
  neither skip nor repeat an entry.
\<close>

theorem spmv_row_sums:
  fixes val x y :: "'a::comm_semiring_0 list"
  assumes "length y = r" "i < r" "ptr ! i \<le> ptr ! (i + 1)"
  shows "spmv r val idx x ptr y ! i = (\<Sum>k\<leftarrow>[ptr ! i..<ptr ! (i + 1)]. val ! k * x ! (idx ! k))"
proof -
  let ?b = "ptr ! i" and ?e = "ptr ! (i + 1)" and ?g = "\<lambda>k. val ! k * x ! (idx ! k)"
  obtain k z0 z1 z2 z3 where u: "spmv_unrolled val idx x ?b ?e (0, 0, 0, 0) = (k, z0, z1, z2, z3)"
    using prod_cases5 by blast
  have k: "?b \<le> k" "k \<le> ?e" "(z0 + z1) + (z2 + z3) = (\<Sum>k\<leftarrow>[?b..<k]. ?g k)"
    using spmv_unrolled_sum [OF assms(3), where val = val and idx = idx and x = x
        and ?y0.0 = 0 and ?y1.0 = 0 and ?y2.0 = 0 and ?y3.0 = 0] unfolding u by simp_all
  have "[?b..<?e] = [?b..<k] @ [k..<?e]" using k(1,2) upt_add_eq_append [of ?b k "?e - k"] by simp
  then have "spmv_row val idx x ?b ?e = (\<Sum>k\<leftarrow>[?b..<?e]. ?g k)"
    unfolding spmv_row_def u by (simp add: c_for_1 fold_plus k(3) [symmetric] ac_simps)
  moreover have "spmv r val idx x ptr y ! i = spmv_row val idx x ?b ?e"
    using fold_assign_at [of "[0..<r]" y "\<lambda>i _. spmv_row val idx x (ptr ! i) (ptr ! (i + 1))"
        "\<lambda>i. spmv_row val idx x (ptr ! i) (ptr ! (i + 1))"] assms
    by (simp add: spmv_def c_for_1)
  ultimately show ?thesis by simp
qed

theorem spmv_row_sums_witness:
  "spmv 1 [2, 3, 4, 5, 6 :: int] [0, 1, 2, 3, 4] [1, 10, 100, 1000, 10000] [0, 5] [0] ! 0 = 65432"
  using spmv_row_sums [of "[0 :: int]" 1 0 "[0, 5]" "[2, 3, 4, 5, 6]" "[0, 1, 2, 3, 4]" "[1, 10, 100, 1000, 10000]"]
  by (simp add: upt_rec eval_nat_numeral)

subsection \<open>mt-matmul\<close>

definition matmul_dot :: "nat \<Rightarrow> 'a::{plus,times,zero} list \<Rightarrow> 'a list \<Rightarrow> nat \<Rightarrow> nat \<Rightarrow> 'a" where
  "matmul_dot lda A B j i = c_for 0 lda 1 (\<lambda>k sum. sum + A ! (j * lda + k) * B ! (k * lda + i)) 0"

definition matmul_mt :: "nat \<Rightarrow> nat \<Rightarrow> nat \<Rightarrow> 'a::{plus,times,zero} list \<Rightarrow> 'a list \<Rightarrow> 'a list \<Rightarrow> 'a list" where
  "matmul_mt coreid ncores lda A B C =
     (let block = lda div ncores;
          start = block * coreid
      in c_for 0 lda 1 (\<lambda>i. c_for start (start + block) 1 (\<lambda>j C.
           C[i + j * lda := matmul_dot lda A B j i])) C)"

definition matmul_threads :: "nat list \<Rightarrow> nat \<Rightarrow> nat \<Rightarrow> 'a::{plus,times,zero} list \<Rightarrow> 'a list \<Rightarrow> 'a list \<Rightarrow> 'a list" where
  "matmul_threads cids ncores lda A B C = fold (\<lambda>cid. matmul_mt cid ncores lda A B) cids C"

lemma fold_assign_value:
  "length (fold (\<lambda>i zs. zs[i := g i]) is xs) = length xs
    \<and> (\<forall>j < length xs. fold (\<lambda>i zs. zs[i := g i]) is xs ! j = (if j \<in> set is then g j else xs ! j))"
  by (induction "is" arbitrary: xs) (auto simp: nth_list_update)

lemma fold_concat_map: "fold (\<lambda>x. fold f (h x)) xs s = fold f (concat (map h xs)) s"
  by (induction xs arbitrary: s) simp_all

lemma matmul_mt_assign:
  "matmul_mt cid nc lda A B = fold (\<lambda>p C. C[p := matmul_dot lda A B (p div lda) (p mod lda)])
     (concat (map (\<lambda>i. map (\<lambda>j. i + j * lda) [(lda div nc) * cid..<(lda div nc) * cid + lda div nc]) [0..<lda]))"
proof -
  let ?h = "\<lambda>i. map (\<lambda>j. i + j * lda) [(lda div nc) * cid..<(lda div nc) * cid + lda div nc]"
  let ?f = "\<lambda>p C. C[p := matmul_dot lda A B (p div lda) (p mod lda)]"
  have "fold (\<lambda>j C. C[i + j * lda := matmul_dot lda A B j i]) js = fold ?f (map (\<lambda>j. i + j * lda) js)"
    if "i < lda" for i js
    using that by (induction js) (simp_all add: fun_eq_iff)
  then have "fold (\<lambda>i. fold (\<lambda>j C. C[i + j * lda := matmul_dot lda A B j i])
      [(lda div nc) * cid..<(lda div nc) * cid + lda div nc]) [0..<lda] C = fold (\<lambda>i. fold ?f (?h i)) [0..<lda] C" for C
    by (intro fold_cong refl) simp
  then show ?thesis
    by (intro ext) (simp add: matmul_mt_def Let_def c_for_1 fold_concat_map del: fold_map)
qed

text \<open>
  The multi-threaded matrix product is complete exactly on the rows the threads divide
  among them: after all threads have run, in any order, every row below
  \<^verbatim>\<open>(lda / ncores) * ncores\<close> holds the product, and any row left over when the number of threads
  does not divide the size is unchanged.
\<close>

theorem matmul_threads_product:
  assumes "length C = lda * lda" "0 < nc" "set cids = {..<nc}" "i < lda" "j < lda"
  shows "matmul_threads cids nc lda A B C ! (i + j * lda) =
    (if j < lda div nc * nc then matmul_dot lda A B j i else C ! (i + j * lda))"
proof -
  let ?b = "lda div nc"
  let ?idx = "\<lambda>cid. concat (map (\<lambda>i. map (\<lambda>j. i + j * lda) [?b * cid..<?b * cid + ?b]) [0..<lda])"
  have t: "matmul_threads cids nc lda A B C =
      fold (\<lambda>p C. C[p := matmul_dot lda A B (p div lda) (p mod lda)]) (concat (map ?idx cids)) C"
    by (simp only: matmul_threads_def matmul_mt_assign fold_concat_map)
  have in_row: "j \<in> {?b * c..<?b * c + ?b} \<longleftrightarrow> ?b \<noteq> 0 \<and> j div ?b = c" for c
  proof (cases "?b = 0")
    case False
    show ?thesis
    proof
      assume "j \<in> {?b * c..<?b * c + ?b}"
      then obtain r where "j = ?b * c + r" "r < ?b" using le_Suc_ex [of "?b * c" j] by auto
      with False show "?b \<noteq> 0 \<and> j div ?b = c" by simp
    next
      assume "?b \<noteq> 0 \<and> j div ?b = c"
      then have "j = ?b * c + j mod ?b" "j mod ?b < ?b" using mult_div_mod_eq [of ?b j] by auto
      then show "j \<in> {?b * c..<?b * c + ?b}" by (metis atLeastLessThan_iff le_add1 nat_add_left_cancel_less)
    qed
  qed simp
  have "i + j * lda \<in> set (concat (map ?idx cids)) \<longleftrightarrow> (\<exists>c<nc. j \<in> {?b * c..<?b * c + ?b})"
  proof
    assume "i + j * lda \<in> set (concat (map ?idx cids))"
    then obtain c i' j' where c: "c < nc" "i' < lda" "j' \<in> {?b * c..<?b * c + ?b}" "i + j * lda = i' + j' * lda"
      using assms(3) by auto
    then have "(i + j * lda) div lda = (i' + j' * lda) div lda" by simp
    then have "j = j'" using c(2) assms(4) by simp
    with c show "\<exists>c<nc. j \<in> {?b * c..<?b * c + ?b}" by blast
  next
    assume "\<exists>c<nc. j \<in> {?b * c..<?b * c + ?b}"
    then obtain c where c: "c < nc" "j \<in> {?b * c..<?b * c + ?b}" by blast
    then have "i + j * lda \<in> set (?idx c)" using assms(4) by (auto intro!: bexI [of _ i])
    with c(1) assms(3) show "i + j * lda \<in> set (concat (map ?idx cids))" by auto
  qed
  also have "\<dots> \<longleftrightarrow> j < ?b * nc"
    unfolding in_row using assms(2) by (cases "?b = 0") (auto simp: div_less_iff_less_mult mult.commute [of nc])
  finally have m: "i + j * lda \<in> set (concat (map ?idx cids)) \<longleftrightarrow> j < ?b * nc" .
  have "i + j * lda < length C"
  proof -
    have "i + j * lda < Suc j * lda" using assms(4) by simp
    also have "\<dots> \<le> lda * lda" using assms(5) by (intro mult_le_mono1) simp
    finally show ?thesis using assms(1) by simp
  qed
  then show ?thesis
    using fold_assign_value [of "\<lambda>p. matmul_dot lda A B (p div lda) (p mod lda)" "concat (map ?idx cids)" C] m assms(4)
    unfolding t by simp
qed

theorem matmul_threads_product_witness:
  "matmul_threads [1, 0] 2 2 [1, 2, 3, 4] [5, 6, 7, 8 :: int] [0, 0, 0, 0] ! 2 = 43"
proof -
  have "set [1, 0] = {..<2 :: nat}" by auto
  from matmul_threads_product [of "[0, 0, 0, 0 :: int]" 2 2, OF _ _ this, of 0 1 "[1, 2, 3, 4]" "[5, 6, 7, 8]"]
  have "matmul_threads [1, 0] 2 2 [1, 2, 3, 4] [5, 6, 7, 8 :: int] [0, 0, 0, 0] ! 2
      = matmul_dot 2 [1, 2, 3, 4] [5, 6, 7, 8] 1 0" by (simp add: numeral_2_eq_2)
  also have "\<dots> = 43" by (simp add: matmul_dot_def c_for_1 upt_rec)
  finally show ?thesis .
qed

subsection \<open>mt-memcpy\<close>

text \<open>
  One thread copies its share of an array of \<open>D\<close> 64-bit elements from address \<open>src\<close> to \<open>dst\<close>. The
  element count of the last thread is computed in \<^verbatim>\<open>size_t\<close>.
\<close>

definition memcpy_mt_block :: "nat \<Rightarrow> nat \<Rightarrow> nat" where
  "memcpy_mt_block nc D = D div nc + 1"

definition memcpy_mt_count :: "nat \<Rightarrow> nat \<Rightarrow> nat \<Rightarrow> nat" where
  "memcpy_mt_count cid nc D =
     (if nc = cid + 1 then unat (word_of_nat D - word_of_nat (cid * memcpy_mt_block nc D) :: 64 word)
      else memcpy_mt_block nc D)"

definition memcpy_mt :: "nat \<Rightarrow> nat \<Rightarrow> nat \<Rightarrow> nat \<Rightarrow> nat \<Rightarrow> mem \<Rightarrow> mem" where
  "memcpy_mt cid nc D dst src m =
     (let o8 = 8 * (memcpy_mt_block nc D * cid)
      in snd (memcpy_sys (dst + o8) (src + o8) (8 * memcpy_mt_count cid nc D) m))"

definition memcpy_threads :: "nat list \<Rightarrow> nat \<Rightarrow> nat \<Rightarrow> nat \<Rightarrow> nat \<Rightarrow> mem \<Rightarrow> mem" where
  "memcpy_threads cids nc D dst src m = fold (\<lambda>cid. memcpy_mt cid nc D dst src) cids m"

lemma memcpy_mt_count_last:
  assumes "D < 2 ^ 64" "cid * memcpy_mt_block nc D \<le> D" "nc = cid + 1"
  shows "memcpy_mt_count cid nc D = D - cid * memcpy_mt_block nc D"
proof -
  have "(word_of_nat D - word_of_nat (cid * memcpy_mt_block nc D) :: 64 word)
      = word_of_nat (D - cid * memcpy_mt_block nc D)"
    using assms(2) by (simp only: of_nat_diff)
  then show ?thesis
    using assms by (simp add: memcpy_mt_count_def unat_of_nat take_bit_nat_eq_self del: of_nat_diff of_nat_mult)
qed

text \<open>The element range of a thread; together the ranges are the whole array.\<close>

definition memcpy_mt_share :: "nat \<Rightarrow> nat \<Rightarrow> nat \<Rightarrow> nat set" where
  "memcpy_mt_share nc D cid =
     {memcpy_mt_block nc D * cid..<memcpy_mt_block nc D * cid + memcpy_mt_count cid nc D}"

lemma memcpy_mt_share_end:
  assumes "D < 2 ^ 64" "(nc - 1) * memcpy_mt_block nc D \<le> D" "cid < nc"
  shows "memcpy_mt_block nc D * cid + memcpy_mt_count cid nc D \<le> D"
proof (cases "nc = cid + 1")
  case True
  with assms show ?thesis by (subst memcpy_mt_count_last) (simp_all add: mult.commute)
next
  case False
  then have "Suc cid \<le> nc - 1" using assms(3) by simp
  then have "Suc cid * memcpy_mt_block nc D \<le> (nc - 1) * memcpy_mt_block nc D" by (rule mult_le_mono1)
  with False assms(2) show ?thesis by (simp add: memcpy_mt_count_def mult.commute)
qed

lemma memcpy_mt_share_cover:
  assumes "D < 2 ^ 64" "(nc - 1) * memcpy_mt_block nc D \<le> D" "0 < nc" "e < D"
  shows "\<exists>cid<nc. e \<in> memcpy_mt_share nc D cid"
proof -
  let ?b = "memcpy_mt_block nc D"
  have b: "0 < ?b" by (simp add: memcpy_mt_block_def)
  show ?thesis
  proof (cases "e < (nc - 1) * ?b")
    case True
    then have c: "e div ?b < nc - 1" using b by (simp add: less_mult_imp_div_less)
    have e: "e = ?b * (e div ?b) + e mod ?b" "e mod ?b < ?b" using b by simp_all
    have "memcpy_mt_share nc D (e div ?b) = {?b * (e div ?b)..<?b * (e div ?b) + ?b}"
      using c by (simp add: memcpy_mt_share_def memcpy_mt_count_def)
    moreover have "e \<in> {?b * (e div ?b)..<?b * (e div ?b) + ?b}"
      using e by (metis atLeastLessThan_iff le_add1 nat_add_left_cancel_less)
    ultimately show ?thesis using c by (intro exI [of _ "e div ?b"]) simp
  next
    case False
    have "memcpy_mt_count (nc - 1) nc D = D - (nc - 1) * ?b"
      using assms by (intro memcpy_mt_count_last) auto
    with False assms show ?thesis
      by (intro exI [of _ "nc - 1"]) (auto simp: memcpy_mt_share_def mult.commute)
  qed
qed

lemma memcpy_mt_blk:
  assumes "disjoint_blocks dst src (8 * D)" "D < 2 ^ 64" "(nc - 1) * memcpy_mt_block nc D \<le> D" "cid < nc"
  shows "memcpy_mt cid nc D dst src m x =
    (if dst \<le> x \<and> (x - dst) div 8 \<in> memcpy_mt_share nc D cid then m (src + (x - dst)) else m x)"
proof -
  let ?o = "memcpy_mt_block nc D * cid" and ?n = "memcpy_mt_count cid nc D"
  have e: "?o + ?n \<le> D" using memcpy_mt_share_end [OF assms(2,3,4)] .
  then have "disjoint_blocks (dst + 8 * ?o) (src + 8 * ?o) (8 * ?n)"
    using assms(1) by (auto simp: disjoint_blocks_def)
  then have "memcpy_mt cid nc D dst src m = blk_copy (dst + 8 * ?o) (src + 8 * ?o) (8 * ?n) m"
    using memcpy_blk by (simp add: memcpy_mt_def Let_def)
  moreover have "dst + 8 * ?o \<le> x \<and> x < dst + 8 * ?o + 8 * ?n \<longleftrightarrow>
      dst \<le> x \<and> (x - dst) div 8 \<in> memcpy_mt_share nc D cid"
    unfolding memcpy_mt_share_def by auto
  moreover have "dst + 8 * ?o \<le> x \<Longrightarrow> src + 8 * ?o + (x - (dst + 8 * ?o)) = src + (x - dst)" by simp
  ultimately show ?thesis unfolding blk_copy_def by auto
qed

text \<open>
  The multi-threaded copy is exact when the shares of all but the last thread fit in the
  array, that is when \<^verbatim>\<open>(nc - 1) * (D / nc + 1) <= D\<close>: after all threads have run, in any order,
  the destination holds the \<open>D\<close> elements of the source and no other byte has changed.
\<close>

theorem memcpy_threads_copy:
  assumes "dst + 8 * D \<le> src \<or> src + 8 * D \<le> dst" "D < 2 ^ 64" "(nc - 1) * (D div nc + 1) \<le> D"
    and "set cids = {..<nc}" "0 < nc"
  shows "memcpy_threads cids nc D dst src m x =
    (if dst \<le> x \<and> x < dst + 8 * D then m (src + (x - dst)) else m x)"
proof -
  have dj: "disjoint_blocks dst src (8 * D)" using assms(1) by (auto simp: disjoint_blocks_def)
  have f: "(nc - 1) * memcpy_mt_block nc D \<le> D" using assms(3) by (simp add: memcpy_mt_block_def)
  have share: "e \<in> memcpy_mt_share nc D c \<Longrightarrow> c < nc \<Longrightarrow> e < D" for e c
    using memcpy_mt_share_end [OF assms(2) f, of c] by (auto simp: memcpy_mt_share_def)
  have "set cs \<subseteq> {..<nc} \<Longrightarrow> memcpy_threads cs nc D dst src m x =
      (if dst \<le> x \<and> (\<exists>c \<in> set cs. (x - dst) div 8 \<in> memcpy_mt_share nc D c) then m (src + (x - dst)) else m x)" for cs x
  proof (induction cs arbitrary: x rule: rev_induct)
    case (snoc c cs)
    then have c: "c < nc" and ih: "\<And>x. memcpy_threads cs nc D dst src m x =
      (if dst \<le> x \<and> (\<exists>c \<in> set cs. (x - dst) div 8 \<in> memcpy_mt_share nc D c) then m (src + (x - dst)) else m x)"
      by simp_all
    let ?m = "memcpy_threads cs nc D dst src m"
    have step: "memcpy_threads (cs @ [c]) nc D dst src m x =
      (if dst \<le> x \<and> (x - dst) div 8 \<in> memcpy_mt_share nc D c then ?m (src + (x - dst)) else ?m x)"
      using memcpy_mt_blk [OF dj assms(2) f c, of ?m x] by (simp add: memcpy_threads_def)
    have "?m (src + (x - dst)) = m (src + (x - dst))" if "dst \<le> x" "(x - dst) div 8 \<in> memcpy_mt_share nc D c"
    proof -
      have "(x - dst) div 8 < D" using share [OF that(2) c] .
      then have "x - dst < 8 * D" by linarith
      then have "\<not> (dst \<le> src + (x - dst) \<and> src + (x - dst) - dst < 8 * D)"
        using assms(1) by auto
      moreover have "dst \<le> y \<Longrightarrow> \<exists>c \<in> set cs. (y - dst) div 8 \<in> memcpy_mt_share nc D c \<Longrightarrow> y - dst < 8 * D" for y
        using share snoc.prems by (fastforce dest!: share)
      ultimately show ?thesis unfolding ih by auto
    qed
    with step show ?case by (auto simp: ih)
  qed (simp add: memcpy_threads_def)
  from this [of cids x] have m: "memcpy_threads cids nc D dst src m x =
      (if dst \<le> x \<and> (\<exists>c<nc. (x - dst) div 8 \<in> memcpy_mt_share nc D c) then m (src + (x - dst)) else m x)"
    using assms(4) by auto
  have "(\<exists>c<nc. (x - dst) div 8 \<in> memcpy_mt_share nc D c) \<longleftrightarrow> (x - dst) div 8 < D"
    using share memcpy_mt_share_cover [OF assms(2) f assms(5)] by blast
  with m show ?thesis by auto
qed

theorem memcpy_threads_copy_witness:
  "memcpy_threads [1, 0] 2 6000 100000 0 (\<lambda>a. if a = 47999 then 9 else 0) 147999 = 9"
proof -
  have "set [1, 0] = {..<2 :: nat}" by auto
  from memcpy_threads_copy [of 100000 6000 0 2, OF _ _ _ this] show ?thesis by simp
qed

end
