(* ===== verification/Sim_Output.thy ===== *)
theory Sim_Output
  imports C_Printf
begin

text \<open>
  The text the simulator writes: the stream formatting its files share (\<^verbatim>\<open>std::hex\<close>, \<^verbatim>\<open>std::dec\<close>,
  \<^verbatim>\<open>std::setw\<close>, \<^verbatim>\<open>std::setfill\<close>) and the commit log (\<^verbatim>\<open>simulator/commit_log.cpp\<close>). An open output
  file is the text written to it so far.
\<close>

subsection \<open>Numbers on a stream\<close>

definition newline :: string where "newline = [CHR 0x0A]"
definition tab_char :: string where "tab_char = [CHR 0x09]"

definition digit_str :: "nat \<Rightarrow> char" where
  "digit_str d = ''0123456789abcdef'' ! d"

definition hex_str :: "nat \<Rightarrow> string" where
  "hex_str n = rev (map digit_str (digs n 16))"

definition dec_str :: "int \<Rightarrow> string" where
  "dec_str i = (if i < 0 then ''-'' else '''') @ rev (map digit_str (digs (nat \<bar>i\<bar>) 10))"

text \<open>\<^verbatim>\<open>setfill('0') << setw(8)\<close> before a hexadecimal number of 32 bits.\<close>

definition setw :: "nat \<Rightarrow> char \<Rightarrow> string \<Rightarrow> string" where
  "setw n c s = replicate (n - length s) c @ s"

definition hex8 :: "32 word \<Rightarrow> string" where
  "hex8 w = setw 8 (CHR ''0'') (hex_str (unat w))"

subsection \<open>Reading them back\<close>

definition digit_of :: "char \<Rightarrow> nat" where
  "digit_of c = (case find (\<lambda>d. digit_str d = c) [0..<16] of Some d \<Rightarrow> d | None \<Rightarrow> 0)"

definition read_hex :: "string \<Rightarrow> nat" where
  "read_hex s = foldl (\<lambda>v c. v * 16 + digit_of c) 0 s"

lemma digit_of_str: "d < 16 \<Longrightarrow> digit_of (digit_str d) = d"
proof -
  have "\<forall>d < 16. digit_of (digit_str d) = d" by code_simp
  then show "d < 16 \<Longrightarrow> ?thesis" by blast
qed

lemma digs_length_base: "2 \<le> base \<Longrightarrow> n < base ^ k \<Longrightarrow> 0 < k \<Longrightarrow> length (digs n base) \<le> k"
proof (induction k arbitrary: n)
  case (Suc k)
  show ?case
  proof (cases "n < base")
    case True
    with Suc.prems show ?thesis by (subst digs.simps) simp
  next
    case False
    with Suc.prems have k: "0 < k" by (cases k) auto
    have "n div base < base ^ k"
      using Suc.prems by (simp add: less_mult_imp_div_less mult.commute)
    with Suc.IH [of "n div base"] Suc.prems k False show ?thesis
      by (subst digs.simps) simp
  qed
qed simp

lemma hex_str_length: "length (hex_str (unat (w :: 32 word))) \<le> 8"
proof -
  have "unat w < 16 ^ 8" using unsigned_less [where 'a = nat and w = w] by simp
  then show ?thesis by (simp add: hex_str_def digs_length_base)
qed

lemma length_hex8 [simp]: "length (hex8 w) = 8"
  using hex_str_length [of w] by (simp add: hex8_def setw_def)

lemma read_hex_digits:
  "\<forall>d \<in> set ds. d < 16 \<Longrightarrow> foldl (\<lambda>v c. v * 16 + digit_of c) v (rev (map digit_str ds))
     = v * 16 ^ length ds + num_of 16 ds"
  by (induction ds) (simp_all add: num_of_def digit_of_str algebra_simps)

lemma read_hex_zeros: "read_hex (replicate n (CHR ''0'') @ s) = read_hex s"
proof -
  have "digit_of (CHR ''0'') = 0" using digit_of_str [of 0] by (simp add: digit_str_def)
  then show ?thesis by (induction n) (simp_all add: read_hex_def)
qed

lemma read_hex8: "read_hex (hex8 w) = unat w"
  using digs_value [of 16 "unat w"] read_hex_digits [of "digs (unat w) 16" 0]
  by (simp add: hex8_def setw_def read_hex_zeros hex_str_def) (simp add: read_hex_def)

lemma hex8_inject [simp]: "hex8 v = hex8 w \<longleftrightarrow> v = w"
  using read_hex8 [of v] read_hex8 [of w] by (metis word_unat_eq_iff)

subsection \<open>The commit log\<close>

text \<open>The file is opened empty; \<^verbatim>\<open>print_commit\<close> appends one record.\<close>

definition init_commit :: string where "init_commit = []"

definition print_commit :: "c_int \<Rightarrow> c_int \<Rightarrow> c_int \<Rightarrow> string \<Rightarrow> string" where
  "print_commit pc instr result commit_file = commit_file
     @ ''PC: 0x'' @ hex8 pc
     @ '' : 0x'' @ hex8 instr @ newline
     @ tab_char @ ''result: 0x'' @ hex8 result @ newline"

definition commit_log :: "(c_int \<times> c_int \<times> c_int) list \<Rightarrow> string" where
  "commit_log cs = fold (\<lambda>(pc, instr, result). print_commit pc instr result) cs init_commit"

definition commit_record :: "c_int \<times> c_int \<times> c_int \<Rightarrow> string" where
  "commit_record = (\<lambda>(pc, instr, result). print_commit pc instr result [])"

lemma commit_log_records: "commit_log cs = concat (map commit_record cs)"
proof -
  have "fold (\<lambda>(pc, instr, result). print_commit pc instr result) cs f = f @ concat (map commit_record cs)" for f
    by (induction cs arbitrary: f) (auto simp: commit_record_def print_commit_def)
  then show ?thesis by (simp add: commit_log_def init_commit_def)
qed

lemma commit_record_length: "length (commit_record c) = 48"
  by (cases c) (simp add: commit_record_def print_commit_def newline_def tab_char_def)

lemma commit_record_inject: "commit_record c = commit_record d \<longleftrightarrow> c = d"
  by (cases c; cases d) (auto simp: commit_record_def print_commit_def)

lemma fixed_records_inject:
  assumes "\<And>c. length (r c) = n" "0 < n" "\<And>c d. r c = r d \<longleftrightarrow> c = d"
  shows "concat (map r cs) = concat (map r ds) \<longleftrightarrow> cs = ds"
proof (induction cs arbitrary: ds)
  case Nil
  then show ?case using assms(1,2) by (cases ds) (auto simp: length_greater_0_conv [symmetric] simp del: length_greater_0_conv)
next
  case (Cons c cs)
  then show ?case using assms by (cases ds) (auto simp: length_greater_0_conv [symmetric] simp del: length_greater_0_conv)
qed

text \<open>
  C35. The commit log is lossless: from the text of the file every committed program counter,
  instruction word and result can be recovered, in order. Two runs have the same log file exactly
  when they committed the same sequence, so that comparing log files compares executions.
\<close>

theorem commit_log_lossless: "commit_log cs = commit_log ds \<longleftrightarrow> cs = ds"
  unfolding commit_log_records
  by (rule fixed_records_inject [where n = 48]) (simp_all add: commit_record_length commit_record_inject)

end
