(* ===== verification/Sim_Memory.thy ===== *)
theory Sim_Memory
  imports Sim_Output
begin

text \<open>
  The memory of the simulator (\<^verbatim>\<open>simulator/unified_mem.cpp\<close>): one word array behind the instruction
  and the data port, filled by the ELF loader and written to a text file at the end. The state
  also holds what the functions print (\<open>cout\<close>, \<open>cerr\<close>).
\<close>

definition mem_words :: nat where "mem_words = 1024 * 1024 * 256"
definition dump_words :: nat where "dump_words = 1024 * 256"

record sim_mem =
  words :: "nat \<Rightarrow> 32 word"
  initialized :: bool
  cout :: string
  cerr :: string

text \<open>A static array and flag start as zero.\<close>

definition sim_mem_start :: sim_mem where
  "sim_mem_start = \<lparr> words = (\<lambda>_. 0), initialized = False, cout = [], cerr = [] \<rparr>"

definition mem_init :: "sim_mem \<Rightarrow> sim_mem" where
  "mem_init m = (if initialized m then m else m\<lparr> words := \<lambda>_. 0, initialized := True \<rparr>)"

text \<open>\<^verbatim>\<open>int index = (addr >> 2)\<close>, an arithmetic shift.\<close>

definition mem_index :: "c_int \<Rightarrow> int" where
  "mem_index addr = sint addr div 4"

definition index_ok :: "int \<Rightarrow> bool" where
  "index_ok i \<longleftrightarrow> 0 \<le> i \<and> i < int mem_words"

definition out_of_bounds_msg :: "string \<Rightarrow> c_int \<Rightarrow> string" where
  "out_of_bounds_msg f addr =
     ''[DPI] Error: '' @ f @ '' address out of bounds: 0x'' @ hex_str (unat addr) @ newline"

definition read_mem :: "c_int \<Rightarrow> sim_mem \<Rightarrow> 32 word \<times> sim_mem" where
  "read_mem addr m =
     (let m = mem_init m; index = mem_index addr
      in if index_ok index then (words m (nat index), m)
         else (0, m\<lparr> cerr := cerr m @ out_of_bounds_msg ''read_mem'' addr \<rparr>))"

definition write_mem :: "c_int \<Rightarrow> c_int \<Rightarrow> sim_mem \<Rightarrow> sim_mem" where
  "write_mem addr data m =
     (let m = mem_init m; index = mem_index addr;
          m = m\<lparr> cout := cout m @ ''[DPI] write_mem called with addr: 0x'' @ hex_str (unat addr)
             @ '' (index: '' @ dec_str index
             @ ''), data: 0x'' @ hex_str (unat data) @ newline \<rparr>
      in if index_ok index then m\<lparr> words := (words m)(nat index := data) \<rparr>
         else m\<lparr> cerr := cerr m @ out_of_bounds_msg ''write_mem'' addr \<rparr>)"

text \<open>
  The dump of the first 1 MiB: the text of the file, and the message. \<open>opened\<close> says whether the
  file could be opened.
\<close>

definition dump_line :: "(nat \<Rightarrow> 32 word) \<Rightarrow> nat \<Rightarrow> string" where
  "dump_line mem i = setw 8 (CHR ''0'') (hex_str (i * 4)) @ '': ''
     @ hex8 (mem i) @ '' '' @ hex8 (mem (i + 1)) @ '' ''
     @ hex8 (mem (i + 2)) @ '' '' @ hex8 (mem (i + 3)) @ newline"

definition write_mem_dump :: "bool \<Rightarrow> string \<Rightarrow> sim_mem \<Rightarrow> string option \<times> sim_mem" where
  "write_mem_dump opened path m =
     (if \<not> opened then
        (None, m\<lparr> cerr := cerr m @ ''[DPI] Error: could not open file for writing memory dump: '' @ path @ newline \<rparr>)
      else
        (Some (c_for 0 dump_words 4 (\<lambda>i file. file @ dump_line (words m) i) []),
         m\<lparr> cout := cout m @ ''[DPI] Memory dump written to '' @ path @ newline \<rparr>))"

subsection \<open>The address range\<close>

lemma mem_index_ok_iff: "index_ok (mem_index addr) \<longleftrightarrow> 0 \<le> sint addr \<and> sint addr < 2 ^ 30"
  by (auto simp: index_ok_def mem_index_def mem_words_def)

lemma sint_nonneg_unat:
  assumes "0 \<le> sint (w :: 32 word)"
  shows "sint w = int (unat w)"
proof -
  have "take_bit 32 (sint w) = sint w"
    using assms sint_lt [of w] by (simp add: take_bit_int_eq_self_iff)
  then show ?thesis using uint_sint [of w] by simp
qed

lemma sint_below: "unat (w :: 32 word) < 2 ^ 31 \<Longrightarrow> sint w = int (unat w)"
proof -
  assume "unat w < 2 ^ 31"
  then have "uint w < 2 ^ 31" by (metis of_nat_less_iff of_nat_numeral of_nat_power of_nat_unat)
  then have "signed_take_bit 31 (uint w) = uint w"
    by (intro signed_take_bit_int_eq_self) (use uint_ge_0 [of w] in linarith)+
  then show ?thesis by (simp add: sint_uint)
qed

lemma index_ok_unat: "index_ok (mem_index addr) \<longleftrightarrow> unat addr < 2 ^ 30"
proof
  assume "index_ok (mem_index addr)"
  then have "0 \<le> sint addr" "sint addr < 2 ^ 30" by (simp_all add: mem_index_ok_iff)
  with sint_nonneg_unat [of addr] have "int (unat addr) < int (2 ^ 30)" by (simp del: of_nat_unat)
  then show "unat addr < 2 ^ 30" by (simp only: of_nat_less_iff)
next
  assume "unat addr < 2 ^ 30"
  then have "int (unat addr) < 2 ^ 30" and "sint addr = int (unat addr)"
    using sint_below [of addr] by (simp_all del: of_nat_unat)
  then show "index_ok (mem_index addr)" by (simp add: mem_index_ok_iff del: of_nat_unat)
qed

lemma mem_index_unat: "index_ok (mem_index addr) \<Longrightarrow> nat (mem_index addr) = unat addr div 4"
proof -
  assume "index_ok (mem_index addr)"
  then have "sint addr = int (unat addr)" using index_ok_unat [of addr] sint_below [of addr] by simp
  then show ?thesis by (simp add: mem_index_def nat_div_distrib del: of_nat_unat)
qed

text \<open>What is read, as a function of the state alone.\<close>

definition mem_at :: "sim_mem \<Rightarrow> c_int \<Rightarrow> 32 word" where
  "mem_at m addr = fst (read_mem addr m)"

definition mem_contents :: "sim_mem \<Rightarrow> nat \<Rightarrow> 32 word" where
  "mem_contents m = (if initialized m then words m else (\<lambda>_. 0))"

lemma mem_at_contents: "mem_at m addr = (if unat addr < 2 ^ 30 then mem_contents m (unat addr div 4) else 0)"
  using index_ok_unat [of addr] mem_index_unat [of addr]
  by (simp add: mem_at_def read_mem_def mem_init_def mem_contents_def Let_def)

lemma write_mem_contents:
  "mem_contents (write_mem addr data m) =
     (if unat addr < 2 ^ 30 then (mem_contents m)(unat addr div 4 := data) else mem_contents m)"
  using index_ok_unat [of addr] mem_index_unat [of addr]
  by (simp add: write_mem_def mem_init_def mem_contents_def Let_def)

lemma read_mem_keeps_contents: "mem_contents (snd (read_mem addr m)) = mem_contents m"
  by (simp add: read_mem_def mem_init_def mem_contents_def Let_def)

text \<open>
  The simulated memory is an array of aligned words over the addresses below \<open>2 ^ 30\<close>: a read
  returns the data of the last write to the same word, and 0 before the first one and outside
  the range; a write outside the range changes no word and a read changes none; both report the
  address on the error stream. The two low address bits are ignored.
\<close>

theorem sim_memory_read_over_write:
  "mem_at sim_mem_start a = 0
   \<and> mem_at (write_mem b d m) a =
       (if unat a < 2 ^ 30 \<and> unat a div 4 = unat b div 4 then d else mem_at m a)
   \<and> mem_at (snd (read_mem b m)) a = mem_at m a
   \<and> (cerr (write_mem b d m) = cerr m) = (unat b < 2 ^ 30)
   \<and> (cerr (snd (read_mem b m)) = cerr m) = (unat b < 2 ^ 30)"
proof (intro conjI)
  show "mem_at sim_mem_start a = 0"
    by (simp add: mem_at_contents mem_contents_def sim_mem_start_def)
  have "unat a < 2 ^ 30 \<longleftrightarrow> unat b < 2 ^ 30" if "unat a div 4 = unat b div 4"
  proof -
    have "unat x < 2 ^ 30 \<longleftrightarrow> unat x div 4 < 2 ^ 28" for x :: c_int by (simp add: div_less_iff_less_mult)
    with that show ?thesis by metis
  qed
  then show "mem_at (write_mem b d m) a = (if unat a < 2 ^ 30 \<and> unat a div 4 = unat b div 4 then d else mem_at m a)"
    by (auto simp: mem_at_contents write_mem_contents)
  show "mem_at (snd (read_mem b m)) a = mem_at m a"
    by (simp add: mem_at_contents read_mem_keeps_contents)
  show "(cerr (write_mem b d m) = cerr m) = (unat b < 2 ^ 30)"
    by (simp add: write_mem_def mem_init_def Let_def index_ok_unat out_of_bounds_msg_def)
  show "(cerr (snd (read_mem b m)) = cerr m) = (unat b < 2 ^ 30)"
    by (simp add: read_mem_def mem_init_def Let_def index_ok_unat out_of_bounds_msg_def)
qed

subsection \<open>The dump\<close>

lemma hex_addr: "i < dump_words \<Longrightarrow> setw 8 (CHR ''0'') (hex_str (i * 4)) = hex8 (word_of_nat (i * 4))"
  by (simp add: hex8_def dump_words_def unat_of_nat take_bit_nat_eq_self del: of_nat_mult)

lemma dump_line_inject:
  "dump_line f i = dump_line g i \<longleftrightarrow> (\<forall>k < 4. f (i + k) = g (i + k))"
proof -
  have "(\<forall>k < 4. f (i + k) = g (i + k)) \<longleftrightarrow> f i = g i \<and> f (i + 1) = g (i + 1) \<and> f (i + 2) = g (i + 2) \<and> f (i + 3) = g (i + 3)"
    by (auto simp: numeral_eq_Suc less_Suc_eq)
  then show ?thesis by (simp add: dump_line_def)
qed

lemma dump_lines_inject:
  "concat (map (dump_line f) is) = concat (map (dump_line g) is) \<longleftrightarrow> (\<forall>i \<in> set is. dump_line f i = dump_line g i)"
proof (induction "is")
  case (Cons i "is")
  have "length (dump_line f i) = length (dump_line g i)" by (simp add: dump_line_def)
  with Cons show ?case by simp
qed simp

lemma dump_file: "write_mem_dump True path m = (Some (concat (map (dump_line (words m)) (c_range 0 dump_words 4))), snd (write_mem_dump True path m))"
proof -
  have "fold (\<lambda>i file. file @ dump_line (words m) i) is s = s @ concat (map (dump_line (words m)) is)" for "is" s
    by (induction "is" arbitrary: s) simp_all
  then show ?thesis by (simp add: write_mem_dump_def c_for_fold)
qed

text \<open>
  The memory dump is lossless on what it covers: the files of two memories are equal exactly
  when their first 1024 * 256 words (1 MiB of the 1 GiB array) agree, so the words beyond the
  first MiB do not show in it.
\<close>

theorem memory_dump_lossless:
  "fst (write_mem_dump True path m) = fst (write_mem_dump True path' m')
     \<longleftrightarrow> map (words m) [0..<1024 * 256] = map (words m') [0..<1024 * 256]"
proof -
  have r: "set (c_range 0 dump_words 4) = {i. i < dump_words \<and> 4 dvd i}"
    by (auto simp: c_range_mem dvd_def)
  have "fst (write_mem_dump True path m) = fst (write_mem_dump True path' m')
      \<longleftrightarrow> (\<forall>i \<in> set (c_range 0 dump_words 4). dump_line (words m) i = dump_line (words m') i)"
    using dump_lines_inject [of "words m" "c_range 0 dump_words 4" "words m'"]
    by (subst (1 2) dump_file) simp
  also have "\<dots> \<longleftrightarrow> (\<forall>i. i < dump_words \<and> 4 dvd i \<longrightarrow> (\<forall>k < 4. words m (i + k) = words m' (i + k)))"
    unfolding r by (simp add: dump_line_inject)
  also have "\<dots> \<longleftrightarrow> (\<forall>j < dump_words. words m j = words m' j)"
  proof (intro iffI allI impI)
    fix j assume h: "\<forall>i. i < dump_words \<and> 4 dvd i \<longrightarrow> (\<forall>k < 4. words m (i + k) = words m' (i + k))" and j: "j < dump_words"
    have "4 * (j div 4) < dump_words" using j by (meson le_less_trans times_div_less_eq_dividend)
    with h [rule_format, of "4 * (j div 4)" "j mod 4"] show "words m j = words m' j" by simp
  next
    fix i k :: nat
    assume h: "\<forall>j < dump_words. words m j = words m' j" and i: "i < dump_words \<and> 4 dvd i" and k: "k < 4"
    have "i + k < dump_words" using i k by (auto simp: dump_words_def dvd_def)
    with h show "words m (i + k) = words m' (i + k)" by simp
  qed
  also have "\<dots> \<longleftrightarrow> map (words m) [0..<1024 * 256] = map (words m') [0..<1024 * 256]"
    by (auto simp: dump_words_def map_eq_conv)
  finally show ?thesis .
qed

end
