(* ===== verification/Sim_Elf.thy ===== *)
theory Sim_Elf
  imports Sim_Memory
begin

text \<open>
  The ELF loader of the simulator (\<^verbatim>\<open>simulator/elf_reader.cpp\<close>). The file is a list of bytes read
  through a stream with a position and a failure flag; the two instances of the template
  \<^verbatim>\<open>extract_sections\<close> differ in the field layout of \<^verbatim>\<open><elf.h>\<close>. \<open>None\<close> stands for the
  uses the C++ standard leaves undefined: an uninitialised header, an index outside a vector, a
  section name that does not end. The bytes that follow a section's buffer, which the last
  iteration of the copy loop reads when the size is not a multiple of 4, are the parameter
  \<open>slack\<close>.
\<close>

subsection \<open>The file format of \<^verbatim>\<open><elf.h>\<close>\<close>

fun le_value :: "byte list \<Rightarrow> nat" where
  "le_value [] = 0"
| "le_value (b # bs) = unat b + 256 * le_value bs"

text \<open>A field is an offset and a length in the structure.\<close>

record elf_layout =
  ehdr_size :: nat
  e_shoff :: "nat \<times> nat"
  e_shnum :: "nat \<times> nat"
  e_shstrndx :: "nat \<times> nat"
  shdr_size :: nat
  sh_name :: "nat \<times> nat"
  sh_type :: "nat \<times> nat"
  sh_addr :: "nat \<times> nat"
  sh_offset :: "nat \<times> nat"
  sh_size :: "nat \<times> nat"

definition elf32 :: elf_layout where
  "elf32 = \<lparr> ehdr_size = 52, e_shoff = (32, 4), e_shnum = (48, 2), e_shstrndx = (50, 2),
     shdr_size = 40, sh_name = (0, 4), sh_type = (4, 4), sh_addr = (12, 4), sh_offset = (16, 4), sh_size = (20, 4) \<rparr>"

definition elf64 :: elf_layout where
  "elf64 = \<lparr> ehdr_size = 64, e_shoff = (40, 8), e_shnum = (60, 2), e_shstrndx = (62, 2),
     shdr_size = 64, sh_name = (0, 4), sh_type = (4, 4), sh_addr = (16, 8), sh_offset = (24, 8), sh_size = (32, 8) \<rparr>"

definition slice :: "nat \<Rightarrow> nat \<Rightarrow> 'a list \<Rightarrow> 'a list" where
  "slice off n xs = take n (drop off xs)"

definition field :: "nat \<times> nat \<Rightarrow> byte list \<Rightarrow> nat" where
  "field f s = le_value (slice (fst f) (snd f) s)"

definition SHT_NOBITS :: nat where "SHT_NOBITS = 8"

subsection \<open>Input streams\<close>

record ifstream =
  content :: "byte list"
  pos :: nat
  failed :: bool

definition seekg :: "nat \<Rightarrow> ifstream \<Rightarrow> ifstream" where
  "seekg off s = (if failed s then s else if 2 ^ 63 \<le> off then s\<lparr> failed := True \<rparr> else s\<lparr> pos := off \<rparr>)"

text \<open>\<^verbatim>\<open>read\<close> returns the bytes it could read; fewer than asked for set the failure flag.\<close>

definition stream_read :: "nat \<Rightarrow> ifstream \<Rightarrow> byte list \<times> ifstream" where
  "stream_read n s =
     (if failed s then ([], s)
      else (let bs = slice (pos s) n (content s)
            in (bs, s\<lparr> pos := pos s + length bs, failed := length bs < n \<rparr>)))"

text \<open>The same into a zero-initialised vector of \<open>n\<close> bytes.\<close>

definition read_vector :: "nat \<Rightarrow> ifstream \<Rightarrow> byte list \<times> ifstream" where
  "read_vector n s = (let (bs, s) = stream_read n s in (bs @ replicate (n - length bs) 0, s))"

subsection \<open>Loading a section\<close>

definition byte_at :: "(nat \<Rightarrow> byte) \<Rightarrow> byte list \<Rightarrow> nat \<Rightarrow> byte" where
  "byte_at slack data i = (if i < length data then data ! i else slack (i - length data))"

text \<open>\<^verbatim>\<open>memcpy(&data_to_mem, &data[offset], 4)\<close>.\<close>

definition data_to_mem :: "(nat \<Rightarrow> byte) \<Rightarrow> byte list \<Rightarrow> nat \<Rightarrow> c_int" where
  "data_to_mem slack data offset = word_of_nat (le_value (map (byte_at slack data) [offset..<offset + 4]))"

definition last_data :: "byte list \<Rightarrow> c_int" where
  "last_data data = word_of_nat (le_value (drop (length data - length data mod 4) data))"

definition load_section :: "(nat \<Rightarrow> byte) \<Rightarrow> nat \<Rightarrow> byte list \<Rightarrow> sim_mem \<Rightarrow> sim_mem" where
  "load_section slack start data m =
     (let (addr, m) = c_for 0 (length data) 4
            (\<lambda>offset (addr, m). (addr + 4, write_mem addr (data_to_mem slack data offset) m))
            (word_of_nat start, m)
      in if length data mod 4 \<noteq> 0 then write_mem addr (last_data data) m else m)"

text \<open>The name at an offset of the string table.\<close>

definition section_name :: "byte list \<Rightarrow> nat \<Rightarrow> string option" where
  "section_name shstrtab off =
     (let s = drop off shstrtab
      in if off < length shstrtab \<and> 0 \<in> set s
         then Some (map (\<lambda>b. char_of (unat b)) (takeWhile (\<lambda>b. b \<noteq> 0) s)) else None)"

definition section_msg :: "string \<Rightarrow> nat \<Rightarrow> nat \<Rightarrow> string" where
  "section_msg name addr len =
     ''Secci'' @ [CHR 0xC3, CHR 0xB3] @ ''n: '' @ name
     @ '' | Direcci'' @ [CHR 0xC3, CHR 0xB3] @ ''n inicio: 0x'' @ hex_str addr
     @ '' | Tama'' @ [CHR 0xC3, CHR 0xB1] @ ''o: '' @ dec_str (int len) @ '' bytes'' @ newline"

definition loading_msg :: "string \<Rightarrow> string" where
  "loading_msg name = ''Cargando secci'' @ [CHR 0xC3, CHR 0xB3] @ ''n '' @ name @ '' en memoria...'' @ newline"

definition loaded_name :: "string \<Rightarrow> bool" where
  "loaded_name name \<longleftrightarrow> name = ''.text'' \<or> name = ''.data''"

text \<open>The loop over the section headers.\<close>

fun load_sections ::
  "(nat \<Rightarrow> byte) \<Rightarrow> elf_layout \<Rightarrow> byte list \<Rightarrow> byte list list \<Rightarrow> ifstream \<Rightarrow> sim_mem \<Rightarrow> sim_mem option" where
  "load_sections slack L shstrtab [] elf m = Some m"
| "load_sections slack L shstrtab (sh # shdrs) elf m =
     (if field (sh_type L) sh = SHT_NOBITS \<or> field (sh_size L) sh = 0 then
        load_sections slack L shstrtab shdrs elf m
      else
        Option.bind (section_name shstrtab (field (sh_name L) sh)) (\<lambda>name.
          let m = m\<lparr> cout := cout m @ section_msg name (field (sh_addr L) sh) (field (sh_size L) sh) \<rparr>;
              (data, elf) = read_vector (field (sh_size L) sh) (seekg (field (sh_offset L) sh) elf);
              m = m\<lparr> cout := cout m @ loading_msg name \<rparr>;
              m = (if loaded_name name then load_section slack (field (sh_addr L) sh) data m else m)
          in load_sections slack L shstrtab shdrs elf m))"

definition extract_sections :: "(nat \<Rightarrow> byte) \<Rightarrow> elf_layout \<Rightarrow> ifstream \<Rightarrow> sim_mem \<Rightarrow> sim_mem option" where
  "extract_sections slack L elf m =
     (let (ehdr, elf) = stream_read (ehdr_size L) elf
      in if length ehdr < ehdr_size L then None
         else
           (let (tab, elf) = read_vector (field (e_shnum L) ehdr * shdr_size L) (seekg (field (e_shoff L) ehdr) elf);
                shdrs = map (\<lambda>i. slice (i * shdr_size L) (shdr_size L) tab) [0..<field (e_shnum L) ehdr];
                ndx = field (e_shstrndx L) ehdr
            in if ndx \<ge> length shdrs then None
               else (let (shstrtab, elf) = read_vector (field (sh_size L) (shdrs ! ndx)) (seekg (field (sh_offset L) (shdrs ! ndx)) elf)
                     in load_sections slack L shstrtab shdrs elf m)))"

text \<open>\<open>None\<close> as a file: it cannot be opened.\<close>

definition load_elf :: "(nat \<Rightarrow> byte) \<Rightarrow> byte list option \<Rightarrow> sim_mem \<Rightarrow> (bool \<times> sim_mem) option" where
  "load_elf slack file m =
     (case file of
        None \<Rightarrow> Some (True, m\<lparr> cerr := cerr m @ ''Not able to open the file'' @ newline \<rparr>)
      | Some bytes \<Rightarrow>
          (let (ident, elf) = stream_read 16 \<lparr> content = bytes, pos = 0, failed = False \<rparr>
           in if length ident < 16 then None
              else if \<not> (ident ! 0 = 0x7F \<and> ident ! 1 = 0x45 \<and> ident ! 2 = 0x4C \<and> ident ! 3 = 0x46) then
                Some (False, m\<lparr> cerr := cerr m @ ''Not a valid ELF'' @ newline \<rparr>)
              else if ident ! 4 = 1 then map_option (Pair True) (extract_sections slack elf32 (seekg 0 elf) m)
              else if ident ! 4 = 2 then map_option (Pair True) (extract_sections slack elf64 (seekg 0 elf) m)
              else Some (False, m\<lparr> cerr := cerr m @ ''Unknown ELF class'' @ newline \<rparr>)))"

subsection \<open>What a section writes\<close>

text \<open>A list of writes, and the memory after it.\<close>

type_synonym writes = "(c_int \<times> c_int) list"

definition do_writes :: "writes \<Rightarrow> sim_mem \<Rightarrow> sim_mem" where
  "do_writes ws m = fold (\<lambda>(a, d). write_mem a d) ws m"

definition hits :: "nat \<Rightarrow> c_int \<times> c_int \<Rightarrow> bool" where
  "hits i w \<longleftrightarrow> unat (fst w) < 2 ^ 30 \<and> unat (fst w) div 4 = i"

lemma do_writes_append: "do_writes (vs @ ws) m = do_writes ws (do_writes vs m)"
  by (simp add: do_writes_def)

lemma do_writes_contents:
  "mem_contents (do_writes ws m) i = (case find (hits i) (rev ws) of None \<Rightarrow> mem_contents m i | Some w \<Rightarrow> snd w)"
proof (induction ws rule: rev_induct)
  case (snoc w ws)
  then show ?case
    by (cases w) (auto simp: do_writes_append do_writes_def write_mem_contents hits_def split: option.splits)
qed (simp add: do_writes_def)

text \<open>The words of a section, the last one completed with the bytes after the buffer; then the padded rest.\<close>

definition section_writes :: "(nat \<Rightarrow> byte) \<Rightarrow> nat \<times> byte list \<Rightarrow> writes" where
  "section_writes slack = (\<lambda>(a, data).
     map (\<lambda>k. (word_of_nat (a + 4 * k), data_to_mem slack data (4 * k))) [0..<(length data + 3) div 4]
     @ (if length data mod 4 \<noteq> 0
        then [(word_of_nat (a + 4 * ((length data + 3) div 4)), last_data data)] else []))"

lemma c_range_step4: "(hi - lo + 3) div 4 = n \<Longrightarrow> c_range lo hi 4 = map (\<lambda>k. lo + k * 4) [0..<n]"
proof (induction n arbitrary: lo)
  case 0
  then have "\<not> lo < hi" by (simp add: div_eq_0_iff)
  then show ?case by (subst c_range.simps) simp
next
  case (Suc n)
  then have lo: "lo < hi" by (cases "lo < hi") simp_all
  have "(hi - (lo + 4) + 3) div 4 = n"
  proof (cases "lo + 4 \<le> hi")
    case True
    then have "hi - lo + 3 = (hi - (lo + 4) + 3) + 4" by simp
    with Suc.prems show ?thesis by simp
  next
    case False
    with lo have "hi - lo \<in> {1, 2, 3}" by auto
    with Suc.prems False show ?thesis by auto
  qed
  from Suc.IH [OF this] lo have "c_range lo hi 4 = lo # map (\<lambda>k. lo + 4 + k * 4) [0..<n]"
    by (subst c_range.simps) simp
  moreover have "[0..<Suc n] = 0 # map Suc [0..<n]" by (simp add: map_Suc_upt upt_conv_Cons del: upt_Suc)
  ultimately show ?case by (simp only: list.map map_map comp_def mult_Suc add.assoc mult_0 add_0_right)
qed

lemma c_range_4: "c_range 0 n 4 = map (\<lambda>k. k * 4) [0..<(n + 3) div 4]"
  using c_range_step4 [of n 0 "(n + 3) div 4"] by simp

lemma load_loop:
  "fold (\<lambda>k (addr, m). (addr + 4, write_mem addr (w k) m)) [0..<n] (word_of_nat a, m)
     = (word_of_nat (a + 4 * n), do_writes (map (\<lambda>k. (word_of_nat (a + 4 * k), w k)) [0..<n]) m)"
  by (induction n) (simp_all add: do_writes_def add.assoc [symmetric] add.commute)

lemma load_section_writes: "load_section slack a data m = do_writes (section_writes slack (a, data)) m"
proof -
  have "c_for 0 (length data) 4 (\<lambda>offset (addr, m). (addr + 4, write_mem addr (data_to_mem slack data offset) m)) (word_of_nat a, m)
      = fold (\<lambda>k (addr, m). (addr + 4, write_mem addr (data_to_mem slack data (4 * k)) m)) [0..<(length data + 3) div 4] (word_of_nat a, m)"
    by (simp add: c_for_fold c_range_4 fold_map comp_def mult.commute)
  then show ?thesis
    by (simp add: load_section_def load_loop section_writes_def do_writes_append Let_def) (simp add: do_writes_def)
qed

subsection \<open>A well-formed file\<close>

text \<open>
  The section headers and the string table, read straight from the bytes of the file; a file is
  well formed when every range it refers to lies inside it and every name ends.
\<close>

definition ehdr_of :: "elf_layout \<Rightarrow> byte list \<Rightarrow> byte list" where
  "ehdr_of L f = slice 0 (ehdr_size L) f"

definition shdr_of :: "elf_layout \<Rightarrow> byte list \<Rightarrow> nat \<Rightarrow> byte list" where
  "shdr_of L f i = slice (field (e_shoff L) (ehdr_of L f) + i * shdr_size L) (shdr_size L) f"

definition elf_shdrs :: "elf_layout \<Rightarrow> byte list \<Rightarrow> byte list list" where
  "elf_shdrs L f = map (shdr_of L f) [0..<field (e_shnum L) (ehdr_of L f)]"

definition section_data :: "elf_layout \<Rightarrow> byte list \<Rightarrow> byte list \<Rightarrow> byte list" where
  "section_data L f sh = slice (field (sh_offset L) sh) (field (sh_size L) sh) f"

definition strtab_of :: "elf_layout \<Rightarrow> byte list \<Rightarrow> byte list" where
  "strtab_of L f = section_data L f (shdr_of L f (field (e_shstrndx L) (ehdr_of L f)))"

definition has_data :: "elf_layout \<Rightarrow> byte list \<Rightarrow> bool" where
  "has_data L sh \<longleftrightarrow> field (sh_type L) sh \<noteq> SHT_NOBITS \<and> field (sh_size L) sh \<noteq> 0"

definition range_ok :: "byte list \<Rightarrow> nat \<Rightarrow> nat \<Rightarrow> bool" where
  "range_ok f off n \<longleftrightarrow> off + n \<le> length f"

definition elf_ok :: "elf_layout \<Rightarrow> byte list \<Rightarrow> bool" where
  "elf_ok L f \<longleftrightarrow>
     length f < 2 ^ 63 \<and> ehdr_size L \<le> length f
     \<and> range_ok f (field (e_shoff L) (ehdr_of L f)) (field (e_shnum L) (ehdr_of L f) * shdr_size L)
     \<and> field (e_shstrndx L) (ehdr_of L f) < field (e_shnum L) (ehdr_of L f)
     \<and> (let sh = shdr_of L f (field (e_shstrndx L) (ehdr_of L f)) in range_ok f (field (sh_offset L) sh) (field (sh_size L) sh))
     \<and> list_all (\<lambda>sh. has_data L sh \<longrightarrow> range_ok f (field (sh_offset L) sh) (field (sh_size L) sh)
           \<and> section_name (strtab_of L f) (field (sh_name L) sh) \<noteq> None) (elf_shdrs L f)"

text \<open>The sections that are loaded: address and bytes, in file order.\<close>

definition loaded_sections :: "elf_layout \<Rightarrow> byte list \<Rightarrow> (nat \<times> byte list) list" where
  "loaded_sections L f =
     map (\<lambda>sh. (field (sh_addr L) sh, section_data L f sh))
       (filter (\<lambda>sh. has_data L sh \<and> list_ex loaded_name (case section_name (strtab_of L f) (field (sh_name L) sh) of None \<Rightarrow> [] | Some n \<Rightarrow> [n]))
          (elf_shdrs L f))"

subsection \<open>Loading a well-formed file\<close>

lemma stream_read_ok:
  "\<not> failed s \<Longrightarrow> pos s + n \<le> length (content s) \<Longrightarrow>
    stream_read n s = (slice (pos s) n (content s), s\<lparr> pos := pos s + n, failed := False \<rparr>)"
  by (simp add: stream_read_def slice_def)

lemma read_vector_seekg:
  "\<not> failed s \<Longrightarrow> length (content s) < 2 ^ 63 \<Longrightarrow> range_ok (content s) off n \<Longrightarrow>
    read_vector n (seekg off s) = (slice off n (content s), s\<lparr> pos := off + n, failed := False \<rparr>)"
  by (simp add: read_vector_def seekg_def stream_read_ok range_ok_def) (simp add: slice_def)

definition apply_writes :: "writes \<Rightarrow> (nat \<Rightarrow> 32 word) \<Rightarrow> nat \<Rightarrow> 32 word" where
  "apply_writes ws c i = (case find (hits i) (rev ws) of None \<Rightarrow> c i | Some w \<Rightarrow> snd w)"

lemma do_writes_apply: "mem_contents (do_writes ws m) = apply_writes ws (mem_contents m)"
  by (simp add: fun_eq_iff do_writes_contents apply_writes_def)

lemma find_append: "find P (xs @ ys) = (case find P xs of None \<Rightarrow> find P ys | Some x \<Rightarrow> Some x)"
  by (induction xs) auto

lemma apply_writes_append: "apply_writes (vs @ ws) c = apply_writes ws (apply_writes vs c)"
  by (auto simp: fun_eq_iff apply_writes_def find_append split: option.splits)

lemma apply_writes_miss: "(\<And>w. w \<in> set ws \<Longrightarrow> \<not> hits i w) \<Longrightarrow> apply_writes ws c i = c i"
  using find_None_iff [of "hits i" "rev ws"] by (simp add: apply_writes_def)

lemma mem_contents_cout [simp]: "mem_contents (m\<lparr> cout := s \<rparr>) = mem_contents m"
  by (simp add: mem_contents_def)

lemma load_sections_ok:
  assumes "\<not> failed elf" "length (content elf) < 2 ^ 63"
    and "list_all (\<lambda>sh. has_data L sh \<longrightarrow> range_ok (content elf) (field (sh_offset L) sh) (field (sh_size L) sh)
           \<and> section_name strs (field (sh_name L) sh) \<noteq> None) shs"
  shows "\<exists>m'. load_sections slack L strs shs elf m = Some m' \<and> mem_contents m' =
     apply_writes (concat (map (section_writes slack)
       (map (\<lambda>sh. (field (sh_addr L) sh, section_data L (content elf) sh))
         (filter (\<lambda>sh. has_data L sh \<and> list_ex loaded_name (case section_name strs (field (sh_name L) sh) of None \<Rightarrow> [] | Some n \<Rightarrow> [n])) shs))))
       (mem_contents m)"
  using assms
proof (induction shs arbitrary: elf m)
  case Nil
  then show ?case by (simp add: apply_writes_def)
next
  case (Cons sh shs)
  show ?case
  proof (cases "has_data L sh")
    case False
    then have "load_sections slack L strs (sh # shs) elf m = load_sections slack L strs shs elf m"
      by (auto simp: has_data_def)
    with Cons False show ?thesis by simp
  next
    case True
    with Cons.prems obtain name where name: "section_name strs (field (sh_name L) sh) = Some name"
      and r: "range_ok (content elf) (field (sh_offset L) sh) (field (sh_size L) sh)" by auto
    let ?elf = "elf\<lparr> pos := field (sh_offset L) sh + field (sh_size L) sh, failed := False \<rparr>"
    let ?d = "section_data L (content elf) sh" and ?a = "field (sh_addr L) sh"
    let ?m1 = "m\<lparr> cout := (cout m @ section_msg name ?a (field (sh_size L) sh)) @ loading_msg name \<rparr>"
    let ?m2 = "if loaded_name name then do_writes (section_writes slack (?a, ?d)) ?m1 else ?m1"
    have nd: "\<not> (field (sh_type L) sh = SHT_NOBITS \<or> field (sh_size L) sh = 0)" using True by (simp add: has_data_def)
    have "load_sections slack L strs (sh # shs) elf m = load_sections slack L strs shs ?elf ?m2"
      using read_vector_seekg [OF Cons.prems(1,2) r]
      by (simp only: load_sections.simps nd if_False name bind.simps)
        (simp add: section_data_def load_section_writes Let_def)
    moreover have "mem_contents ?m2 = (if loaded_name name then apply_writes (section_writes slack (?a, ?d)) (mem_contents m) else mem_contents m)"
      by (simp add: do_writes_apply)
    ultimately show ?thesis using Cons.IH [of ?elf ?m2] Cons.prems True name
      by (auto simp: apply_writes_append)
  qed
qed

lemma table_slices:
  "i < n \<Longrightarrow> off + n * k \<le> length f \<Longrightarrow> slice (i * k) k (slice off (n * k) f) = slice (off + i * k) k f"
proof -
  assume i: "i < n" and "off + n * k \<le> length f"
  have "i * k + k \<le> n * k" using i by (metis Suc_leI add.commute mult_Suc mult_le_mono1)
  then have "min k (n * k - i * k) = k" by simp
  then show ?thesis by (simp add: slice_def drop_take add.commute)
qed

lemma extract_sections_ok:
  assumes ok: "elf_ok L f"
  shows "\<exists>m'. extract_sections slack L \<lparr> content = f, pos = 0, failed = False \<rparr> m = Some m' \<and> mem_contents m' =
     apply_writes (concat (map (section_writes slack) (loaded_sections L f))) (mem_contents m)"
proof -
  let ?e = "ehdr_of L f"
  let ?n = "field (e_shnum L) ?e" and ?o = "field (e_shoff L) ?e" and ?x = "field (e_shstrndx L) ?e"
  let ?s = "\<lambda>p. \<lparr> content = f, pos = p, failed = False \<rparr>"
  let ?sh = "shdr_of L f ?x"
  have h: "length f < 2 ^ 63" "ehdr_size L \<le> length f" "range_ok f ?o (?n * shdr_size L)" "?x < ?n"
    "range_ok f (field (sh_offset L) ?sh) (field (sh_size L) ?sh)"
    "list_all (\<lambda>sh. has_data L sh \<longrightarrow> range_ok f (field (sh_offset L) sh) (field (sh_size L) sh)
           \<and> section_name (strtab_of L f) (field (sh_name L) sh) \<noteq> None) (elf_shdrs L f)"
    using ok by (simp_all add: elf_ok_def Let_def)
  have 1: "stream_read (ehdr_size L) (?s 0) = (?e, ?s (ehdr_size L))"
    using h(2) by (simp add: stream_read_ok ehdr_of_def)
  have le: "\<not> length ?e < ehdr_size L" using h(2) by (simp add: ehdr_of_def slice_def)
  have 2: "read_vector (?n * shdr_size L) (seekg ?o (?s p)) = (slice ?o (?n * shdr_size L) f, ?s (?o + ?n * shdr_size L))" for p
    using read_vector_seekg [of "?s p"] h(1,3) by simp
  have 3: "map (\<lambda>i. slice (i * shdr_size L) (shdr_size L) (slice ?o (?n * shdr_size L) f)) [0..<?n] = elf_shdrs L f"
    using h(3) by (simp add: elf_shdrs_def shdr_of_def table_slices range_ok_def)
  have 4: "\<not> ?x \<ge> length (elf_shdrs L f)" "elf_shdrs L f ! ?x = ?sh" using h(4) by (simp_all add: elf_shdrs_def)
  have 5: "read_vector (field (sh_size L) ?sh) (seekg (field (sh_offset L) ?sh) (?s p))
      = (strtab_of L f, ?s (field (sh_offset L) ?sh + field (sh_size L) ?sh))" for p
    using read_vector_seekg [of "?s p"] h(1,5) by (simp add: strtab_of_def section_data_def)
  have "extract_sections slack L (?s 0) m = load_sections slack L (strtab_of L f) (elf_shdrs L f)
      (?s (field (sh_offset L) ?sh + field (sh_size L) ?sh)) m"
    unfolding extract_sections_def 1 prod.case Let_def 2 3 4(2) 5 using le 4(1) by simp
  then show ?thesis
    using load_sections_ok [of "?s (field (sh_offset L) ?sh + field (sh_size L) ?sh)" L "strtab_of L f" "elf_shdrs L f" slack m] h
    by (simp add: loaded_sections_def)
qed

subsection \<open>Where the words of a section end up\<close>

lemma apply_writes_hit:
  assumes "w \<in> set ws" "hits i w" "\<And>w. w \<in> set ws \<Longrightarrow> hits i w \<Longrightarrow> snd w = v"
  shows "apply_writes ws c i = v"
proof -
  have "find (hits i) (rev ws) \<noteq> None" using assms(1,2) by (metis find_None_iff set_rev)
  then obtain u where u: "find (hits i) (rev ws) = Some u" by auto
  then have "u \<in> set ws" "hits i u" by (auto simp: find_Some_iff) (metis length_rev nth_mem set_rev)
  with assms(3) u show ?thesis by (simp add: apply_writes_def)
qed

lemma section_writes_addr:
  assumes "w \<in> set (section_writes slack (b, e))" "b + length e + 8 \<le> 2 ^ 32"
  shows "\<exists>j. unat (fst w) = b + 4 * j \<and> 4 * j \<le> length e + 6"
proof -
  obtain j where j: "fst w = word_of_nat (b + 4 * j)" "4 * j \<le> length e + 6"
  proof (cases "fst w = word_of_nat (b + 4 * ((length e + 3) div 4))")
    case True
    moreover have "4 * ((length e + 3) div 4) \<le> length e + 6" by simp
    ultimately show ?thesis using that by blast
  next
    case False
    then obtain k where k: "k < (length e + 3) div 4" "fst w = word_of_nat (b + 4 * k)"
      using assms(1) by (auto simp: section_writes_def split: if_splits)
    then have "4 * k \<le> length e + 6" by simp
    with k that show ?thesis by blast
  qed
  then have "b + 4 * j < 2 ^ 32" using assms(2) by simp
  then have "unat (fst w) = b + 4 * j"
    unfolding j(1) by (simp add: unat_of_nat take_bit_nat_eq_self del: of_nat_add of_nat_mult)
  with j(2) show ?thesis by blast
qed

text \<open>The part of the address space a section's writes can reach, and the sections that stay clear of a range.\<close>

definition clear_of :: "nat \<Rightarrow> nat \<Rightarrow> nat \<times> byte list \<Rightarrow> bool" where
  "clear_of a n s \<longleftrightarrow> fst s + length (snd s) + 8 \<le> 2 ^ 32 \<and> (a + n \<le> fst s \<or> fst s + length (snd s) + 8 \<le> a)"

lemma clear_of_miss:
  assumes "clear_of a n s" "4 dvd a" "4 * k + 4 \<le> n" "w \<in> set (section_writes slack s)"
  shows "\<not> hits (a div 4 + k) w"
proof -
  obtain b e where s: "s = (b, e)" by (cases s)
  obtain j where j: "unat (fst w) = b + 4 * j" "4 * j \<le> length e + 6"
    using section_writes_addr [of w slack b e] assms(1,4) s by (auto simp: clear_of_def)
  obtain q where q: "a = 4 * q" using assms(2) by (auto simp: dvd_def)
  have "(b + 4 * j) div 4 \<noteq> q + k"
  proof (cases "a + n \<le> b")
    case True
    then have "4 * (q + k + 1) \<le> b + 4 * j" using assms(3) q by simp
    then have "q + k + 1 \<le> (b + 4 * j) div 4" by (simp add: less_eq_div_iff_mult_less_eq)
    then show ?thesis by simp
  next
    case False
    then have "b + 4 * j < q * 4" using assms(1) j(2) q s by (simp add: clear_of_def)
    then have "(b + 4 * j) div 4 < q" by (simp add: div_less_iff_less_mult)
    then show ?thesis by simp
  qed
  then show ?thesis using j(1) q by (simp add: hits_def)
qed

lemma data_to_mem_inside:
  "4 * k + 4 \<le> length d \<Longrightarrow> data_to_mem slack d (4 * k) = word_of_nat (le_value (slice (4 * k) 4 d))"
proof -
  assume k: "4 * k + 4 \<le> length d"
  have "map (byte_at slack d) [4 * k..<4 * k + 4] = slice (4 * k) 4 d"
    using k by (intro nth_equalityI) (simp_all add: slice_def byte_at_def)
  then show ?thesis by (simp add: data_to_mem_def)
qed

lemma own_section_writes:
  assumes a: "4 dvd a" "a + length d \<le> 2 ^ 30" and k: "4 * k + 4 \<le> length d"
  shows "apply_writes (section_writes slack (a, d)) c (a div 4 + k) = data_to_mem slack d (4 * k)"
proof (rule apply_writes_hit)
  have un: "unat (word_of_nat (a + 4 * j) :: c_int) = a + 4 * j" if "4 * j \<le> length d + 6" for j
    using a(2) that by (simp add: unat_of_nat take_bit_nat_eq_self del: of_nat_add of_nat_mult)
  have dv: "(a + 4 * j) div 4 = a div 4 + j" for j using a(1) by (auto simp: dvd_def)
  have kk: "k < (length d + 3) div 4" using k by simp
  show "(word_of_nat (a + 4 * k), data_to_mem slack d (4 * k)) \<in> set (section_writes slack (a, d))"
    using kk by (simp add: section_writes_def)
  show "hits (a div 4 + k) (word_of_nat (a + 4 * k), data_to_mem slack d (4 * k))"
    using un [of k] dv k a by (simp add: hits_def del: of_nat_add of_nat_mult)
  fix w assume w: "w \<in> set (section_writes slack (a, d))" "hits (a div 4 + k) w"
  show "snd w = data_to_mem slack d (4 * k)"
  proof (cases "\<exists>j < (length d + 3) div 4. w = (word_of_nat (a + 4 * j), data_to_mem slack d (4 * j))")
    case True
    then obtain j where j: "j < (length d + 3) div 4" "w = (word_of_nat (a + 4 * j), data_to_mem slack d (4 * j))" by blast
    then have "4 * j \<le> length d + 6" by simp
    with w(2) j un dv have "j = k" by (simp add: hits_def del: of_nat_add of_nat_mult)
    with j show ?thesis by simp
  next
    case False
    then have "w = (word_of_nat (a + 4 * ((length d + 3) div 4)), last_data d)"
      using w(1) by (auto simp: section_writes_def split: if_splits)
    moreover have "4 * ((length d + 3) div 4) \<le> length d + 6" by simp
    ultimately have "(length d + 3) div 4 = k"
      using w(2) un [of "(length d + 3) div 4"] dv by (simp add: hits_def del: of_nat_add of_nat_mult)
    with kk show ?thesis by simp
  qed
qed

lemma later_sections_miss:
  assumes "\<And>s. s \<in> set ys \<Longrightarrow> clear_of a n s" "4 dvd a" "4 * k + 4 \<le> n"
  shows "apply_writes (concat (map (section_writes slack) ys)) c (a div 4 + k) = c (a div 4 + k)"
  proof (rule apply_writes_miss)
  fix w assume "w \<in> set (concat (map (section_writes slack) ys))"
  then obtain s where "s \<in> set ys" "w \<in> set (section_writes slack s)" by auto
  with assms clear_of_miss show "\<not> hits (a div 4 + k) w" by metis
qed

lemma mem_at_word:
  "4 dvd a \<Longrightarrow> a + 4 * k < 2 ^ 30 \<Longrightarrow> mem_at m (word_of_nat (a + 4 * k)) = mem_contents m (a div 4 + k)"
proof -
  assume h: "4 dvd a" "a + 4 * k < 2 ^ 30"
  have "unat (word_of_nat (a + 4 * k) :: c_int) = a + 4 * k"
    using h(2) by (simp add: unat_of_nat take_bit_nat_eq_self del: of_nat_add of_nat_mult)
  moreover have "(a + 4 * k) div 4 = a div 4 + k" using h(1) by (auto simp: dvd_def)
  ultimately show ?thesis using h(2) by (simp add: mem_at_contents add.commute del: of_nat_add of_nat_mult)
qed

lemma load_elf_wellformed:
  assumes "elf_ok L f" "take 4 f = [0x7F, 0x45, 0x4C, 0x46]" "L = elf32 \<and> f ! 4 = 1 \<or> L = elf64 \<and> f ! 4 = 2"
  shows "load_elf slack (Some f) m = map_option (Pair True) (extract_sections slack L \<lparr> content = f, pos = 0, failed = False \<rparr> m)"
proof -
  have len: "52 \<le> length f" using assms(1,3) by (auto simp: elf_ok_def elf32_def elf64_def)
  have i: "stream_read 16 \<lparr> content = f, pos = 0, failed = False \<rparr> = (take 16 f, \<lparr> content = f, pos = 16, failed = False \<rparr>)"
    using len by (simp add: stream_read_def slice_def)
  have "f ! j = take 4 f ! j" if "j < 4" for j using that by simp
  then have "f ! 0 = 0x7F" "f ! 1 = 0x45" "f ! 2 = 0x4C" "f ! 3 = 0x46" unfolding assms(2) by simp_all
  with len assms(3) show ?thesis by (auto simp: load_elf_def i seekg_def)
qed

text \<open>
  C16. The loader puts a program where its section headers say: for a well-formed 32- or 64-bit
  ELF file it returns true, and every complete word of a \<^verbatim>\<open>.text\<close> or \<^verbatim>\<open>.data\<close> section with an
  aligned address below 1 GiB is then read from the simulated memory at its address, provided
  that no later loaded section comes closer than 8 bytes in front of it or overlaps it.
\<close>

theorem elf_load_places_sections:
  assumes "elf_ok L f" "take 4 f = [0x7F, 0x45, 0x4C, 0x46]" "L = elf32 \<and> f ! 4 = 1 \<or> L = elf64 \<and> f ! 4 = 2"
    and "loaded_sections L f = xs @ (a, d) # ys" "list_all (clear_of a (length d)) ys"
    and "4 dvd a" "a + length d \<le> 2 ^ 30"
  shows "\<exists>m'. load_elf slack (Some f) m = Some (True, m')
    \<and> (\<forall>k. 4 * k + 4 \<le> length d \<longrightarrow> mem_at m' (word_of_nat (a + 4 * k)) = word_of_nat (le_value (slice (4 * k) 4 d)))"
proof -
  obtain m' where m': "extract_sections slack L \<lparr> content = f, pos = 0, failed = False \<rparr> m = Some m'"
    "mem_contents m' = apply_writes (concat (map (section_writes slack) (loaded_sections L f))) (mem_contents m)"
    using extract_sections_ok [OF assms(1)] by blast
  have "mem_at m' (word_of_nat (a + 4 * k)) = word_of_nat (le_value (slice (4 * k) 4 d))" if k: "4 * k + 4 \<le> length d" for k
  proof -
    have "mem_at m' (word_of_nat (a + 4 * k)) = mem_contents m' (a div 4 + k)"
      using mem_at_word assms(6,7) k by simp
    also have "\<dots> = apply_writes (section_writes slack (a, d)) (apply_writes (concat (map (section_writes slack) xs)) (mem_contents m)) (a div 4 + k)"
      using later_sections_miss [of ys a "length d" k] assms(5,6) k
      by (simp add: m'(2) assms(4) apply_writes_append list_all_iff)
    also have "\<dots> = word_of_nat (le_value (slice (4 * k) 4 d))"
      using own_section_writes [OF assms(6,7) k] data_to_mem_inside [OF k] by simp
    finally show ?thesis .
  qed
  then show ?thesis using load_elf_wellformed [OF assms(1-3)] m'(1) by simp
qed

text \<open>A 32-bit file with one \<^verbatim>\<open>.text\<close> section of two words at address 0x100, and its string table.\<close>

definition tiny_elf :: "byte list" where
  "tiny_elf =
     [0x7F, 0x45, 0x4C, 0x46, 1] @ replicate 27 0 @ [72, 0, 0, 0] @ replicate 12 0 @ [2, 0, 1, 0]
     @ [0x2E, 0x74, 0x65, 0x78, 0x74, 0, 0x2E, 0x73, 0] @ replicate 3 0
     @ [0x13, 5, 0x10, 0, 0x6F, 0, 0, 0]
     @ [0, 0, 0, 0, 1, 0, 0, 0, 0, 0, 0, 0, 0, 1, 0, 0, 64, 0, 0, 0, 8, 0, 0, 0] @ replicate 16 0
     @ [6, 0, 0, 0, 3, 0, 0, 0, 0, 0, 0, 0, 0, 0, 0, 0, 52, 0, 0, 0, 9, 0, 0, 0] @ replicate 16 0"

lemma tiny_elf_header:
  "length tiny_elf = 152" "field (e_shoff elf32) (ehdr_of elf32 tiny_elf) = 72"
  "field (e_shnum elf32) (ehdr_of elf32 tiny_elf) = 2" "field (e_shstrndx elf32) (ehdr_of elf32 tiny_elf) = 1"
  by (simp_all add: tiny_elf_def field_def ehdr_of_def slice_def elf32_def)

lemma tiny_elf_shdrs:
  "shdr_of elf32 tiny_elf 0 = [0, 0, 0, 0, 1, 0, 0, 0, 0, 0, 0, 0, 0, 1, 0, 0, 64, 0, 0, 0, 8, 0, 0, 0] @ replicate 16 0"
  "shdr_of elf32 tiny_elf 1 = [6, 0, 0, 0, 3, 0, 0, 0, 0, 0, 0, 0, 0, 0, 0, 0, 52, 0, 0, 0, 9, 0, 0, 0] @ replicate 16 0"
  by (simp_all add: shdr_of_def tiny_elf_header slice_def) (simp_all add: elf32_def tiny_elf_def)

lemma tiny_elf_table: "elf_shdrs elf32 tiny_elf = [shdr_of elf32 tiny_elf 0, shdr_of elf32 tiny_elf 1]"
  by (simp add: elf_shdrs_def tiny_elf_header upt_rec)

lemma tiny_elf_data:
  "strtab_of elf32 tiny_elf = [0x2E, 0x74, 0x65, 0x78, 0x74, 0, 0x2E, 0x73, 0]"
  "section_data elf32 tiny_elf (shdr_of elf32 tiny_elf 0) = [0x13, 5, 0x10, 0, 0x6F, 0, 0, 0]"
  unfolding strtab_of_def tiny_elf_header section_data_def tiny_elf_shdrs
  by (simp_all add: field_def slice_def elf32_def) (simp_all add: tiny_elf_def)

lemma tiny_elf_fields:
  "map (\<lambda>sh. (field (sh_name elf32) sh, field (sh_type elf32) sh, field (sh_addr elf32) sh, field (sh_offset elf32) sh, field (sh_size elf32) sh))
     (elf_shdrs elf32 tiny_elf) = [(0, 1, 0x100, 64, 8), (6, 3, 0, 52, 9)]"
  unfolding tiny_elf_table tiny_elf_shdrs by (simp add: field_def slice_def elf32_def)

lemma tiny_elf_names:
  "section_name (strtab_of elf32 tiny_elf) 0 = Some ''.text''" "section_name (strtab_of elf32 tiny_elf) 6 = Some ''.s''"
  unfolding tiny_elf_data(1) by (simp_all add: section_name_def) (code_simp, code_simp)

lemma tiny_elf_ok: "elf_ok elf32 tiny_elf"
  using tiny_elf_fields
  by (simp add: elf_ok_def tiny_elf_header tiny_elf_table tiny_elf_names range_ok_def) (simp add: elf32_def)

lemma tiny_elf_sections: "loaded_sections elf32 tiny_elf = [(0x100, [0x13, 5, 0x10, 0, 0x6F, 0, 0, 0])]"
  using tiny_elf_fields
  by (simp add: loaded_sections_def tiny_elf_table tiny_elf_data(2) tiny_elf_names has_data_def SHT_NOBITS_def loaded_name_def)

theorem elf_load_places_sections_witness:
  "\<exists>m'. load_elf (\<lambda>_. 0) (Some tiny_elf) sim_mem_start = Some (True, m')
    \<and> mem_at m' 0x100 = 0x00100513 \<and> mem_at m' 0x104 = 0x0000006F"
proof -
  have h: "take 4 tiny_elf = [0x7F, 0x45, 0x4C, 0x46]" "elf32 = elf32 \<and> tiny_elf ! 4 = 1 \<or> elf32 = elf64 \<and> tiny_elf ! 4 = 2"
    by (simp_all add: tiny_elf_def)
  obtain m' where m': "load_elf (\<lambda>_. 0) (Some tiny_elf) sim_mem_start = Some (True, m')"
    and w: "\<And>k. 4 * k + 4 \<le> length [0x13, 5, 0x10, 0, 0x6F, 0, 0, 0 :: byte] \<Longrightarrow>
      mem_at m' (word_of_nat (0x100 + 4 * k)) = word_of_nat (le_value (slice (4 * k) 4 [0x13, 5, 0x10, 0, 0x6F, 0, 0, 0]))"
    using elf_load_places_sections [OF tiny_elf_ok h, of "[]" "0x100" _ "[]" "\<lambda>_. 0" sim_mem_start] tiny_elf_sections by auto
  from w [of 0] w [of 1] m' show ?thesis by (simp add: slice_def)
qed

text \<open>The rejected files, and the file that cannot be opened, for which the loader reports success.\<close>

lemma load_elf_unopened: "\<exists>m'. load_elf slack None m = Some (True, m') \<and> mem_contents m' = mem_contents m"
  by (simp add: load_elf_def mem_contents_def)

lemma load_elf_bad_magic:
  "16 \<le> length f \<Longrightarrow> take 4 f \<noteq> [0x7F, 0x45, 0x4C, 0x46] \<Longrightarrow>
    \<exists>m'. load_elf slack (Some f) m = Some (False, m') \<and> mem_contents m' = mem_contents m"
proof -
  assume l: "16 \<le> length f" and t: "take 4 f \<noteq> [0x7F, 0x45, 0x4C, 0x46]"
  have i: "stream_read 16 \<lparr> content = f, pos = 0, failed = False \<rparr> = (take 16 f, \<lparr> content = f, pos = 16, failed = False \<rparr>)"
    using l by (simp add: stream_read_def slice_def)
  have "take 4 f = [f ! 0, f ! 1, f ! 2, f ! 3]"
    using l by (intro nth_equalityI) (auto simp: nth_Cons' less_Suc_eq numeral_eq_Suc)
  with t have "\<not> (take 16 f ! 0 = 0x7F \<and> take 16 f ! 1 = 0x45 \<and> take 16 f ! 2 = 0x4C \<and> take 16 f ! 3 = 0x46)" by auto
  then show ?thesis using l by (simp add: load_elf_def i mem_contents_def del: nth_take)
qed

text \<open>
  When the size of a section is not a multiple of 4, its last bytes are written twice: in their
  place, mixed with the bytes after the buffer, and alone in the word after it.
\<close>

lemma partial_word_written_twice:
  "length d mod 4 \<noteq> 0 \<Longrightarrow> last (section_writes slack (a, d)) = (word_of_nat (a + 4 * (length d div 4 + 1)), last_data d)
    \<and> last (butlast (section_writes slack (a, d))) = (word_of_nat (a + 4 * (length d div 4)), data_to_mem slack d (4 * (length d div 4)))"
proof -
  assume "length d mod 4 \<noteq> 0"
  moreover from this have "(length d + 3) div 4 = Suc (length d div 4)" by presburger
  ultimately show ?thesis by (simp add: section_writes_def butlast_append)
qed

end
