(* ===== verification/Sim_Kanata.thy ===== *)
theory Sim_Kanata
  imports Sim_Output
begin

text \<open>
  The pipeline trace of the simulator (\<^verbatim>\<open>simulator/kanata.cpp\<close>). The log is a list of events, one
  per line, with their text given by \<open>kanata_line\<close>; \<open>std::map\<close> is an association list sorted by
  instruction id; the six stages pass their valid bit and instruction id every cycle.
\<close>

datatype Kanata_Stages = FETCH | DECODE | EXECUTE | MEMORY | WRITEBACK | COMMIT | NONE

definition stage_to_str :: "Kanata_Stages \<Rightarrow> string" where
  "stage_to_str s = (case s of
     FETCH \<Rightarrow> ''Fetch'' | DECODE \<Rightarrow> ''Decode'' | EXECUTE \<Rightarrow> ''Execute'' | MEMORY \<Rightarrow> ''Memory''
   | WRITEBACK \<Rightarrow> ''Writeback'' | COMMIT \<Rightarrow> ''Commit'' | NONE \<Rightarrow> ''None'')"

subsection \<open>The stage map\<close>

type_synonym stage_map = "(int \<times> Kanata_Stages) list"

fun map_put :: "int \<Rightarrow> Kanata_Stages \<Rightarrow> stage_map \<Rightarrow> stage_map" where
  "map_put k v [] = [(k, v)]"
| "map_put k v ((k', v') # m) =
     (if k = k' then (k, v) # m else if k < k' then (k, v) # (k', v') # m else (k', v') # map_put k v m)"

definition map_erase :: "int \<Rightarrow> stage_map \<Rightarrow> stage_map" where
  "map_erase k m = filter (\<lambda>e. fst e \<noteq> k) m"

text \<open>\<^verbatim>\<open>find(id) != end() ? instruction_stage[id] : NONE\<close>.\<close>

definition prev_stage :: "stage_map \<Rightarrow> int \<Rightarrow> Kanata_Stages" where
  "prev_stage m i = (case map_of m i of Some s \<Rightarrow> s | None \<Rightarrow> NONE)"

subsection \<open>The log\<close>

datatype kanata_event =
    Header
  | Cycle
  | Insn int
  | Start int Kanata_Stages
  | End_Stage int Kanata_Stages
  | Label int c_int c_int
  | Retire int nat

definition stage_letter :: "Kanata_Stages \<Rightarrow> string" where
  "stage_letter s = (case s of
     FETCH \<Rightarrow> ''F'' | DECODE \<Rightarrow> ''D'' | EXECUTE \<Rightarrow> ''E'' | MEMORY \<Rightarrow> ''M'' | WRITEBACK \<Rightarrow> ''W'' | _ \<Rightarrow> '''')"

fun kanata_line :: "kanata_event \<Rightarrow> string" where
  "kanata_line Header = ''Kanata'' @ tab_char @ ''0004'' @ newline @ ''C='' @ tab_char @ ''0'' @ newline"
| "kanata_line Cycle = ''C'' @ tab_char @ ''1'' @ newline"
| "kanata_line (Insn i) = ''I'' @ tab_char @ dec_str i @ tab_char @ dec_str i @ tab_char @ ''0'' @ newline"
| "kanata_line (Start i s) = ''S'' @ tab_char @ dec_str i @ tab_char @ ''0'' @ tab_char @ stage_letter s @ newline"
| "kanata_line (End_Stage i s) = ''E'' @ tab_char @ dec_str i @ tab_char @ ''0'' @ tab_char @ stage_letter s @ newline"
| "kanata_line (Label i pc instr) = ''L'' @ tab_char @ dec_str i @ tab_char @ ''0'' @ tab_char
     @ ''0x'' @ hex8 pc @ '' '' @ ''0x'' @ hex8 instr @ newline"
| "kanata_line (Retire i k) = ''R'' @ tab_char @ dec_str i @ tab_char @ ''0'' @ tab_char @ dec_str (int k) @ newline"

record kanata_state =
  kanata_file :: "kanata_event list"
  kanata_dbg_file :: string
  instruction_stage :: stage_map

definition init_kanata :: kanata_state where
  "init_kanata = \<lparr> kanata_file = [Header], kanata_dbg_file = ''Kanata Debug Log'' @ newline, instruction_stage = [] \<rparr>"

record kanata_in =
  valid_fetch :: bool
  valid_decode :: bool
  valid_execute :: bool
  valid_memory :: bool
  valid_writeback :: bool
  valid_commit :: bool
  id_fetch :: int
  id_decode :: int
  id_execute :: int
  id_memory :: int
  id_writeback :: int
  id_commit :: int
  pc_decode :: c_int
  instr_decode :: c_int
  flush :: bool

text \<open>The debug file of one cycle.\<close>

definition bool_str :: "bool \<Rightarrow> string" where
  "bool_str b = (if b then ''1'' else ''0'')"

definition dbg_stage :: "string \<Rightarrow> int \<Rightarrow> Kanata_Stages \<Rightarrow> bool \<Rightarrow> string" where
  "dbg_stage name i prev v = ''  '' @ name @ '' ID: '' @ dec_str i @ '' Prev Stage: '' @ stage_to_str prev
     @ '' Valid: '' @ bool_str v @ newline"

definition kanata_dbg :: "kanata_in \<Rightarrow> stage_map \<Rightarrow> string" where
  "kanata_dbg x m =
     replicate 40 (CHR ''-'') @ newline @ ''Cycle Update:'' @ newline
     @ dbg_stage ''Fetch'' (id_fetch x) (prev_stage m (id_fetch x)) (valid_fetch x)
     @ dbg_stage ''Decode'' (id_decode x) (prev_stage m (id_decode x)) (valid_decode x)
     @ ''  '' @ tab_char @ '' PC: '' @ ''0x'' @ hex8 (pc_decode x) @ '' Instr: '' @ ''0x'' @ hex8 (instr_decode x) @ newline
     @ dbg_stage ''Execute'' (id_execute x) (prev_stage m (id_execute x)) (valid_execute x)
     @ dbg_stage ''Memory'' (id_memory x) (prev_stage m (id_memory x)) (valid_memory x)
     @ dbg_stage ''Writeback'' (id_writeback x) (prev_stage m (id_writeback x)) (valid_writeback x)
     @ dbg_stage ''Commit'' (id_commit x) (prev_stage m (id_commit x)) (valid_commit x)
     @ newline @ ''  Flush: '' @ bool_str (flush x) @ newline"

text \<open>What a flush logs for one entry of the map.\<close>

definition flush_events :: "int \<Rightarrow> int \<times> Kanata_Stages \<Rightarrow> kanata_event list" where
  "flush_events committing = (\<lambda>(i, stage).
     if stage \<noteq> COMMIT \<and> stage \<noteq> NONE \<and> \<not> (stage = WRITEBACK \<and> i = committing) then [End_Stage i stage, Retire i 1]
     else if stage = WRITEBACK \<and> i = committing then [End_Stage i WRITEBACK, Retire i 0]
     else if stage = NONE then [Retire i 1]
     else [])"

text \<open>The blocks of one stage: what it logs on entry, and how it updates the map.\<close>

definition enter_events :: "Kanata_Stages \<Rightarrow> Kanata_Stages \<Rightarrow> bool \<Rightarrow> Kanata_Stages \<Rightarrow> int \<Rightarrow> kanata_event list" where
  "enter_events from to v prev i =
     (if prev \<noteq> to \<and> v \<and> prev \<noteq> NONE then [End_Stage i from, Start i to] else [])"

definition set_stage :: "Kanata_Stages \<Rightarrow> bool \<Rightarrow> Kanata_Stages \<Rightarrow> int \<Rightarrow> stage_map \<Rightarrow> stage_map" where
  "set_stage to v prev i m =
     (if v \<and> prev \<noteq> NONE then map_put i to m else if prev = NONE then map_put i NONE m else m)"

definition stage_events :: "kanata_in \<Rightarrow> stage_map \<Rightarrow> kanata_event list" where
  "stage_events x m =
     (if prev_stage m (id_fetch x) \<noteq> FETCH then [Insn (id_fetch x), Start (id_fetch x) FETCH] else [])
     @ enter_events FETCH DECODE (valid_decode x) (prev_stage m (id_decode x)) (id_decode x)
     @ (if prev_stage m (id_decode x) \<noteq> DECODE \<and> valid_decode x \<and> prev_stage m (id_decode x) \<noteq> NONE
        then [Label (id_decode x) (pc_decode x) (instr_decode x)] else [])
     @ enter_events DECODE EXECUTE (valid_execute x) (prev_stage m (id_execute x)) (id_execute x)
     @ enter_events EXECUTE MEMORY (valid_memory x) (prev_stage m (id_memory x)) (id_memory x)
     @ enter_events MEMORY WRITEBACK (valid_writeback x) (prev_stage m (id_writeback x)) (id_writeback x)
     @ (if prev_stage m (id_commit x) \<noteq> COMMIT \<and> valid_commit x \<and> prev_stage m (id_commit x) \<noteq> NONE
        then [End_Stage (id_commit x) WRITEBACK, Retire (id_commit x) 0] else [])"

definition stage_update :: "kanata_in \<Rightarrow> stage_map \<Rightarrow> stage_map" where
  "stage_update x m =
     set_stage WRITEBACK (valid_writeback x) (prev_stage m (id_writeback x)) (id_writeback x)
    (set_stage MEMORY (valid_memory x) (prev_stage m (id_memory x)) (id_memory x)
    (set_stage EXECUTE (valid_execute x) (prev_stage m (id_execute x)) (id_execute x)
    (set_stage DECODE (valid_decode x) (prev_stage m (id_decode x)) (id_decode x)
    (map_put (id_fetch x) FETCH
    (if prev_stage m (id_commit x) \<noteq> COMMIT \<and> valid_commit x \<and> prev_stage m (id_commit x) \<noteq> NONE
     then map_erase (id_commit x) m else m)))))"

definition print_kanata :: "kanata_in \<Rightarrow> kanata_state \<Rightarrow> kanata_state" where
  "print_kanata x k =
     (let m = instruction_stage k;
          k = k\<lparr> kanata_file := kanata_file k @ [Cycle], kanata_dbg_file := kanata_dbg_file k @ kanata_dbg x m \<rparr>
      in if flush x then
           k\<lparr> kanata_file := kanata_file k @ concat (map (flush_events (id_commit x)) m), instruction_stage := [] \<rparr>
         else
           k\<lparr> kanata_file := kanata_file k @ stage_events x m, instruction_stage := stage_update x m \<rparr>)"

text \<open>The text of the log file.\<close>

definition kanata_text :: "kanata_state \<Rightarrow> string" where
  "kanata_text k = concat (map kanata_line (kanata_file k))"

subsection \<open>The map operations\<close>

lemma prev_stage_put: "prev_stage (map_put k v m) i = (if i = k then v else prev_stage m i)"
  by (induction k v m rule: map_put.induct) (auto simp: prev_stage_def)

lemma prev_stage_erase: "prev_stage (map_erase k m) i = (if i = k then NONE else prev_stage m i)"
  by (induction m) (auto simp: prev_stage_def map_erase_def split: option.splits)

lemma map_put_keys: "set (map fst (map_put k v m)) = insert k (set (map fst m))"
  by (induction k v m rule: map_put.induct) auto

lemma map_put_sorted:
  "sorted (map fst m) \<and> distinct (map fst m) \<Longrightarrow> sorted (map fst (map_put k v m)) \<and> distinct (map fst (map_put k v m))"
proof (induction k v m rule: map_put.induct)
  case (2 k v k' v' m)
  then have ih: "k' < k \<Longrightarrow> sorted (map fst (map_put k v m)) \<and> distinct (map fst (map_put k v m))" by auto
  have keys: "fst ` set (map_put k v m) = insert k (fst ` set m)" using map_put_keys [of k v m] by simp
  show ?case using 2(2) ih keys by (auto simp: image_iff)
qed simp

lemma map_erase_sorted:
  "sorted (map fst m) \<and> distinct (map fst m) \<Longrightarrow> sorted (map fst (map_erase k m)) \<and> distinct (map fst (map_erase k m))"
  by (simp add: map_erase_def sorted_filter distinct_map_filter)

lemma set_stage_sorted:
  "sorted (map fst m) \<and> distinct (map fst m) \<Longrightarrow> sorted (map fst (set_stage to v p i m)) \<and> distinct (map fst (set_stage to v p i m))"
  using map_put_sorted by (auto simp: set_stage_def)

lemma stage_update_sorted:
  "sorted (map fst m) \<and> distinct (map fst m) \<Longrightarrow> sorted (map fst (stage_update x m)) \<and> distinct (map fst (stage_update x m))"
  unfolding stage_update_def using map_erase_sorted map_put_sorted set_stage_sorted by auto

subsection \<open>A run\<close>

text \<open>One call of \<^verbatim>\<open>print_kanata\<close> per clock cycle.\<close>

definition kanata_run :: "kanata_in list \<Rightarrow> kanata_state" where
  "kanata_run xs = fold print_kanata xs init_kanata"

text \<open>A cycle with instructions in the first two stages, and perhaps a flush.\<close>

definition demo_cycle :: "int \<Rightarrow> bool \<Rightarrow> bool \<Rightarrow> kanata_in" where
  "demo_cycle n vd fl = \<lparr> valid_fetch = True, valid_decode = vd, valid_execute = False, valid_memory = False,
     valid_writeback = False, valid_commit = False, id_fetch = n, id_decode = n - 1, id_execute = n - 2, id_memory = n - 3,
     id_writeback = n - 4, id_commit = n - 5, pc_decode = 0, instr_decode = 0x13, flush = fl \<rparr>"

text \<open>While the core waits for its first instruction every stage shows id 0 and only fetch is occupied: the
  entry that fetch writes is overwritten by the empty stages, so the instruction is announced and started anew
  in every cycle, and its later stages are not logged.\<close>

definition waiting_cycle :: kanata_in where
  "waiting_cycle = \<lparr> valid_fetch = False, valid_decode = False, valid_execute = False, valid_memory = False,
     valid_writeback = False, valid_commit = False, id_fetch = 0, id_decode = 0, id_execute = 0, id_memory = 0,
     id_writeback = 0, id_commit = 0, pc_decode = 0, instr_decode = 0, flush = False \<rparr>"

lemma waiting_cycle_step:
  "prev_stage (instruction_stage k) 0 = NONE \<Longrightarrow>
   kanata_file (print_kanata waiting_cycle k) = kanata_file k @ [Cycle, Insn 0, Start 0 FETCH]
   \<and> prev_stage (instruction_stage (print_kanata waiting_cycle k)) 0 = NONE"
  by (simp add: print_kanata_def waiting_cycle_def stage_events_def stage_update_def enter_events_def set_stage_def
      prev_stage_put Let_def)

lemma reset_repeats_first_instruction:
  "kanata_file (kanata_run (replicate n waiting_cycle)) = Header # concat (replicate n [Cycle, Insn 0, Start 0 FETCH])
   \<and> prev_stage (instruction_stage (kanata_run (replicate n waiting_cycle))) 0 = NONE"
proof (induction n)
  case 0
  then show ?case by (simp add: kanata_run_def init_kanata_def prev_stage_def)
next
  case (Suc n)
  have "kanata_run (replicate (Suc n) waiting_cycle) = print_kanata waiting_cycle (kanata_run (replicate n waiting_cycle))"
    by (simp add: kanata_run_def replicate_append_same [symmetric] del: replicate.simps)
  moreover have "concat (replicate (Suc n) es) = concat (replicate n es) @ es" for es :: "kanata_event list"
    by (induction n) simp_all
  ultimately show ?case using waiting_cycle_step [of "kanata_run (replicate n waiting_cycle)"] Suc.IH by simp
qed

subsection \<open>Nothing is logged of an instruction that was not announced\<close>

text \<open>
  \<open>D\<close> are the instructions announced by an \<open>I\<close> line so far. A stage that starts or ends, a label, and the
  retirement of a committed instruction have to name one of them.
\<close>

fun declared :: "int set \<Rightarrow> kanata_event list \<Rightarrow> bool" where
  "declared D [] \<longleftrightarrow> True"
| "declared D (Insn i # es) \<longleftrightarrow> declared (insert i D) es"
| "declared D (Start i s # es) \<longleftrightarrow> i \<in> D \<and> declared D es"
| "declared D (End_Stage i s # es) \<longleftrightarrow> i \<in> D \<and> declared D es"
| "declared D (Label i pc ins # es) \<longleftrightarrow> i \<in> D \<and> declared D es"
| "declared D (Retire i k # es) \<longleftrightarrow> (k = 0 \<longrightarrow> i \<in> D) \<and> declared D es"
| "declared D (e # es) \<longleftrightarrow> declared D es"

fun announced :: "kanata_event list \<Rightarrow> int set" where
  "announced [] = {}"
| "announced (Insn i # es) = insert i (announced es)"
| "announced (e # es) = announced es"

lemma announced_append [simp]: "announced (es @ fs) = announced es \<union> announced fs"
  by (induction es rule: announced.induct) auto

lemma declared_append [simp]: "declared D (es @ fs) \<longleftrightarrow> declared D es \<and> declared (D \<union> announced es) fs"
  by (induction D es rule: declared.induct) auto

text \<open>The instructions the stage map follows.\<close>

definition followed :: "stage_map \<Rightarrow> int set" where
  "followed m = {i. prev_stage m i \<noteq> NONE}"

lemma followed_put: "followed (map_put i s m) \<subseteq> insert i (followed m)"
  "s = NONE \<Longrightarrow> followed (map_put i s m) \<subseteq> followed m"
  by (auto simp: followed_def prev_stage_put split: if_splits)

lemma followed_set_stage: "(p \<noteq> NONE \<Longrightarrow> i \<in> D) \<Longrightarrow> followed m \<subseteq> D \<Longrightarrow> followed (set_stage to v p i m) \<subseteq> D"
  by (auto simp: set_stage_def dest: followed_put [THEN subsetD])

lemma followed_erase: "followed (map_erase i m) \<subseteq> followed m"
  by (auto simp: followed_def prev_stage_erase split: if_splits)

lemma declared_enter: "(prev_stage m i \<noteq> NONE \<Longrightarrow> i \<in> D) \<Longrightarrow> declared D (enter_events from to v (prev_stage m i) i)
    \<and> announced (enter_events from to v (prev_stage m i) i) = {}"
  by (simp add: enter_events_def)

lemma stage_events_declared:
  assumes "followed m \<subseteq> D"
  shows "declared D (stage_events x m)" "followed (stage_update x m) \<subseteq> D \<union> announced (stage_events x m)"
proof -
  have in_D: "prev_stage m i \<noteq> NONE \<Longrightarrow> i \<in> D" for i using assms by (auto simp: followed_def)
  let ?f = "if prev_stage m (id_fetch x) \<noteq> FETCH then [Insn (id_fetch x), Start (id_fetch x) FETCH] else []"
  let ?D = "D \<union> announced ?f"
  have f: "declared D ?f" "id_fetch x \<in> ?D" using in_D [of "id_fetch x"] by auto
  have in_D': "prev_stage m i \<noteq> NONE \<Longrightarrow> i \<in> ?D" for i using in_D by blast
  note enter = declared_enter [OF in_D']
  show "declared D (stage_events x m)"
    unfolding stage_events_def declared_append announced_append
    using f enter in_D' by simp
  have ann: "announced (stage_events x m) = announced ?f"
    unfolding stage_events_def announced_append using enter by simp
  have "followed (if b then map_erase (id_commit x) m else m) \<subseteq> ?D" for b
    using assms followed_erase by (cases b) auto
  then have "followed (map_put (id_fetch x) FETCH (if b then map_erase (id_commit x) m else m)) \<subseteq> ?D" for b
    using followed_put(1) f(2) by blast
  then show "followed (stage_update x m) \<subseteq> D \<union> announced (stage_events x m)"
    unfolding ann stage_update_def by (intro followed_set_stage in_D') auto
qed

lemma prev_stage_entry: "distinct (map fst m) \<Longrightarrow> (i, s) \<in> set m \<Longrightarrow> prev_stage m i = s"
  by (simp add: prev_stage_def)

lemma flush_declared:
  assumes "distinct (map fst m)" "followed m \<subseteq> D" "set es \<subseteq> set m"
  shows "declared D (concat (map (flush_events c) es)) \<and> announced (concat (map (flush_events c) es)) = {}"
  using assms(3)
proof (induction es)
  case (Cons a es)
  obtain i s where a: "a = (i, s)" by (cases a)
  have "s \<noteq> NONE \<Longrightarrow> i \<in> D" using prev_stage_entry [OF assms(1)] assms(2) Cons.prems a by (auto simp: followed_def)
  with Cons a show ?case by (auto simp: flush_events_def)
qed simp

lemma print_kanata_declared:
  assumes "sorted (map fst (instruction_stage k)) \<and> distinct (map fst (instruction_stage k))" "followed (instruction_stage k) \<subseteq> D"
  obtains es where "kanata_file (print_kanata x k) = kanata_file k @ es" "declared D es"
    "followed (instruction_stage (print_kanata x k)) \<subseteq> D \<union> announced es"
    "sorted (map fst (instruction_stage (print_kanata x k))) \<and> distinct (map fst (instruction_stage (print_kanata x k)))"
proof (cases "flush x")
  case True
  with flush_declared [of "instruction_stage k" D "instruction_stage k" "id_commit x"] assms show ?thesis
    by (intro that [of "Cycle # concat (map (flush_events (id_commit x)) (instruction_stage k))"])
       (simp_all add: print_kanata_def Let_def followed_def prev_stage_def)
next
  case False
  with stage_events_declared [OF assms(2)] stage_update_sorted [OF assms(1), of x] show ?thesis
    by (intro that [of "Cycle # stage_events x (instruction_stage k)"]) (simp_all add: print_kanata_def Let_def)
qed

lemma run_declared:
  assumes "sorted (map fst (instruction_stage k)) \<and> distinct (map fst (instruction_stage k))" "followed (instruction_stage k) \<subseteq> D"
  shows "\<exists>es. kanata_file (fold print_kanata xs k) = kanata_file k @ es \<and> declared D es
    \<and> sorted (map fst (instruction_stage (fold print_kanata xs k))) \<and> distinct (map fst (instruction_stage (fold print_kanata xs k)))"
  using assms
proof (induction xs arbitrary: k D)
  case (Cons x xs)
  obtain es where es: "kanata_file (print_kanata x k) = kanata_file k @ es" "declared D es"
    "followed (instruction_stage (print_kanata x k)) \<subseteq> D \<union> announced es"
    "sorted (map fst (instruction_stage (print_kanata x k))) \<and> distinct (map fst (instruction_stage (print_kanata x k)))"
    using print_kanata_declared [OF Cons.prems] by blast
  from Cons.IH [OF es(4,3)] es(1,2) show ?case by auto
qed auto

lemma after_flush_empty: "xs = [] \<or> flush (last xs) \<Longrightarrow> instruction_stage (kanata_run xs) = []"
  by (cases xs rule: rev_cases) (simp_all add: kanata_run_def init_kanata_def print_kanata_def Let_def)

text \<open>
  C24. Whatever the pipeline reports, in every cycle: counted from the start or from any flush, the log
  names an instruction in a stage, in a label or as committed only after an \<open>I\<close> line announced it. So
  an instruction that a flush has dropped, and that the core still moves through its stages, leaves no
  trace after the flush unless fetch announces its id again.
\<close>

theorem kanata_log_declares:
  assumes "xs = [] \<or> flush (last xs)"
  shows "\<exists>es. kanata_file (kanata_run (xs @ ys)) = kanata_file (kanata_run xs) @ es \<and> declared {} es"
proof -
  have "instruction_stage (kanata_run xs) = []" using assms by (rule after_flush_empty)
  then show ?thesis using run_declared [of "kanata_run xs" "{}" ys]
    by (auto simp: kanata_run_def followed_def prev_stage_def)
qed

text \<open>Instruction 8 is in fetch when a branch takes effect; it still moves to decode, and nothing is logged of it.\<close>

theorem kanata_log_declares_witness:
  "declared {} [Cycle, Insn 9, Start 9 FETCH]
   \<and> kanata_file (kanata_run ([demo_cycle 7 False False, demo_cycle 8 True True] @ [demo_cycle 9 True False])) =
     kanata_file (kanata_run [demo_cycle 7 False False, demo_cycle 8 True True]) @ [Cycle, Insn 9, Start 9 FETCH]"
proof -
  let ?xs = "[demo_cycle 7 False False, demo_cycle 8 True True]"
  have "?xs = [] \<or> flush (last ?xs)" by (simp add: demo_cycle_def)
  from kanata_log_declares [OF this, of "[demo_cycle 9 True False]"]
  obtain es where es: "kanata_file (kanata_run (?xs @ [demo_cycle 9 True False])) = kanata_file (kanata_run ?xs) @ es" "declared {} es" by blast
  have "kanata_file (kanata_run (?xs @ [demo_cycle 9 True False])) = kanata_file (kanata_run ?xs) @ [Cycle, Insn 9, Start 9 FETCH]"
    by (simp add: kanata_run_def print_kanata_def init_kanata_def demo_cycle_def stage_events_def stage_update_def
        enter_events_def set_stage_def prev_stage_def Let_def flush_events_def)
  with es show ?thesis by simp
qed

end
