(* ===== verification/Sim_Main.thy ===== *)
theory Sim_Main
  imports Sim_Elf Sim_Kanata
begin

text \<open>
  The main program of the simulator (\<^verbatim>\<open>simulator/sim_main.cpp\<close>). The Verilated model of the core is a
  parameter: \<open>eval clk rstn\<close> is its evaluation after the two inputs are set, \<open>commit_valid\<close> its
  output of that name and \<open>got_finish\<close> Verilator's flag. The waveform dump and the two
  floating-point ratios of the summary are left out. The loop may run forever, so it is a partial
  function.
\<close>

record 'top sim_state =
  vtop :: 'top
  cycles_without_commit :: "32 word"
  total_cycles :: "32 word"
  commited_instructions :: "32 word"
  main_time :: "64 word"

text \<open>The reset: 11 evaluations with the clock toggling from 0.\<close>

definition sim_reset :: "(bool \<Rightarrow> bool \<Rightarrow> 'top \<Rightarrow> 'top) \<Rightarrow> 'top \<Rightarrow> 'top sim_state" where
  "sim_reset eval t =
     (let (clk, t, time) = c_for 0 11 1 (\<lambda>i (clk, t, time). (\<not> clk, eval (\<not> clk) False t, time + 1)) (False, t, 0)
      in \<lparr> vtop = t, cycles_without_commit = 0, total_cycles = 0, commited_instructions = 0, main_time = time \<rparr>)"

text \<open>One iteration of the main loop: both clock phases, with the commit sampled in the low one.\<close>

definition sim_cycle :: "(bool \<Rightarrow> bool \<Rightarrow> 'top \<Rightarrow> 'top) \<Rightarrow> ('top \<Rightarrow> bool) \<Rightarrow> 'top sim_state \<Rightarrow> 'top sim_state" where
  "sim_cycle eval commit_valid s =
     (let t = eval False True (vtop s);
          c = commit_valid t
      in \<lparr> vtop = eval True True t,
           cycles_without_commit = (if c then 0 else cycles_without_commit s + 1),
           total_cycles = total_cycles s + 1,
           commited_instructions = (if c then commited_instructions s + 1 else commited_instructions s),
           main_time = main_time s + 2 \<rparr>)"

partial_function (option) sim_loop ::
  "(bool \<Rightarrow> bool \<Rightarrow> 'top \<Rightarrow> 'top) \<Rightarrow> ('top \<Rightarrow> bool) \<Rightarrow> ('top \<Rightarrow> bool) \<Rightarrow> 'top sim_state \<Rightarrow> 'top sim_state option" where
  "sim_loop eval commit_valid got_finish s =
     (if \<not> got_finish (vtop s) \<and> cycles_without_commit s \<le> 100
      then sim_loop eval commit_valid got_finish (sim_cycle eval commit_valid s)
      else Some s)"

definition killed_msg :: string where
  "killed_msg = ''[sim] Execution killed for more than 100 cycles without commiting instructions'' @ newline"

definition sim_summary :: "'top sim_state \<Rightarrow> string" where
  "sim_summary s =
     ''[sim] Finished at cycle '' @ dec_str (uint (main_time s div 2)) @ newline
     @ ''[sim] Total cycles: '' @ dec_str (uint (total_cycles s)) @ newline
     @ ''[sim] Committed instructions: '' @ dec_str (uint (commited_instructions s)) @ newline"

definition sim_end_msg :: "'top sim_state \<Rightarrow> string" where
  "sim_end_msg s = (if cycles_without_commit s \<ge> 100 then killed_msg else [])"

text \<open>
  \<^verbatim>\<open>main\<close> with its arguments after the program name and the contents of the named file (\<open>None\<close>: it
  cannot be opened): the exit status and, when the simulation ran, its final state. The memory
  the core reads is the one the loader filled, so \<open>start\<close> builds the model's initial state from it.
\<close>

definition sim_main ::
  "(bool \<Rightarrow> bool \<Rightarrow> 'top \<Rightarrow> 'top) \<Rightarrow> ('top \<Rightarrow> bool) \<Rightarrow> ('top \<Rightarrow> bool) \<Rightarrow> (sim_mem \<Rightarrow> 'top)
    \<Rightarrow> (nat \<Rightarrow> byte) \<Rightarrow> string list \<Rightarrow> byte list option \<Rightarrow> (int \<times> 'top sim_state option) option" where
  "sim_main eval commit_valid got_finish start slack args file =
     (case args of
        [] \<Rightarrow> Some (1, None)
      | path # _ \<Rightarrow>
          Option.bind (load_elf slack file sim_mem_start) (\<lambda>(ok, m).
            if \<not> ok then Some (1, None)
            else map_option (\<lambda>s. (0, Some s)) (sim_loop eval commit_valid got_finish (sim_reset eval (start m)))))"

subsection \<open>The loop as an iteration\<close>

lemma sim_loop_stop: "got_finish (vtop s) \<or> 100 < cycles_without_commit s \<Longrightarrow> sim_loop eval cv got_finish s = Some s"
  by (subst sim_loop.simps) auto

lemma sim_loop_go:
  "\<not> got_finish (vtop s) \<Longrightarrow> cycles_without_commit s \<le> 100 \<Longrightarrow>
    sim_loop eval cv got_finish s = sim_loop eval cv got_finish (sim_cycle eval cv s)"
  by (subst sim_loop.simps) simp

definition sim_stops :: "('top \<Rightarrow> bool) \<Rightarrow> 'top sim_state \<Rightarrow> bool" where
  "sim_stops got_finish s \<longleftrightarrow> got_finish (vtop s) \<or> 100 < cycles_without_commit s"

lemma sim_loop_iterate:
  "sim_stops gf ((sim_cycle eval cv ^^ n) s) \<Longrightarrow> (\<And>k. k < n \<Longrightarrow> \<not> sim_stops gf ((sim_cycle eval cv ^^ k) s)) \<Longrightarrow>
    sim_loop eval cv gf s = Some ((sim_cycle eval cv ^^ n) s)"
proof (induction n arbitrary: s)
  case 0
  then show ?case by (simp add: sim_stops_def sim_loop_stop)
next
  case (Suc n)
  have "\<not> sim_stops gf s" using Suc.prems(2) [of 0] by simp
  then have "sim_loop eval cv gf s = sim_loop eval cv gf (sim_cycle eval cv s)"
    by (simp add: sim_stops_def sim_loop_go not_less)
  also have "\<dots> = Some ((sim_cycle eval cv ^^ n) (sim_cycle eval cv s))"
    using Suc.prems(1) Suc.prems(2) [of "Suc k" for k] by (intro Suc.IH) (simp_all add: funpow_swap1)
  finally show ?case by (simp add: funpow_swap1)
qed

lemma sim_loop_result:
  assumes "sim_loop eval cv gf s = Some s'"
  shows "\<exists>n. s' = (sim_cycle eval cv ^^ n) s \<and> sim_stops gf s'
    \<and> (\<forall>k < n. \<not> sim_stops gf ((sim_cycle eval cv ^^ k) s))"
proof (rule sim_loop.raw_induct [where P = "\<lambda>eval cv gf s s'. \<exists>n. s' = (sim_cycle eval cv ^^ n) s \<and> sim_stops gf s'
    \<and> (\<forall>k < n. \<not> sim_stops gf ((sim_cycle eval cv ^^ k) s))", OF _ assms])
  fix loop eval cv gf s s'
  assume 1: "\<And>eval cv gf s y. loop eval cv gf s = Some y \<Longrightarrow> \<exists>n. y = (sim_cycle eval cv ^^ n) s \<and> sim_stops gf y
      \<and> (\<forall>k < n. \<not> sim_stops gf ((sim_cycle eval cv ^^ k) s))"
    and 2: "(if \<not> gf (vtop s) \<and> cycles_without_commit s \<le> 100 then loop eval cv gf (sim_cycle eval cv s) else Some s) = Some s'"
  show "\<exists>n. s' = (sim_cycle eval cv ^^ n) s \<and> sim_stops gf s'
      \<and> (\<forall>k < n. \<not> sim_stops gf ((sim_cycle eval cv ^^ k) s))"
  proof (cases "sim_stops gf s")
    case True
     with 2 have "s' = s" by (auto simp: sim_stops_def split: if_splits)
    with True show ?thesis by (intro exI [of _ 0]) simp
  next
    case False
    then have "loop eval cv gf (sim_cycle eval cv s) = Some s'"
      using 2 by (auto simp: sim_stops_def split: if_splits)
    from 1 [OF this] obtain n where n: "s' = (sim_cycle eval cv ^^ n) (sim_cycle eval cv s)" "sim_stops gf s'"
      "\<forall>k < n. \<not> sim_stops gf ((sim_cycle eval cv ^^ k) (sim_cycle eval cv s))" by auto
    have "\<forall>k < Suc n. \<not> sim_stops gf ((sim_cycle eval cv ^^ k) s)"
    proof (intro allI impI)
      fix k assume "k < Suc n"
      with n(3) False show "\<not> sim_stops gf ((sim_cycle eval cv ^^ k) s)"
        by (cases k) (simp_all add: funpow_swap1)
    qed
    with n show ?thesis by (intro exI [of _ "Suc n"]) (simp add: funpow_swap1)
  qed
qed

subsection \<open>The counters\<close>

lemma sim_cycle_fields:
  "vtop (sim_cycle eval cv s) = eval True True (eval False True (vtop s))"
  "cycles_without_commit (sim_cycle eval cv s) = (if cv (eval False True (vtop s)) then 0 else cycles_without_commit s + 1)"
  "total_cycles (sim_cycle eval cv s) = total_cycles s + 1"
  "commited_instructions (sim_cycle eval cv s) = (if cv (eval False True (vtop s)) then commited_instructions s + 1 else commited_instructions s)"
  "main_time (sim_cycle eval cv s) = main_time s + 2"
  by (simp_all add: sim_cycle_def Let_def)

text \<open>Whether cycle \<open>k\<close> commits, and how many of the last cycles did not.\<close>

definition commits_at :: "(bool \<Rightarrow> bool \<Rightarrow> 'top \<Rightarrow> 'top) \<Rightarrow> ('top \<Rightarrow> bool) \<Rightarrow> 'top \<Rightarrow> nat \<Rightarrow> bool" where
  "commits_at eval cv t k = cv (eval False True (((\<lambda>t. eval True True (eval False True t)) ^^ k) t))"

lemma top_iterate: "vtop ((sim_cycle eval cv ^^ k) s) = ((\<lambda>t. eval True True (eval False True t)) ^^ k) (vtop s)"
  by (induction k) (simp_all add: sim_cycle_fields)

fun idle_run :: "(nat \<Rightarrow> bool) \<Rightarrow> nat \<Rightarrow> nat" where
  "idle_run c 0 = 0"
| "idle_run c (Suc n) = (if c n then 0 else idle_run c n + 1)"

lemma counters:
  assumes "cycles_without_commit s = 0" "total_cycles s = 0" "commited_instructions s = 0"
  shows "cycles_without_commit ((sim_cycle eval cv ^^ n) s) = word_of_nat (idle_run (commits_at eval cv (vtop s)) n)
    \<and> total_cycles ((sim_cycle eval cv ^^ n) s) = word_of_nat n
    \<and> commited_instructions ((sim_cycle eval cv ^^ n) s) = word_of_nat (card {k. k < n \<and> commits_at eval cv (vtop s) k})
    \<and> main_time ((sim_cycle eval cv ^^ n) s) = main_time s + 2 * word_of_nat n"
proof (induction n)
  case (Suc n)
  let ?c = "commits_at eval cv (vtop s)"
  have "{k. k < Suc n \<and> ?c k} = (if ?c n then insert n {k. k < n \<and> ?c k} else {k. k < n \<and> ?c k})"
    by (auto simp: less_Suc_eq)
  then have "card {k. k < Suc n \<and> ?c k} = (if ?c n then Suc (card {k. k < n \<and> ?c k}) else card {k. k < n \<and> ?c k})"
    by simp
  moreover have "cv (eval False True (vtop ((sim_cycle eval cv ^^ n) s))) = ?c n"
    by (simp add: commits_at_def top_iterate)
  ultimately show ?case using Suc by (simp add: sim_cycle_fields algebra_simps)
qed (use assms in simp)

lemma idle_run_le: "idle_run c n \<le> n"
  by (induction n) auto

lemma idle_run_iff: "m \<le> n \<Longrightarrow> m \<le> idle_run c n \<longleftrightarrow> (\<forall>k. n - m \<le> k \<and> k < n \<longrightarrow> \<not> c k)"
proof (induction n arbitrary: m)
  case (Suc n)
  show ?case
  proof (cases m)
    case (Suc j)
    have "(\<forall>k. n - j \<le> k \<and> k < Suc n \<longrightarrow> \<not> c k) \<longleftrightarrow> \<not> c n \<and> (\<forall>k. n - j \<le> k \<and> k < n \<longrightarrow> \<not> c k)"
      using diff_le_self [of n j] by (auto simp: less_Suc_eq)
    with Suc Suc.IH [of j] Suc.prems show ?thesis by simp
  qed auto
qed simp

subsection \<open>When the simulation ends\<close>

text \<open>The condition on cycle numbers: the core finished, or none of the last 101 cycles committed.\<close>

definition ends_at :: "(bool \<Rightarrow> bool \<Rightarrow> 'top \<Rightarrow> 'top) \<Rightarrow> ('top \<Rightarrow> bool) \<Rightarrow> ('top \<Rightarrow> bool) \<Rightarrow> 'top \<Rightarrow> nat \<Rightarrow> bool" where
  "ends_at eval cv gf t n \<longleftrightarrow> gf (((\<lambda>t. eval True True (eval False True t)) ^^ n) t) \<or> 101 \<le> idle_run (commits_at eval cv t) n"

lemma idle_before_end: "(\<And>k. k < n \<Longrightarrow> \<not> ends_at eval cv gf t k) \<Longrightarrow> idle_run (commits_at eval cv t) n \<le> 101"
proof (cases n)
  case (Suc m)
  assume "\<And>k. k < n \<Longrightarrow> \<not> ends_at eval cv gf t k"
  with Suc have "\<not> ends_at eval cv gf t m" by simp
  with Suc show ?thesis by (auto simp: ends_at_def)
qed simp

lemma stops_iff_ends:
  assumes z: "cycles_without_commit s = 0" "total_cycles s = 0" "commited_instructions s = 0"
    and b: "\<And>k. k < n \<Longrightarrow> \<not> ends_at eval cv gf (vtop s) k"
  shows "sim_stops gf ((sim_cycle eval cv ^^ n) s) \<longleftrightarrow> ends_at eval cv gf (vtop s) n"
proof -
  let ?i = "idle_run (commits_at eval cv (vtop s)) n"
  have i: "?i \<le> 101" by (rule idle_before_end [OF b])
  have "(100 :: 32 word) < word_of_nat ?i \<longleftrightarrow> 100 < ?i"
    using i by (simp add: word_less_nat_alt unat_of_nat take_bit_nat_eq_self)
  then show ?thesis
    using counters [OF z, where eval = eval and cv = cv and n = n] by (auto simp: sim_stops_def ends_at_def top_iterate)
qed

lemma first_stop_ends:
  assumes z: "cycles_without_commit s = 0" "total_cycles s = 0" "commited_instructions s = 0"
  shows "(\<forall>k < n. \<not> sim_stops gf ((sim_cycle eval cv ^^ k) s)) \<longleftrightarrow> (\<forall>k < n. \<not> ends_at eval cv gf (vtop s) k)"
proof (induction n)
  case (Suc n)
  have "sim_stops gf ((sim_cycle eval cv ^^ n) s) \<longleftrightarrow> ends_at eval cv gf (vtop s) n" if "\<forall>k < n. \<not> ends_at eval cv gf (vtop s) k"
    using stops_iff_ends [OF z] that by blast
  with Suc show ?case by (auto simp: less_Suc_eq)
qed simp

lemma sim_loop_iff:
  assumes z: "cycles_without_commit s = 0" "total_cycles s = 0" "commited_instructions s = 0"
  shows "sim_loop eval cv gf s = Some s' \<longleftrightarrow>
    (\<exists>n. s' = (sim_cycle eval cv ^^ n) s \<and> ends_at eval cv gf (vtop s) n \<and> (\<forall>k < n. \<not> ends_at eval cv gf (vtop s) k))"
proof
  assume "sim_loop eval cv gf s = Some s'"
  from sim_loop_result [OF this] obtain n where n: "s' = (sim_cycle eval cv ^^ n) s" "sim_stops gf s'"
    "\<forall>k < n. \<not> sim_stops gf ((sim_cycle eval cv ^^ k) s)" by blast
  then have "\<forall>k < n. \<not> ends_at eval cv gf (vtop s) k" using first_stop_ends [OF z] by blast
  with n stops_iff_ends [OF z, where n = n and eval = eval and cv = cv and gf = gf] show "\<exists>n. s' = (sim_cycle eval cv ^^ n) s \<and> ends_at eval cv gf (vtop s) n
      \<and> (\<forall>k < n. \<not> ends_at eval cv gf (vtop s) k)" by blast
next
  assume "\<exists>n. s' = (sim_cycle eval cv ^^ n) s \<and> ends_at eval cv gf (vtop s) n \<and> (\<forall>k < n. \<not> ends_at eval cv gf (vtop s) k)"
  then obtain n where n: "s' = (sim_cycle eval cv ^^ n) s" "ends_at eval cv gf (vtop s) n"
    "\<forall>k < n. \<not> ends_at eval cv gf (vtop s) k" by blast
  then have "sim_stops gf ((sim_cycle eval cv ^^ n) s)" "\<forall>k < n. \<not> sim_stops gf ((sim_cycle eval cv ^^ k) s)"
    using stops_iff_ends [OF z, where n = n and eval = eval and cv = cv and gf = gf] first_stop_ends [OF z, where n = n and eval = eval and cv = cv and gf = gf] by blast+
  with n(1) sim_loop_iterate [where n = n and s = s and eval = eval and cv = cv and gf = gf] show "sim_loop eval cv gf s = Some s'" by blast
qed

lemma sim_reset_fields:
  "cycles_without_commit (sim_reset eval t) = 0" "total_cycles (sim_reset eval t) = 0"
  "commited_instructions (sim_reset eval t) = 0" "main_time (sim_reset eval t) = 11"
proof -
  have "snd (snd (fold (\<lambda>i (clk, t, time). (\<not> clk, eval (\<not> clk) False t, time + 1)) ks (b, t, x))) = x + word_of_nat (length ks)"
    for ks and x :: "64 word" and b t by (induction ks arbitrary: b t x) (simp_all add: add.assoc)
  from this [of "[0..<11]" False t 0]
  show "main_time (sim_reset eval t) = 11"
    by (auto simp: sim_reset_def c_for_1 split: prod.split)
qed (simp_all add: sim_reset_def split: prod.split)

text \<open>
  C25. The simulation loop returns exactly when the core finishes or some 101 consecutive cycles
  commit nothing, and then at the first such cycle; the summary it prints is exact: the total is
  the number of cycles, the commit count the number of committing cycles (both modulo
  \<open>2 ^ 32\<close>), and a run that is killed did go 101 cycles without a commit. A core that always
  commits again within 101 cycles and never finishes is simulated forever.
\<close>

theorem simulation_ends_iff_idle_or_finished:
  "(sim_loop eval cv gf (sim_reset eval t) = Some s') =
     (\<exists>n. s' = (sim_cycle eval cv ^^ n) (sim_reset eval t)
        \<and> ends_at eval cv gf (vtop (sim_reset eval t)) n \<and> list_all (\<lambda>k. \<not> ends_at eval cv gf (vtop (sim_reset eval t)) k) [0..<n]
        \<and> total_cycles s' = word_of_nat n
        \<and> commited_instructions s' = word_of_nat (length (filter (commits_at eval cv (vtop (sim_reset eval t))) [0..<n]))
        \<and> main_time s' = 11 + 2 * word_of_nat n
        \<and> (gf (vtop s') \<or> 101 \<le> n \<and> list_all (\<lambda>k. \<not> commits_at eval cv (vtop (sim_reset eval t)) k) [n - 101..<n]))"
proof -
  let ?s = "sim_reset eval t" and ?c = "commits_at eval cv (vtop (sim_reset eval t))"
  note z = sim_reset_fields(1-3) [of eval t]
  have card: "length (filter ?c [0..<n]) = card {k. k < n \<and> ?c k}" for n
    using distinct_card [of "filter ?c [0..<n]"] by (simp add: Collect_conj_eq Int_commute lessThan_def)
  have cnt: "total_cycles ((sim_cycle eval cv ^^ n) ?s) = word_of_nat n
      \<and> commited_instructions ((sim_cycle eval cv ^^ n) ?s) = word_of_nat (length (filter ?c [0..<n]))
      \<and> main_time ((sim_cycle eval cv ^^ n) ?s) = 11 + 2 * word_of_nat n" for n
    using counters [OF z, where eval = eval and cv = cv and n = n] by (simp add: card sim_reset_fields(4))
  have idle: "gf (vtop ((sim_cycle eval cv ^^ n) ?s)) \<or> 101 \<le> n \<and> list_all (\<lambda>k. \<not> ?c k) [n - 101..<n]"
    if "ends_at eval cv gf (vtop ?s) n" for n
    using that idle_run_le [of ?c n] idle_run_iff [of 101 n ?c]
    by (auto simp: ends_at_def top_iterate list_all_iff)
  have before: "list_all (\<lambda>k. \<not> ends_at eval cv gf (vtop ?s) k) [0..<n] = (\<forall>k < n. \<not> ends_at eval cv gf (vtop ?s) k)" for n
    by (auto simp: list_all_iff)
  show ?thesis
    unfolding sim_loop_iff [OF z, where eval = eval and cv = cv and gf = gf and s' = s'] before
    using cnt idle by (intro ex_cong1) blast
qed

end
