(* ===== verification/Vm_Pages.thy ===== *)
theory Vm_Pages
  imports C_Prelude
begin

text \<open>
  The demand-paging kernel of the virtual-memory tests (\<^verbatim>\<open>riscv-tests/env/v/vm.c\<close>, with the sizes of
  \<^verbatim>\<open>env/v/riscv_test.h\<close> and the page-table constants of \<^verbatim>\<open>env/encoding.h\<close>) in its 64-bit Sv39
  configuration. Physical memory is a map from page frames to their contents, which the code only
  copies and compares as whole pages; \<open>'p\<close> is the type of a page's contents. The kernel's own data
  (\<^verbatim>\<open>pt\<close>, \<^verbatim>\<open>user_mapping\<close>, the free list, the stack) is part of the same image: which frames hold some
  of it, what these frames contain and what writing to them does is a parameter, \<open>layout\<close>, which the
  linker and the compiler decide. (The bytes of the stack change with every call; the model only says
  that they are some function of the kernel's state, and no property depends on them.) A failed \<^verbatim>\<open>assert\<close>
  ends the program with code 3 and is the left value of a sum. The filters \<^verbatim>\<open>pf_filter\<close> and
  \<^verbatim>\<open>trap_filter\<close> are assembled into each test and are parameters.
\<close>

definition PGSIZE :: nat where "PGSIZE = 4096"
definition MAX_TEST_PAGES :: nat where "MAX_TEST_PAGES = 63"
definition DRAM_BASE :: "64 word" where "DRAM_BASE = 0x80000000"
definition PTE_V :: "64 word" where "PTE_V = 0x001"
definition PTE_R :: "64 word" where "PTE_R = 0x002"
definition PTE_W :: "64 word" where "PTE_W = 0x004"
definition PTE_X :: "64 word" where "PTE_X = 0x008"
definition PTE_U :: "64 word" where "PTE_U = 0x010"
definition PTE_A :: "64 word" where "PTE_A = 0x040"
definition PTE_D :: "64 word" where "PTE_D = 0x080"
definition PTE_PPN_SHIFT :: nat where "PTE_PPN_SHIFT = 10"
definition PGSHIFT :: nat where "PGSHIFT = 12"
definition CAUSE_ILLEGAL_INSTRUCTION :: "64 word" where "CAUSE_ILLEGAL_INSTRUCTION = 0x2"
definition CAUSE_USER_ECALL :: "64 word" where "CAUSE_USER_ECALL = 0x8"
definition CAUSE_FETCH_PAGE_FAULT :: "64 word" where "CAUSE_FETCH_PAGE_FAULT = 0xc"
definition CAUSE_LOAD_PAGE_FAULT :: "64 word" where "CAUSE_LOAD_PAGE_FAULT = 0xd"
definition CAUSE_STORE_PAGE_FAULT :: "64 word" where "CAUSE_STORE_PAGE_FAULT = 0xf"

lemmas pte_bits = PTE_V_def PTE_R_def PTE_W_def PTE_X_def PTE_U_def PTE_A_def PTE_D_def

subsection \<open>The state\<close>

text \<open>A pointer to an element of \<^verbatim>\<open>freelist_nodes\<close> or of \<^verbatim>\<open>user_mapping\<close>; null is \<open>None\<close> of an option.\<close>

datatype node_ref = FNode nat | UNode nat

record freelist_t =
  addr :: "64 word"
  "next" :: "node_ref option"

record 'p vm =
  user_llpt :: "nat \<Rightarrow> 64 word"
  user_mapping :: "nat \<Rightarrow> freelist_t"
  freelist_nodes :: "nat \<Rightarrow> freelist_t"
  freelist_head :: "node_ref option"
  freelist_tail :: "node_ref option"
  phys :: "64 word \<Rightarrow> 'p"

type_synonym 'p vm_result = "'p vm + 'p vm"

fun node_at :: "'p vm \<Rightarrow> node_ref \<Rightarrow> freelist_t" where
  "node_at v (FNode i) = freelist_nodes v i"
| "node_at v (UNode i) = user_mapping v i"

fun set_next :: "node_ref \<Rightarrow> node_ref option \<Rightarrow> 'p vm \<Rightarrow> 'p vm" where
  "set_next (FNode i) n v = v\<lparr> freelist_nodes := (freelist_nodes v)(i := (freelist_nodes v i)\<lparr> next := n \<rparr>) \<rparr>"
| "set_next (UNode i) n v = v\<lparr> user_mapping := (user_mapping v)(i := (user_mapping v i)\<lparr> next := n \<rparr>) \<rparr>"

text \<open>
  Frames that hold data of the kernel: their contents depend on the state of the kernel, and a copy to
  them changes it. Every access to physical memory goes through \<open>pread\<close> and \<open>pwrite\<close>.
\<close>

record 'p layout =
  kernel_frame :: "64 word \<Rightarrow> bool"
  kernel_page :: "64 word \<Rightarrow> 'p vm \<Rightarrow> 'p"
  kernel_poke :: "64 word \<Rightarrow> 'p \<Rightarrow> 'p vm \<Rightarrow> 'p vm"

definition pread :: "'p layout \<Rightarrow> 'p vm \<Rightarrow> 64 word \<Rightarrow> 'p" where
  "pread L v f = (if kernel_frame L f then kernel_page L f v else phys v f)"

definition pwrite :: "'p layout \<Rightarrow> 64 word \<Rightarrow> 'p \<Rightarrow> 'p vm \<Rightarrow> 'p vm" where
  "pwrite L f p v = (if kernel_frame L f then kernel_poke L f p v else v\<lparr> phys := (phys v)(f := p) \<rparr>)"

text \<open>The frame a leaf entry points to (the hardware's field), and the frame of a kernel page \<^verbatim>\<open>uva2kva\<close> reaches.\<close>

definition ppn :: "64 word \<Rightarrow> 64 word" where
  "ppn pte = take_bit 44 (drop_bit PTE_PPN_SHIFT pte)"

definition home :: "nat \<Rightarrow> 64 word" where
  "home k = drop_bit PGSHIFT DRAM_BASE + word_of_nat k"

definition addr_ok :: "64 word \<Rightarrow> bool" where
  "addr_ok a \<longleftrightarrow> PGSIZE \<le> unat a \<and> unat a < MAX_TEST_PAGES * PGSIZE"

definition page_of :: "64 word \<Rightarrow> nat" where
  "page_of a = unat a div PGSIZE"

subsection \<open>evict\<close>

definition evict :: "'p layout \<Rightarrow> 64 word \<Rightarrow> 'p::equal vm \<Rightarrow> 'p vm_result" where
  "evict L a v =
     (if \<not> addr_ok a then Inl v
      else
       (let k = page_of a; pte = user_llpt v k
        in if addr (user_mapping v k) = 0 then Inr v
           else if pte AND PTE_A = 0 then Inl v
           else if pread L v (ppn pte) \<noteq> pread L v (home k) \<and> pte AND PTE_D = 0 then Inl v
           else
             (let v = (if pread L v (ppn pte) \<noteq> pread L v (home k)
                       then pwrite L (home k) (pread L v (ppn pte)) v else v);
                  v = v\<lparr> user_mapping := (user_mapping v)(k := (user_mapping v k)\<lparr> addr := 0 \<rparr>) \<rparr>
              in case freelist_tail v of
                   None \<Rightarrow> Inr (v\<lparr> freelist_head := Some (UNode k), freelist_tail := Some (UNode k) \<rparr>)
                 | Some t \<Rightarrow> Inr ((set_next t (Some (UNode k)) v)\<lparr> freelist_tail := Some (UNode k) \<rparr>))))"

subsection \<open>handle_fault\<close>

text \<open>\<open>pf_filter a\<close> is the encoding the filter stores when it returns non-zero, and \<open>None\<close> otherwise.\<close>

definition new_pte :: "(64 word \<Rightarrow> 64 word option) \<Rightarrow> 64 word \<Rightarrow> 64 word \<Rightarrow> 64 word" where
  "new_pte pf_filter a frame =
     push_bit PTE_PPN_SHIFT (drop_bit PGSHIFT frame) OR
       (case pf_filter a of None \<Rightarrow> PTE_V OR PTE_U OR PTE_R OR PTE_W OR PTE_X | Some enc \<Rightarrow> enc)"

definition handle_fault :: "'p layout \<Rightarrow> (64 word \<Rightarrow> 64 word option) \<Rightarrow> 64 word \<Rightarrow> 64 word \<Rightarrow> 'p vm \<Rightarrow> 'p vm_result" where
  "handle_fault L pf_filter a cause v =
     (if \<not> addr_ok a then Inl v
      else
       (let k = page_of a; a = word_of_nat (k * PGSIZE); pte = user_llpt v k
        in if pte \<noteq> 0 then
             (if pte AND PTE_A = 0 then Inr (v\<lparr> user_llpt := (user_llpt v)(k := pte OR PTE_A) \<rparr>)
              else if \<not> (pte AND PTE_D = 0 \<and> cause = CAUSE_STORE_PAGE_FAULT) then Inl v
              else Inr (v\<lparr> user_llpt := (user_llpt v)(k := pte OR PTE_D) \<rparr>))
           else
             (case freelist_head v of
                None \<Rightarrow> Inl v
              | Some node \<Rightarrow>
                 (let head = next (node_at v node);
                      v = v\<lparr> freelist_head := head, freelist_tail := (if head = freelist_tail v then None else freelist_tail v) \<rparr>;
                      pte = new_pte pf_filter a (addr (node_at v node));
                      v = v\<lparr> user_llpt := (user_llpt v)(k := pte OR PTE_A OR PTE_D) \<rparr>
                  in if addr (user_mapping v k) \<noteq> 0 then Inl v
                     else
                       (let v = v\<lparr> user_mapping := (user_mapping v)(k := node_at v node) \<rparr>;
                            v = pwrite L (ppn (user_llpt v k)) (pread L v (home k)) v
                        in Inr (v\<lparr> user_llpt := (user_llpt v)(k := pte) \<rparr>))))))"

subsection \<open>handle_trap\<close>

record trapframe_t =
  gpr :: "nat \<Rightarrow> 64 word"
  epc :: "64 word"
  badvaddr :: "64 word"
  cause :: "64 word"

datatype 'p trap_result = Terminate "64 word" "'p vm" | Pop_tf trapframe_t "'p vm"

definition evict_iter :: "'p layout \<Rightarrow> nat \<Rightarrow> 'p::equal vm_result \<Rightarrow> 'p vm_result" where
  "evict_iter L i r = (case r of Inl w \<Rightarrow> Inl w | Inr w \<Rightarrow> evict L (word_of_nat (i * PGSIZE)) w)"

definition evict_all :: "'p layout \<Rightarrow> 'p::equal vm \<Rightarrow> 'p vm_result" where
  "evict_all L v = c_for 1 MAX_TEST_PAGES 1 (evict_iter L) (Inr v)"

text \<open>
  \<open>insn_at\<close> is the instruction word the kernel reads at an address, \<open>fssr\<close> the word the test for
  floating-point hardware compares with.
\<close>

definition handle_trap ::
  "'p layout \<Rightarrow> (trapframe_t \<Rightarrow> bool) \<Rightarrow> (64 word \<Rightarrow> 64 word option) \<Rightarrow> (64 word \<Rightarrow> c_int) \<Rightarrow> c_int \<Rightarrow> trapframe_t \<Rightarrow> 'p::equal vm \<Rightarrow> 'p trap_result" where
  "handle_trap L trap_filter pf_filter insn_at fssr tf v =
     (if trap_filter tf then Pop_tf tf v
      else if cause tf = CAUSE_USER_ECALL then
        (case evict_all L v of Inl w \<Rightarrow> Terminate 3 w | Inr w \<Rightarrow> Terminate (scast (ucast (gpr tf 10) :: c_int)) w)
      else if cause tf = CAUSE_ILLEGAL_INSTRUCTION then
        (if unat (epc tf) mod 4 \<noteq> 0 then Terminate 3 v
         else if insn_at (epc tf) = fssr then Terminate 1 v
         else Terminate 3 v)
      else if cause tf = CAUSE_FETCH_PAGE_FAULT \<or> cause tf = CAUSE_LOAD_PAGE_FAULT \<or> cause tf = CAUSE_STORE_PAGE_FAULT then
        (case handle_fault L pf_filter (badvaddr tf) (cause tf) v of Inl w \<Rightarrow> Terminate 3 w | Inr w \<Rightarrow> Pop_tf tf w)
      else Terminate 3 v)"

subsection \<open>The free list built at boot\<close>

definition LFSR_NEXT :: "nat \<Rightarrow> nat" where
  "LFSR_NEXT x = push_bit 5 ((x XOR drop_bit 1 x) AND 1) OR drop_bit 1 x"

definition boot_random :: "64 word \<Rightarrow> nat" where
  "boot_random entropy = 1 + unat entropy mod MAX_TEST_PAGES"

text \<open>The loop assigns node \<open>i\<close> and steps the generator; the last node then ends the list.\<close>

definition boot_nodes :: "64 word \<Rightarrow> (nat \<Rightarrow> freelist_t) \<Rightarrow> nat \<Rightarrow> freelist_t" where
  "boot_nodes entropy nodes =
     (let (random, nodes) = c_for 0 MAX_TEST_PAGES 1
            (\<lambda>i (random, nodes). (LFSR_NEXT random,
               nodes(i := \<lparr> addr = DRAM_BASE + word_of_nat ((MAX_TEST_PAGES + random) * PGSIZE), next = Some (FNode (i + 1)) \<rparr>)))
            (boot_random entropy, nodes)
      in nodes(MAX_TEST_PAGES - 1 := (nodes (MAX_TEST_PAGES - 1))\<lparr> next := None \<rparr>))"

text \<open>The paging state after \<^verbatim>\<open>vm_boot\<close>: statics start as zero.\<close>

definition vm_boot_pages :: "64 word \<Rightarrow> (64 word \<Rightarrow> 'p) \<Rightarrow> 'p vm" where
  "vm_boot_pages entropy mem =
     \<lparr> user_llpt = (\<lambda>_. 0), user_mapping = (\<lambda>_. \<lparr> addr = 0, next = None \<rparr>),
       freelist_nodes = boot_nodes entropy (\<lambda>_. \<lparr> addr = 0, next = None \<rparr>),
       freelist_head = Some (FNode 0), freelist_tail = Some (FNode (MAX_TEST_PAGES - 1)), phys = mem \<rparr>"

subsection \<open>The generator has period 63\<close>

text \<open>The orbit of 1.\<close>

fun lfsr_orbit :: "nat \<Rightarrow> nat \<Rightarrow> nat list" where
  "lfsr_orbit 0 x = []"
| "lfsr_orbit (Suc n) x = x # lfsr_orbit n (LFSR_NEXT x)"

lemma lfsr_orbit_nth: "i < n \<Longrightarrow> lfsr_orbit n x ! i = (LFSR_NEXT ^^ i) x"
  by (induction n x arbitrary: i rule: lfsr_orbit.induct) (auto simp: less_Suc_eq_0_disj funpow_swap1)

lemma lfsr_orbit_length [simp]: "length (lfsr_orbit n x) = n"
  by (induction n x rule: lfsr_orbit.induct) auto

lemma lfsr_orbit_one:
  "lfsr_orbit 64 1 = [1, 32, 16, 8, 4, 2, 33, 48, 24, 12, 6, 35, 17, 40, 20, 10, 37, 50, 57, 60, 30, 47, 23, 11, 5, 34, 49, 56, 28, 14, 39, 19,
     9, 36, 18, 41, 52, 26, 45, 54, 59, 29, 46, 55, 27, 13, 38, 51, 25, 44, 22, 43, 21, 42, 53, 58, 61, 62, 63, 31, 15, 7, 3, 1]"
  by (simp add: numeral_eq_Suc) (simp add: LFSR_NEXT_def)

lemma lfsr_orbit_butlast: "distinct (butlast (lfsr_orbit 64 1))" "set (butlast (lfsr_orbit 64 1)) = {1..63}"
proof -
  show d: "distinct (butlast (lfsr_orbit 64 1))" unfolding lfsr_orbit_one by simp
  show "set (butlast (lfsr_orbit 64 1)) = {1..63}"
  proof (rule card_seteq)
    show "set (butlast (lfsr_orbit 64 1)) \<subseteq> {1..63}" unfolding lfsr_orbit_one by simp
    show "card {1..63 :: nat} \<le> card (set (butlast (lfsr_orbit 64 1)))" using distinct_card [OF d] by simp
  qed simp
qed

lemma lfsr_one_nth: "i < 64 \<Longrightarrow> (LFSR_NEXT ^^ i) 1 = lfsr_orbit 64 1 ! i"
  by (simp add: lfsr_orbit_nth)

lemma lfsr_one_period: "(LFSR_NEXT ^^ 63) 1 = 1"
  by (subst lfsr_one_nth, simp, subst lfsr_orbit_one) simp

lemma lfsr_one_distinct: "i < 63 \<Longrightarrow> j < 63 \<Longrightarrow> (LFSR_NEXT ^^ i) 1 = (LFSR_NEXT ^^ j) 1 \<Longrightarrow> i = j"
  using nth_eq_iff_index_eq [OF lfsr_orbit_butlast(1), of i j] lfsr_one_nth [of i] lfsr_one_nth [of j]
  by (simp add: nth_butlast)

lemma lfsr_one_mod: "(LFSR_NEXT ^^ n) 1 = (LFSR_NEXT ^^ (n mod 63)) 1"
  using funpow_mod_eq [OF lfsr_one_period, of n] by simp

lemma lfsr_one_onto: "1 \<le> r \<Longrightarrow> r \<le> 63 \<Longrightarrow> \<exists>j < 63. r = (LFSR_NEXT ^^ j) 1"
proof -
  assume "1 \<le> r" "r \<le> 63"
  then have "r \<in> set (butlast (lfsr_orbit 64 1))" using lfsr_orbit_butlast(2) by simp
  then obtain j where "j < 63" "r = lfsr_orbit 64 1 ! j" by (auto simp: in_set_conv_nth nth_butlast)
  then show ?thesis using lfsr_one_nth [of j] by auto
qed

lemma lfsr_one_range: "1 \<le> (LFSR_NEXT ^^ n) 1 \<and> (LFSR_NEXT ^^ n) 1 \<le> 63"
proof -
  have "n mod 63 < 63" by simp
  then have "lfsr_orbit 64 1 ! (n mod 63) \<in> set (butlast (lfsr_orbit 64 1))"
    using nth_mem [of "n mod 63" "butlast (lfsr_orbit 64 1)"] by (simp add: nth_butlast)
  then show ?thesis
    using lfsr_orbit_butlast(2) lfsr_one_mod [of n] lfsr_one_nth [of "n mod 63"] by simp
qed

text \<open>From any start value, 63 steps visit 63 different values.\<close>

lemma lfsr_range: "1 \<le> r \<Longrightarrow> r \<le> 63 \<Longrightarrow> 1 \<le> (LFSR_NEXT ^^ i) r \<and> (LFSR_NEXT ^^ i) r \<le> 63"
proof -
  assume "1 \<le> r" "r \<le> 63"
  then obtain j where "r = (LFSR_NEXT ^^ j) 1" using lfsr_one_onto by blast
  then show ?thesis using lfsr_one_range [of "i + j"] by (simp add: funpow_add)
qed

lemma lfsr_distinct:
  assumes "1 \<le> r" "r \<le> 63" "a < 63" "b < 63" "(LFSR_NEXT ^^ a) r = (LFSR_NEXT ^^ b) r"
  shows "a = b"
proof -
  obtain j where j: "r = (LFSR_NEXT ^^ j) 1" using lfsr_one_onto assms(1,2) by blast
  have "(LFSR_NEXT ^^ (a + j)) 1 = (LFSR_NEXT ^^ (b + j)) 1"
    using assms(5) unfolding j by (simp only: funpow_add comp_apply)
  then have "(LFSR_NEXT ^^ ((a + j) mod 63)) 1 = (LFSR_NEXT ^^ ((b + j) mod 63)) 1"
    by (simp only: lfsr_one_mod [of "a + j", symmetric] lfsr_one_mod [of "b + j", symmetric])
  moreover have "(a + j) mod 63 < 63" "(b + j) mod 63 < 63" by simp_all
  ultimately have m: "(a + j) mod 63 = (b + j) mod 63" using lfsr_one_distinct by blast
  have le: "x \<le> y" if "x < 63" "(x + j) mod 63 = (y + j) mod 63" for x y
  proof (rule ccontr)
    assume "\<not> x \<le> y"
    then have l: "y < x" by simp
    then have "63 dvd (x + j) - (y + j)"
      by (intro mod_eq_dvd_iff_nat [THEN iffD1, OF _ that(2)]) simp
    then have "63 dvd x - y" by (simp only: diff_cancel2)
    with l that(1) show False by (auto dest: dvd_imp_le)
  qed
  show ?thesis using le [OF assms(3) m] le [OF assms(4) m [symmetric]] by simp
qed

subsection \<open>The boot free list\<close>

definition frame_no :: "64 word \<Rightarrow> nat \<Rightarrow> nat" where
  "frame_no entropy i = 0x80000 + 63 + (LFSR_NEXT ^^ i) (boot_random entropy)"

lemma boot_random_range: "1 \<le> boot_random e \<and> boot_random e \<le> 63"
proof -
  have "unat e mod 63 < 63" by simp
  then show ?thesis unfolding boot_random_def MAX_TEST_PAGES_def by linarith
qed

lemma frame_no_range: "0x80040 \<le> frame_no e i \<and> frame_no e i \<le> 0x8007E"
  using lfsr_range [of "boot_random e" i] boot_random_range [of e] by (simp add: frame_no_def)

lemma frame_no_inject: "a < 63 \<Longrightarrow> b < 63 \<Longrightarrow> frame_no e a = frame_no e b \<longleftrightarrow> a = b"
  using lfsr_distinct [of "boot_random e" a b] boot_random_range [of e] by (auto simp: frame_no_def)

lemma boot_loop:
  "fold (\<lambda>i (random, nodes). (LFSR_NEXT random, nodes(i := g i random))) [0..<n] (r, nodes)
     = ((LFSR_NEXT ^^ n) r, (\<lambda>i. if i < n then g i ((LFSR_NEXT ^^ i) r) else nodes i))"
  by (induction n) (auto simp: fun_eq_iff less_Suc_eq)

lemma boot_addr: "DRAM_BASE + word_of_nat ((MAX_TEST_PAGES + (LFSR_NEXT ^^ i) (boot_random e)) * PGSIZE)
    = word_of_nat (frame_no e i * 4096)"
  by (simp add: DRAM_BASE_def MAX_TEST_PAGES_def PGSIZE_def frame_no_def algebra_simps)

lemma boot_nodes_at:
  "i < 63 \<Longrightarrow> boot_nodes e nodes i = \<lparr> addr = word_of_nat (frame_no e i * 4096), next = (if i < 62 then Some (FNode (Suc i)) else None) \<rparr>"
  unfolding boot_nodes_def c_for_1 [folded One_nat_def] boot_loop [of "\<lambda>i r. \<lparr> addr = DRAM_BASE + word_of_nat ((MAX_TEST_PAGES + r) * PGSIZE), next = Some (FNode (i + 1)) \<rparr>"]
  using boot_addr [of i e] by (auto simp: MAX_TEST_PAGES_def)

subsection \<open>Leaf entries\<close>

text \<open>An entry of frame \<open>f\<close> with the default permissions, accessed and dirty as given.\<close>

definition leaf :: "nat \<Rightarrow> bool \<Rightarrow> bool \<Rightarrow> 64 word" where
  "leaf f a d = push_bit 10 (word_of_nat f) OR 0x1F OR (if a then PTE_A else 0) OR (if d then PTE_D else 0)"

lemma low_and: "c AND mask 10 = c \<Longrightarrow> push_bit 10 (w :: 64 word) AND c = 0"
proof -
  assume c: "c AND mask 10 = c"
  have "push_bit 10 w AND mask 10 = 0" by (rule word_eq_by_bits) (simp add: bit_simps)
  then have "push_bit 10 w AND (mask 10 AND c) = 0" by (simp add: and.assoc [symmetric])
  then show ?thesis using c by (simp add: and.commute)
qed

lemma leaf_A: "leaf f a d AND PTE_A = 0 \<longleftrightarrow> \<not> a"
  and leaf_D: "leaf f a d AND PTE_D = 0 \<longleftrightarrow> \<not> d"
  by (simp_all add: leaf_def bit.conj_disj_distrib2 low_and pte_bits mask_eq_exp_minus_1)

lemma leaf_V: "leaf f a d AND PTE_V \<noteq> 0" "leaf f a d AND PTE_R \<noteq> 0" "leaf f a d AND PTE_W \<noteq> 0" "leaf f a d AND PTE_U \<noteq> 0"
  by (simp_all add: leaf_def bit.conj_disj_distrib2 low_and pte_bits mask_eq_exp_minus_1)

lemma leaf_nonzero [simp]: "leaf f a d \<noteq> 0"
  using leaf_V(1) by (metis and_zero_eq and.commute)

lemma leaf_set_A: "leaf f a d OR PTE_A = leaf f True d"
  and leaf_set_D: "leaf f a d OR PTE_D = leaf f a True"
  by (cases a; cases d; simp add: leaf_def pte_bits or.assoc)+

lemma ppn_entry:
  assumes "f < 2 ^ 44" "drop_bit 10 c = 0"
  shows "ppn (push_bit 10 (word_of_nat f) OR c) = word_of_nat f"
proof -
  have t: "take_bit 44 (word_of_nat f :: 64 word) = word_of_nat f"
    using assms(1) by (simp add: take_bit_of_nat take_bit_nat_eq_self)
  have "drop_bit 10 (push_bit 10 (word_of_nat f) OR c) = drop_bit 10 (push_bit 10 (word_of_nat f))"
    using assms(2) by (simp add: drop_bit_or)
  also have "\<dots> = take_bit 54 (word_of_nat f)"
    by (rule word_eq_by_bits) (auto simp: bit_simps)
  finally have "ppn (push_bit 10 (word_of_nat f) OR c) = take_bit 44 (take_bit 54 (word_of_nat f))"
    by (simp add: ppn_def PTE_PPN_SHIFT_def)
  with t show ?thesis by simp
qed

lemma ppn_leaf: "f < 2 ^ 44 \<Longrightarrow> ppn (leaf f a d) = word_of_nat f"
  unfolding leaf_def or.assoc by (rule ppn_entry) (simp_all add: drop_bit_or pte_bits)

lemma frame_of_address: "f < 2 ^ 52 \<Longrightarrow> drop_bit 12 (word_of_nat (f * 4096) :: 64 word) = word_of_nat f"
proof -
  assume f: "f < 2 ^ 52"
  then have u: "unat (word_of_nat (f * 4096) :: 64 word) = f * 4096"
    by (simp add: unat_of_nat take_bit_nat_eq_self del: of_nat_mult)
  have v: "unat (drop_bit 12 (word_of_nat (f * 4096) :: 64 word)) = f"
    unfolding unat_drop_bit_eq u by (simp add: drop_bit_eq_div)
  have "unat (word_of_nat f :: 64 word) = f" using f by (simp add: unat_of_nat take_bit_nat_eq_self)
  with v show ?thesis by (simp only: word_unat_eq_iff)
qed

lemma new_pte_leaf:
  "f < 2 ^ 44 \<Longrightarrow> new_pte (\<lambda>_. None) a (word_of_nat (f * 4096)) = leaf f False False"
  using frame_of_address [of f] by (simp add: new_pte_def leaf_def PGSHIFT_def PTE_PPN_SHIFT_def pte_bits or.assoc)

subsection \<open>Frames\<close>

abbreviation frame :: "64 word \<Rightarrow> nat \<Rightarrow> 64 word" where
  "frame e i \<equiv> word_of_nat (frame_no e i)"

lemma of_nat_inject_64: "a < 2 ^ 64 \<Longrightarrow> b < 2 ^ 64 \<Longrightarrow> (word_of_nat a :: 64 word) = word_of_nat b \<longleftrightarrow> a = b"
  by (simp add: word_unat_eq_iff unat_of_nat take_bit_nat_eq_self)

lemma home_no: "home k = word_of_nat (0x80000 + k)"
  by (simp add: home_def DRAM_BASE_def PGSHIFT_def)

lemma home_inject: "k < 63 \<Longrightarrow> j < 63 \<Longrightarrow> home k = home j \<longleftrightarrow> k = j"
  unfolding home_no by (subst of_nat_inject_64) simp_all

lemma frame_not_home: "k < 63 \<Longrightarrow> frame e i \<noteq> home k"
  unfolding home_no using frame_no_range [of e i] by (subst of_nat_inject_64) simp_all

lemma frame_inject: "a < 63 \<Longrightarrow> b < 63 \<Longrightarrow> frame e a = frame e b \<longleftrightarrow> a = b"
  using frame_no_range [of e a] frame_no_range [of e b] frame_no_inject [of a b e]
  by (subst of_nat_inject_64) simp_all

lemma ppn_frame [simp]: "ppn (leaf (frame_no e i) a d) = frame e i"
  using frame_no_range [of e i] by (intro ppn_leaf) simp

lemma frame_addr_nonzero: "(word_of_nat (frame_no e i * 4096) :: 64 word) \<noteq> 0"
proof -
  have "(word_of_nat (frame_no e i * 4096) :: 64 word) \<noteq> word_of_nat 0"
    using frame_no_range [of e i] by (subst of_nat_inject_64) simp_all
  then show ?thesis by simp
qed

subsection \<open>The invariant\<close>

text \<open>
  The pages of the user program: their frames hold no data of the kernel, and neither do the frames
  of the free list.
\<close>

definition user_pages :: "'p layout \<Rightarrow> nat set" where
  "user_pages L = {k. 1 \<le> k \<and> k < 63 \<and> \<not> kernel_frame L (home k)}"

definition free_frames_clear :: "'p layout \<Rightarrow> bool" where
  "free_frames_clear L \<longleftrightarrow> (\<forall>f. 0x80040 \<le> f \<and> f \<le> 0x8007E \<longrightarrow> \<not> kernel_frame L (word_of_nat f))"

lemma pread_frame: "free_frames_clear L \<Longrightarrow> pread L v (frame e i) = phys v (frame e i)"
  and pwrite_frame: "free_frames_clear L \<Longrightarrow> pwrite L (frame e i) p v = v\<lparr> phys := (phys v)(frame e i := p) \<rparr>"
  using frame_no_range [of e i] by (simp_all add: pread_def pwrite_def free_frames_clear_def)

lemma pread_home: "k \<in> user_pages L \<Longrightarrow> pread L v (home k) = phys v (home k)"
  and pwrite_home: "k \<in> user_pages L \<Longrightarrow> pwrite L (home k) p v = v\<lparr> phys := (phys v)(home k := p) \<rparr>"
  by (simp_all add: pread_def pwrite_def user_pages_def)

lemma user_pages_range: "k \<in> user_pages L \<Longrightarrow> 1 \<le> k" "k \<in> user_pages L \<Longrightarrow> k < 63"
  by (simp_all add: user_pages_def)

text \<open>
  \<open>u\<close> is the memory the user program sees, \<open>s\<close> the free-list node each mapped page took. \<open>B\<close> are
  the pages that may be mapped and not yet accessed.
\<close>

definition page_ok :: "64 word \<Rightarrow> bool \<Rightarrow> 'p vm \<Rightarrow> (nat \<Rightarrow> 'p) \<Rightarrow> (nat \<Rightarrow> nat option) \<Rightarrow> nat \<Rightarrow> bool" where
  "page_ok e b v u s k \<longleftrightarrow>
     (case s k of
        None \<Rightarrow> user_llpt v k = 0 \<and> addr (user_mapping v k) = 0 \<and> phys v (home k) = u k
      | Some i \<Rightarrow> \<exists>a d. user_llpt v k = leaf (frame_no e i) a d \<and> addr (user_mapping v k) \<noteq> 0 \<and> phys v (frame e i) = u k
          \<and> (\<not> d \<longrightarrow> phys v (home k) = u k) \<and> (\<not> b \<longrightarrow> a))"

definition vm_inv :: "'p layout \<Rightarrow> 64 word \<Rightarrow> nat set \<Rightarrow> 'p vm \<Rightarrow> (nat \<Rightarrow> 'p) \<Rightarrow> (nat \<Rightarrow> nat option) \<Rightarrow> bool" where
  "vm_inv L e B v u s \<longleftrightarrow>
     dom s \<subseteq> user_pages L \<and> inj_on s (dom s) \<and> ran s \<subseteq> {..<card (dom s)}
     \<and> (\<forall>i < 63. freelist_nodes v i = boot_nodes e (\<lambda>_. \<lparr> addr = 0, next = None \<rparr>) i)
     \<and> freelist_head v = Some (FNode (card (dom s)))
     \<and> (\<forall>k. 1 \<le> k \<and> k < 63 \<longrightarrow> page_ok e (k \<in> B) v u s k)"

lemma vm_inv_page: "vm_inv L e B v u s \<Longrightarrow> 1 \<le> k \<Longrightarrow> k < 63 \<Longrightarrow> page_ok e (k \<in> B) v u s k"
  by (simp add: vm_inv_def)

lemma vm_inv_count: "vm_inv L e B v u s \<Longrightarrow> s k = None \<Longrightarrow> 1 \<le> k \<Longrightarrow> k < 63 \<Longrightarrow> card (dom s) < 62"
proof -
  assume h: "vm_inv L e B v u s" "s k = None" "1 \<le> k" "k < 63"
  then have "k \<notin> dom s" "k \<in> {1..<63}" "dom s \<subseteq> {1..<63}" by (auto simp: vm_inv_def user_pages_def)
  then have "dom s \<subset> {1..<63}" by blast
  then have "card (dom s) < card {1..<63 :: nat}" by (rule psubset_card_mono [OF finite_atLeastLessThan])
  then show ?thesis by simp
qed

lemma vm_inv_node: "vm_inv L e B v u s \<Longrightarrow> s k = Some i \<Longrightarrow> 1 \<le> k \<Longrightarrow> k < 63 \<Longrightarrow> i < 62"
proof -
  assume h: "vm_inv L e B v u s" "s k = Some i" "1 \<le> k" "k < 63"
  have "card (dom s) \<le> card {1..<63 :: nat}" using h(1) by (intro card_mono) (auto simp: vm_inv_def user_pages_def)
  moreover have "i < card (dom s)" using h(1,2) by (auto simp: vm_inv_def ran_def)
  ultimately show ?thesis by simp
qed

lemma finite_user_pages: "finite (user_pages L)"
  by (rule finite_subset [of _ "{1..<63}"]) (auto simp: user_pages_def)

lemma vm_inv_user: "vm_inv L e B v u s \<Longrightarrow> s k = Some i \<Longrightarrow> k \<in> user_pages L"
  by (auto simp: vm_inv_def)

lemma vm_inv_other: "vm_inv L e B v u s \<Longrightarrow> s k = Some i \<Longrightarrow> s j = Some i \<Longrightarrow> k = j"
  unfolding vm_inv_def inj_on_def by (metis domI)

lemma page_addr: "1 \<le> k \<Longrightarrow> k < 63 \<Longrightarrow> addr_ok (word_of_nat (k * PGSIZE)) \<and> page_of (word_of_nat (k * PGSIZE)) = k"
proof -
  assume k: "1 \<le> k" "k < 63"
  then have "unat (word_of_nat (k * PGSIZE) :: 64 word) = k * PGSIZE"
    by (simp add: PGSIZE_def unat_of_nat take_bit_nat_eq_self del: of_nat_mult)
  with k show ?thesis by (simp add: addr_ok_def page_of_def PGSIZE_def MAX_TEST_PAGES_def)
qed

text \<open>A change to one page's entry and frame keeps the other pages.\<close>

lemma page_ok_frame:
  assumes "page_ok e b v u s j" "j < 63" "user_llpt w j = user_llpt v j" "user_mapping w j = user_mapping v j"
    and "phys w (home j) = phys v (home j)" "\<And>i. s j = Some i \<Longrightarrow> phys w (frame e i) = phys v (frame e i)"
    and "u' j = u j" "s' j = s j"
  shows "page_ok e b w u' s' j"
  using assms by (auto simp: page_ok_def split: option.splits)

subsection \<open>The three faults of a page\<close>

text \<open>The first access maps a fresh frame with a copy of the page.\<close>

lemma fault_maps:
  assumes inv: "vm_inv L e B v u s" and L: "free_frames_clear L" "k \<in> user_pages L" and k: "1 \<le> k" "k < 63" "s k = None"
  shows "\<exists>w. handle_fault L (\<lambda>_. None) (word_of_nat (k * PGSIZE)) c v = Inr w
    \<and> vm_inv L e (insert k B) w u (s(k \<mapsto> card (dom s))) \<and> user_llpt w k = leaf (frame_no e (card (dom s))) False False"
proof -
  let ?n = "card (dom s)"
  have n: "?n < 62" by (rule vm_inv_count [OF inv k(3,1,2)])
  have fin: "finite (dom s)" using inv using finite_user_pages by (auto simp: vm_inv_def intro: finite_subset)
  have kd: "k \<notin> dom s" using k(3) by auto
  have pg: "user_llpt v k = 0" "addr (user_mapping v k) = 0" "phys v (home k) = u k"
    using vm_inv_page [OF inv k(1,2)] k(3) by (simp_all add: page_ok_def)
  have head: "freelist_head v = Some (FNode ?n)" using inv by (simp add: vm_inv_def)
  have node: "freelist_nodes v ?n = \<lparr> addr = word_of_nat (frame_no e ?n * 4096), next = Some (FNode (Suc ?n)) \<rparr>"
    using inv n boot_nodes_at [of ?n e] by (simp add: vm_inv_def)
  let ?w = "v\<lparr> freelist_head := Some (FNode (Suc ?n)),
      freelist_tail := (if Some (FNode (Suc ?n)) = freelist_tail v then None else freelist_tail v),
      user_mapping := (user_mapping v)(k := freelist_nodes v ?n),
      phys := (phys v)(frame e ?n := phys v (home k)),
      user_llpt := (user_llpt v)(k := leaf (frame_no e ?n) False False) \<rparr>"
  have pte: "new_pte (\<lambda>_. None) a (word_of_nat (frame_no e ?n * 4096)) = leaf (frame_no e ?n) False False" for a
    using frame_no_range [of e ?n] by (intro new_pte_leaf) simp
  have ad: "leaf (frame_no e ?n) False False OR PTE_A OR PTE_D = leaf (frame_no e ?n) True True"
    by (simp only: or.assoc [symmetric] leaf_set_A leaf_set_D)
  have "handle_fault L (\<lambda>_. None) (word_of_nat (k * PGSIZE)) c v = Inr ?w"
    using page_addr [OF k(1,2)] pg(1,2) head
    by (simp add: handle_fault_def Let_def node pte ad pread_home [OF L(2)] pwrite_frame [OF L(1)] del: of_nat_mult)
  moreover have "vm_inv L e (insert k B) ?w u (s(k \<mapsto> ?n))"
  proof -
    have c': "card (dom (s(k \<mapsto> ?n))) = Suc ?n" using fin kd by simp
    have ran: "i < ?n" if "s j = Some i" for i j using inv that by (auto simp: vm_inv_def ran_def)
    have fresh: "s j \<noteq> Some ?n" for j using ran [of j ?n] by auto
    have "inj_on s (dom s)" using inv by (simp add: vm_inv_def)
    then have "inj_on (s(k \<mapsto> ?n)) (dom (s(k \<mapsto> ?n)))"
    proof -
      have im: "Some ?n \<notin> s ` dom s"
      proof
        assume "Some ?n \<in> s ` dom s"
        then obtain x where "s x = Some ?n" by (elim imageE) simp
        with fresh show False by simp
      qed
      with \<open>inj_on s (dom s)\<close> have "inj_on (s(k \<mapsto> ?n)) (dom s)" by (rule inj_on_fun_updI)
      moreover have "(s(k \<mapsto> ?n)) ` dom s = s ` dom s" using kd by (intro image_cong) auto
      moreover have "dom s - {k} = dom s" using kd by simp
      moreover have "dom (s(k \<mapsto> ?n)) = insert k (dom s)" by simp
      ultimately show ?thesis using im by (simp only: inj_on_insert fun_upd_same not_False_eq_True simp_thms)
    qed
    moreover have "ran (s(k \<mapsto> ?n)) \<subseteq> {..<Suc ?n}" using ran kd by (auto simp: ran_def dest: less_SucI)
    moreover have "page_ok e (j \<in> insert k B) ?w u (s(k \<mapsto> ?n)) j" if j: "1 \<le> j" "j < 63" for j
    proof (cases "j = k")
      case True
      have "user_llpt ?w k = leaf (frame_no e ?n) False False \<and> addr (user_mapping ?w k) \<noteq> 0 \<and> phys ?w (frame e ?n) = u k
          \<and> phys ?w (home k) = u k"
        using pg(3) frame_not_home [OF k(2), of e ?n] frame_addr_nonzero [of e ?n] node by simp
      then show ?thesis unfolding True page_ok_def fun_upd_same option.case by blast
    next
      case False
      have ph: "phys ?w (frame e i) = phys v (frame e i)" if "s j = Some i" for i
      proof -
        have "frame e i \<noteq> frame e ?n" using ran [OF that] n by (subst frame_inject) simp_all
        then show ?thesis by simp
      qed
      have hm: "phys ?w (home j) = phys v (home j)" using frame_not_home [OF j(2), of e ?n] by simp
      have "page_ok e (j \<in> insert k B) v u s j" using vm_inv_page [OF inv j] False by simp
      moreover have "user_llpt ?w j = user_llpt v j" "user_mapping ?w j = user_mapping v j" "(s(k \<mapsto> ?n)) j = s j"
        using False by simp_all
      ultimately show ?thesis using j(2) hm
        by (intro page_ok_frame [of e _ v u s j ?w u "s(k \<mapsto> ?n)"]) (assumption | rule refl | (rule ph, assumption))+
    qed
    ultimately show ?thesis
      using inv L(2) unfolding vm_inv_def c' by simp
  qed
  ultimately show ?thesis by auto
qed

lemma leaf_inject: "leaf f a d = leaf f a' d' \<longleftrightarrow> a = a' \<and> d = d'"
  using leaf_A [of f a d] leaf_A [of f a' d'] leaf_D [of f a d] leaf_D [of f a' d'] by auto

lemma page_ok_mono: "page_ok e b v u s k \<Longrightarrow> (b \<longrightarrow> b') \<Longrightarrow> page_ok e b' v u s k"
  unfolding page_ok_def by (cases "s k"; simp) blast

lemma vm_inv_mono: "vm_inv L e B v u s \<Longrightarrow> B \<subseteq> B' \<Longrightarrow> vm_inv L e B' v u s"
  unfolding vm_inv_def using page_ok_mono by blast

text \<open>The second sets the accessed bit, and a store to a clean page the dirty bit.\<close>

lemma set_flags_inv:
  assumes inv: "vm_inv L e (insert k B) v u s" and k: "1 \<le> k" "k < 63" and s: "s k = Some i"
    and pte: "user_llpt v k = leaf (frame_no e i) a d" and d': "d \<longrightarrow> d'"
  shows "vm_inv L e B (v\<lparr> user_llpt := (user_llpt v)(k := leaf (frame_no e i) True d') \<rparr>) u s"
proof -
  let ?w = "v\<lparr> user_llpt := (user_llpt v)(k := leaf (frame_no e i) True d') \<rparr>"
  have "page_ok e (j \<in> B) ?w u s j" if j: "1 \<le> j" "j < 63" for j
  proof (cases "j = k")
    case True
    from vm_inv_page [OF inv k] obtain a0 d0 where p: "user_llpt v k = leaf (frame_no e i) a0 d0"
      "addr (user_mapping v k) \<noteq> 0" "phys v (frame e i) = u k" "\<not> d0 \<longrightarrow> phys v (home k) = u k"
      unfolding page_ok_def s option.case by blast
    then have "d0 = d" using pte by (simp add: leaf_inject)
    with p(4) d' have "\<not> d' \<longrightarrow> phys v (home k) = u k" by blast
    with p(2,3) have "user_llpt ?w k = leaf (frame_no e i) True d' \<and> addr (user_mapping ?w k) \<noteq> 0 \<and> phys ?w (frame e i) = u k
        \<and> (\<not> d' \<longrightarrow> phys ?w (home k) = u k)" by simp
    then show ?thesis unfolding True page_ok_def s option.case by blast
  next
    case False
    with vm_inv_page [OF inv j] have "page_ok e (j \<in> B) v u s j" by simp
    then show ?thesis by (rule page_ok_frame) (use False j in simp_all)
  qed
  with inv show ?thesis by (simp add: vm_inv_def)
qed

lemma fault_sets_accessed:
  assumes inv: "vm_inv L e (insert k B) v u s" and k: "1 \<le> k" "k < 63" and s: "s k = Some i"
    and pte: "user_llpt v k = leaf (frame_no e i) False d"
  shows "\<exists>w. handle_fault L f (word_of_nat (k * PGSIZE)) c v = Inr w \<and> vm_inv L e B w u s
    \<and> user_llpt w k = leaf (frame_no e i) True d"
proof -
  have "handle_fault L f (word_of_nat (k * PGSIZE)) c v = Inr (v\<lparr> user_llpt := (user_llpt v)(k := leaf (frame_no e i) True d) \<rparr>)"
    using page_addr [OF k] by (simp add: handle_fault_def Let_def pte leaf_A leaf_set_A del: of_nat_mult)
  with set_flags_inv [OF inv k s pte, of d] show ?thesis by simp
qed

lemma fault_sets_dirty:
  assumes inv: "vm_inv L e B v u s" and k: "1 \<le> k" "k < 63" and s: "s k = Some i"
    and pte: "user_llpt v k = leaf (frame_no e i) True False"
  shows "\<exists>w. handle_fault L f (word_of_nat (k * PGSIZE)) CAUSE_STORE_PAGE_FAULT v = Inr w \<and> vm_inv L e B w u s
    \<and> user_llpt w k = leaf (frame_no e i) True True"
proof -
  have "vm_inv L e (insert k B) v u s" using inv by (rule vm_inv_mono) blast
  note inv' = set_flags_inv [OF this k s pte, of True]
  have "handle_fault L f (word_of_nat (k * PGSIZE)) CAUSE_STORE_PAGE_FAULT v
      = Inr (v\<lparr> user_llpt := (user_llpt v)(k := leaf (frame_no e i) True True) \<rparr>)"
    using page_addr [OF k] by (simp add: handle_fault_def Let_def pte leaf_A leaf_D leaf_set_D del: of_nat_mult)
  with inv' show ?thesis by simp
qed

subsection \<open>A user program\<close>

text \<open>
  The hardware's check of a leaf entry, and an access that faults until the entry permits it;
  every fault goes through \<open>handle_fault\<close>. Four attempts are enough: map, accessed, dirty, done.
\<close>

definition pte_permits :: "bool \<Rightarrow> 64 word \<Rightarrow> bool" where
  "pte_permits store pte \<longleftrightarrow> pte AND PTE_V \<noteq> 0 \<and> pte AND PTE_U \<noteq> 0 \<and> pte AND PTE_A \<noteq> 0
     \<and> (if store then pte AND PTE_W \<noteq> 0 \<and> pte AND PTE_D \<noteq> 0 else pte AND PTE_R \<noteq> 0)"

fun user_access :: "'p layout \<Rightarrow> nat \<Rightarrow> (64 word \<Rightarrow> 64 word option) \<Rightarrow> bool \<Rightarrow> nat \<Rightarrow> 'p vm \<Rightarrow> 'p vm_result" where
  "user_access L n f store k v =
     (if pte_permits store (user_llpt v k) then Inr v
      else (case n of 0 \<Rightarrow> Inl v
            | Suc n \<Rightarrow> (case handle_fault L f (word_of_nat (k * PGSIZE)) (if store then CAUSE_STORE_PAGE_FAULT else CAUSE_LOAD_PAGE_FAULT) v of
                Inl w \<Rightarrow> Inl w | Inr w \<Rightarrow> user_access L n f store k w)))"

declare user_access.simps [simp del]

lemma permits_leaf: "pte_permits st (leaf f a d) \<longleftrightarrow> a \<and> (st \<longrightarrow> d)"
  using leaf_V [of f a d] by (auto simp: pte_permits_def leaf_A leaf_D)

lemma permits_zero: "\<not> pte_permits st 0"
  by (simp add: pte_permits_def)

definition access_result :: "'p layout \<Rightarrow> 64 word \<Rightarrow> bool \<Rightarrow> nat \<Rightarrow> (nat \<Rightarrow> 'p) \<Rightarrow> 'p vm_result \<Rightarrow> bool" where
  "access_result L e st k u r \<longleftrightarrow>
     (\<exists>w s i d. r = Inr w \<and> vm_inv L e {} w u s \<and> s k = Some i \<and> user_llpt w k = leaf (frame_no e i) True d \<and> (st \<longrightarrow> d))"

lemma access_accessed:
  assumes inv: "vm_inv L e {} v u s" and k: "1 \<le> k" "k < 63" "s k = Some i" and p: "user_llpt v k = leaf (frame_no e i) True d"
  shows "access_result L e st k u (user_access L (Suc n) (\<lambda>_. None) st k v)"
proof (cases "st \<longrightarrow> d")
  case True
  then have "user_access L (Suc n) (\<lambda>_. None) st k v = Inr v"
    by (subst user_access.simps) (simp add: p permits_leaf)
  with True assms show ?thesis unfolding access_result_def by blast
next
  case False
  then have st: "st" and d: "\<not> d" by auto
  from d have "user_llpt v k = leaf (frame_no e i) True False" using p by simp
  from fault_sets_dirty [OF inv k this, of "\<lambda>_. None"] obtain w where
    w: "handle_fault L (\<lambda>_. None) (word_of_nat (k * PGSIZE)) CAUSE_STORE_PAGE_FAULT v = Inr w" "vm_inv L e {} w u s"
    "user_llpt w k = leaf (frame_no e i) True True" by blast
  have "user_access L (Suc n) (\<lambda>_. None) st k v = user_access L n (\<lambda>_. None) st k w"
    using st d w(1) by (subst user_access.simps) (simp add: p permits_leaf del: of_nat_mult)
  also have "\<dots> = Inr w" by (subst user_access.simps) (simp add: w(3) permits_leaf)
  finally show ?thesis using w k(3) unfolding access_result_def by blast
qed

lemma access_mapped:
  assumes inv: "vm_inv L e {k} v u s" and k: "1 \<le> k" "k < 63" "s k = Some i" and p: "user_llpt v k = leaf (frame_no e i) False d"
  shows "access_result L e st k u (user_access L (Suc (Suc n)) (\<lambda>_. None) st k v)"
proof -
  let ?c = "if st then CAUSE_STORE_PAGE_FAULT else CAUSE_LOAD_PAGE_FAULT"
  from fault_sets_accessed [OF inv k p, of "\<lambda>_. None" ?c] obtain w where
    w: "handle_fault L (\<lambda>_. None) (word_of_nat (k * PGSIZE)) ?c v = Inr w" "vm_inv L e {} w u s"
    "user_llpt w k = leaf (frame_no e i) True d" by blast
  have "user_access L (Suc (Suc n)) (\<lambda>_. None) st k v = user_access L (Suc n) (\<lambda>_. None) st k w"
    using w(1) by (subst user_access.simps) (simp add: p permits_leaf del: of_nat_mult)
  with access_accessed [OF w(2) k w(3), of st n] show ?thesis by simp
qed

lemma access_ok:
  assumes inv: "vm_inv L e {} v u s" and L: "free_frames_clear L" "k \<in> user_pages L" and k: "1 \<le> k" "k < 63"
  shows "access_result L e st k u (user_access L 4 (\<lambda>_. None) st k v)"
proof (cases "s k")
  case None
  let ?c = "if st then CAUSE_STORE_PAGE_FAULT else CAUSE_LOAD_PAGE_FAULT"
  have z: "user_llpt v k = 0" using vm_inv_page [OF inv k] None by (simp add: page_ok_def)
  from fault_maps [OF inv L k None, of ?c] obtain w where
    w: "handle_fault L (\<lambda>_. None) (word_of_nat (k * PGSIZE)) ?c v = Inr w" "vm_inv L e {k} w u (s(k \<mapsto> card (dom s)))"
    "user_llpt w k = leaf (frame_no e (card (dom s))) False False" by blast
  have "user_access L 4 (\<lambda>_. None) st k v = user_access L (Suc (Suc 1)) (\<lambda>_. None) st k w"
    using w(1) by (subst user_access.simps) (simp add: z permits_zero numeral_eq_Suc del: of_nat_mult)
  with access_mapped [OF w(2) k _ w(3), of st 1] show ?thesis by simp
next
  case (Some i)
  from vm_inv_page [OF inv k] obtain a d where p: "user_llpt v k = leaf (frame_no e i) a d" "a"
    unfolding page_ok_def Some option.case by blast
  have "access_result L e st k u (user_access L (Suc 3) (\<lambda>_. None) st k v)"
    using access_accessed [OF inv k Some, of d st 3] p by simp
  then show ?thesis by (simp only: eval_nat_numeral BitM.simps)
qed

datatype 'p user_op = Load nat | Store nat 'p

text \<open>A run on the machine, and on a flat memory; a run returns what the loads read.\<close>

fun user_run :: "'p layout \<Rightarrow> (64 word \<Rightarrow> 64 word option) \<Rightarrow> 'p user_op list \<Rightarrow> 'p vm \<Rightarrow> 'p vm + 'p list \<times> 'p vm" where
  "user_run L f [] v = Inr ([], v)"
| "user_run L f (Load k # ops) v =
     (case user_access L 4 f False k v of Inl w \<Rightarrow> Inl w
      | Inr w \<Rightarrow> map_sum id (\<lambda>(vs, w'). (pread L w (ppn (user_llpt w k)) # vs, w')) (user_run L f ops w))"
| "user_run L f (Store k p # ops) v =
     (case user_access L 4 f True k v of Inl w \<Rightarrow> Inl w
      | Inr w \<Rightarrow> user_run L f ops (pwrite L (ppn (user_llpt w k)) p w))"

fun flat_run :: "'p user_op list \<Rightarrow> (nat \<Rightarrow> 'p) \<Rightarrow> 'p list \<times> (nat \<Rightarrow> 'p)" where
  "flat_run [] u = ([], u)"
| "flat_run (Load k # ops) u = (u k # fst (flat_run ops u), snd (flat_run ops u))"
| "flat_run (Store k p # ops) u = flat_run ops (u(k := p))"

fun op_page :: "'p user_op \<Rightarrow> nat" where
  "op_page (Load k) = k"
| "op_page (Store k p) = k"

lemma store_inv:
  assumes inv: "vm_inv L e {} v u s" and k: "1 \<le> k" "k < 63" "s k = Some i" and p: "user_llpt v k = leaf (frame_no e i) True True"
  shows "vm_inv L e {} (v\<lparr> phys := (phys v)(ppn (user_llpt v k) := x) \<rparr>) (u(k := x)) s"
proof -
  let ?w = "v\<lparr> phys := (phys v)(frame e i := x) \<rparr>"
  have i: "i < 62" by (rule vm_inv_node [OF inv k(3,1,2)])
  have "page_ok e (j \<in> {}) ?w (u(k := x)) s j" if j: "1 \<le> j" "j < 63" for j
  proof (cases "j = k")
    case True
    have "addr (user_mapping v k) \<noteq> 0" using vm_inv_page [OF inv k(1,2)] unfolding page_ok_def k(3) option.case by blast
    then have "user_llpt ?w k = leaf (frame_no e i) True True \<and> addr (user_mapping ?w k) \<noteq> 0 \<and> phys ?w (frame e i) = (u(k := x)) k"
      using p by simp
    then show ?thesis unfolding True page_ok_def k(3) option.case by blast
  next
    case False
    have ph: "phys ?w (frame e n) = phys v (frame e n)" if n: "s j = Some n" for n
    proof -
      have "n \<noteq> i" using vm_inv_other [OF inv n] k(3) False by auto
      then have "frame e n \<noteq> frame e i" using vm_inv_node [OF inv n j] i by (subst frame_inject) simp_all
      then show ?thesis by simp
    qed
    have hm: "phys ?w (home j) = phys v (home j)" using frame_not_home [OF j(2), of e i] by simp
    show ?thesis by (rule page_ok_frame [OF vm_inv_page [OF inv j]]) (use hm False j ph in simp_all)
  qed
  with inv show ?thesis unfolding p ppn_frame by (simp add: vm_inv_def)
qed

subsection \<open>Eviction at exit\<close>

text \<open>Pages below \<open>n\<close> are written back, the others are as they were.\<close>

definition evict_inv :: "'p layout \<Rightarrow> 64 word \<Rightarrow> nat \<Rightarrow> 'p vm \<Rightarrow> (nat \<Rightarrow> 'p) \<Rightarrow> (nat \<Rightarrow> nat option) \<Rightarrow> bool" where
  "evict_inv L e n v u s \<longleftrightarrow> (\<forall>k. 1 \<le> k \<and> k < 63 \<longrightarrow> (if k < n then phys v (home k) = u k else page_ok e False v u s k))"

lemma set_next_fields [simp]:
  "user_llpt (set_next t n v) = user_llpt v" "phys (set_next t n v) = phys v"
  "addr (user_mapping (set_next t n v) j) = addr (user_mapping v j)"
  by (cases t; simp)+

lemma page_ok_addr:
  assumes "page_ok e b v u s j" "user_llpt w j = user_llpt v j" "addr (user_mapping w j) = addr (user_mapping v j)"
    and "phys w (home j) = phys v (home j)" "\<And>i. s j = Some i \<Longrightarrow> phys w (frame e i) = phys v (frame e i)"
  shows "page_ok e b w u s j"
  using assms by (auto simp: page_ok_def split: option.splits)

text \<open>Linking a node changes neither entries nor frames.\<close>

definition enqueue :: "nat \<Rightarrow> 'p vm \<Rightarrow> 'p vm" where
  "enqueue k v = (case freelist_tail v of
     None \<Rightarrow> v\<lparr> freelist_head := Some (UNode k), freelist_tail := Some (UNode k) \<rparr>
   | Some t \<Rightarrow> (set_next t (Some (UNode k)) v)\<lparr> freelist_tail := Some (UNode k) \<rparr>)"

lemma enqueue_fields [simp]:
  "user_llpt (enqueue k v) = user_llpt v" "phys (enqueue k v) = phys v"
  "addr (user_mapping (enqueue k v) j) = addr (user_mapping v j)"
  by (simp_all add: enqueue_def split: option.split)

lemma evict_enqueue:
  "k \<in> user_pages L \<Longrightarrow> pread L v (ppn (user_llpt v k)) = phys v (ppn (user_llpt v k)) \<Longrightarrow> addr_ok a \<Longrightarrow> k = page_of a \<Longrightarrow> addr (user_mapping v k) \<noteq> 0 \<Longrightarrow> user_llpt v k AND PTE_A \<noteq> 0 \<Longrightarrow>
    phys v (ppn (user_llpt v k)) = phys v (home k) \<or> user_llpt v k AND PTE_D \<noteq> 0 \<Longrightarrow>
    evict L a v = Inr (enqueue k (v\<lparr> phys := (phys v)(home k := phys v (ppn (user_llpt v k))),
      user_mapping := (user_mapping v)(k := (user_mapping v k)\<lparr> addr := 0 \<rparr>) \<rparr>))"
  by (cases "phys v (ppn (user_llpt v k)) = phys v (home k)")
    (simp_all add: evict_def enqueue_def Let_def fun_upd_idem pread_home pwrite_home split: option.split)

lemma evict_step:
  assumes inv: "evict_inv L e k v u s" and L: "free_frames_clear L" "dom s \<subseteq> user_pages L" and k: "1 \<le> k" "k < 63"
  shows "\<exists>w. evict L (word_of_nat (k * PGSIZE)) v = Inr w \<and> evict_inv L e (Suc k) w u s"
proof -
  have pg: "page_ok e False v u s k" using inv k by (simp add: evict_inv_def)
  note pa = page_addr [OF k]
  show ?thesis
  proof (cases "s k")
    case None
    then have z: "addr (user_mapping v k) = 0" "phys v (home k) = u k" using pg by (simp_all add: page_ok_def)
    then have "evict L (word_of_nat (k * PGSIZE)) v = Inr v"
      using pa by (simp add: evict_def Let_def del: of_nat_mult)
    moreover have "evict_inv L e (Suc k) v u s"
      using inv z(2) by (auto simp: evict_inv_def less_Suc_eq)
    ultimately show ?thesis by blast
  next
    case (Some i)
    from pg obtain a d where p0: "user_llpt v k = leaf (frame_no e i) a d" "addr (user_mapping v k) \<noteq> 0"
      "phys v (frame e i) = u k" "\<not> d \<longrightarrow> phys v (home k) = u k" "a"
      unfolding page_ok_def Some option.case by blast
    have p: "user_llpt v k = leaf (frame_no e i) True d" "addr (user_mapping v k) \<noteq> 0"
      "phys v (frame e i) = u k" "\<not> d \<longrightarrow> phys v (home k) = u k"
      using p0 by simp_all
    let ?v = "v\<lparr> phys := (phys v)(home k := u k), user_mapping := (user_mapping v)(k := (user_mapping v k)\<lparr> addr := 0 \<rparr>) \<rparr>"
    have f: "user_llpt v k AND PTE_A \<noteq> 0" "phys v (ppn (user_llpt v k)) = phys v (home k) \<or> user_llpt v k AND PTE_D \<noteq> 0"
      using p by (auto simp: leaf_A leaf_D)
    have up: "k \<in> user_pages L" using L(2) Some by auto
    have rd: "pread L v (ppn (user_llpt v k)) = phys v (ppn (user_llpt v k))" using pread_frame [OF L(1), of v e i] p(1) by simp
    have ev: "evict L (word_of_nat (k * PGSIZE)) v = Inr (enqueue k ?v)"
      using evict_enqueue [OF up rd conjunct1 [OF pa] conjunct2 [OF pa, symmetric] p(2) f] p(1,3) by simp
    have "evict_inv L e (Suc k) (enqueue k ?v) u s"
      unfolding evict_inv_def
    proof (intro allI impI)
      fix j :: nat assume j: "1 \<le> j \<and> j < 63"
      show "if j < Suc k then phys (enqueue k ?v) (home j) = u j else page_ok e False (enqueue k ?v) u s j"
      proof (cases "j < Suc k")
        case True
        then show ?thesis using inv j k home_inject [of j k] by (auto simp: evict_inv_def less_Suc_eq)
      next
        case False
        then have jk: "j \<noteq> k" and pj: "page_ok e False v u s j" using inv j by (auto simp: evict_inv_def)
        have "page_ok e False (enqueue k ?v) u s j"
          by (rule page_ok_addr [OF pj]) (use jk j k home_inject [of j k] frame_not_home [of k e] in auto)
        with False show ?thesis by simp
      qed
    qed
    with ev show ?thesis by blast
  qed
qed

lemma evict_loop:
  assumes "evict_inv L e 1 v u s" "n \<le> 62" and L: "free_frames_clear L" "dom s \<subseteq> user_pages L"
  shows "\<exists>w. fold (evict_iter L) [1..<Suc n] (Inr v) = Inr w
    \<and> evict_inv L e (Suc n) w u s"
  using assms(2)
proof (induction n)
  case 0
  then show ?case using assms(1) by simp
next
  case (Suc n)
  have n: "n \<le> 62" "1 \<le> Suc n" "Suc n < 63" using Suc.prems by simp_all
  obtain w where w: "fold (evict_iter L) [1..<Suc n] (Inr v) = Inr w" "evict_inv L e (Suc n) w u s"
    using Suc.IH [OF n(1)] by blast
  obtain w' where w': "evict L (word_of_nat (Suc n * PGSIZE)) w = Inr w'" "evict_inv L e (Suc (Suc n)) w' u s"
    using evict_step [OF w(2) L n(2,3)] by blast
  have "[1..<Suc (Suc n)] = [1..<Suc n] @ [Suc n]" by simp
  then have "fold (evict_iter L) [1..<Suc (Suc n)] (Inr v) = evict_iter L (Suc n) (fold (evict_iter L) [1..<Suc n] (Inr v))" by simp
  also have "\<dots> = Inr w'" unfolding w(1) evict_iter_def using w'(1) by simp
  finally show ?case using w'(2) by blast
qed

lemma evict_all_ok:
  assumes inv: "vm_inv L e {} v u s" and L: "free_frames_clear L"
  shows "\<exists>w. evict_all L v = Inr w \<and> (\<forall>k. 1 \<le> k \<and> k < 63 \<longrightarrow> phys w (home k) = u k)"
proof -
  have "evict_inv L e 1 v u s" using inv by (simp add: evict_inv_def vm_inv_def)
  moreover have "dom s \<subseteq> user_pages L" using inv by (simp add: vm_inv_def)
  ultimately obtain w where
    w: "fold (evict_iter L) [1..<Suc 62] (Inr v) = Inr w"
    "evict_inv L e (Suc 62) w u s" using evict_loop [of L e v u s 62] L by auto
  have "evict_all L v = Inr w"
    unfolding evict_all_def c_for_1 [folded One_nat_def] MAX_TEST_PAGES_def using w(1) by (simp del: upt_Suc of_nat_mult)
  moreover have "\<forall>k. 1 \<le> k \<and> k < 63 \<longrightarrow> phys w (home k) = u k" using w(2) by (simp add: evict_inv_def)
  ultimately show ?thesis by blast
qed

subsection \<open>Paging is transparent\<close>

lemma boot_inv: "vm_inv L e {} (vm_boot_pages e mem) (\<lambda>k. mem (home k)) (\<lambda>_. None)"
  by (simp add: vm_inv_def vm_boot_pages_def page_ok_def)

lemma user_run_flat:
  assumes "vm_inv L e {} v u s" "list_all (\<lambda>op. op_page op \<in> user_pages L) ops" and L: "free_frames_clear L"
  shows "\<exists>w s'. user_run L (\<lambda>_. None) ops v = Inr (fst (flat_run ops u), w) \<and> vm_inv L e {} w (snd (flat_run ops u)) s'"
  using assms
proof (induction ops arbitrary: v u s)
  case Nil
  then show ?case by auto
next
  case (Cons op ops)
  show ?case
  proof (cases op)
    case (Load k)
    with Cons.prems access_ok [of L e v u s k False] L user_pages_range [of k L] obtain w s1 i d where
      w: "user_access L 4 (\<lambda>_. None) False k v = Inr w" "vm_inv L e {} w u s1" "s1 k = Some i" "user_llpt w k = leaf (frame_no e i) True d"
      by (auto simp: access_result_def)
    have k: "1 \<le> k" "k < 63" using Cons.prems(2) Load by (simp_all add: user_pages_def)
    have "phys w (frame e i) = u k"
      using vm_inv_page [OF w(2) k] unfolding page_ok_def w(3) option.case by blast
    then have "pread L w (ppn (user_llpt w k)) = u k" by (simp add: w(4) pread_frame [OF L])
    with Cons.IH [OF w(2)] Cons.prems(2) w(1) Load L show ?thesis by auto
  next
    case (Store k p)
    with Cons.prems access_ok [of L e v u s k True] L user_pages_range [of k L] obtain w s1 i where
      w: "user_access L 4 (\<lambda>_. None) True k v = Inr w" "vm_inv L e {} w u s1" "s1 k = Some i" "user_llpt w k = leaf (frame_no e i) True True"
      by (auto simp: access_result_def)
    have k: "1 \<le> k" "k < 63" using Cons.prems(2) Store by (simp_all add: user_pages_def)
    have "pwrite L (ppn (user_llpt w k)) p w = w\<lparr> phys := (phys w)(ppn (user_llpt w k) := p) \<rparr>"
      by (simp add: w(4) pwrite_frame [OF L])
    with Cons.IH [OF store_inv [OF w(2) k w(3,4), of p]] Cons.prems(2) w(1) Store L show ?thesis by (simp del: fun_upd_apply)
  qed
qed

text \<open>
  C4. Demand paging is transparent to a program whose pages hold none of the kernel's own data: from
  the boot state, whatever the entropy that orders the free list, such a program, touching its pages
  in any order, never fails an assertion of the kernel, its loads return what a flat memory that
  starts as the image in DRAM would return, and its exit call writes every page back: the kernel ends
  with the program's code, and on the pages without data of the kernel the image in DRAM is the final
  flat memory. The kernel's data lies in the same image as the pages; the frames from 64 up, which
  the free list hands out, have to be free of it too.
\<close>

theorem demand_paging_is_transparent:
  assumes "list_all (\<lambda>op. 1 \<le> op_page op \<and> op_page op < 63 \<and> \<not> kernel_frame L (home (op_page op))) ops"
    and "\<forall>f. 0x80040 \<le> f \<and> f \<le> 0x8007E \<longrightarrow> \<not> kernel_frame L (word_of_nat f)"
    and "trap_filter tf = False" "cause tf = CAUSE_USER_ECALL"
  shows "\<exists>v w. user_run L (\<lambda>_. None) ops (vm_boot_pages e mem) = Inr (fst (flat_run ops (\<lambda>k. mem (home k))), v)
    \<and> handle_trap L trap_filter pf insn_at fssr tf v = Terminate (scast (ucast (gpr tf 10) :: c_int)) w
    \<and> map (\<lambda>k. pread L w (home k)) (filter (\<lambda>k. \<not> kernel_frame L (home k)) [1..<63])
      = map (snd (flat_run ops (\<lambda>k. mem (home k)))) (filter (\<lambda>k. \<not> kernel_frame L (home k)) [1..<63])"
proof -
  let ?u = "\<lambda>k. mem (home k)"
  have L: "free_frames_clear L" using assms(2) by (simp add: free_frames_clear_def)
  have ops: "list_all (\<lambda>op. op_page op \<in> user_pages L) ops" using assms(1) by (simp add: user_pages_def)
  obtain v s where v: "user_run L (\<lambda>_. None) ops (vm_boot_pages e mem) = Inr (fst (flat_run ops ?u), v)"
    "vm_inv L e {} v (snd (flat_run ops ?u)) s"
    using user_run_flat [OF boot_inv ops L, of e mem] by blast
  obtain w where w: "evict_all L v = Inr w" "\<forall>k. 1 \<le> k \<and> k < 63 \<longrightarrow> phys w (home k) = snd (flat_run ops ?u) k"
    using evict_all_ok [OF v(2) L] by blast
  have "handle_trap L trap_filter pf insn_at fssr tf v = Terminate (scast (ucast (gpr tf 10) :: c_int)) w"
    using assms(3,4) w(1) by (simp add: handle_trap_def)
  with v(1) w(2) show ?thesis by (auto simp: pread_def)
qed

text \<open>A kernel whose tables lie on page 2, and a program on the other pages.\<close>

definition tables_on :: "nat \<Rightarrow> nat layout" where
  "tables_on k = \<lparr> kernel_frame = (\<lambda>f. f = home k), kernel_page = (\<lambda>f v. unat (user_llpt v k)), kernel_poke = (\<lambda>f p v. v) \<rparr>"

lemma tables_on_frames: "k < 63 \<Longrightarrow> \<forall>f. 0x80040 \<le> f \<and> f \<le> 0x8007E \<longrightarrow> \<not> kernel_frame (tables_on k) (word_of_nat f)"
proof (intro allI impI)
  fix f :: nat assume "k < 63" "0x80040 \<le> f \<and> f \<le> 0x8007E"
  then have "word_of_nat f \<noteq> home k" unfolding home_no by (subst of_nat_inject_64) simp_all
  then show "\<not> kernel_frame (tables_on k) (word_of_nat f)" by (simp add: tables_on_def)
qed

theorem demand_paging_is_transparent_witness:
  "\<exists>v w. user_run (tables_on 2) (\<lambda>_. None) [Store 5 9, Load 7, Load 5] (vm_boot_pages 0 (\<lambda>f. 1)) = Inr ([1, 9], v)
    \<and> handle_trap (tables_on 2) (\<lambda>_. False) (\<lambda>_. None) (\<lambda>_. 0) 0 \<lparr> gpr = (\<lambda>_. 1), epc = 0, badvaddr = 0, cause = CAUSE_USER_ECALL \<rparr> v = Terminate 1 w
    \<and> pread (tables_on 2) w (home 5) = 9 \<and> pread (tables_on 2) w (home 6) = 1"
proof -
  have h: "kernel_frame (tables_on 2) (home k) \<longleftrightarrow> k = 2" if "k < 63" for k
    using that home_inject [of k 2] by (simp add: tables_on_def)
  have fr: "\<forall>f. 0x80040 \<le> f \<and> f \<le> 0x8007E \<longrightarrow> \<not> kernel_frame (tables_on 2) (word_of_nat f)"
    by (rule tables_on_frames) simp
  have ops: "list_all (\<lambda>op. 1 \<le> op_page op \<and> op_page op < 63 \<and> \<not> kernel_frame (tables_on 2) (home (op_page op))) [Store 5 9, Load 7, Load 5]"
    by (simp add: h)
  obtain v w where vw: "user_run (tables_on 2) (\<lambda>_. None) [Store 5 9, Load 7, Load 5] (vm_boot_pages 0 (\<lambda>f. 1)) = Inr ([1, 9], v)"
    "handle_trap (tables_on 2) (\<lambda>_. False) (\<lambda>_. None) (\<lambda>_. 0) 0 \<lparr> gpr = (\<lambda>_. 1), epc = 0, badvaddr = 0, cause = CAUSE_USER_ECALL \<rparr> v = Terminate 1 w"
    and m: "map (\<lambda>k. pread (tables_on 2) w (home k)) (filter (\<lambda>k. \<not> kernel_frame (tables_on 2) (home k)) [1..<63])
      = map ((\<lambda>_. 1)(5 := 9)) (filter (\<lambda>k. \<not> kernel_frame (tables_on 2) (home k)) [1..<63])"
    using demand_paging_is_transparent [OF ops fr, of "\<lambda>_. False"
        "\<lparr> gpr = (\<lambda>_. 1), epc = 0, badvaddr = 0, cause = CAUSE_USER_ECALL \<rparr>" 0 "\<lambda>_. 1" "\<lambda>_. None" "\<lambda>_. 0" 0] by auto
  have "pread (tables_on 2) w (home k) = (if k = 5 then 9 else 1)" if "1 \<le> k" "k < 63" "k \<noteq> 2" for k
    using m that h [of k] by (auto simp: map_eq_conv)
  from this [of 5] this [of 6] vw show ?thesis by auto
qed

text \<open>
  Without that condition it is not: a program that only loads the page that holds \<^verbatim>\<open>user_llpt\<close> is
  stopped at its exit by the assertion on the dirty bit. The copy was made while the page's entry had
  its accessed and dirty bits set for the copy itself, and the entry has changed since.
\<close>

lemma load_of_table_page_fails:
  assumes k: "1 \<le> k" "k < 63" and "trap_filter tf = False" "cause tf = CAUSE_USER_ECALL"
  shows "\<exists>v w. user_run (tables_on k) (\<lambda>_. None) [Load k] (vm_boot_pages e mem) = Inr ([unat (leaf (frame_no e 0) True True)], v)
    \<and> handle_trap (tables_on k) trap_filter pf insn_at fssr tf v = Terminate 3 w"
proof -
  let ?L = "tables_on k" and ?c = "CAUSE_LOAD_PAGE_FAULT" and ?lf = "leaf (frame_no e 0)"
  have fr: "free_frames_clear ?L" using tables_on_frames [OF k(2)] by (simp add: free_frames_clear_def)
  note rw = pread_frame [OF fr] pwrite_frame [OF fr]
  have tab: "pread ?L v (home k) = unat (user_llpt v k)" for v by (simp add: pread_def tables_on_def)
  have pte: "new_pte (\<lambda>_. None) a (word_of_nat (frame_no e 0 * 4096)) = ?lf False False" for a
    using frame_no_range [of e 0] by (intro new_pte_leaf) simp
  have ad: "?lf False False OR PTE_A OR PTE_D = ?lf True True" by (simp only: or.assoc [symmetric] leaf_set_A leaf_set_D)
  let ?b = "vm_boot_pages e mem"
  let ?w = "?b\<lparr> freelist_head := Some (FNode 1), user_mapping := (user_mapping ?b)(k := freelist_nodes ?b 0),
      phys := (phys ?b)(frame e 0 := unat (?lf True True)), user_llpt := (user_llpt ?b)(k := ?lf False False) \<rparr>"
  have node: "freelist_nodes ?b 0 = \<lparr> addr = word_of_nat (frame_no e 0 * 4096), next = Some (FNode 1) \<rparr>"
    using boot_nodes_at [of 0 e] by (simp add: vm_boot_pages_def)
  have b: "freelist_head ?b = Some (FNode 0)" "freelist_tail ?b = Some (FNode 62)" "user_llpt ?b = (\<lambda>_. 0)" "addr (user_mapping ?b k) = 0"
    by (simp_all add: vm_boot_pages_def MAX_TEST_PAGES_def)
  have 1: "handle_fault ?L (\<lambda>_. None) (word_of_nat (k * PGSIZE)) ?c ?b = Inr ?w"
    using page_addr [OF k] b
    by (simp add: handle_fault_def Let_def node pte ad rw tab del: of_nat_mult)
  let ?v = "?w\<lparr> user_llpt := (user_llpt ?w)(k := ?lf True False) \<rparr>"
  have 2: "handle_fault ?L (\<lambda>_. None) (word_of_nat (k * PGSIZE)) ?c ?w = Inr ?v"
    using page_addr [OF k] by (simp add: handle_fault_def Let_def leaf_A leaf_set_A del: of_nat_mult)
  have "user_access ?L 4 (\<lambda>_. None) False k ?b = user_access ?L 3 (\<lambda>_. None) False k ?w"
    using 1 b(3) by (subst user_access.simps) (simp add: permits_zero numeral_eq_Suc del: of_nat_mult)
  also have "\<dots> = user_access ?L 2 (\<lambda>_. None) False k ?v"
    using 2 by (subst user_access.simps) (simp add: permits_leaf numeral_eq_Suc del: of_nat_mult)
  also have "\<dots> = Inr ?v" by (subst user_access.simps) (simp add: permits_leaf)
  finally have "user_access ?L 4 (\<lambda>_. None) False k ?b = Inr ?v" .
  then have run: "user_run ?L (\<lambda>_. None) [Load k] ?b = Inr ([unat (?lf True True)], ?v)" by (simp add: rw)
  have "unat (?lf True True) \<noteq> unat (?lf True False)" unfolding word_unat_eq_iff [symmetric] by (simp add: leaf_inject)
  then have ev: "evict ?L (word_of_nat (k * PGSIZE)) ?v = Inl ?v"
    using page_addr [OF k] frame_addr_nonzero [of e 0] by (simp add: evict_def Let_def node rw tab leaf_A leaf_D del: of_nat_mult)
  have unmapped: "evict_iter ?L j (Inr ?v) = Inr ?v" if "j \<in> set [1..<k]" for j
    using that page_addr [of j] k
    by (simp add: evict_iter_def evict_def Let_def vm_boot_pages_def del: of_nat_mult)
  have "fold (evict_iter ?L) js (Inr ?v) = Inr ?v" if "set js \<subseteq> set [1..<k]" for js
    using that unmapped by (induction js) simp_all
  moreover have "fold (evict_iter ?L) js (Inl ?v) = Inl ?v" for js
    by (induction js) (simp_all add: evict_iter_def)
  moreover have "[1..<63] = [1..<k] @ k # [Suc k..<63]"
    using upt_add_eq_append [of 1 k "63 - k"] k by (simp add: upt_conv_Cons)
  ultimately have "fold (evict_iter ?L) [1..<63] (Inr ?v) = Inl ?v" using ev by (simp add: evict_iter_def)
  then have "evict_all ?L ?v = Inl ?v"
    unfolding evict_all_def c_for_1 [folded One_nat_def] MAX_TEST_PAGES_def by simp
  with run show ?thesis using assms(3,4) by (auto simp: handle_trap_def)
qed

end
