(* ===== verification/Vm_Boot.thy ===== *)
theory Vm_Boot
  imports Vm_Pages C_Printf Bench_Util
begin

text \<open>
  The rest of \<^verbatim>\<open>riscv-tests/env/v/vm.c\<close>: the console over the host interface, the random access
  stream of the other harts, and the boot code with its page tables and control registers, in the
  64-bit Sv39 configuration. The host interface is the list of words handed to the host; the
  wait for the host to take the previous one is not part of the model.
\<close>

subsection \<open>Console\<close>

definition do_tohost :: "64 word \<Rightarrow> 64 word list \<Rightarrow> 64 word list" where
  "do_tohost v sent = sent @ [v]"

definition cputchar :: "byte \<Rightarrow> 64 word list \<Rightarrow> 64 word list" where
  "cputchar x = do_tohost (0x0101000000000000 OR ucast x)"

text \<open>A terminated string, given by the bytes before its zero.\<close>

definition cputstring :: "byte list \<Rightarrow> 64 word list \<Rightarrow> 64 word list" where
  "cputstring s sent = fold cputchar s sent"

definition terminate :: "c_int \<Rightarrow> 64 word list \<Rightarrow> 64 word list" where
  "terminate code = do_tohost (scast code)"

definition wtf :: "64 word list \<Rightarrow> 64 word list" where
  "wtf = terminate 841"

definition vm_printhex :: "64 word \<Rightarrow> 64 word list \<Rightarrow> 64 word list" where
  "vm_printhex x sent =
     (let (x, str) = c_for 0 16 1 (\<lambda>i (x, str). (drop_bit 4 x, str[15 - i := digit_char (unat (x AND 0xF))])) (x, replicate 17 0)
      in cputstring (takeWhile (\<lambda>c. c \<noteq> 0) (str[16 := 0])) sent)"

lemma cputstring_words: "cputstring s sent = sent @ map (\<lambda>c. 0x0101000000000000 OR ucast c) s"
  by (induction s arbitrary: sent) (simp_all add: cputstring_def cputchar_def do_tohost_def)

subsection \<open>The access stream of the other harts\<close>

definition lfsr63 :: "64 word \<Rightarrow> 64 word" where
  "lfsr63 x = (let b = (x XOR drop_bit 1 x) AND 1 in drop_bit 1 x OR push_bit 62 b)"

definition torture_addr :: "64 word \<Rightarrow> 64 word" where
  "torture_addr random =
     DRAM_BASE + ((random mod word_of_nat (2 * (MAX_TEST_PAGES + 1) * PGSIZE)) AND NOT 3)"

text \<open>The first \<open>n\<close> iterations: the address, and whether it is a no-op write.\<close>

fun coherence_torture :: "nat \<Rightarrow> 64 word \<Rightarrow> (64 word \<times> bool) list" where
  "coherence_torture 0 random = []"
| "coherence_torture (Suc n) random = (torture_addr random, random AND 1 \<noteq> 0) # coherence_torture n (lfsr63 random)"

lemma lfsr63_lfsr: "lfsr63 = lfsr"
  by (simp add: fun_eq_iff lfsr63_def lfsr_def)

subsection \<open>Page tables\<close>

text \<open>\<open>pt i j\<close> is entry \<open>j\<close> of table \<open>i\<close>; \<open>base\<close> is the address of the page-aligned array.\<close>

type_synonym page_tables = "nat \<Rightarrow> nat \<Rightarrow> 64 word"

definition PTES_PER_PT :: nat where "PTES_PER_PT = 512"

definition table_pte :: "64 word \<Rightarrow> nat \<Rightarrow> 64 word" where
  "table_pte base i = push_bit PTE_PPN_SHIFT (drop_bit PGSHIFT (base + word_of_nat (i * PGSIZE))) OR PTE_V"

definition set_pte :: "nat \<Rightarrow> nat \<Rightarrow> 64 word \<Rightarrow> page_tables \<Rightarrow> page_tables" where
  "set_pte i j v pt = pt(i := (pt i)(j := v))"

definition boot_page_tables :: "64 word \<Rightarrow> page_tables \<Rightarrow> page_tables" where
  "boot_page_tables base pt =
     set_pte 1 0 (table_pte base 3)
    (set_pte 2 (PTES_PER_PT - 1) (push_bit PTE_PPN_SHIFT (DRAM_BASE div 4096)
       OR PTE_V OR PTE_R OR PTE_W OR PTE_X OR PTE_A OR PTE_D)
    (set_pte 0 (PTES_PER_PT - 1) (table_pte base 2)
    (set_pte 0 0 (table_pte base 1) pt)))"

definition SATP_MODE :: "64 word" where "SATP_MODE = 0xF000000000000000"
definition SATP_MODE_SV39 :: "64 word" where "SATP_MODE_SV39 = 8"

definition satp_value :: "64 word \<Rightarrow> 64 word" where
  "satp_value base = drop_bit PGSHIFT base OR (SATP_MODE_SV39 * (SATP_MODE AND NOT (push_bit 1 SATP_MODE)))"

subsection \<open>vm\_boot\<close>

record boot_csrs =
  satp :: "64 word"
  pmpaddr0 :: "64 word"
  pmpcfg0 :: "64 word"
  stvec :: "64 word"
  sscratch :: "64 word"
  medeleg :: "64 word"
  mstatus :: "64 word"
  mie :: "64 word"

definition MEGAPAGE_SIZE :: "64 word" where "MEGAPAGE_SIZE = 512 * 4096"

definition pa2kva :: "64 word \<Rightarrow> 64 word" where
  "pa2kva pa = pa - DRAM_BASE - MEGAPAGE_SIZE"

definition uva2kva :: "64 word \<Rightarrow> 64 word" where
  "uva2kva va = va - MEGAPAGE_SIZE"

definition boot_csr_values :: "64 word \<Rightarrow> 64 word \<Rightarrow> 64 word \<Rightarrow> boot_csrs" where
  "boot_csr_values base trap_entry mscratch =
     \<lparr> satp = satp_value base, pmpaddr0 = push_bit 53 1 - 1, pmpcfg0 = 0x18 OR 0x01 OR 0x02 OR 0x04,
       stvec = pa2kva trap_entry, sscratch = pa2kva mscratch,
       medeleg = push_bit 8 1 OR push_bit 12 1 OR push_bit 13 1 OR push_bit 15 1,
       mstatus = 0x6000 OR 0x18000 OR 0x600, mie = 0 \<rparr>"

datatype 'p boot_result =
    Torture "nat \<Rightarrow> (64 word \<times> bool) list"
  | Boot_Failed
  | Booted boot_csrs page_tables "'p vm" trapframe_t

text \<open>
  \<open>satp_read\<close> is what the register returns after the write. Harts other than 0 never boot.
\<close>

definition vm_boot ::
  "64 word \<Rightarrow> 64 word \<Rightarrow> 64 word \<Rightarrow> 64 word \<Rightarrow> (64 word \<Rightarrow> 64 word) \<Rightarrow> 64 word \<Rightarrow> 64 word \<Rightarrow> (64 word \<Rightarrow> 'p) \<Rightarrow> 'p boot_result" where
  "vm_boot mhartid entropy base trap_entry satp_read mscratch test_addr mem =
     (if mhartid \<noteq> 0 then Torture (\<lambda>n. coherence_torture n entropy)
      else if satp_read (satp_value base) \<noteq> satp_value base then Boot_Failed
      else Booted (boot_csr_values base trap_entry mscratch) (boot_page_tables base (\<lambda>_ _. 0))
        (vm_boot_pages entropy mem)
        \<lparr> gpr = (\<lambda>_. 0), epc = test_addr - DRAM_BASE, badvaddr = 0, cause = 0 \<rparr>)"

subsection \<open>The translation the tables define\<close>

text \<open>
  The Sv39 walk of the hardware: 9 bits of the address index each level, an entry with a
  permission is a leaf, and the bits below its level come from the address. \<open>tables\<close> reads an
  entry of the table in a frame.
\<close>

definition vpn :: "nat \<Rightarrow> 64 word \<Rightarrow> nat" where
  "vpn level va = unat (take_bit 9 (drop_bit (12 + 9 * level) va))"

definition is_leaf :: "64 word \<Rightarrow> bool" where
  "is_leaf pte \<longleftrightarrow> pte AND (PTE_R OR PTE_W OR PTE_X) \<noteq> 0"

fun sv39_walk :: "nat \<Rightarrow> (64 word \<Rightarrow> nat \<Rightarrow> 64 word) \<Rightarrow> 64 word \<Rightarrow> 64 word \<Rightarrow> 64 word option" where
  "sv39_walk level tables f va =
     (let pte = tables f (vpn level va)
      in if pte AND PTE_V = 0 then None
         else if is_leaf pte then Some (push_bit 12 (ppn pte) + take_bit (12 + 9 * level) va)
         else (case level of 0 \<Rightarrow> None | Suc l \<Rightarrow> sv39_walk l tables (ppn pte) va))"

declare sv39_walk.simps [simp del]

definition sv39_canonical :: "64 word \<Rightarrow> bool" where
  "sv39_canonical va \<longleftrightarrow> drop_bit 39 va = (if bit va 38 then mask 25 else 0)"

text \<open>Physical memory in which the tables of the array at \<open>base\<close> are found.\<close>

definition tables_at :: "64 word \<Rightarrow> page_tables \<Rightarrow> (64 word \<Rightarrow> nat \<Rightarrow> 64 word) \<Rightarrow> bool" where
  "tables_at base pt tables \<longleftrightarrow> (\<forall>i < 4. tables (drop_bit 12 base + word_of_nat i) = pt i)"

lemma vpn_nat: "vpn level va = unat va div 2 ^ (12 + 9 * level) mod 512"
  unfolding vpn_def unsigned_take_bit_eq unat_drop_bit_eq by (simp add: take_bit_eq_mod drop_bit_eq_div)

lemma user_vpn: "unat va < 2 ^ 21 \<Longrightarrow> vpn 2 va = 0 \<and> vpn 1 va = 0 \<and> vpn 0 va = unat va div 4096"
  by (simp add: vpn_nat less_mult_imp_div_less)

lemma kernel_address:
  assumes "x < 2 ^ 21"
  shows "unat (uva2kva (word_of_nat x)) = 2 ^ 64 - 2 ^ 21 + x"
proof -
  have "uva2kva (word_of_nat x) = word_of_nat (2 ^ 64 - 2 ^ 21 + x)"
    by (simp add: uva2kva_def MEGAPAGE_SIZE_def)
  moreover have "2 ^ 64 - 2 ^ 21 + x < 2 ^ 64" using assms by simp
  ultimately show ?thesis by (simp add: unat_of_nat take_bit_nat_eq_self del: of_nat_add)
qed

lemma kernel_vpn:
  assumes "x < 2 ^ 21"
  shows "vpn 2 (uva2kva (word_of_nat x)) = 511" "vpn 1 (uva2kva (word_of_nat x)) = 511"
    "take_bit 21 (uva2kva (word_of_nat x)) = word_of_nat x"
proof -
  have 2: "(2 ^ 64 - 2 ^ 21 + x) div 2 ^ 30 = 2 ^ 34 - (1 :: nat)"
    by (rule div_nat_eqI) (use assms in simp_all)
  have 1: "(2 ^ 64 - 2 ^ 21 + x) div 2 ^ 21 = 2 ^ 43 - (1 :: nat)"
    by (rule div_nat_eqI) (use assms in simp_all)
  show "vpn 2 (uva2kva (word_of_nat x)) = 511"
    unfolding vpn_nat kernel_address [OF assms] using 2 by simp
  show "vpn 1 (uva2kva (word_of_nat x)) = 511"
    unfolding vpn_nat kernel_address [OF assms] using 1 by simp
  have "(2 ^ 64 - 2 ^ 21 + x) mod 2 ^ 21 = x"
  proof -
    have "(2 ^ 64 - 2 ^ 21 + x :: nat) = x + (2 ^ 43 - 1) * 2 ^ 21" by simp
    then have "(2 ^ 64 - 2 ^ 21 + x) mod 2 ^ 21 = x mod 2 ^ 21" by (simp only: mod_mult_self1)
    with assms show ?thesis by simp
  qed
  then have "unat (take_bit 21 (uva2kva (word_of_nat x))) = x"
    unfolding unsigned_take_bit_eq kernel_address [OF assms] by (simp only: take_bit_eq_mod)
  moreover have "unat (word_of_nat x :: 64 word) = x" using assms by (simp add: unat_of_nat take_bit_nat_eq_self)
  ultimately show "take_bit 21 (uva2kva (word_of_nat x)) = word_of_nat x" by (simp only: word_unat_eq_iff)
qed

lemma table_pte_entry: "b + 4 \<le> 2 ^ 44 \<Longrightarrow> i < 4 \<Longrightarrow>
    table_pte (word_of_nat (b * 4096)) i = push_bit 10 (word_of_nat (b + i)) OR PTE_V"
proof -
  assume h: "b + 4 \<le> 2 ^ 44" "i < 4"
  have "(word_of_nat (b * 4096) + word_of_nat (i * PGSIZE) :: 64 word) = word_of_nat ((b + i) * 4096)"
    by (simp add: PGSIZE_def algebra_simps)
  then show ?thesis
    using frame_of_address [of "b + i"] h by (simp add: table_pte_def PTE_PPN_SHIFT_def PGSHIFT_def del: of_nat_add of_nat_mult)
qed

lemma table_pte_walk:
  assumes "b + 4 \<le> 2 ^ 44" "i < 4"
  shows "table_pte (word_of_nat (b * 4096)) i AND PTE_V \<noteq> 0" "\<not> is_leaf (table_pte (word_of_nat (b * 4096)) i)"
    "ppn (table_pte (word_of_nat (b * 4096)) i) = word_of_nat (b + i)"
  unfolding table_pte_entry [OF assms]
  using ppn_entry [of "b + i" PTE_V] assms
  by (simp_all add: is_leaf_def bit.conj_disj_distrib2 low_and pte_bits mask_eq_exp_minus_1 del: of_nat_add)

definition kernel_pte :: "64 word" where
  "kernel_pte = push_bit PTE_PPN_SHIFT (DRAM_BASE div 4096) OR PTE_V OR PTE_R OR PTE_W OR PTE_X OR PTE_A OR PTE_D"

lemma kernel_pte_walk: "kernel_pte AND PTE_V \<noteq> 0" "is_leaf kernel_pte" "ppn kernel_pte = 0x80000"
  by (simp_all add: kernel_pte_def is_leaf_def ppn_def PTE_PPN_SHIFT_def DRAM_BASE_def pte_bits drop_bit_eq_div take_bit_eq_mod)

lemma boot_entries:
  "boot_page_tables base pt 0 0 = table_pte base 1" "boot_page_tables base pt 0 511 = table_pte base 2"
  "boot_page_tables base pt 1 0 = table_pte base 3" "boot_page_tables base pt 2 511 = kernel_pte"
  "boot_page_tables base pt 3 = pt 3"
  by (simp_all add: boot_page_tables_def set_pte_def PTES_PER_PT_def kernel_pte_def)

lemma walk_table:
  "tables f (vpn n va) = pte \<Longrightarrow> n = Suc l \<Longrightarrow> pte AND PTE_V \<noteq> 0 \<Longrightarrow> \<not> is_leaf pte \<Longrightarrow>
    sv39_walk n tables f va = sv39_walk l tables (ppn pte) va"
  by (subst sv39_walk.simps) simp

text \<open>
  C19. The page tables the boot code builds are the ones the rest of the kernel assumes. Walked by
  the hardware from the register value the code writes, a user address below 2 MiB is translated
  by its entry of \<^verbatim>\<open>user_llpt\<close> alone, and the kernel address \<^verbatim>\<open>uva2kva(x)\<close> of every
  offset below 2 MiB reaches byte \<open>x\<close> of DRAM.
\<close>

theorem boot_page_tables_translate:
  assumes b: "b + 4 \<le> 2 ^ 44" and x: "x < 2 ^ 21"
    and t: "tables_at (word_of_nat (b * 4096)) ((boot_page_tables (word_of_nat (b * 4096)) pt)(3 := llpt)) tables"
  shows "take_bit 44 (satp_value (word_of_nat (b * 4096))) = word_of_nat b
    \<and> drop_bit 60 (satp_value (word_of_nat (b * 4096))) = SATP_MODE_SV39
    \<and> sv39_walk 2 tables (word_of_nat b) (uva2kva (word_of_nat x)) = Some (DRAM_BASE + word_of_nat x)
    \<and> sv39_walk 2 tables (word_of_nat b) (word_of_nat x) =
        (let pte = llpt (x div 4096)
         in if pte AND PTE_V \<noteq> 0 \<and> is_leaf pte then Some (push_bit 12 (ppn pte) + take_bit 12 (word_of_nat x)) else None)"
proof (intro conjI)
  let ?base = "word_of_nat (b * 4096) :: 64 word"
  have f: "drop_bit 12 ?base = word_of_nat b" using frame_of_address [of b] b by simp
  have tab: "tables (word_of_nat (b + i)) = ((boot_page_tables ?base pt)(3 := llpt)) i" if "i < 4" for i
    using t that f by (simp add: tables_at_def del: of_nat_mult)
  have m: "SATP_MODE_SV39 * (SATP_MODE AND NOT (push_bit 1 SATP_MODE)) = push_bit 60 8"
    by (simp add: SATP_MODE_SV39_def SATP_MODE_def)
  have v: "satp_value ?base = word_of_nat b OR push_bit 60 8" using f m by (simp add: satp_value_def PGSHIFT_def)
  have tb: "take_bit 44 (word_of_nat b :: 64 word) = word_of_nat b"
    using b by (simp add: take_bit_of_nat take_bit_nat_eq_self)
  show "take_bit 44 (satp_value ?base) = word_of_nat b"
    unfolding v take_bit_or tb by (simp add: take_bit_push_bit)
  have "drop_bit 60 (word_of_nat b :: 64 word) = 0"
    by (subst tb [symmetric]) (rule word_eq_by_bits, auto simp: bit_simps)
  then show "drop_bit 60 (satp_value ?base) = SATP_MODE_SV39"
    unfolding v drop_bit_or SATP_MODE_SV39_def by simp
  have t0: "tables (word_of_nat b) = (boot_page_tables ?base pt) 0" using tab [of 0] by simp
  note k = kernel_vpn [OF x]
  have at: "tables (word_of_nat b) (vpn 2 (uva2kva (word_of_nat x))) = table_pte ?base 2"
    unfolding t0 k(1) boot_entries ..
  have e2: "sv39_walk 2 tables (word_of_nat b) (uva2kva (word_of_nat x))
      = sv39_walk 1 tables (ppn (table_pte ?base 2)) (uva2kva (word_of_nat x))"
    by (rule walk_table [of tables "word_of_nat b" 2 _ _ 1, OF at]) (use table_pte_walk(1,2) [OF b, of 2] in \<open>simp_all del: of_nat_mult\<close>)
  have "sv39_walk 2 tables (word_of_nat b) (uva2kva (word_of_nat x)) = sv39_walk 1 tables (word_of_nat (b + 2)) (uva2kva (word_of_nat x))"
    using e2 table_pte_walk(3) [OF b, of 2] by simp
  also have "\<dots> = Some (push_bit 12 0x80000 + take_bit 21 (uva2kva (word_of_nat x)))"
    using kernel_pte_walk tab [of 2] k(2) by (subst sv39_walk.simps) (simp add: boot_entries)
  also have "\<dots> = Some (DRAM_BASE + word_of_nat x)" unfolding k(3) by (simp add: DRAM_BASE_def)
  finally show "sv39_walk 2 tables (word_of_nat b) (uva2kva (word_of_nat x)) = Some (DRAM_BASE + word_of_nat x)" .
  have u: "unat (word_of_nat x :: 64 word) = x" using x by (simp add: unat_of_nat take_bit_nat_eq_self)
  have uv: "vpn 2 (word_of_nat x) = 0" "vpn 1 (word_of_nat x) = 0" "vpn 0 (word_of_nat x) = x div 4096"
    using user_vpn [of "word_of_nat x"] x u by simp_all
  have at1: "tables (word_of_nat b) (vpn 2 (word_of_nat x)) = table_pte ?base 1"
    unfolding t0 uv boot_entries ..
  have e1: "sv39_walk 2 tables (word_of_nat b) (word_of_nat x)
      = sv39_walk 1 tables (ppn (table_pte ?base 1)) (word_of_nat x)"
    by (rule walk_table [of tables "word_of_nat b" 2 _ _ 1, OF at1]) (use table_pte_walk(1,2) [OF b, of 1] in \<open>simp_all del: of_nat_mult\<close>)
  have at3: "tables (word_of_nat (b + 1)) (vpn 1 (word_of_nat x)) = table_pte ?base 3"
    using tab [of 1] unfolding uv by (simp add: boot_entries del: of_nat_mult One_nat_def)
  have e3: "sv39_walk 1 tables (word_of_nat (b + 1)) (word_of_nat x)
      = sv39_walk 0 tables (ppn (table_pte ?base 3)) (word_of_nat x)"
    by (rule walk_table [of tables "word_of_nat (b + 1)" 1 _ _ 0, OF at3]) (use table_pte_walk(1,2) [OF b, of 3] in \<open>simp_all del: of_nat_mult\<close>)
  have "sv39_walk 2 tables (word_of_nat b) (word_of_nat x) = sv39_walk 1 tables (word_of_nat (b + 1)) (word_of_nat x)"
    using e1 table_pte_walk(3) [OF b, of 1] by simp
  also have "\<dots> = sv39_walk 0 tables (word_of_nat (b + 3)) (word_of_nat x)"
    using e3 table_pte_walk(3) [OF b, of 3] by simp
  also have "\<dots> = (let pte = llpt (x div 4096)
         in if pte AND PTE_V \<noteq> 0 \<and> is_leaf pte then Some (push_bit 12 (ppn pte) + take_bit 12 (word_of_nat x)) else None)"
    using tab [of 3] by (subst sv39_walk.simps) (simp add: uv Let_def)
  finally show "sv39_walk 2 tables (word_of_nat b) (word_of_nat x) = (let pte = llpt (x div 4096)
         in if pte AND PTE_V \<noteq> 0 \<and> is_leaf pte then Some (push_bit 12 (ppn pte) + take_bit 12 (word_of_nat x)) else None)" .
qed

theorem boot_page_tables_translate_witness:
  "sv39_walk 2 (\<lambda>f. ((boot_page_tables 0x1000 (\<lambda>_ _. 0))(3 := (\<lambda>_. 0))) (unat (f - 1))) 1 (uva2kva 0x123) = Some 0x80000123"
proof -
  let ?t = "\<lambda>f. ((boot_page_tables 0x1000 (\<lambda>_ _. 0))(3 := (\<lambda>_. 0))) (unat (f - 1 :: 64 word))"
  have "tables_at (word_of_nat (1 * 4096)) ((boot_page_tables (word_of_nat (1 * 4096)) (\<lambda>_ _. 0))(3 := (\<lambda>_. 0))) ?t"
    by (auto simp: tables_at_def unat_of_nat take_bit_nat_eq_self)
  from boot_page_tables_translate [where b = 1 and x = "0x123", OF _ _ this]
  show ?thesis by (simp add: DRAM_BASE_def)
qed

text \<open>The other harts touch only the test's DRAM.\<close>

lemma torture_addr_range: "0x80000000 \<le> unat (torture_addr r) \<and> unat (torture_addr r) < 0x80000000 + 2 ^ 19"
proof -
  define m where "m = (r mod 0x80000) AND NOT 3"
  have t: "torture_addr r = 0x80000000 + m"
    by (simp add: torture_addr_def m_def DRAM_BASE_def MAX_TEST_PAGES_def PGSIZE_def)
  have "m \<le> r mod 0x80000" unfolding m_def by (rule word_and_le2)
  also have "\<dots> < 0x80000" by (rule word_mod_less_divisor) simp
  finally have m: "unat m < 0x80000" by (simp add: word_less_nat_alt)
  have "torture_addr r = word_of_nat (0x80000000 + unat m)" unfolding t by simp
  also have "unat \<dots> = 0x80000000 + unat m"
    using m by (simp add: unat_of_nat take_bit_nat_eq_self del: of_nat_add)
  finally show ?thesis using m by simp
qed

end
