(* ===== verification/Mt_Prelude.thy ===== *)
theory Mt_Prelude
  imports Bench_Kernels
begin

text \<open>
  What the models of the multi-threaded kernels \<^verbatim>\<open>riscv-tests/mt/*_matmul.c\<close> share. A kernel is a
  function of the thread number \<^verbatim>\<open>coreid\<close>, the number of threads \<^verbatim>\<open>ncores\<close>, the dimension
  \<^verbatim>\<open>lda\<close>, the arrays \<^verbatim>\<open>A\<close> and \<^verbatim>\<open>B\<close> and the contents of \<^verbatim>\<open>C\<close> on entry; its value is the
  contents of \<^verbatim>\<open>C\<close> on exit. Arrays are reached through pointers of unknown extent, so they are
  functions from indices; elements are 32-bit words with wrap-around. The results are stated for
  \<open>lda = 32\<close>, the dimension the kernels are written for (most have 32 in their bounds).

  The lemmas follow the loop structure. \<open>adds K S v\<close> says that the code \<open>K\<close> adds \<open>v x\<close> to every
  entry \<open>x\<close> of \<open>C\<close> with \<open>S x\<close> and leaves the others alone, \<open>stores K S v\<close> that it overwrites them;
  one rule per kind of loop builds these for a whole kernel, and the locale \<open>mt_kernel\<close> derives
  from them what all threads compute together, in any order.
\<close>

type_synonym c_array = "nat \<Rightarrow> c_int"
type_synonym kernel = "nat \<Rightarrow> nat \<Rightarrow> nat \<Rightarrow> c_array \<Rightarrow> c_array \<Rightarrow> c_array \<Rightarrow> c_array"

text \<open>\<^verbatim>\<open>C[p] += v\<close>\<close>

definition c_add :: "c_array \<Rightarrow> nat \<Rightarrow> c_int \<Rightarrow> c_array" where
  "c_add C p v = C(p := C p + v)"

subsection \<open>The product\<close>

text \<open>What index \<open>k\<close> contributes to the entry at position \<open>x\<close>, and the sum over a range of \<open>k\<close>.\<close>

definition mat_term :: "c_array \<Rightarrow> c_array \<Rightarrow> nat \<Rightarrow> nat \<Rightarrow> c_int" where
  "mat_term A B k x = A (x div 32 * 32 + k) * B (k * 32 + x mod 32)"

definition mat_part :: "c_array \<Rightarrow> c_array \<Rightarrow> nat \<Rightarrow> nat \<Rightarrow> nat \<Rightarrow> c_int" where
  "mat_part A B lo hi x = (\<Sum>k = lo..<hi. mat_term A B k x)"

definition mat_prod :: "c_array \<Rightarrow> c_array \<Rightarrow> nat \<Rightarrow> c_int" where
  "mat_prod A B x = (\<Sum>k = 0..<32. A (x div 32 * 32 + k) * B (k * 32 + x mod 32))"

lemma mat_part_all [simp]: "mat_part A B 0 32 = mat_prod A B"
  by (rule ext) (simp add: mat_part_def mat_term_def mat_prod_def)

lemma mat_part_join: "lo \<le> mi \<Longrightarrow> mi \<le> hi \<Longrightarrow> mat_part A B lo mi x + mat_part A B mi hi x = mat_part A B lo hi x"
  by (simp add: mat_part_def sum.atLeastLessThan_concat)

text \<open>A term in the coordinates of the source: row \<open>j\<close>, column \<open>i\<close>.\<close>

lemma mat_term_at: "i < 32 \<Longrightarrow> mat_term A B k (j * 32 + i) = A (j * 32 + k) * B (k * 32 + i)"
  by (simp add: mat_term_def)

subsection \<open>Adding and storing code\<close>

definition adds :: "(c_array \<Rightarrow> c_array) \<Rightarrow> (nat \<Rightarrow> bool) \<Rightarrow> (nat \<Rightarrow> c_int) \<Rightarrow> bool" where
  "adds K S v \<longleftrightarrow> (\<forall>C x. K C x = C x + (if S x then v x else 0))"

definition stores :: "(c_array \<Rightarrow> c_array) \<Rightarrow> (nat \<Rightarrow> bool) \<Rightarrow> (nat \<Rightarrow> c_int) \<Rightarrow> bool" where
  "stores K S v \<longleftrightarrow> (\<forall>C x. K C x = (if S x then v x else C x))"

lemma addsI: "(\<And>C x. K C x = C x + (if S x then v x else 0)) \<Longrightarrow> adds K S v"
  by (simp add: adds_def)

lemma addsD: "adds K S v \<Longrightarrow> K C x = C x + (if S x then v x else 0)"
  by (simp add: adds_def)

lemma storesI: "(\<And>C x. K C x = (if S x then v x else C x)) \<Longrightarrow> stores K S v"
  by (simp add: stores_def)

lemma storesD: "stores K S v \<Longrightarrow> K C x = (if S x then v x else C x)"
  by (simp add: stores_def)

lemma adds_skip: "(\<And>x. \<not> S x) \<Longrightarrow> adds (\<lambda>C. C) S v"
  by (simp add: adds_def)

lemma stores_skip: "(\<And>x. \<not> S x) \<Longrightarrow> stores (\<lambda>C. C) S v"
  by (simp add: stores_def)

lemma adds_cong: "adds K S v \<Longrightarrow> (\<And>x. T x \<longleftrightarrow> S x) \<Longrightarrow> adds K T v"
  by (simp add: adds_def)

lemma stores_cong: "stores K S v \<Longrightarrow> (\<And>x. T x \<longleftrightarrow> S x) \<Longrightarrow> stores K T v"
  by (simp add: stores_def)

lemma adds_then:
  "adds K S v \<Longrightarrow> adds L T v \<Longrightarrow> (\<And>x. S x \<Longrightarrow> \<not> T x) \<Longrightarrow> adds (\<lambda>C. L (K C)) (\<lambda>x. S x \<or> T x) v"
  by (auto simp: adds_def)

lemma stores_then: "stores K S v \<Longrightarrow> stores L T v \<Longrightarrow> stores (\<lambda>C. L (K C)) (\<lambda>x. S x \<or> T x) v"
  by (auto simp: stores_def)

text \<open>Code under a guard of the source.\<close>

lemma adds_if: "adds K S v \<Longrightarrow> adds (\<lambda>C. if g then K C else C) (\<lambda>x. g \<and> S x) v"
  by (simp add: adds_def)

lemma adds_return: "adds K S v \<Longrightarrow> adds (\<lambda>C. if g then C else K C) (\<lambda>x. \<not> g \<and> S x) v"
  by (simp add: adds_def)

lemma stores_if: "stores K S v \<Longrightarrow> stores (\<lambda>C. if g then K C else C) (\<lambda>x. g \<and> S x) v"
  by (simp add: stores_def)

lemma stores_return: "stores K S v \<Longrightarrow> stores (\<lambda>C. if g then C else K C) (\<lambda>x. \<not> g \<and> S x) v"
  by (simp add: stores_def)

text \<open>Two passes over the same entries that add two parts of the sum.\<close>

lemma adds_parts:
  "adds K S (mat_part A B lo mi) \<Longrightarrow> adds L S (mat_part A B mi hi) \<Longrightarrow> lo \<le> mi \<Longrightarrow> mi \<le> hi \<Longrightarrow>
   adds (\<lambda>C. L (K C)) S (mat_part A B lo hi)"
  by (simp add: adds_def mat_part_join add.assoc)

subsection \<open>Loops\<close>

lemma adds_fold:
  assumes "distinct is" "\<And>i. i \<in> set is \<Longrightarrow> adds (body i) (W i) v"
    "\<And>i j x. i \<in> set is \<Longrightarrow> j \<in> set is \<Longrightarrow> W i x \<Longrightarrow> W j x \<Longrightarrow> i = j"
  shows "adds (fold body is) (\<lambda>x. \<exists>i \<in> set is. W i x) v"
  using assms
proof (induction "is")
  case (Cons i "is")
  have "adds (\<lambda>C. fold body is (body i C)) (\<lambda>x. W i x \<or> (\<exists>j \<in> set is. W j x)) v"
  proof (rule adds_then [where K = "body i" and L = "fold body is"])
    show "adds (body i) (W i) v" using Cons.prems(2) by simp
    show "adds (fold body is) (\<lambda>x. \<exists>j \<in> set is. W j x) v"
    proof (rule Cons.IH)
      show "i = j" if "i \<in> set is" "j \<in> set is" "W i x" "W j x" for i j x
        using Cons.prems(3) [of i j x] that by simp
    qed (use Cons.prems in simp_all)
    show "\<not> (\<exists>j \<in> set is. W j x)" if "W i x" for x
    proof
      assume "\<exists>j \<in> set is. W j x"
      then obtain j where j: "j \<in> set is" "W j x" by blast
      with Cons.prems(3) [of i j x] that have "i = j" by simp
      with j Cons.prems(1) show False by simp
    qed
  qed
  then show ?case by (simp add: comp_def)
qed (simp add: adds_def)

lemma stores_fold:
  assumes "\<And>i. i \<in> set is \<Longrightarrow> stores (body i) (W i) v"
  shows "stores (fold body is) (\<lambda>x. \<exists>i \<in> set is. W i x) v"
  using assms
proof (induction "is")
  case (Cons i "is")
  have "stores (\<lambda>C. fold body is (body i C)) (\<lambda>x. W i x \<or> (\<exists>j \<in> set is. W j x)) v"
    using Cons by (intro stores_then) simp_all
  then show ?case by (simp add: comp_def)
qed (simp add: stores_def)

text \<open>
  A loop over consecutive windows of the width of its step: the windows of the iterations are
  disjoint and fill the range. \<open>f\<close> is the coordinate the loop runs over (row or column of the
  entry) and \<open>Q\<close> what the body fixes of the other one.
\<close>

lemma window_range:
  assumes "hi = lo + n * st" "0 < st"
  shows "(\<exists>i \<in> set (c_range lo hi st). i \<le> y \<and> y < i + st) \<longleftrightarrow> lo \<le> y \<and> y < hi"
proof
  assume "\<exists>i \<in> set (c_range lo hi st). i \<le> y \<and> y < i + st"
  then obtain k where k: "lo + k * st < lo + n * st" "lo + k * st \<le> y" "y < lo + k * st + st"
    using assms by (auto simp: c_range_mem)
  have "Suc k * st \<le> n * st" using k(1) by (intro mult_le_mono1) simp
  with k assms show "lo \<le> y \<and> y < hi" by auto
next
  assume y: "lo \<le> y \<and> y < hi"
  define k where "k = (y - lo) div st"
  have "k * st \<le> y - lo" "y - lo < k * st + st"
    using div_mult_mod_eq [of "y - lo" st] mod_less_divisor [OF assms(2), of "y - lo"]
    unfolding k_def by linarith+
  moreover have "lo + k * st < hi" using calculation(1) y by linarith
  ultimately show "\<exists>i \<in> set (c_range lo hi st). i \<le> y \<and> y < i + st"
    using y assms(2) by (intro bexI [of _ "lo + k * st"]) (auto simp: c_range_mem)
qed

lemma range_window:
  assumes "hi = lo + n * st" "0 < st" "i \<in> set (c_range lo hi st)"
  shows "lo \<le> i" "i + st \<le> hi"
proof -
  obtain k where k: "i = lo + k * st" "k * st < n * st" using assms by (auto simp: c_range_mem)
  then have "Suc k * st \<le> n * st" by (intro mult_le_mono1) simp
  with k assms show "lo \<le> i" "i + st \<le> hi" by simp_all
qed

lemma range_apart:
  assumes "i \<in> set (c_range lo hi st)" "j \<in> set (c_range lo hi st)" "0 < st"
    "i \<le> y" "y < i + st" "j \<le> y" "y < j + st"
  shows "i = (j :: nat)"
proof -
  obtain k l where k: "i = lo + k * st" "j = lo + l * st" using assms by (auto simp: c_range_mem)
  have "k * st < Suc l * st" "l * st < Suc k * st" using assms(4-7) unfolding k by simp_all
  then have "k < Suc l" "l < Suc k" by (simp_all only: mult_less_cancel2)
  then show ?thesis using k by simp
qed

lemma adds_window:
  assumes n: "hi = lo + n * st" "0 < st"
    and body: "\<And>i. lo \<le> i \<Longrightarrow> i + st \<le> hi \<Longrightarrow> adds (body i) (\<lambda>x. i \<le> f x \<and> f x < i + st \<and> Q x) v"
  shows "adds (c_for lo hi st body) (\<lambda>x. lo \<le> f x \<and> f x < hi \<and> Q x) v"
proof -
  have "adds (fold body (c_range lo hi st)) (\<lambda>x. \<exists>i \<in> set (c_range lo hi st). i \<le> f x \<and> f x < i + st \<and> Q x) v"
  proof (rule adds_fold)
    show "adds (body i) (\<lambda>x. i \<le> f x \<and> f x < i + st \<and> Q x) v" if "i \<in> set (c_range lo hi st)" for i
      using range_window [OF n that] by (rule body)
    show "i = j" if "i \<in> set (c_range lo hi st)" "j \<in> set (c_range lo hi st)"
      "i \<le> f x \<and> f x < i + st \<and> Q x" "j \<le> f x \<and> f x < j + st \<and> Q x" for i j x
      using range_apart [OF that(1,2) n(2)] that(3,4) by blast
  qed (rule c_range_distinct)
  then show ?thesis
    unfolding c_for_fold by (rule adds_cong) (use window_range [OF n] in blast)
qed

lemma stores_window:
  assumes n: "hi = lo + n * st" "0 < st"
    and body: "\<And>i. lo \<le> i \<Longrightarrow> i + st \<le> hi \<Longrightarrow> stores (body i) (\<lambda>x. i \<le> f x \<and> f x < i + st \<and> Q x) v"
  shows "stores (c_for lo hi st body) (\<lambda>x. lo \<le> f x \<and> f x < hi \<and> Q x) v"
proof -
  have "stores (fold body (c_range lo hi st)) (\<lambda>x. \<exists>i \<in> set (c_range lo hi st). i \<le> f x \<and> f x < i + st \<and> Q x) v"
    using body range_window [OF n] by (intro stores_fold) blast
  then show ?thesis
    unfolding c_for_fold by (rule stores_cong) (use window_range [OF n] in blast)
qed

text \<open>The entries of the rows \<open>jl\<close> to \<open>jh\<close> and the columns \<open>il\<close> to \<open>ih\<close>, and the loops over them.\<close>

definition tile :: "nat \<Rightarrow> nat \<Rightarrow> nat \<Rightarrow> nat \<Rightarrow> nat \<Rightarrow> bool" where
  "tile jl jh il ih x \<longleftrightarrow> jl \<le> x div 32 \<and> x div 32 < jh \<and> il \<le> x mod 32 \<and> x mod 32 < ih"

lemma adds_rows:
  assumes "hi = lo + n * st" "0 < st"
    and body: "\<And>j. lo \<le> j \<Longrightarrow> j + st \<le> hi \<Longrightarrow> adds (body j) (tile j (j + st) il ih) v"
  shows "adds (c_for lo hi st body) (tile lo hi il ih) v"
  unfolding tile_def
  by (rule adds_window [OF assms(1,2), where f = "\<lambda>x. x div 32"])
    (use body in \<open>simp add: tile_def [abs_def]\<close>)

lemma adds_cols:
  assumes "hi = lo + n * st" "0 < st"
    and body: "\<And>i. lo \<le> i \<Longrightarrow> i + st \<le> hi \<Longrightarrow> adds (body i) (tile jl jh i (i + st)) v"
  shows "adds (c_for lo hi st body) (tile jl jh lo hi) v"
proof -
  have "adds (c_for lo hi st body) (\<lambda>x. lo \<le> x mod 32 \<and> x mod 32 < hi \<and> jl \<le> x div 32 \<and> x div 32 < jh) v"
    by (rule adds_window [OF assms(1,2)], rule adds_cong [OF body]) (auto simp: tile_def)
  then show ?thesis by (rule adds_cong) (auto simp: tile_def)
qed

lemma stores_rows:
  assumes "hi = lo + n * st" "0 < st"
    and body: "\<And>j. lo \<le> j \<Longrightarrow> j + st \<le> hi \<Longrightarrow> stores (body j) (tile j (j + st) il ih) v"
  shows "stores (c_for lo hi st body) (tile lo hi il ih) v"
  unfolding tile_def
  by (rule stores_window [OF assms(1,2), where f = "\<lambda>x. x div 32"])
    (use body in \<open>simp add: tile_def [abs_def]\<close>)

lemma stores_cols:
  assumes "hi = lo + n * st" "0 < st"
    and body: "\<And>i. lo \<le> i \<Longrightarrow> i + st \<le> hi \<Longrightarrow> stores (body i) (tile jl jh i (i + st)) v"
  shows "stores (c_for lo hi st body) (tile jl jh lo hi) v"
proof -
  have "stores (c_for lo hi st body) (\<lambda>x. lo \<le> x mod 32 \<and> x mod 32 < hi \<and> jl \<le> x div 32 \<and> x div 32 < jh) v"
    by (rule stores_window [OF assms(1,2)], rule stores_cong [OF body]) (auto simp: tile_def)
  then show ?thesis by (rule stores_cong) (auto simp: tile_def)
qed

text \<open>A loop over the summation index.\<close>

lemma adds_sum_loop:
  assumes "hi = lo + n * st" "0 < st"
    and "\<And>k. lo \<le> k \<Longrightarrow> k + st \<le> hi \<Longrightarrow> adds (body k) S (mat_part A B k (k + st))"
  shows "adds (c_for lo hi st body) S (mat_part A B lo hi)"
  using assms
proof (induction n arbitrary: lo)
  case 0
  then show ?case by (subst c_for.simps [abs_def]) (simp add: adds_def mat_part_def)
next
  case (Suc n)
  have "adds (\<lambda>C. c_for (lo + st) hi st body (body lo C)) S (mat_part A B lo hi)"
  proof (rule adds_parts [where K = "body lo" and mi = "lo + st"])
    show "adds (body lo) S (mat_part A B lo (lo + st))" using Suc.prems by (intro Suc.prems(3)) simp_all
    show "adds (c_for (lo + st) hi st body) S (mat_part A B (lo + st) hi)"
      using Suc.prems by (intro Suc.IH Suc.prems(3)) simp_all
  qed (use Suc.prems in simp_all)
  moreover have "c_for lo hi st body = (\<lambda>C. c_for (lo + st) hi st body (body lo C))"
    using Suc.prems(1,2) by (intro ext, subst c_for.simps) simp
  ultimately show ?case by simp
qed

subsection \<open>Accumulators\<close>

text \<open>Loops over several local variables each of which only accumulates.\<close>

definition c_sum :: "nat \<Rightarrow> nat \<Rightarrow> nat \<Rightarrow> (nat \<Rightarrow> c_int) \<Rightarrow> c_int" where
  "c_sum lo hi st f = sum_list (map f (c_range lo hi st))"

lemma c_sum_one: "c_sum lo hi 1 f = (\<Sum>k = lo..<hi. f k)"
  by (simp add: c_sum_def interv_sum_list_conv_sum_set_nat)

lemma c_sum_1 [simp]: "c_sum lo hi (Suc 0) f = (\<Sum>k = lo..<hi. f k)"
  by (simp add: c_sum_def interv_sum_list_conv_sum_set_nat)

lemma acc4:
  "c_for lo hi st (\<lambda>k (t0, t1, t2, t3).
     (t0 + f0 k, t1 + f1 k, t2 + f2 k, t3 + f3 k)) (s0, s1, s2, s3) =
     (s0 + c_sum lo hi st f0, s1 + c_sum lo hi st f1, s2 + c_sum lo hi st f2, s3 + c_sum lo hi st f3)"
proof -
  have "fold (\<lambda>k (t0, t1, t2, t3).
     (t0 + f0 k, t1 + f1 k, t2 + f2 k, t3 + f3 k)) ks (s0, s1, s2, s3) =
     (s0 + sum_list (map f0 ks), s1 + sum_list (map f1 ks), s2 + sum_list (map f2 ks),
      s3 + sum_list (map f3 ks))" for ks
    by (induction ks arbitrary: s0 s1 s2 s3) (simp_all add: add.assoc)
  then show ?thesis by (simp add: c_for_fold c_sum_def)
qed

lemma acc8:
  "c_for lo hi st (\<lambda>k (t0, t1, t2, t3, t4, t5, t6, t7).
     (t0 + f0 k, t1 + f1 k, t2 + f2 k, t3 + f3 k, t4 + f4 k, t5 + f5 k,
      t6 + f6 k, t7 + f7 k)) (s0, s1, s2, s3, s4, s5, s6, s7) =
     (s0 + c_sum lo hi st f0, s1 + c_sum lo hi st f1, s2 + c_sum lo hi st f2, s3 + c_sum lo hi st f3,
      s4 + c_sum lo hi st f4, s5 + c_sum lo hi st f5, s6 + c_sum lo hi st f6, s7 + c_sum lo hi st f7)"
proof -
  have "fold (\<lambda>k (t0, t1, t2, t3, t4, t5, t6, t7).
     (t0 + f0 k, t1 + f1 k, t2 + f2 k, t3 + f3 k, t4 + f4 k, t5 + f5 k,
      t6 + f6 k, t7 + f7 k)) ks (s0, s1, s2, s3, s4, s5, s6, s7) =
     (s0 + sum_list (map f0 ks), s1 + sum_list (map f1 ks), s2 + sum_list (map f2 ks),
      s3 + sum_list (map f3 ks), s4 + sum_list (map f4 ks), s5 + sum_list (map f5 ks),
      s6 + sum_list (map f6 ks), s7 + sum_list (map f7 ks))" for ks
    by (induction ks arbitrary: s0 s1 s2 s3 s4 s5 s6 s7) (simp_all add: add.assoc)
  then show ?thesis by (simp add: c_for_fold c_sum_def)
qed

lemma acc16:
  "c_for lo hi st (\<lambda>k (t0, t1, t2, t3, t4, t5, t6, t7,
      t8, t9, t10, t11, t12, t13, t14, t15).
     (t0 + f0 k, t1 + f1 k, t2 + f2 k, t3 + f3 k, t4 + f4 k, t5 + f5 k,
      t6 + f6 k, t7 + f7 k, t8 + f8 k, t9 + f9 k, t10 + f10 k, t11 + f11 k,
      t12 + f12 k, t13 + f13 k, t14 + f14 k, t15 + f15 k)) (s0, s1, s2, s3, s4, s5, s6, s7,
      s8, s9, s10, s11, s12, s13, s14, s15) =
     (s0 + c_sum lo hi st f0, s1 + c_sum lo hi st f1, s2 + c_sum lo hi st f2, s3 + c_sum lo hi st f3,
      s4 + c_sum lo hi st f4, s5 + c_sum lo hi st f5, s6 + c_sum lo hi st f6, s7 + c_sum lo hi st f7,
      s8 + c_sum lo hi st f8, s9 + c_sum lo hi st f9, s10 + c_sum lo hi st f10, s11 + c_sum lo hi st f11,
      s12 + c_sum lo hi st f12, s13 + c_sum lo hi st f13, s14 + c_sum lo hi st f14, s15 + c_sum lo hi st f15)"
proof -
  have "fold (\<lambda>k (t0, t1, t2, t3, t4, t5, t6, t7,
      t8, t9, t10, t11, t12, t13, t14, t15).
     (t0 + f0 k, t1 + f1 k, t2 + f2 k, t3 + f3 k, t4 + f4 k, t5 + f5 k,
      t6 + f6 k, t7 + f7 k, t8 + f8 k, t9 + f9 k, t10 + f10 k, t11 + f11 k,
      t12 + f12 k, t13 + f13 k, t14 + f14 k, t15 + f15 k)) ks (s0, s1, s2, s3, s4, s5, s6, s7,
      s8, s9, s10, s11, s12, s13, s14, s15) =
     (s0 + sum_list (map f0 ks), s1 + sum_list (map f1 ks), s2 + sum_list (map f2 ks),
      s3 + sum_list (map f3 ks), s4 + sum_list (map f4 ks), s5 + sum_list (map f5 ks),
      s6 + sum_list (map f6 ks), s7 + sum_list (map f7 ks), s8 + sum_list (map f8 ks),
      s9 + sum_list (map f9 ks), s10 + sum_list (map f10 ks), s11 + sum_list (map f11 ks),
      s12 + sum_list (map f12 ks), s13 + sum_list (map f13 ks), s14 + sum_list (map f14 ks),
      s15 + sum_list (map f15 ks))" for ks
    by (induction ks arbitrary: s0 s1 s2 s3 s4 s5 s6 s7 s8 s9 s10 s11 s12 s13 s14 s15) (simp_all add: add.assoc)
  then show ?thesis by (simp add: c_for_fold c_sum_def)
qed

lemma acc1: "c_for lo hi st (\<lambda>k t. t + f k) s = s + c_sum lo hi st f"
  by (simp add: c_for_fold c_sum_def fold_plus)

text \<open>These turn the body of a tile loop into one expression.\<close>

lemmas tile_simps = acc4 acc8 acc16 Let_def prod.case c_sum_one

subsection \<open>Writing a tile back\<close>

lemma fold_upd_at:
  assumes "distinct (map fst ps)"
  shows "fold (\<lambda>(p, s) D. D(p := g p s)) ps C x = (case map_of ps x of Some s \<Rightarrow> g x s | None \<Rightarrow> C x)"
  using assms
proof (induction ps arbitrary: C)
  case (Cons ps' ps)
  obtain p s where ps': "ps' = (p, s)" by (cases ps')
  have "map_of ps p = None" using Cons.prems ps' by (auto simp: map_of_eq_None_iff)
  then show ?case using Cons by (auto simp: ps' split: option.splits)
qed simp

lemma adds_tile:
  assumes "distinct (map fst ps)" "\<And>p s. (p, s) \<in> set ps \<Longrightarrow> s = v p"
  shows "adds (\<lambda>C. fold (\<lambda>(p, s) D. D(p := C p + s)) ps C) (\<lambda>x. x \<in> fst ` set ps) v"
proof (rule addsI)
  fix C x
  show "fold (\<lambda>(p, s) D. D(p := C p + s)) ps C x = C x + (if x \<in> fst ` set ps then v x else 0)"
  proof (cases "map_of ps x")
    case None
    then have "x \<notin> fst ` set ps" by (simp add: map_of_eq_None_iff)
    with None show ?thesis by (simp add: fold_upd_at [OF assms(1), where g = "\<lambda>p s. C p + s"])
  next
    case (Some s)
    then have "(x, s) \<in> set ps" by (rule map_of_SomeD)
    with assms(2) have "x \<in> fst ` set ps" "s = v x" by force+
    with Some show ?thesis by (simp add: fold_upd_at [OF assms(1), where g = "\<lambda>p s. C p + s"])
  qed
qed

lemma stores_tile:
  assumes "distinct (map fst ps)" "\<And>p s. (p, s) \<in> set ps \<Longrightarrow> s = v p"
  shows "stores (\<lambda>C. fold (\<lambda>(p, s) D. D(p := s)) ps C) (\<lambda>x. x \<in> fst ` set ps) v"
proof (rule storesI)
  fix C x
  show "fold (\<lambda>(p, s) D. D(p := s)) ps C x = (if x \<in> fst ` set ps then v x else C x)"
  proof (cases "map_of ps x")
    case None
    then have "x \<notin> fst ` set ps" by (simp add: map_of_eq_None_iff)
    with None show ?thesis by (simp add: fold_upd_at [OF assms(1), where g = "\<lambda>p s. s"])
  next
    case (Some s)
    then have "(x, s) \<in> set ps" by (rule map_of_SomeD)
    with assms(2) have "x \<in> fst ` set ps" "s = v x" by force+
    with Some show ?thesis by (simp add: fold_upd_at [OF assms(1), where g = "\<lambda>p s. s"])
  qed
qed

subsection \<open>The threads together\<close>

text \<open>
  All threads run the kernel on the same arrays; \<open>own nc cid x\<close> says that of \<open>nc\<close> threads it is
  thread \<open>cid\<close> that computes entry \<open>x\<close>. As no thread reads or writes another's entries, the
  order in which the threads run does not matter.
\<close>

definition mt_run :: "kernel \<Rightarrow> nat list \<Rightarrow> nat \<Rightarrow> c_array \<Rightarrow> c_array \<Rightarrow> c_array \<Rightarrow> c_array" where
  "mt_run matmul cids nc A B C = fold (\<lambda>cid. matmul cid nc 32 A B) cids C"

locale mt_share =
  fixes threads :: "nat \<Rightarrow> bool" and own :: "nat \<Rightarrow> nat \<Rightarrow> nat \<Rightarrow> bool"
  assumes cover: "threads nc \<Longrightarrow> x < 1024 \<Longrightarrow> \<exists>cid < nc. own nc cid x"
    and apart: "threads nc \<Longrightarrow> cid < nc \<Longrightarrow> cid' < nc \<Longrightarrow> own nc cid x \<Longrightarrow> own nc cid' x \<Longrightarrow> cid = cid'"

locale mt_kernel = mt_share +
  fixes matmul :: kernel
  assumes own: "threads nc \<Longrightarrow> cid < nc \<Longrightarrow> own nc cid x \<Longrightarrow> C x = 0 \<Longrightarrow> matmul cid nc 32 A B C x = mat_prod A B x"
    and frame: "threads nc \<Longrightarrow> cid < nc \<Longrightarrow> \<not> own nc cid x \<Longrightarrow> matmul cid nc 32 A B C x = C x"
begin

lemma run_other:
  "threads nc \<Longrightarrow> set cids \<subseteq> {0..<nc} \<Longrightarrow> \<forall>cid \<in> set cids. \<not> own nc cid x \<Longrightarrow> mt_run matmul cids nc A B C x = C x"
  by (induction cids arbitrary: C) (simp_all add: mt_run_def frame)

lemma run_own:
  assumes "threads nc" "distinct cids" "set cids \<subseteq> {0..<nc}" "cid \<in> set cids" "own nc cid x" "C x = 0"
  shows "mt_run matmul cids nc A B C x = mat_prod A B x"
  using assms
proof (induction cids arbitrary: C)
  case (Cons c cids)
  have run: "mt_run matmul (c # cids) nc A B C = mt_run matmul cids nc A B (matmul c nc 32 A B C)"
    by (simp add: mt_run_def)
  show ?case
  proof (cases "c = cid")
    case True
    have "\<forall>d \<in> set cids. \<not> own nc d x"
    proof
      fix d assume "d \<in> set cids"
      with Cons.prems True have "d < nc" "d \<noteq> cid" "cid < nc" by auto
      then show "\<not> own nc d x" using apart [OF \<open>threads nc\<close>, of d cid x] Cons.prems(5) by blast
    qed
    then have "mt_run matmul cids nc A B D x = D x" for D
      using Cons.prems by (intro run_other) simp_all
    then show ?thesis unfolding run using own [of nc cid x C A B] Cons.prems True by simp
  next
    case False
    have "\<not> own nc c x"
    proof
      assume "own nc c x"
      moreover have "c < nc" "cid < nc" using Cons.prems by auto
      ultimately show False using apart [OF \<open>threads nc\<close>, of c cid x] Cons.prems(5) False by blast
    qed
    then have "matmul c nc 32 A B C x = 0" using frame Cons.prems by simp
    then show ?thesis unfolding run using Cons.IH Cons.prems False by simp
  qed
qed simp

lemma product:
  assumes "threads nc" "distinct cids" "set cids = {0..<nc}" "C x = 0" "x < 1024"
  shows "mt_run matmul cids nc A B C x = mat_prod A B x"
proof -
  obtain cid where "cid < nc" "own nc cid x" using cover assms by blast
  then show ?thesis using run_own [of nc cids cid x C A B] assms by simp
qed

end

locale mt_adding = mt_share +
  fixes matmul :: kernel
  assumes adds: "threads nc \<Longrightarrow> cid < nc \<Longrightarrow> adds (matmul cid nc 32 A B) (own nc cid) (mat_prod A B)"

sublocale mt_adding \<subseteq> mt_kernel threads own matmul
  by unfold_locales (simp_all add: addsD [OF adds])

locale mt_storing = mt_share +
  fixes matmul :: kernel
  assumes stores: "threads nc \<Longrightarrow> cid < nc \<Longrightarrow> stores (matmul cid nc 32 A B) (own nc cid) (mat_prod A B)"

sublocale mt_storing \<subseteq> mt_kernel threads own matmul
  by unfold_locales (simp_all add: storesD [OF stores])

text \<open>
  The usual division of the entries: two halves of the rows, the second done by thread 1, or by
  thread 0 when it is alone; further threads have nothing to do.
\<close>

definition half_rows :: "nat \<Rightarrow> nat \<Rightarrow> nat \<Rightarrow> bool" where
  "half_rows nc cid x \<longleftrightarrow> x div 32 < 32 \<and> (cid = 0 \<and> x div 32 < 16 \<or> (cid = 1 \<or> nc = 1) \<and> 16 \<le> x div 32)"

lemma half_rows_cover: "0 < nc \<Longrightarrow> x < 1024 \<Longrightarrow> \<exists>cid < nc. half_rows nc cid x"
proof -
  assume a: "0 < nc" "x < 1024"
  moreover have "x div 32 < 32" using a by linarith
  ultimately have "half_rows nc (if nc = 1 \<or> x div 32 < 16 then 0 else 1) x"
    by (auto simp: half_rows_def)
  moreover have "(if nc = 1 \<or> x div 32 < 16 then 0 else 1) < nc" using a by simp
  ultimately show "\<exists>cid < nc. half_rows nc cid x" by blast
qed

text \<open>Or two halves of the columns.\<close>

definition half_cols :: "nat \<Rightarrow> nat \<Rightarrow> nat \<Rightarrow> bool" where
  "half_cols nc cid x \<longleftrightarrow> x div 32 < 32 \<and> (cid = 0 \<and> x mod 32 < 16 \<or> (cid = 1 \<or> nc = 1) \<and> 16 \<le> x mod 32)"

lemma half_cols_cover: "0 < nc \<Longrightarrow> x < 1024 \<Longrightarrow> \<exists>cid < nc. half_cols nc cid x"
proof -
  assume a: "0 < nc" "x < 1024"
  moreover have "x div 32 < 32" using a by linarith
  ultimately have "half_cols nc (if nc = 1 \<or> x mod 32 < 16 then 0 else 1) x"
    by (auto simp: half_cols_def)
  moreover have "(if nc = 1 \<or> x mod 32 < 16 then 0 else 1) < nc" using a by simp
  ultimately show "\<exists>cid < nc. half_cols nc cid x" by blast
qed

lemma half_cols_apart:
  "0 < nc \<Longrightarrow> cid < nc \<Longrightarrow> cid' < nc \<Longrightarrow> half_cols nc cid x \<Longrightarrow> half_cols nc cid' x \<Longrightarrow> cid = cid'"
  by (auto simp: half_cols_def)

lemma half_rows_apart:
  "0 < nc \<Longrightarrow> cid < nc \<Longrightarrow> cid' < nc \<Longrightarrow> half_rows nc cid x \<Longrightarrow> half_rows nc cid' x \<Longrightarrow> cid = cid'"
  by (auto simp: half_rows_def)

text \<open>Or blocks of consecutive rows, of equal size.\<close>

definition block_rows :: "nat \<Rightarrow> nat \<Rightarrow> nat \<Rightarrow> bool" where
  "block_rows nc cid x \<longleftrightarrow> cid * (32 div nc) \<le> x div 32 \<and> x div 32 < (cid + 1) * (32 div nc)"

lemma block_rows_cover:
  assumes "nc dvd 32" "x < 1024"
  shows "\<exists>cid < nc. block_rows nc cid x"
proof -
  obtain b where b: "32 = nc * b" using assms(1) by blast
  then have nz: "0 < nc" "0 < b" by (auto intro: Nat.gr0I)
  then have pos: "0 < nc" "0 < b" "32 div nc = b" unfolding b by simp_all
  have "x div 32 < nc * b" using assms(2) b by simp
  then have "x div 32 div b < nc" using pos by (simp add: less_mult_imp_div_less)
  moreover have "block_rows nc (x div 32 div b) x"
    using div_mult_mod_eq [of "x div 32" b] mod_less_divisor [OF pos(2), of "x div 32"]
    unfolding block_rows_def pos(3) add_mult_distrib by linarith
  ultimately show ?thesis by blast
qed

lemma block_rows_apart: "block_rows nc cid x \<Longrightarrow> block_rows nc cid' x \<Longrightarrow> cid = cid'"
proof -
  assume a: "block_rows nc cid x" "block_rows nc cid' x"
  then have "cid * (32 div nc) < (cid' + 1) * (32 div nc)" "cid' * (32 div nc) < (cid + 1) * (32 div nc)"
    unfolding block_rows_def by linarith+
  then have "cid < cid' + 1" "cid' < cid + 1" by (simp_all only: mult_less_cancel2)
  then show ?thesis by simp
qed

interpretation half_rows: mt_share "\<lambda>nc. 0 < nc" half_rows
  by unfold_locales (fact half_rows_cover, fact half_rows_apart)

interpretation half_cols: mt_share "\<lambda>nc. 0 < nc" half_cols
  by unfold_locales (fact half_cols_cover, fact half_cols_apart)

interpretation block_rows: mt_share "\<lambda>nc. nc dvd 32" block_rows
  by unfold_locales (erule (1) block_rows_cover, erule (1) block_rows_apart)

subsection \<open>Rows of a tile\<close>

lemma mat_prod_at:
  "i < 32 \<Longrightarrow> mat_prod A B (j * 32 + i) = (\<Sum>k = 0..<32. A (j * 32 + k) * B (k * 32 + i))"
  by (simp add: mat_prod_def)

lemma mat_part_at:
  "i < 32 \<Longrightarrow> mat_part A B lo hi (j * 32 + i) = (\<Sum>k = lo..<hi. A (j * 32 + k) * B (k * 32 + i))"
  by (simp add: mat_part_def mat_term_def)

text \<open>Consecutive entries of row \<open>j\<close>, from column \<open>i\<close>.\<close>

lemma row_entry:
  fixes x :: nat
  assumes "i + n \<le> 32"
  shows "tile j (j + 1) i (i + n) x \<longleftrightarrow>
    x \<in> set (map (\<lambda>r. j * 32 + (i + r)) [0..<n])"
proof
  assume "tile j (j + 1) i (i + n) x"
  then have a: "j \<le> x div 32 \<and> x div 32 < j + 1 \<and> i \<le> x mod 32 \<and> x mod 32 < i + n" by (simp add: tile_def)
  then have "x div 32 = j" by simp
  with a have "x = j * 32 + (i + (x mod 32 - i))" "x mod 32 - i < n"
    using div_mult_mod_eq [of x 32] by linarith+
  then show "x \<in> set (map (\<lambda>r. j * 32 + (i + r)) [0..<n])"
    unfolding set_map by (intro image_eqI [of _ _ "x mod 32 - i"]) simp_all
next
  assume "x \<in> set (map (\<lambda>r. j * 32 + (i + r)) [0..<n])"
  then obtain r where r: "x = j * 32 + (i + r)" "r < n" by auto
  with assms have "i + r < 32" by simp
  then have "x div 32 = j" "x mod 32 = i + r" unfolding r(1) by simp_all
  with r show "tile j (j + 1) i (i + n) x" by (simp add: tile_def)
qed

lemma row_keys:
  "map fst (zip (map f [0..<length ss]) ss) = map f [0..<length ss]"
  by (simp add: map_fst_zip)

lemma row_values:
  assumes "ss = map (v \<circ> f) [0..<n]" "(p, s) \<in> set (zip (map f [0..<n]) ss)"
  shows "s = v p"
  using assms by (auto simp: set_zip)

lemma adds_row:
  assumes "i + n \<le> 32" "ss = map (v \<circ> (\<lambda>r. j * 32 + (i + r))) [0..<n]"
  shows "adds (\<lambda>C. fold (\<lambda>(p, s) D. D(p := C p + s)) (zip (map (\<lambda>r. j * 32 + (i + r)) [0..<n]) ss) C)
    (tile j (j + 1) i (i + n)) v"
proof -
  let ?ps = "zip (map (\<lambda>r. j * 32 + (i + r)) [0..<n]) ss"
  have n: "n = length ss" using assms(2) by simp
  have keys: "map fst ?ps = map (\<lambda>r. j * 32 + (i + r)) [0..<n]" unfolding n by (rule row_keys)
  have keyset: "fst ` set ?ps = set (map (\<lambda>r. j * 32 + (i + r)) [0..<n])"
    by (subst set_map [symmetric], subst keys, rule refl)
  have "adds (\<lambda>C. fold (\<lambda>(p, s) D. D(p := C p + s)) ?ps C) (\<lambda>x. x \<in> fst ` set ?ps) v"
  proof (rule adds_tile)
    show "distinct (map fst ?ps)" unfolding keys by (simp add: distinct_map inj_on_def)
  qed (rule row_values [OF assms(2)])
  then show ?thesis
    by (rule adds_cong) (simp only: row_entry [OF assms(1)] keyset)
qed

lemma stores_row:
  assumes "i + n \<le> 32" "ss = map (v \<circ> (\<lambda>r. j * 32 + (i + r))) [0..<n]"
  shows "stores (\<lambda>C. fold (\<lambda>(p, s) D. D(p := s)) (zip (map (\<lambda>r. j * 32 + (i + r)) [0..<n]) ss) C)
    (tile j (j + 1) i (i + n)) v"
proof -
  let ?ps = "zip (map (\<lambda>r. j * 32 + (i + r)) [0..<n]) ss"
  have n: "n = length ss" using assms(2) by simp
  have keys: "map fst ?ps = map (\<lambda>r. j * 32 + (i + r)) [0..<n]" unfolding n by (rule row_keys)
  have keyset: "fst ` set ?ps = set (map (\<lambda>r. j * 32 + (i + r)) [0..<n])"
    by (subst set_map [symmetric], subst keys, rule refl)
  have "stores (\<lambda>C. fold (\<lambda>(p, s) D. D(p := s)) ?ps C) (\<lambda>x. x \<in> fst ` set ?ps) v"
  proof (rule stores_tile)
    show "distinct (map fst ?ps)" unfolding keys by (simp add: distinct_map inj_on_def)
  qed (rule row_values [OF assms(2)])
  then show ?thesis
    by (rule stores_cong) (simp only: row_entry [OF assms(1)] keyset)
qed

lemma upt_lits:
  "[0..<2] = [0, 1]"
  "[0..<4] = [0, 1, 2, 3]"
  "[0..<8] = [0, 1, 2, 3, 4, 5, 6, 7]"
  "[0..<16] = [0, 1, 2, 3, 4, 5, 6, 7, 8, 9, 10, 11, 12, 13, 14, 15]"
  by (simp_all add: upt_rec numeral_eq_Suc)

lemma adds_row2:
  assumes "p0 = j * 32 + i" "p1 = j * 32 + (i + 1)"
    and "s0 = v (j * 32 + i)" "s1 = v (j * 32 + (i + 1))"
    and "ih = i + 2" "ih \<le> 32"
  shows "adds (\<lambda>C. C(p0 := C p0 + s0, p1 := C p1 + s1))
    (tile j (j + 1) i ih) v"
proof -
  have "adds (\<lambda>C. fold (\<lambda>(p, s) D. D(p := C p + s))
      (zip (map (\<lambda>r. j * 32 + (i + r)) [0..<2])
        [s0, s1]) C)
    (tile j (j + 1) i (i + 2)) v"
    by (rule adds_row) (use assms(5,6) in \<open>simp_all add: assms(1-4) upt_lits\<close>)
  then show ?thesis by (simp add: assms(1-2,5) upt_lits)
qed

lemma stores_row2:
  assumes "p0 = j * 32 + i" "p1 = j * 32 + (i + 1)"
    and "s0 = v (j * 32 + i)" "s1 = v (j * 32 + (i + 1))"
    and "ih = i + 2" "ih \<le> 32"
  shows "stores (\<lambda>C. C(p0 := s0, p1 := s1))
    (tile j (j + 1) i ih) v"
proof -
  have "stores (\<lambda>C. fold (\<lambda>(p, s) D. D(p := s))
      (zip (map (\<lambda>r. j * 32 + (i + r)) [0..<2])
        [s0, s1]) C)
    (tile j (j + 1) i (i + 2)) v"
    by (rule stores_row) (use assms(5,6) in \<open>simp_all add: assms(1-4) upt_lits\<close>)
  then show ?thesis by (simp add: assms(1-2,5) upt_lits)
qed

lemma adds_row4:
  assumes "p0 = j * 32 + i" "p1 = j * 32 + (i + 1)" "p2 = j * 32 + (i + 2)" "p3 = j * 32 + (i + 3)"
    and "s0 = v (j * 32 + i)" "s1 = v (j * 32 + (i + 1))" "s2 = v (j * 32 + (i + 2))" "s3 = v (j * 32 + (i + 3))"
    and "ih = i + 4" "ih \<le> 32"
  shows "adds (\<lambda>C. C(p0 := C p0 + s0, p1 := C p1 + s1, p2 := C p2 + s2, p3 := C p3 + s3))
    (tile j (j + 1) i ih) v"
proof -
  have "adds (\<lambda>C. fold (\<lambda>(p, s) D. D(p := C p + s))
      (zip (map (\<lambda>r. j * 32 + (i + r)) [0..<4])
        [s0, s1, s2, s3]) C)
    (tile j (j + 1) i (i + 4)) v"
    by (rule adds_row) (use assms(9,10) in \<open>simp_all add: assms(1-8) upt_lits\<close>)
  then show ?thesis by (simp add: assms(1-4,9) upt_lits)
qed

lemma stores_row4:
  assumes "p0 = j * 32 + i" "p1 = j * 32 + (i + 1)" "p2 = j * 32 + (i + 2)" "p3 = j * 32 + (i + 3)"
    and "s0 = v (j * 32 + i)" "s1 = v (j * 32 + (i + 1))" "s2 = v (j * 32 + (i + 2))" "s3 = v (j * 32 + (i + 3))"
    and "ih = i + 4" "ih \<le> 32"
  shows "stores (\<lambda>C. C(p0 := s0, p1 := s1, p2 := s2, p3 := s3))
    (tile j (j + 1) i ih) v"
proof -
  have "stores (\<lambda>C. fold (\<lambda>(p, s) D. D(p := s))
      (zip (map (\<lambda>r. j * 32 + (i + r)) [0..<4])
        [s0, s1, s2, s3]) C)
    (tile j (j + 1) i (i + 4)) v"
    by (rule stores_row) (use assms(9,10) in \<open>simp_all add: assms(1-8) upt_lits\<close>)
  then show ?thesis by (simp add: assms(1-4,9) upt_lits)
qed

lemma adds_row8:
  assumes "p0 = j * 32 + i" "p1 = j * 32 + (i + 1)" "p2 = j * 32 + (i + 2)" "p3 = j * 32 + (i + 3)"
    "p4 = j * 32 + (i + 4)" "p5 = j * 32 + (i + 5)" "p6 = j * 32 + (i + 6)" "p7 = j * 32 + (i + 7)"
    and "s0 = v (j * 32 + i)" "s1 = v (j * 32 + (i + 1))" "s2 = v (j * 32 + (i + 2))" "s3 = v (j * 32 + (i + 3))"
    "s4 = v (j * 32 + (i + 4))" "s5 = v (j * 32 + (i + 5))" "s6 = v (j * 32 + (i + 6))" "s7 = v (j * 32 + (i + 7))"
    and "ih = i + 8" "ih \<le> 32"
  shows "adds (\<lambda>C. C(p0 := C p0 + s0, p1 := C p1 + s1, p2 := C p2 + s2, p3 := C p3 + s3,
      p4 := C p4 + s4, p5 := C p5 + s5, p6 := C p6 + s6, p7 := C p7 + s7))
    (tile j (j + 1) i ih) v"
proof -
  have "adds (\<lambda>C. fold (\<lambda>(p, s) D. D(p := C p + s))
      (zip (map (\<lambda>r. j * 32 + (i + r)) [0..<8])
        [s0, s1, s2, s3, s4, s5, s6, s7]) C)
    (tile j (j + 1) i (i + 8)) v"
    by (rule adds_row) (use assms(17,18) in \<open>simp_all add: assms(1-16) upt_lits\<close>)
  then show ?thesis by (simp add: assms(1-8,17) upt_lits)
qed

lemma stores_row8:
  assumes "p0 = j * 32 + i" "p1 = j * 32 + (i + 1)" "p2 = j * 32 + (i + 2)" "p3 = j * 32 + (i + 3)"
    "p4 = j * 32 + (i + 4)" "p5 = j * 32 + (i + 5)" "p6 = j * 32 + (i + 6)" "p7 = j * 32 + (i + 7)"
    and "s0 = v (j * 32 + i)" "s1 = v (j * 32 + (i + 1))" "s2 = v (j * 32 + (i + 2))" "s3 = v (j * 32 + (i + 3))"
    "s4 = v (j * 32 + (i + 4))" "s5 = v (j * 32 + (i + 5))" "s6 = v (j * 32 + (i + 6))" "s7 = v (j * 32 + (i + 7))"
    and "ih = i + 8" "ih \<le> 32"
  shows "stores (\<lambda>C. C(p0 := s0, p1 := s1, p2 := s2, p3 := s3,
      p4 := s4, p5 := s5, p6 := s6, p7 := s7))
    (tile j (j + 1) i ih) v"
proof -
  have "stores (\<lambda>C. fold (\<lambda>(p, s) D. D(p := s))
      (zip (map (\<lambda>r. j * 32 + (i + r)) [0..<8])
        [s0, s1, s2, s3, s4, s5, s6, s7]) C)
    (tile j (j + 1) i (i + 8)) v"
    by (rule stores_row) (use assms(17,18) in \<open>simp_all add: assms(1-16) upt_lits\<close>)
  then show ?thesis by (simp add: assms(1-8,17) upt_lits)
qed

lemma adds_row16:
  assumes "p0 = j * 32 + i" "p1 = j * 32 + (i + 1)" "p2 = j * 32 + (i + 2)" "p3 = j * 32 + (i + 3)"
    "p4 = j * 32 + (i + 4)" "p5 = j * 32 + (i + 5)" "p6 = j * 32 + (i + 6)" "p7 = j * 32 + (i + 7)"
    "p8 = j * 32 + (i + 8)" "p9 = j * 32 + (i + 9)" "p10 = j * 32 + (i + 10)" "p11 = j * 32 + (i + 11)"
    "p12 = j * 32 + (i + 12)" "p13 = j * 32 + (i + 13)" "p14 = j * 32 + (i + 14)" "p15 = j * 32 + (i + 15)"
    and "s0 = v (j * 32 + i)" "s1 = v (j * 32 + (i + 1))" "s2 = v (j * 32 + (i + 2))" "s3 = v (j * 32 + (i + 3))"
    "s4 = v (j * 32 + (i + 4))" "s5 = v (j * 32 + (i + 5))" "s6 = v (j * 32 + (i + 6))" "s7 = v (j * 32 + (i + 7))"
    "s8 = v (j * 32 + (i + 8))" "s9 = v (j * 32 + (i + 9))" "s10 = v (j * 32 + (i + 10))" "s11 = v (j * 32 + (i + 11))"
    "s12 = v (j * 32 + (i + 12))" "s13 = v (j * 32 + (i + 13))" "s14 = v (j * 32 + (i + 14))" "s15 = v (j * 32 + (i + 15))"
    and "ih = i + 16" "ih \<le> 32"
  shows "adds (\<lambda>C. C(p0 := C p0 + s0, p1 := C p1 + s1, p2 := C p2 + s2, p3 := C p3 + s3,
      p4 := C p4 + s4, p5 := C p5 + s5, p6 := C p6 + s6, p7 := C p7 + s7,
      p8 := C p8 + s8, p9 := C p9 + s9, p10 := C p10 + s10, p11 := C p11 + s11,
      p12 := C p12 + s12, p13 := C p13 + s13, p14 := C p14 + s14, p15 := C p15 + s15))
    (tile j (j + 1) i ih) v"
proof -
  have "adds (\<lambda>C. fold (\<lambda>(p, s) D. D(p := C p + s))
      (zip (map (\<lambda>r. j * 32 + (i + r)) [0..<16])
        [s0, s1, s2, s3, s4, s5, s6, s7,
        s8, s9, s10, s11, s12, s13, s14, s15]) C)
    (tile j (j + 1) i (i + 16)) v"
    by (rule adds_row) (use assms(33,34) in \<open>simp_all add: assms(1-32) upt_lits\<close>)
  then show ?thesis by (simp add: assms(1-16,33) upt_lits)
qed

lemma stores_row16:
  assumes "p0 = j * 32 + i" "p1 = j * 32 + (i + 1)" "p2 = j * 32 + (i + 2)" "p3 = j * 32 + (i + 3)"
    "p4 = j * 32 + (i + 4)" "p5 = j * 32 + (i + 5)" "p6 = j * 32 + (i + 6)" "p7 = j * 32 + (i + 7)"
    "p8 = j * 32 + (i + 8)" "p9 = j * 32 + (i + 9)" "p10 = j * 32 + (i + 10)" "p11 = j * 32 + (i + 11)"
    "p12 = j * 32 + (i + 12)" "p13 = j * 32 + (i + 13)" "p14 = j * 32 + (i + 14)" "p15 = j * 32 + (i + 15)"
    and "s0 = v (j * 32 + i)" "s1 = v (j * 32 + (i + 1))" "s2 = v (j * 32 + (i + 2))" "s3 = v (j * 32 + (i + 3))"
    "s4 = v (j * 32 + (i + 4))" "s5 = v (j * 32 + (i + 5))" "s6 = v (j * 32 + (i + 6))" "s7 = v (j * 32 + (i + 7))"
    "s8 = v (j * 32 + (i + 8))" "s9 = v (j * 32 + (i + 9))" "s10 = v (j * 32 + (i + 10))" "s11 = v (j * 32 + (i + 11))"
    "s12 = v (j * 32 + (i + 12))" "s13 = v (j * 32 + (i + 13))" "s14 = v (j * 32 + (i + 14))" "s15 = v (j * 32 + (i + 15))"
    and "ih = i + 16" "ih \<le> 32"
  shows "stores (\<lambda>C. C(p0 := s0, p1 := s1, p2 := s2, p3 := s3,
      p4 := s4, p5 := s5, p6 := s6, p7 := s7,
      p8 := s8, p9 := s9, p10 := s10, p11 := s11,
      p12 := s12, p13 := s13, p14 := s14, p15 := s15))
    (tile j (j + 1) i ih) v"
proof -
  have "stores (\<lambda>C. fold (\<lambda>(p, s) D. D(p := s))
      (zip (map (\<lambda>r. j * 32 + (i + r)) [0..<16])
        [s0, s1, s2, s3, s4, s5, s6, s7,
        s8, s9, s10, s11, s12, s13, s14, s15]) C)
    (tile j (j + 1) i (i + 16)) v"
    by (rule stores_row) (use assms(33,34) in \<open>simp_all add: assms(1-32) upt_lits\<close>)
  then show ?thesis by (simp add: assms(1-16,33) upt_lits)
qed

subsection \<open>Rectangular tiles\<close>

lemma cell: "c < 32 \<Longrightarrow> (r * 32 + c) div 32 = r" "c < 32 \<Longrightarrow> (r * 32 + c) mod 32 = (c :: nat)"
  by simp_all

lemma block_entry:
  fixes x :: nat
  assumes "i + w \<le> 32" "set qs = {0..<h} \<times> {0..<w}"
  shows "tile j (j + h) i (i + w) x \<longleftrightarrow> x \<in> set (map (\<lambda>(q, r). (j + q) * 32 + (i + r)) qs)"
proof
  assume "tile j (j + h) i (i + w) x"
  then have a: "j \<le> x div 32" "x div 32 < j + h" "i \<le> x mod 32" "x mod 32 < i + w" by (simp_all add: tile_def)
  then have "x = (j + (x div 32 - j)) * 32 + (i + (x mod 32 - i))" by simp
  moreover have "(x div 32 - j, x mod 32 - i) \<in> set qs" using a unfolding assms(2) by simp linarith
  ultimately show "x \<in> set (map (\<lambda>(q, r). (j + q) * 32 + (i + r)) qs)"
    unfolding set_map by (intro image_eqI [of _ _ "(x div 32 - j, x mod 32 - i)"]) simp_all
next
  assume "x \<in> set (map (\<lambda>(q, r). (j + q) * 32 + (i + r)) qs)"
  then obtain q r where r: "x = (j + q) * 32 + (i + r)" "(q, r) \<in> set qs" by auto
  then have qr: "q < h" "r < w" unfolding assms(2) by simp_all
  with assms have "i + r < 32" by simp
  then have "x div 32 = j + q" "x mod 32 = i + r" unfolding r(1) by (rule cell)+
  with qr show "tile j (j + h) i (i + w) x" by (simp add: tile_def)
qed

lemma block_inj:
  assumes "i + w \<le> 32" "set qs = {0..<h} \<times> {0..<w :: nat}"
  shows "inj_on (\<lambda>(q, r). (j + q) * 32 + (i + r)) (set qs)"
proof (rule inj_onI)
  fix a b assume ab: "a \<in> set qs" "b \<in> set qs"
    "(case a of (q, r) \<Rightarrow> (j + q) * 32 + (i + r)) = (case b of (q, r) \<Rightarrow> (j + q) * 32 + (i + r))"
  obtain q r q' r' where [simp]: "a = (q, r)" "b = (q', r')" by (cases a, cases b) auto
  have "i + r < 32" "i + r' < 32" using ab(1,2) assms by simp_all
  note c = cell [OF this(1), of "j + q"] cell [OF this(2), of "j + q'"]
  have "(j + q) * 32 + (i + r) = (j + q') * 32 + (i + r')" using ab(3) by (simp only: \<open>a = _\<close> \<open>b = _\<close> prod.case)
  with c have "j + q = j + q'" "i + r = i + r'" by (simp_all only:)
  then show "a = b" by simp
qed

lemma block_keys:
  assumes "length ss = length qs"
  shows "map fst (zip (map f qs) ss) = map f qs" "fst ` set (zip (map f qs) ss) = set (map f qs)"
  using assms by (simp_all add: map_fst_zip) (metis length_map map_fst_zip set_map)

lemma block_values:
  assumes "ss = map (v \<circ> f) qs" "(p, s) \<in> set (zip (map f qs) ss)"
  shows "s = v p"
  using assms by (auto simp: set_zip)

lemma fold_c_add:
  assumes "distinct (map fst ps)"
  shows "fold (\<lambda>(p, s) D. c_add D p s) ps C x = C x + (case map_of ps x of Some s \<Rightarrow> s | None \<Rightarrow> 0)"
  using assms
proof (induction ps arbitrary: C)
  case (Cons ps' ps)
  obtain p s where ps': "ps' = (p, s)" by (cases ps')
  have "map_of ps p = None" using Cons.prems ps' by (auto simp: map_of_eq_None_iff)
  then show ?case using Cons by (auto simp: ps' c_add_def split: option.splits)
qed simp

lemma addc_tile:
  assumes "distinct (map fst ps)" "\<And>p s. (p, s) \<in> set ps \<Longrightarrow> s = v p"
  shows "adds (\<lambda>C. fold (\<lambda>(p, s) D. c_add D p s) ps C) (\<lambda>x. x \<in> fst ` set ps) v"
proof (rule addsI)
  fix C x
  show "fold (\<lambda>(p, s) D. c_add D p s) ps C x = C x + (if x \<in> fst ` set ps then v x else 0)"
  proof (cases "map_of ps x")
    case None
    then have "x \<notin> fst ` set ps" by (simp add: map_of_eq_None_iff)
    with None show ?thesis by (simp add: fold_c_add [OF assms(1)])
  next
    case (Some s)
    then have "(x, s) \<in> set ps" by (rule map_of_SomeD)
    with assms(2) have "x \<in> fst ` set ps" "s = v x" by force+
    with Some show ?thesis by (simp add: fold_c_add [OF assms(1)])
  qed
qed

lemma adds_block:
  assumes "i + w \<le> 32" "set qs = {0..<h} \<times> {0..<w}" "distinct qs"
    and "ss = map (v \<circ> (\<lambda>(q, r). (j + q) * 32 + (i + r))) qs"
  shows "adds (\<lambda>C. fold (\<lambda>(p, s) D. D(p := C p + s)) (zip (map (\<lambda>(q, r). (j + q) * 32 + (i + r)) qs) ss) C)
    (tile j (j + h) i (i + w)) v"
proof -
  let ?ps = "zip (map (\<lambda>(q, r). (j + q) * 32 + (i + r)) qs) ss"
  have len: "length ss = length qs" using assms(4) by simp
  have "adds (\<lambda>C. fold (\<lambda>(p, s) D. D(p := C p + s)) ?ps C) (\<lambda>x. x \<in> fst ` set ?ps) v"
  proof (rule adds_tile)
    show "distinct (map fst ?ps)"
      unfolding block_keys(1) [OF len] distinct_map using assms(3) block_inj [OF assms(1,2)] by simp
  qed (rule block_values [OF assms(4)])
  then show ?thesis
    by (rule adds_cong) (simp only: block_entry [OF assms(1,2)] block_keys(2) [OF len])
qed

lemma addc_block:
  assumes "i + w \<le> 32" "set qs = {0..<h} \<times> {0..<w}" "distinct qs"
    and "ss = map (v \<circ> (\<lambda>(q, r). (j + q) * 32 + (i + r))) qs"
  shows "adds (\<lambda>C. fold (\<lambda>(p, s) D. c_add D p s) (zip (map (\<lambda>(q, r). (j + q) * 32 + (i + r)) qs) ss) C)
    (tile j (j + h) i (i + w)) v"
proof -
  let ?ps = "zip (map (\<lambda>(q, r). (j + q) * 32 + (i + r)) qs) ss"
  have len: "length ss = length qs" using assms(4) by simp
  have "adds (\<lambda>C. fold (\<lambda>(p, s) D. c_add D p s) ?ps C) (\<lambda>x. x \<in> fst ` set ?ps) v"
  proof (rule addc_tile)
    show "distinct (map fst ?ps)"
      unfolding block_keys(1) [OF len] distinct_map using assms(3) block_inj [OF assms(1,2)] by simp
  qed (rule block_values [OF assms(4)])
  then show ?thesis
    by (rule adds_cong) (simp only: block_entry [OF assms(1,2)] block_keys(2) [OF len])
qed

lemma stores_block:
  assumes "i + w \<le> 32" "set qs = {0..<h} \<times> {0..<w}" "distinct qs"
    and "ss = map (v \<circ> (\<lambda>(q, r). (j + q) * 32 + (i + r))) qs"
  shows "stores (\<lambda>C. fold (\<lambda>(p, s) D. D(p := s)) (zip (map (\<lambda>(q, r). (j + q) * 32 + (i + r)) qs) ss) C)
    (tile j (j + h) i (i + w)) v"
proof -
  let ?ps = "zip (map (\<lambda>(q, r). (j + q) * 32 + (i + r)) qs) ss"
  have len: "length ss = length qs" using assms(4) by simp
  have "stores (\<lambda>C. fold (\<lambda>(p, s) D. D(p := s)) ?ps C) (\<lambda>x. x \<in> fst ` set ?ps) v"
  proof (rule stores_tile)
    show "distinct (map fst ?ps)"
      unfolding block_keys(1) [OF len] distinct_map using assms(3) block_inj [OF assms(1,2)] by simp
  qed (rule block_values [OF assms(4)])
  then show ?thesis
    by (rule stores_cong) (simp only: block_entry [OF assms(1,2)] block_keys(2) [OF len])
qed

lemma upt_sets:
  "{0..<1} = {0 :: nat}"
  "{0..<2} = {0, 1 :: nat}"
  "{0..<4} = {0, 1, 2, 3 :: nat}"
  "{0..<8} = {0, 1, 2, 3, 4, 5, 6, 7 :: nat}"
  by (simp_all add: numeral_eq_Suc atLeast0LessThan lessThan_Suc insert_commute)

lemma adds_4_4:
  assumes "p0 = j * 32 + i" "p1 = j * 32 + (i + 1)" "p2 = j * 32 + (i + 2)" "p3 = j * 32 + (i + 3)"
    "p4 = (j + 1) * 32 + i" "p5 = (j + 1) * 32 + (i + 1)" "p6 = (j + 1) * 32 + (i + 2)" "p7 = (j + 1) * 32 + (i + 3)"
    "p8 = (j + 2) * 32 + i" "p9 = (j + 2) * 32 + (i + 1)" "p10 = (j + 2) * 32 + (i + 2)" "p11 = (j + 2) * 32 + (i + 3)"
    "p12 = (j + 3) * 32 + i" "p13 = (j + 3) * 32 + (i + 1)" "p14 = (j + 3) * 32 + (i + 2)" "p15 = (j + 3) * 32 + (i + 3)"
    and "s0 = v (j * 32 + i)" "s1 = v (j * 32 + (i + 1))" "s2 = v (j * 32 + (i + 2))" "s3 = v (j * 32 + (i + 3))"
    "s4 = v ((j + 1) * 32 + i)" "s5 = v ((j + 1) * 32 + (i + 1))" "s6 = v ((j + 1) * 32 + (i + 2))" "s7 = v ((j + 1) * 32 + (i + 3))"
    "s8 = v ((j + 2) * 32 + i)" "s9 = v ((j + 2) * 32 + (i + 1))" "s10 = v ((j + 2) * 32 + (i + 2))" "s11 = v ((j + 2) * 32 + (i + 3))"
    "s12 = v ((j + 3) * 32 + i)" "s13 = v ((j + 3) * 32 + (i + 1))" "s14 = v ((j + 3) * 32 + (i + 2))" "s15 = v ((j + 3) * 32 + (i + 3))"
    and "jh = j + 4" "ih = i + 4" "ih \<le> 32"
  shows "adds (\<lambda>C. C(p0 := C p0 + s0, p1 := C p1 + s1, p2 := C p2 + s2, p3 := C p3 + s3,
      p4 := C p4 + s4, p5 := C p5 + s5, p6 := C p6 + s6, p7 := C p7 + s7,
      p8 := C p8 + s8, p9 := C p9 + s9, p10 := C p10 + s10, p11 := C p11 + s11,
      p12 := C p12 + s12, p13 := C p13 + s13, p14 := C p14 + s14, p15 := C p15 + s15))
    (tile j jh i ih) v"
proof -
  let ?qs = "[(0, 0), (0, 1), (0, 2), (0, 3), (1, 0), (1, 1), (1, 2), (1, 3),
        (2, 0), (2, 1), (2, 2), (2, 3), (3, 0), (3, 1), (3, 2), (3, 3)] :: (nat \<times> nat) list"
  have "adds (\<lambda>C. fold (\<lambda>(p, s) D. D(p := C p + s))
      (zip (map (\<lambda>(q, r). (j + q) * 32 + (i + r)) ?qs)
        [s0, s1, s2, s3, s4, s5, s6, s7,
        s8, s9, s10, s11, s12, s13, s14, s15]) C)
    (tile j (j + 4) i (i + 4)) v"
  proof (rule adds_block)
    show "set ?qs = {0..<4} \<times> {0..<4}" unfolding upt_sets by force
  qed (use assms(34,35) in \<open>simp_all add: assms(1-32) ac_simps\<close>)
  then show ?thesis by (simp add: assms(1-16,33,34) ac_simps)
qed

lemma stores_4_4:
  assumes "p0 = j * 32 + i" "p1 = j * 32 + (i + 1)" "p2 = j * 32 + (i + 2)" "p3 = j * 32 + (i + 3)"
    "p4 = (j + 1) * 32 + i" "p5 = (j + 1) * 32 + (i + 1)" "p6 = (j + 1) * 32 + (i + 2)" "p7 = (j + 1) * 32 + (i + 3)"
    "p8 = (j + 2) * 32 + i" "p9 = (j + 2) * 32 + (i + 1)" "p10 = (j + 2) * 32 + (i + 2)" "p11 = (j + 2) * 32 + (i + 3)"
    "p12 = (j + 3) * 32 + i" "p13 = (j + 3) * 32 + (i + 1)" "p14 = (j + 3) * 32 + (i + 2)" "p15 = (j + 3) * 32 + (i + 3)"
    and "s0 = v (j * 32 + i)" "s1 = v (j * 32 + (i + 1))" "s2 = v (j * 32 + (i + 2))" "s3 = v (j * 32 + (i + 3))"
    "s4 = v ((j + 1) * 32 + i)" "s5 = v ((j + 1) * 32 + (i + 1))" "s6 = v ((j + 1) * 32 + (i + 2))" "s7 = v ((j + 1) * 32 + (i + 3))"
    "s8 = v ((j + 2) * 32 + i)" "s9 = v ((j + 2) * 32 + (i + 1))" "s10 = v ((j + 2) * 32 + (i + 2))" "s11 = v ((j + 2) * 32 + (i + 3))"
    "s12 = v ((j + 3) * 32 + i)" "s13 = v ((j + 3) * 32 + (i + 1))" "s14 = v ((j + 3) * 32 + (i + 2))" "s15 = v ((j + 3) * 32 + (i + 3))"
    and "jh = j + 4" "ih = i + 4" "ih \<le> 32"
  shows "stores (\<lambda>C. C(p0 := s0, p1 := s1, p2 := s2, p3 := s3, p4 := s4, p5 := s5, p6 := s6, p7 := s7,
      p8 := s8, p9 := s9, p10 := s10, p11 := s11, p12 := s12, p13 := s13, p14 := s14, p15 := s15))
    (tile j jh i ih) v"
proof -
  let ?qs = "[(0, 0), (0, 1), (0, 2), (0, 3), (1, 0), (1, 1), (1, 2), (1, 3),
        (2, 0), (2, 1), (2, 2), (2, 3), (3, 0), (3, 1), (3, 2), (3, 3)] :: (nat \<times> nat) list"
  have "stores (\<lambda>C. fold (\<lambda>(p, s) D. D(p := s))
      (zip (map (\<lambda>(q, r). (j + q) * 32 + (i + r)) ?qs)
        [s0, s1, s2, s3, s4, s5, s6, s7,
        s8, s9, s10, s11, s12, s13, s14, s15]) C)
    (tile j (j + 4) i (i + 4)) v"
  proof (rule stores_block)
    show "set ?qs = {0..<4} \<times> {0..<4}" unfolding upt_sets by force
  qed (use assms(34,35) in \<open>simp_all add: assms(1-32) ac_simps\<close>)
  then show ?thesis by (simp add: assms(1-16,33,34) ac_simps)
qed

lemma adds_4_4c:
  assumes "p0 = j * 32 + i" "p1 = (j + 1) * 32 + i" "p2 = (j + 2) * 32 + i" "p3 = (j + 3) * 32 + i"
    "p4 = j * 32 + (i + 1)" "p5 = (j + 1) * 32 + (i + 1)" "p6 = (j + 2) * 32 + (i + 1)" "p7 = (j + 3) * 32 + (i + 1)"
    "p8 = j * 32 + (i + 2)" "p9 = (j + 1) * 32 + (i + 2)" "p10 = (j + 2) * 32 + (i + 2)" "p11 = (j + 3) * 32 + (i + 2)"
    "p12 = j * 32 + (i + 3)" "p13 = (j + 1) * 32 + (i + 3)" "p14 = (j + 2) * 32 + (i + 3)" "p15 = (j + 3) * 32 + (i + 3)"
    and "s0 = v (j * 32 + i)" "s1 = v ((j + 1) * 32 + i)" "s2 = v ((j + 2) * 32 + i)" "s3 = v ((j + 3) * 32 + i)"
    "s4 = v (j * 32 + (i + 1))" "s5 = v ((j + 1) * 32 + (i + 1))" "s6 = v ((j + 2) * 32 + (i + 1))" "s7 = v ((j + 3) * 32 + (i + 1))"
    "s8 = v (j * 32 + (i + 2))" "s9 = v ((j + 1) * 32 + (i + 2))" "s10 = v ((j + 2) * 32 + (i + 2))" "s11 = v ((j + 3) * 32 + (i + 2))"
    "s12 = v (j * 32 + (i + 3))" "s13 = v ((j + 1) * 32 + (i + 3))" "s14 = v ((j + 2) * 32 + (i + 3))" "s15 = v ((j + 3) * 32 + (i + 3))"
    and "jh = j + 4" "ih = i + 4" "ih \<le> 32"
  shows "adds (\<lambda>C. C(p0 := C p0 + s0, p1 := C p1 + s1, p2 := C p2 + s2, p3 := C p3 + s3,
      p4 := C p4 + s4, p5 := C p5 + s5, p6 := C p6 + s6, p7 := C p7 + s7,
      p8 := C p8 + s8, p9 := C p9 + s9, p10 := C p10 + s10, p11 := C p11 + s11,
      p12 := C p12 + s12, p13 := C p13 + s13, p14 := C p14 + s14, p15 := C p15 + s15))
    (tile j jh i ih) v"
proof -
  let ?qs = "[(0, 0), (1, 0), (2, 0), (3, 0), (0, 1), (1, 1), (2, 1), (3, 1),
        (0, 2), (1, 2), (2, 2), (3, 2), (0, 3), (1, 3), (2, 3), (3, 3)] :: (nat \<times> nat) list"
  have "adds (\<lambda>C. fold (\<lambda>(p, s) D. D(p := C p + s))
      (zip (map (\<lambda>(q, r). (j + q) * 32 + (i + r)) ?qs)
        [s0, s1, s2, s3, s4, s5, s6, s7,
        s8, s9, s10, s11, s12, s13, s14, s15]) C)
    (tile j (j + 4) i (i + 4)) v"
  proof (rule adds_block)
    show "set ?qs = {0..<4} \<times> {0..<4}" unfolding upt_sets by force
  qed (use assms(34,35) in \<open>simp_all add: assms(1-32) ac_simps\<close>)
  then show ?thesis by (simp add: assms(1-16,33,34) ac_simps)
qed

lemma addc_1_8:
  assumes "p0 = j * 32 + i" "p1 = j * 32 + (i + 1)" "p2 = j * 32 + (i + 2)" "p3 = j * 32 + (i + 3)"
    "p4 = j * 32 + (i + 4)" "p5 = j * 32 + (i + 5)" "p6 = j * 32 + (i + 6)" "p7 = j * 32 + (i + 7)"
    and "s0 = v (j * 32 + i)" "s1 = v (j * 32 + (i + 1))" "s2 = v (j * 32 + (i + 2))" "s3 = v (j * 32 + (i + 3))"
    "s4 = v (j * 32 + (i + 4))" "s5 = v (j * 32 + (i + 5))" "s6 = v (j * 32 + (i + 6))" "s7 = v (j * 32 + (i + 7))"
    and "jh = j + 1" "ih = i + 8" "ih \<le> 32"
  shows "adds (\<lambda>C. c_add (c_add (c_add (c_add (c_add (c_add (c_add (c_add C p0 s0) p1 s1) p2 s2) p3 s3) p4
      s4) p5 s5) p6 s6) p7 s7)
    (tile j jh i ih) v"
proof -
  let ?qs = "[(0, 0), (0, 1), (0, 2), (0, 3), (0, 4), (0, 5), (0, 6), (0, 7)] :: (nat \<times> nat) list"
  have "adds (\<lambda>C. fold (\<lambda>(p, s) D. c_add D p s)
      (zip (map (\<lambda>(q, r). (j + q) * 32 + (i + r)) ?qs)
        [s0, s1, s2, s3, s4, s5, s6, s7]) C)
    (tile j (j + 1) i (i + 8)) v"
  proof (rule addc_block)
    show "set ?qs = {0..<1} \<times> {0..<8}" unfolding upt_sets by force
  qed (use assms(18,19) in \<open>simp_all add: assms(1-16) ac_simps\<close>)
  then show ?thesis by (simp add: assms(1-8,17,18) ac_simps)
qed

text \<open>Loops that count blocks of a fixed width.\<close>

lemma adds_col_blocks:
  assumes "\<And>n. n < N \<Longrightarrow> adds (body n) (tile jl jh (w * n) (w * (n + 1))) v"
  shows "adds (c_for 0 N 1 body) (tile jl jh 0 (w * N)) v"
  using assms
proof (induction N)
  case 0
  then show ?case by (auto simp: c_for_1 adds_def tile_def)
next
  case (Suc N)
  have "adds (\<lambda>C. body N (c_for 0 N 1 body C)) (\<lambda>x. tile jl jh 0 (w * N) x \<or> tile jl jh (w * N) (w * (N + 1)) x) v"
    by (rule adds_then [OF Suc.IH Suc.prems]) (use Suc.prems in \<open>simp_all add: tile_def\<close>)
  then have "adds (\<lambda>C. body N (c_for 0 N 1 body C)) (tile jl jh 0 (w * Suc N)) v"
    by (rule adds_cong) (auto simp: tile_def)
  then show ?case by (simp add: c_for_1 comp_def)
qed

lemma adds_part_blocks:
  assumes "\<And>m. m < M \<Longrightarrow> adds (body m) S (mat_part A B (w * m) (w * (m + 1)))"
  shows "adds (c_for 0 M 1 body) S (mat_part A B 0 (w * M))"
  using assms
proof (induction M)
  case 0
  then show ?case by (auto simp: c_for_1 adds_def mat_part_def)
next
  case (Suc M)
  have "adds (\<lambda>C. body M (c_for 0 M 1 body C)) S (mat_part A B 0 (w * (M + 1)))"
    by (rule adds_parts [OF Suc.IH Suc.prems]) (use Suc.prems in simp_all)
  then show ?case by (simp add: c_for_1 comp_def)
qed

lemma mat_part_1: "mat_part A B k (k + 1) = mat_term A B k"
  by (rule ext) (simp add: mat_part_def)

lemma mat_part_2:
  "mat_part A B k (k + 2) x = mat_term A B k x + mat_term A B (k + 1) x"
  by (simp add: mat_part_def numeral_eq_Suc)

lemma mat_part_4:
  "mat_part A B k (k + 4) x = mat_term A B k x + mat_term A B (k + 1) x + mat_term A B (k + 2) x + mat_term A B (k + 3) x"
  by (simp add: mat_part_def numeral_eq_Suc)

lemma mat_part_8:
  "mat_part A B k (k + 8) x = mat_term A B k x + mat_term A B (k + 1) x + mat_term A B (k + 2) x + mat_term A B (k + 3) x
    + mat_term A B (k + 4) x + mat_term A B (k + 5) x + mat_term A B (k + 6) x + mat_term A B (k + 7) x"
  by (simp add: mat_part_def numeral_eq_Suc)

text \<open>Eight terms in a row.\<close>

lemma adds_parts_8:
  assumes "\<And>r. r < 8 \<Longrightarrow> adds (K r) S (mat_part A B (a + r) (a + r + 1))"
  shows "adds (\<lambda>C. K 7 (K 6 (K 5 (K 4 (K 3 (K 2 (K 1 (K 0 C)))))))) S (mat_part A B a (a + 8))"
proof -
  have "K r C x = C x + (if S x then mat_term A B (a + r) x else 0)" if "r < 8" for r C x
    using assms [OF that] unfolding adds_def mat_part_1 by blast
  then show ?thesis by (simp add: adds_def mat_part_8 add.assoc)
qed

subsection \<open>Copies of the arrays\<close>

lemma copy_stores: "lo \<le> hi \<Longrightarrow> stores (c_for lo hi 1 (\<lambda>i B1. B1(i := B i))) (\<lambda>x. lo \<le> x \<and> x < hi \<and> True) B"
  by (rule stores_window [where f = "\<lambda>x. x" and n = "hi - lo"]) (auto simp: stores_def)

text \<open>The product depends on the 1024 entries of the matrices only.\<close>

lemma mat_prod_local:
  assumes "\<And>x. x < 1024 \<Longrightarrow> A1 x = A x" "\<And>x. x < 1024 \<Longrightarrow> B1 x = B x" "x < 1024"
  shows "mat_prod A1 B1 x = mat_prod A B x"
  unfolding mat_prod_def
proof (rule sum.cong [OF refl])
  fix k :: nat assume "k \<in> {0..<32}"
  moreover have "x mod 32 < 32" "x div 32 < 32" using assms(3) by auto
  ultimately have "x div 32 * 32 + k < 1024" "k * 32 + x mod 32 < 1024" by simp_all
  then show "A1 (x div 32 * 32 + k) * B1 (k * 32 + x mod 32) = A (x div 32 * 32 + k) * B (k * 32 + x mod 32)"
    using assms(1,2) by simp
qed

end
