(* ===== verification/Mt_Tiles.thy ===== *)
theory Mt_Tiles
  imports Mt_Prelude
begin

text \<open>
  The kernels of \<^verbatim>\<open>riscv-tests/mt\<close> that hold a row of eight or sixteen entries of \<^verbatim>\<open>C\<close> in local
  variables: \<^verbatim>\<open>df\<close>, \<^verbatim>\<open>al\<close>, \<^verbatim>\<open>cl\<close> and \<^verbatim>\<open>bf\<close> (sixteen columns), \<^verbatim>\<open>bk\<close> and \<^verbatim>\<open>dv\<close> (eight columns, the
  sum in two passes). Each block of a source file between two loops over \<^verbatim>\<open>j\<close> is a definition of
  its own; the kernel composes them under the guards of the source.
\<close>

subsection \<open>df\<close>

text \<open>Four quadrants, two for each of the first two threads.\<close>

definition df_q1 :: "nat \<Rightarrow> c_array \<Rightarrow> c_array \<Rightarrow> c_array \<Rightarrow> c_array" where
  "df_q1 lda A B = c_for 0 16 1 (\<lambda>j C.
     let temp0 = C (j * lda); temp1 = C (1 + j * lda); temp2 = C (2 + j * lda); temp3 = C (3 + j * lda);
         temp4 = C (4 + j * lda); temp5 = C (5 + j * lda); temp6 = C (6 + j * lda); temp7 = C (7 + j * lda);
         temp8 = C (8 + j * lda); temp9 = C (9 + j * lda); temp10 = C (10 + j * lda); temp11 = C (11 + j * lda);
         temp12 = C (12 + j * lda); temp13 = C (13 + j * lda); temp14 = C (14 + j * lda); temp15 = C (15 + j * lda);
         (temp0, temp1, temp2, temp3, temp4, temp5, temp6, temp7,
          temp8, temp9, temp10, temp11, temp12, temp13, temp14, temp15) =
           c_for 0 32 1 (\<lambda>k (temp0, temp1, temp2, temp3, temp4, temp5, temp6, temp7,
               temp8, temp9, temp10, temp11, temp12, temp13, temp14, temp15).
              (temp0 + A (j * lda + k) * B (k * lda), temp1 + A (j * lda + k) * B (1 + k * lda),
               temp2 + A (j * lda + k) * B (2 + k * lda), temp3 + A (j * lda + k) * B (3 + k * lda),
               temp4 + A (j * lda + k) * B (4 + k * lda), temp5 + A (j * lda + k) * B (5 + k * lda),
               temp6 + A (j * lda + k) * B (6 + k * lda), temp7 + A (j * lda + k) * B (7 + k * lda),
               temp8 + A (j * lda + k) * B (8 + k * lda), temp9 + A (j * lda + k) * B (9 + k * lda),
               temp10 + A (j * lda + k) * B (10 + k * lda), temp11 + A (j * lda + k) * B (11 + k * lda),
               temp12 + A (j * lda + k) * B (12 + k * lda), temp13 + A (j * lda + k) * B (13 + k * lda),
               temp14 + A (j * lda + k) * B (14 + k * lda), temp15 + A (j * lda + k) * B (15 + k * lda)))
             (temp0, temp1, temp2, temp3, temp4, temp5, temp6, temp7,
              temp8, temp9, temp10, temp11, temp12, temp13, temp14, temp15)
     in C(j * lda := temp0, 1 + j * lda := temp1, 2 + j * lda := temp2, 3 + j * lda := temp3,
          4 + j * lda := temp4, 5 + j * lda := temp5, 6 + j * lda := temp6, 7 + j * lda := temp7,
          8 + j * lda := temp8, 9 + j * lda := temp9, 10 + j * lda := temp10, 11 + j * lda := temp11,
          12 + j * lda := temp12, 13 + j * lda := temp13, 14 + j * lda := temp14, 15 + j * lda := temp15))"

definition df_q2 :: "nat \<Rightarrow> c_array \<Rightarrow> c_array \<Rightarrow> c_array \<Rightarrow> c_array" where
  "df_q2 lda A B = c_for 16 32 1 (\<lambda>j C.
     let temp0 = C (j * lda); temp1 = C (1 + j * lda); temp2 = C (2 + j * lda); temp3 = C (3 + j * lda);
         temp4 = C (4 + j * lda); temp5 = C (5 + j * lda); temp6 = C (6 + j * lda); temp7 = C (7 + j * lda);
         temp8 = C (8 + j * lda); temp9 = C (9 + j * lda); temp10 = C (10 + j * lda); temp11 = C (11 + j * lda);
         temp12 = C (12 + j * lda); temp13 = C (13 + j * lda); temp14 = C (14 + j * lda); temp15 = C (15 + j * lda);
         (temp0, temp1, temp2, temp3, temp4, temp5, temp6, temp7,
          temp8, temp9, temp10, temp11, temp12, temp13, temp14, temp15) =
           c_for 0 32 1 (\<lambda>k (temp0, temp1, temp2, temp3, temp4, temp5, temp6, temp7,
               temp8, temp9, temp10, temp11, temp12, temp13, temp14, temp15).
              (temp0 + A (j * lda + k) * B (k * lda), temp1 + A (j * lda + k) * B (1 + k * lda),
               temp2 + A (j * lda + k) * B (2 + k * lda), temp3 + A (j * lda + k) * B (3 + k * lda),
               temp4 + A (j * lda + k) * B (4 + k * lda), temp5 + A (j * lda + k) * B (5 + k * lda),
               temp6 + A (j * lda + k) * B (6 + k * lda), temp7 + A (j * lda + k) * B (7 + k * lda),
               temp8 + A (j * lda + k) * B (8 + k * lda), temp9 + A (j * lda + k) * B (9 + k * lda),
               temp10 + A (j * lda + k) * B (10 + k * lda), temp11 + A (j * lda + k) * B (11 + k * lda),
               temp12 + A (j * lda + k) * B (12 + k * lda), temp13 + A (j * lda + k) * B (13 + k * lda),
               temp14 + A (j * lda + k) * B (14 + k * lda), temp15 + A (j * lda + k) * B (15 + k * lda)))
             (temp0, temp1, temp2, temp3, temp4, temp5, temp6, temp7,
              temp8, temp9, temp10, temp11, temp12, temp13, temp14, temp15)
     in C(j * lda := temp0, 1 + j * lda := temp1, 2 + j * lda := temp2, 3 + j * lda := temp3,
          4 + j * lda := temp4, 5 + j * lda := temp5, 6 + j * lda := temp6, 7 + j * lda := temp7,
          8 + j * lda := temp8, 9 + j * lda := temp9, 10 + j * lda := temp10, 11 + j * lda := temp11,
          12 + j * lda := temp12, 13 + j * lda := temp13, 14 + j * lda := temp14, 15 + j * lda := temp15))"

definition df_q3 :: "nat \<Rightarrow> c_array \<Rightarrow> c_array \<Rightarrow> c_array \<Rightarrow> c_array" where
  "df_q3 lda A B = c_for 16 32 1 (\<lambda>j C.
     let temp0 = C (16 + j * lda); temp1 = C (17 + j * lda); temp2 = C (18 + j * lda); temp3 = C (19 + j * lda);
         temp4 = C (20 + j * lda); temp5 = C (21 + j * lda); temp6 = C (22 + j * lda); temp7 = C (23 + j * lda);
         temp8 = C (24 + j * lda); temp9 = C (25 + j * lda); temp10 = C (26 + j * lda); temp11 = C (27 + j * lda);
         temp12 = C (28 + j * lda); temp13 = C (29 + j * lda); temp14 = C (30 + j * lda); temp15 = C (31 + j * lda);
         (temp0, temp1, temp2, temp3, temp4, temp5, temp6, temp7,
          temp8, temp9, temp10, temp11, temp12, temp13, temp14, temp15) =
           c_for 0 32 1 (\<lambda>k (temp0, temp1, temp2, temp3, temp4, temp5, temp6, temp7,
               temp8, temp9, temp10, temp11, temp12, temp13, temp14, temp15).
              (temp0 + A (j * lda + k) * B (16 + k * lda), temp1 + A (j * lda + k) * B (17 + k * lda),
               temp2 + A (j * lda + k) * B (18 + k * lda), temp3 + A (j * lda + k) * B (19 + k * lda),
               temp4 + A (j * lda + k) * B (20 + k * lda), temp5 + A (j * lda + k) * B (21 + k * lda),
               temp6 + A (j * lda + k) * B (22 + k * lda), temp7 + A (j * lda + k) * B (23 + k * lda),
               temp8 + A (j * lda + k) * B (24 + k * lda), temp9 + A (j * lda + k) * B (25 + k * lda),
               temp10 + A (j * lda + k) * B (26 + k * lda), temp11 + A (j * lda + k) * B (27 + k * lda),
               temp12 + A (j * lda + k) * B (28 + k * lda), temp13 + A (j * lda + k) * B (29 + k * lda),
               temp14 + A (j * lda + k) * B (30 + k * lda), temp15 + A (j * lda + k) * B (31 + k * lda)))
             (temp0, temp1, temp2, temp3, temp4, temp5, temp6, temp7,
              temp8, temp9, temp10, temp11, temp12, temp13, temp14, temp15)
     in C(16 + j * lda := temp0, 17 + j * lda := temp1, 18 + j * lda := temp2, 19 + j * lda := temp3,
          20 + j * lda := temp4, 21 + j * lda := temp5, 22 + j * lda := temp6, 23 + j * lda := temp7,
          24 + j * lda := temp8, 25 + j * lda := temp9, 26 + j * lda := temp10, 27 + j * lda := temp11,
          28 + j * lda := temp12, 29 + j * lda := temp13, 30 + j * lda := temp14, 31 + j * lda := temp15))"

definition df_q4 :: "nat \<Rightarrow> c_array \<Rightarrow> c_array \<Rightarrow> c_array \<Rightarrow> c_array" where
  "df_q4 lda A B = c_for 0 16 1 (\<lambda>j C.
     let temp0 = C (16 + j * lda); temp1 = C (17 + j * lda); temp2 = C (18 + j * lda); temp3 = C (19 + j * lda);
         temp4 = C (20 + j * lda); temp5 = C (21 + j * lda); temp6 = C (22 + j * lda); temp7 = C (23 + j * lda);
         temp8 = C (24 + j * lda); temp9 = C (25 + j * lda); temp10 = C (26 + j * lda); temp11 = C (27 + j * lda);
         temp12 = C (28 + j * lda); temp13 = C (29 + j * lda); temp14 = C (30 + j * lda); temp15 = C (31 + j * lda);
         (temp0, temp1, temp2, temp3, temp4, temp5, temp6, temp7,
          temp8, temp9, temp10, temp11, temp12, temp13, temp14, temp15) =
           c_for 0 32 1 (\<lambda>k (temp0, temp1, temp2, temp3, temp4, temp5, temp6, temp7,
               temp8, temp9, temp10, temp11, temp12, temp13, temp14, temp15).
              (temp0 + A (j * lda + k) * B (16 + k * lda), temp1 + A (j * lda + k) * B (17 + k * lda),
               temp2 + A (j * lda + k) * B (18 + k * lda), temp3 + A (j * lda + k) * B (19 + k * lda),
               temp4 + A (j * lda + k) * B (20 + k * lda), temp5 + A (j * lda + k) * B (21 + k * lda),
               temp6 + A (j * lda + k) * B (22 + k * lda), temp7 + A (j * lda + k) * B (23 + k * lda),
               temp8 + A (j * lda + k) * B (24 + k * lda), temp9 + A (j * lda + k) * B (25 + k * lda),
               temp10 + A (j * lda + k) * B (26 + k * lda), temp11 + A (j * lda + k) * B (27 + k * lda),
               temp12 + A (j * lda + k) * B (28 + k * lda), temp13 + A (j * lda + k) * B (29 + k * lda),
               temp14 + A (j * lda + k) * B (30 + k * lda), temp15 + A (j * lda + k) * B (31 + k * lda)))
             (temp0, temp1, temp2, temp3, temp4, temp5, temp6, temp7,
              temp8, temp9, temp10, temp11, temp12, temp13, temp14, temp15)
     in C(16 + j * lda := temp0, 17 + j * lda := temp1, 18 + j * lda := temp2, 19 + j * lda := temp3,
          20 + j * lda := temp4, 21 + j * lda := temp5, 22 + j * lda := temp6, 23 + j * lda := temp7,
          24 + j * lda := temp8, 25 + j * lda := temp9, 26 + j * lda := temp10, 27 + j * lda := temp11,
          28 + j * lda := temp12, 29 + j * lda := temp13, 30 + j * lda := temp14, 31 + j * lda := temp15))"

definition df_matmul :: kernel where
  "df_matmul coreid ncores lda A B C =
     (let C = (if coreid = 0 then df_q2 lda A B (df_q1 lda A B C) else C)
      in if coreid = 1 \<or> ncores = 1 then df_q4 lda A B (df_q3 lda A B C) else C)"

lemma df_q1_adds: "adds (df_q1 32 A B) (tile 0 16 0 16) (mat_prod A B)"
  unfolding df_q1_def
  by (rule adds_rows [where n = 16], simp, simp, simp only: tile_simps,
      rule adds_row16 [where i = 0], simp_all add: mat_prod_def del: One_nat_def add_Suc_right)
    ((simp_all add: ac_simps)?)

lemma df_q2_adds: "adds (df_q2 32 A B) (tile 16 32 0 16) (mat_prod A B)"
  unfolding df_q2_def
  by (rule adds_rows [where n = 16], simp, simp, simp only: tile_simps,
      rule adds_row16 [where i = 0], simp_all add: mat_prod_def del: One_nat_def add_Suc_right)
    ((simp_all add: ac_simps)?)

lemma df_q3_adds: "adds (df_q3 32 A B) (tile 16 32 16 32) (mat_prod A B)"
  unfolding df_q3_def
  by (rule adds_rows [where n = 16], simp, simp, simp only: tile_simps,
      rule adds_row16 [where i = 16], simp_all add: mat_prod_def del: One_nat_def add_Suc_right)
    ((simp_all add: ac_simps)?)

lemma df_q4_adds: "adds (df_q4 32 A B) (tile 0 16 16 32) (mat_prod A B)"
  unfolding df_q4_def
  by (rule adds_rows [where n = 16], simp, simp, simp only: tile_simps,
      rule adds_row16 [where i = 16], simp_all add: mat_prod_def del: One_nat_def add_Suc_right)
    ((simp_all add: ac_simps)?)

subsection \<open>cl\<close>

definition cl_left :: "nat \<Rightarrow> c_array \<Rightarrow> c_array \<Rightarrow> c_array \<Rightarrow> c_array" where
  "cl_left lda A B = c_for 0 32 1 (\<lambda>j C.
     let temp0 = C (j * lda); temp1 = C (1 + j * lda); temp2 = C (2 + j * lda); temp3 = C (3 + j * lda);
         temp4 = C (4 + j * lda); temp5 = C (5 + j * lda); temp6 = C (6 + j * lda); temp7 = C (7 + j * lda);
         temp8 = C (8 + j * lda); temp9 = C (9 + j * lda); temp10 = C (10 + j * lda); temp11 = C (11 + j * lda);
         temp12 = C (12 + j * lda); temp13 = C (13 + j * lda); temp14 = C (14 + j * lda); temp15 = C (15 + j * lda);
         (temp0, temp1, temp2, temp3, temp4, temp5, temp6, temp7,
          temp8, temp9, temp10, temp11, temp12, temp13, temp14, temp15) =
           c_for 0 32 1 (\<lambda>k (temp0, temp1, temp2, temp3, temp4, temp5, temp6, temp7,
               temp8, temp9, temp10, temp11, temp12, temp13, temp14, temp15).
              (temp0 + A (j * lda + k) * B (k * lda), temp1 + A (j * lda + k) * B (1 + k * lda),
               temp2 + A (j * lda + k) * B (2 + k * lda), temp3 + A (j * lda + k) * B (3 + k * lda),
               temp4 + A (j * lda + k) * B (4 + k * lda), temp5 + A (j * lda + k) * B (5 + k * lda),
               temp6 + A (j * lda + k) * B (6 + k * lda), temp7 + A (j * lda + k) * B (7 + k * lda),
               temp8 + A (j * lda + k) * B (8 + k * lda), temp9 + A (j * lda + k) * B (9 + k * lda),
               temp10 + A (j * lda + k) * B (10 + k * lda), temp11 + A (j * lda + k) * B (11 + k * lda),
               temp12 + A (j * lda + k) * B (12 + k * lda), temp13 + A (j * lda + k) * B (13 + k * lda),
               temp14 + A (j * lda + k) * B (14 + k * lda), temp15 + A (j * lda + k) * B (15 + k * lda)))
             (temp0, temp1, temp2, temp3, temp4, temp5, temp6, temp7,
              temp8, temp9, temp10, temp11, temp12, temp13, temp14, temp15)
     in C(j * lda := temp0, 1 + j * lda := temp1, 2 + j * lda := temp2, 3 + j * lda := temp3,
          4 + j * lda := temp4, 5 + j * lda := temp5, 6 + j * lda := temp6, 7 + j * lda := temp7,
          8 + j * lda := temp8, 9 + j * lda := temp9, 10 + j * lda := temp10, 11 + j * lda := temp11,
          12 + j * lda := temp12, 13 + j * lda := temp13, 14 + j * lda := temp14, 15 + j * lda := temp15))"

definition cl_q3 :: "nat \<Rightarrow> c_array \<Rightarrow> c_array \<Rightarrow> c_array \<Rightarrow> c_array" where
  "cl_q3 lda A B = c_for 16 32 1 (\<lambda>j C.
     let temp0 = C (16 + j * lda); temp1 = C (17 + j * lda); temp2 = C (18 + j * lda); temp3 = C (19 + j * lda);
         temp4 = C (20 + j * lda); temp5 = C (21 + j * lda); temp6 = C (22 + j * lda); temp7 = C (23 + j * lda);
         temp8 = C (24 + j * lda); temp9 = C (25 + j * lda); temp10 = C (26 + j * lda); temp11 = C (27 + j * lda);
         temp12 = C (28 + j * lda); temp13 = C (29 + j * lda); temp14 = C (30 + j * lda); temp15 = C (31 + j * lda);
         (temp0, temp1, temp2, temp3, temp4, temp5, temp6, temp7,
          temp8, temp9, temp10, temp11, temp12, temp13, temp14, temp15) =
           c_for 0 32 1 (\<lambda>k (temp0, temp1, temp2, temp3, temp4, temp5, temp6, temp7,
               temp8, temp9, temp10, temp11, temp12, temp13, temp14, temp15).
              (temp0 + A (j * lda + k) * B (16 + k * lda), temp1 + A (j * lda + k) * B (17 + k * lda),
               temp2 + A (j * lda + k) * B (18 + k * lda), temp3 + A (j * lda + k) * B (19 + k * lda),
               temp4 + A (j * lda + k) * B (20 + k * lda), temp5 + A (j * lda + k) * B (21 + k * lda),
               temp6 + A (j * lda + k) * B (22 + k * lda), temp7 + A (j * lda + k) * B (23 + k * lda),
               temp8 + A (j * lda + k) * B (24 + k * lda), temp9 + A (j * lda + k) * B (25 + k * lda),
               temp10 + A (j * lda + k) * B (26 + k * lda), temp11 + A (j * lda + k) * B (27 + k * lda),
               temp12 + A (j * lda + k) * B (28 + k * lda), temp13 + A (j * lda + k) * B (29 + k * lda),
               temp14 + A (j * lda + k) * B (30 + k * lda), temp15 + A (j * lda + k) * B (31 + k * lda)))
             (temp0, temp1, temp2, temp3, temp4, temp5, temp6, temp7,
              temp8, temp9, temp10, temp11, temp12, temp13, temp14, temp15)
     in C(16 + j * lda := temp0, 17 + j * lda := temp1, 18 + j * lda := temp2, 19 + j * lda := temp3,
          20 + j * lda := temp4, 21 + j * lda := temp5, 22 + j * lda := temp6, 23 + j * lda := temp7,
          24 + j * lda := temp8, 25 + j * lda := temp9, 26 + j * lda := temp10, 27 + j * lda := temp11,
          28 + j * lda := temp12, 29 + j * lda := temp13, 30 + j * lda := temp14, 31 + j * lda := temp15))"

definition cl_q4 :: "nat \<Rightarrow> c_array \<Rightarrow> c_array \<Rightarrow> c_array \<Rightarrow> c_array" where
  "cl_q4 lda A B = c_for 0 16 1 (\<lambda>j C.
     let temp0 = C (16 + j * lda); temp1 = C (17 + j * lda); temp2 = C (18 + j * lda); temp3 = C (19 + j * lda);
         temp4 = C (20 + j * lda); temp5 = C (21 + j * lda); temp6 = C (22 + j * lda); temp7 = C (23 + j * lda);
         temp8 = C (24 + j * lda); temp9 = C (25 + j * lda); temp10 = C (26 + j * lda); temp11 = C (27 + j * lda);
         temp12 = C (28 + j * lda); temp13 = C (29 + j * lda); temp14 = C (30 + j * lda); temp15 = C (31 + j * lda);
         (temp0, temp1, temp2, temp3, temp4, temp5, temp6, temp7,
          temp8, temp9, temp10, temp11, temp12, temp13, temp14, temp15) =
           c_for 0 32 1 (\<lambda>k (temp0, temp1, temp2, temp3, temp4, temp5, temp6, temp7,
               temp8, temp9, temp10, temp11, temp12, temp13, temp14, temp15).
              (temp0 + A (j * lda + k) * B (16 + k * lda), temp1 + A (j * lda + k) * B (17 + k * lda),
               temp2 + A (j * lda + k) * B (18 + k * lda), temp3 + A (j * lda + k) * B (19 + k * lda),
               temp4 + A (j * lda + k) * B (20 + k * lda), temp5 + A (j * lda + k) * B (21 + k * lda),
               temp6 + A (j * lda + k) * B (22 + k * lda), temp7 + A (j * lda + k) * B (23 + k * lda),
               temp8 + A (j * lda + k) * B (24 + k * lda), temp9 + A (j * lda + k) * B (25 + k * lda),
               temp10 + A (j * lda + k) * B (26 + k * lda), temp11 + A (j * lda + k) * B (27 + k * lda),
               temp12 + A (j * lda + k) * B (28 + k * lda), temp13 + A (j * lda + k) * B (29 + k * lda),
               temp14 + A (j * lda + k) * B (30 + k * lda), temp15 + A (j * lda + k) * B (31 + k * lda)))
             (temp0, temp1, temp2, temp3, temp4, temp5, temp6, temp7,
              temp8, temp9, temp10, temp11, temp12, temp13, temp14, temp15)
     in C(16 + j * lda := temp0, 17 + j * lda := temp1, 18 + j * lda := temp2, 19 + j * lda := temp3,
          20 + j * lda := temp4, 21 + j * lda := temp5, 22 + j * lda := temp6, 23 + j * lda := temp7,
          24 + j * lda := temp8, 25 + j * lda := temp9, 26 + j * lda := temp10, 27 + j * lda := temp11,
          28 + j * lda := temp12, 29 + j * lda := temp13, 30 + j * lda := temp14, 31 + j * lda := temp15))"

definition cl_matmul :: kernel where
  "cl_matmul coreid ncores lda A B C =
     (if coreid > 1 then C else 
      let C = (if coreid = 0 then cl_left lda A B C else C)
      in if coreid = 1 \<or> ncores = 1 then cl_q4 lda A B (cl_q3 lda A B C) else C)"

lemma cl_left_adds: "adds (cl_left 32 A B) (tile 0 32 0 16) (mat_prod A B)"
  unfolding cl_left_def
  by (rule adds_rows [where n = 32], simp, simp, simp only: tile_simps,
      rule adds_row16 [where i = 0], simp_all add: mat_prod_def del: One_nat_def add_Suc_right)
    ((simp_all add: ac_simps)?)

lemma cl_q3_adds: "adds (cl_q3 32 A B) (tile 16 32 16 32) (mat_prod A B)"
  unfolding cl_q3_def
  by (rule adds_rows [where n = 16], simp, simp, simp only: tile_simps,
      rule adds_row16 [where i = 16], simp_all add: mat_prod_def del: One_nat_def add_Suc_right)
    ((simp_all add: ac_simps)?)

lemma cl_q4_adds: "adds (cl_q4 32 A B) (tile 0 16 16 32) (mat_prod A B)"
  unfolding cl_q4_def
  by (rule adds_rows [where n = 16], simp, simp, simp only: tile_simps,
      rule adds_row16 [where i = 16], simp_all add: mat_prod_def del: One_nat_def add_Suc_right)
    ((simp_all add: ac_simps)?)

subsection \<open>al\<close>

definition al_left :: "nat \<Rightarrow> c_array \<Rightarrow> c_array \<Rightarrow> c_array \<Rightarrow> c_array" where
  "al_left lda A B = c_for 0 32 1 (\<lambda>j C.
     let temp0 = C (j * lda); temp1 = C (1 + j * lda); temp2 = C (2 + j * lda); temp3 = C (3 + j * lda);
         temp4 = C (4 + j * lda); temp5 = C (5 + j * lda); temp6 = C (6 + j * lda); temp7 = C (7 + j * lda);
         temp8 = C (8 + j * lda); temp9 = C (9 + j * lda); temp10 = C (10 + j * lda); temp11 = C (11 + j * lda);
         temp12 = C (12 + j * lda); temp13 = C (13 + j * lda); temp14 = C (14 + j * lda); temp15 = C (15 + j * lda);
         (temp0, temp1, temp2, temp3, temp4, temp5, temp6, temp7,
          temp8, temp9, temp10, temp11, temp12, temp13, temp14, temp15) =
           c_for 0 32 1 (\<lambda>k (temp0, temp1, temp2, temp3, temp4, temp5, temp6, temp7,
               temp8, temp9, temp10, temp11, temp12, temp13, temp14, temp15).
              (temp0 + A (j * lda + k) * B (k * lda), temp1 + A (j * lda + k) * B (1 + k * lda),
               temp2 + A (j * lda + k) * B (2 + k * lda), temp3 + A (j * lda + k) * B (3 + k * lda),
               temp4 + A (j * lda + k) * B (4 + k * lda), temp5 + A (j * lda + k) * B (5 + k * lda),
               temp6 + A (j * lda + k) * B (6 + k * lda), temp7 + A (j * lda + k) * B (7 + k * lda),
               temp8 + A (j * lda + k) * B (8 + k * lda), temp9 + A (j * lda + k) * B (9 + k * lda),
               temp10 + A (j * lda + k) * B (10 + k * lda), temp11 + A (j * lda + k) * B (11 + k * lda),
               temp12 + A (j * lda + k) * B (12 + k * lda), temp13 + A (j * lda + k) * B (13 + k * lda),
               temp14 + A (j * lda + k) * B (14 + k * lda), temp15 + A (j * lda + k) * B (15 + k * lda)))
             (temp0, temp1, temp2, temp3, temp4, temp5, temp6, temp7,
              temp8, temp9, temp10, temp11, temp12, temp13, temp14, temp15)
     in C(j * lda := temp0, 1 + j * lda := temp1, 2 + j * lda := temp2, 3 + j * lda := temp3,
          4 + j * lda := temp4, 5 + j * lda := temp5, 6 + j * lda := temp6, 7 + j * lda := temp7,
          8 + j * lda := temp8, 9 + j * lda := temp9, 10 + j * lda := temp10, 11 + j * lda := temp11,
          12 + j * lda := temp12, 13 + j * lda := temp13, 14 + j * lda := temp14, 15 + j * lda := temp15))"

definition al_right :: "nat \<Rightarrow> c_array \<Rightarrow> c_array \<Rightarrow> c_array \<Rightarrow> c_array" where
  "al_right lda A B = c_for 0 32 1 (\<lambda>j C.
     let temp0 = C (16 + j * lda); temp1 = C (17 + j * lda); temp2 = C (18 + j * lda); temp3 = C (19 + j * lda);
         temp4 = C (20 + j * lda); temp5 = C (21 + j * lda); temp6 = C (22 + j * lda); temp7 = C (23 + j * lda);
         temp8 = C (24 + j * lda); temp9 = C (25 + j * lda); temp10 = C (26 + j * lda); temp11 = C (27 + j * lda);
         temp12 = C (28 + j * lda); temp13 = C (29 + j * lda); temp14 = C (30 + j * lda); temp15 = C (31 + j * lda);
         (temp0, temp1, temp2, temp3, temp4, temp5, temp6, temp7,
          temp8, temp9, temp10, temp11, temp12, temp13, temp14, temp15) =
           c_for 0 32 1 (\<lambda>k (temp0, temp1, temp2, temp3, temp4, temp5, temp6, temp7,
               temp8, temp9, temp10, temp11, temp12, temp13, temp14, temp15).
              (temp0 + A (j * lda + k) * B (16 + k * lda), temp1 + A (j * lda + k) * B (17 + k * lda),
               temp2 + A (j * lda + k) * B (18 + k * lda), temp3 + A (j * lda + k) * B (19 + k * lda),
               temp4 + A (j * lda + k) * B (20 + k * lda), temp5 + A (j * lda + k) * B (21 + k * lda),
               temp6 + A (j * lda + k) * B (22 + k * lda), temp7 + A (j * lda + k) * B (23 + k * lda),
               temp8 + A (j * lda + k) * B (24 + k * lda), temp9 + A (j * lda + k) * B (25 + k * lda),
               temp10 + A (j * lda + k) * B (26 + k * lda), temp11 + A (j * lda + k) * B (27 + k * lda),
               temp12 + A (j * lda + k) * B (28 + k * lda), temp13 + A (j * lda + k) * B (29 + k * lda),
               temp14 + A (j * lda + k) * B (30 + k * lda), temp15 + A (j * lda + k) * B (31 + k * lda)))
             (temp0, temp1, temp2, temp3, temp4, temp5, temp6, temp7,
              temp8, temp9, temp10, temp11, temp12, temp13, temp14, temp15)
     in C(16 + j * lda := temp0, 17 + j * lda := temp1, 18 + j * lda := temp2, 19 + j * lda := temp3,
          20 + j * lda := temp4, 21 + j * lda := temp5, 22 + j * lda := temp6, 23 + j * lda := temp7,
          24 + j * lda := temp8, 25 + j * lda := temp9, 26 + j * lda := temp10, 27 + j * lda := temp11,
          28 + j * lda := temp12, 29 + j * lda := temp13, 30 + j * lda := temp14, 31 + j * lda := temp15))"

definition al_matmul :: kernel where
  "al_matmul coreid ncores lda A B C =
     (if coreid > 1 then C else 
      let C = (if coreid = 0 then al_left lda A B C else C)
      in if coreid = 1 \<or> ncores = 1 then al_right lda A B C else C)"

lemma al_left_adds: "adds (al_left 32 A B) (tile 0 32 0 16) (mat_prod A B)"
  unfolding al_left_def
  by (rule adds_rows [where n = 32], simp, simp, simp only: tile_simps,
      rule adds_row16 [where i = 0], simp_all add: mat_prod_def del: One_nat_def add_Suc_right)
    ((simp_all add: ac_simps)?)

lemma al_right_adds: "adds (al_right 32 A B) (tile 0 32 16 32) (mat_prod A B)"
  unfolding al_right_def
  by (rule adds_rows [where n = 32], simp, simp, simp only: tile_simps,
      rule adds_row16 [where i = 16], simp_all add: mat_prod_def del: One_nat_def add_Suc_right)
    ((simp_all add: ac_simps)?)

subsection \<open>bf\<close>

text \<open>The accumulators start at zero, so the entries are overwritten.\<close>

definition bf_left :: "nat \<Rightarrow> c_array \<Rightarrow> c_array \<Rightarrow> c_array \<Rightarrow> c_array" where
  "bf_left lda A B = c_for 0 32 1 (\<lambda>j C.
     let temp0 = 0; temp1 = 0; temp2 = 0; temp3 = 0; temp4 = 0; temp5 = 0; temp6 = 0; temp7 = 0;
         temp8 = 0; temp9 = 0; temp10 = 0; temp11 = 0; temp12 = 0; temp13 = 0; temp14 = 0; temp15 = 0;
         (temp0, temp1, temp2, temp3, temp4, temp5, temp6, temp7,
          temp8, temp9, temp10, temp11, temp12, temp13, temp14, temp15) =
           c_for 0 32 1 (\<lambda>k (temp0, temp1, temp2, temp3, temp4, temp5, temp6, temp7,
               temp8, temp9, temp10, temp11, temp12, temp13, temp14, temp15).
              (temp0 + A (j * lda + k) * B (k * lda), temp1 + A (j * lda + k) * B (1 + k * lda),
               temp2 + A (j * lda + k) * B (2 + k * lda), temp3 + A (j * lda + k) * B (3 + k * lda),
               temp4 + A (j * lda + k) * B (4 + k * lda), temp5 + A (j * lda + k) * B (5 + k * lda),
               temp6 + A (j * lda + k) * B (6 + k * lda), temp7 + A (j * lda + k) * B (7 + k * lda),
               temp8 + A (j * lda + k) * B (8 + k * lda), temp9 + A (j * lda + k) * B (9 + k * lda),
               temp10 + A (j * lda + k) * B (10 + k * lda), temp11 + A (j * lda + k) * B (11 + k * lda),
               temp12 + A (j * lda + k) * B (12 + k * lda), temp13 + A (j * lda + k) * B (13 + k * lda),
               temp14 + A (j * lda + k) * B (14 + k * lda), temp15 + A (j * lda + k) * B (15 + k * lda)))
             (temp0, temp1, temp2, temp3, temp4, temp5, temp6, temp7,
              temp8, temp9, temp10, temp11, temp12, temp13, temp14, temp15)
     in C(j * lda := temp0, 1 + j * lda := temp1, 2 + j * lda := temp2, 3 + j * lda := temp3,
          4 + j * lda := temp4, 5 + j * lda := temp5, 6 + j * lda := temp6, 7 + j * lda := temp7,
          8 + j * lda := temp8, 9 + j * lda := temp9, 10 + j * lda := temp10, 11 + j * lda := temp11,
          12 + j * lda := temp12, 13 + j * lda := temp13, 14 + j * lda := temp14, 15 + j * lda := temp15))"

definition bf_right :: "nat \<Rightarrow> c_array \<Rightarrow> c_array \<Rightarrow> c_array \<Rightarrow> c_array" where
  "bf_right lda A B = c_for 0 32 1 (\<lambda>j C.
     let temp0 = 0; temp1 = 0; temp2 = 0; temp3 = 0; temp4 = 0; temp5 = 0; temp6 = 0; temp7 = 0;
         temp8 = 0; temp9 = 0; temp10 = 0; temp11 = 0; temp12 = 0; temp13 = 0; temp14 = 0; temp15 = 0;
         (temp0, temp1, temp2, temp3, temp4, temp5, temp6, temp7,
          temp8, temp9, temp10, temp11, temp12, temp13, temp14, temp15) =
           c_for 0 32 1 (\<lambda>k (temp0, temp1, temp2, temp3, temp4, temp5, temp6, temp7,
               temp8, temp9, temp10, temp11, temp12, temp13, temp14, temp15).
              (temp0 + A (j * lda + k) * B (16 + k * lda), temp1 + A (j * lda + k) * B (17 + k * lda),
               temp2 + A (j * lda + k) * B (18 + k * lda), temp3 + A (j * lda + k) * B (19 + k * lda),
               temp4 + A (j * lda + k) * B (20 + k * lda), temp5 + A (j * lda + k) * B (21 + k * lda),
               temp6 + A (j * lda + k) * B (22 + k * lda), temp7 + A (j * lda + k) * B (23 + k * lda),
               temp8 + A (j * lda + k) * B (24 + k * lda), temp9 + A (j * lda + k) * B (25 + k * lda),
               temp10 + A (j * lda + k) * B (26 + k * lda), temp11 + A (j * lda + k) * B (27 + k * lda),
               temp12 + A (j * lda + k) * B (28 + k * lda), temp13 + A (j * lda + k) * B (29 + k * lda),
               temp14 + A (j * lda + k) * B (30 + k * lda), temp15 + A (j * lda + k) * B (31 + k * lda)))
             (temp0, temp1, temp2, temp3, temp4, temp5, temp6, temp7,
              temp8, temp9, temp10, temp11, temp12, temp13, temp14, temp15)
     in C(16 + j * lda := temp0, 17 + j * lda := temp1, 18 + j * lda := temp2, 19 + j * lda := temp3,
          20 + j * lda := temp4, 21 + j * lda := temp5, 22 + j * lda := temp6, 23 + j * lda := temp7,
          24 + j * lda := temp8, 25 + j * lda := temp9, 26 + j * lda := temp10, 27 + j * lda := temp11,
          28 + j * lda := temp12, 29 + j * lda := temp13, 30 + j * lda := temp14, 31 + j * lda := temp15))"

definition bf_matmul :: kernel where
  "bf_matmul coreid ncores lda A B C =
     (let C = (if coreid = 0 then bf_left lda A B C else C)
      in if coreid = 1 \<or> ncores = 1 then bf_right lda A B C else C)"

lemma bf_left_stores: "stores (bf_left 32 A B) (tile 0 32 0 16) (mat_prod A B)"
  unfolding bf_left_def
  by (rule stores_rows [where n = 32], simp, simp, simp only: tile_simps,
      rule stores_row16 [where i = 0], simp_all add: mat_prod_def del: One_nat_def add_Suc_right)
    ((simp_all add: ac_simps)?)

lemma bf_right_stores: "stores (bf_right 32 A B) (tile 0 32 16 32) (mat_prod A B)"
  unfolding bf_right_def
  by (rule stores_rows [where n = 32], simp, simp, simp only: tile_simps,
      rule stores_row16 [where i = 16], simp_all add: mat_prod_def del: One_nat_def add_Suc_right)
    ((simp_all add: ac_simps)?)

subsection \<open>bk\<close>

definition bk_low :: "c_array \<Rightarrow> c_array \<Rightarrow> c_array \<Rightarrow> c_array" where
  "bk_low A B = c_for 0 32 16 (\<lambda>kk. c_for 0 16 1 (\<lambda>j. c_for 0 32 8 (\<lambda>i C.
     let temp0 = C (i + j * 32); temp1 = C (i + j * 32 + 1); temp2 = C (i + j * 32 + 2); temp3 = C (i + j * 32 + 3);
         temp4 = C (i + j * 32 + 4); temp5 = C (i + j * 32 + 5); temp6 = C (i + j * 32 + 6); temp7 = C (i + j * 32 + 7);
         (temp0, temp1, temp2, temp3, temp4, temp5, temp6, temp7) =
           c_for kk (min (kk + 16) 32) 1 (\<lambda>k (temp0, temp1, temp2, temp3, temp4, temp5, temp6, temp7).
              let tempA = A (j * 32 + k)
              in (temp0 + tempA * B (k * 32 + i), temp1 + tempA * B (k * 32 + i + 1),
                  temp2 + tempA * B (k * 32 + i + 2), temp3 + tempA * B (k * 32 + i + 3),
                  temp4 + tempA * B (k * 32 + i + 4), temp5 + tempA * B (k * 32 + i + 5),
                  temp6 + tempA * B (k * 32 + i + 6), temp7 + tempA * B (k * 32 + i + 7)))
             (temp0, temp1, temp2, temp3, temp4, temp5, temp6, temp7)
     in C(i + j * 32 := temp0, i + j * 32 + 1 := temp1, i + j * 32 + 2 := temp2, i + j * 32 + 3 := temp3,
          i + j * 32 + 4 := temp4, i + j * 32 + 5 := temp5, i + j * 32 + 6 := temp6, i + j * 32 + 7 := temp7))))"

definition bk_high :: "c_array \<Rightarrow> c_array \<Rightarrow> c_array \<Rightarrow> c_array" where
  "bk_high A B = c_for 0 32 16 (\<lambda>kk. c_for 16 32 1 (\<lambda>j. c_for 0 32 8 (\<lambda>i C.
     let temp0 = C (i + j * 32); temp1 = C (i + j * 32 + 1); temp2 = C (i + j * 32 + 2); temp3 = C (i + j * 32 + 3);
         temp4 = C (i + j * 32 + 4); temp5 = C (i + j * 32 + 5); temp6 = C (i + j * 32 + 6); temp7 = C (i + j * 32 + 7);
         (temp0, temp1, temp2, temp3, temp4, temp5, temp6, temp7) =
           c_for kk (min (kk + 16) 32) 1 (\<lambda>k (temp0, temp1, temp2, temp3, temp4, temp5, temp6, temp7).
              let tempA = A (j * 32 + k)
              in (temp0 + tempA * B (k * 32 + i), temp1 + tempA * B (k * 32 + i + 1),
                  temp2 + tempA * B (k * 32 + i + 2), temp3 + tempA * B (k * 32 + i + 3),
                  temp4 + tempA * B (k * 32 + i + 4), temp5 + tempA * B (k * 32 + i + 5),
                  temp6 + tempA * B (k * 32 + i + 6), temp7 + tempA * B (k * 32 + i + 7)))
             (temp0, temp1, temp2, temp3, temp4, temp5, temp6, temp7)
     in C(i + j * 32 := temp0, i + j * 32 + 1 := temp1, i + j * 32 + 2 := temp2, i + j * 32 + 3 := temp3,
          i + j * 32 + 4 := temp4, i + j * 32 + 5 := temp5, i + j * 32 + 6 := temp6, i + j * 32 + 7 := temp7))))"

definition bk_matmul :: kernel where
  "bk_matmul coreid ncores lda A B C =
     (if coreid > 1 then C else
      let C = (if coreid = 0 then bk_low A B C else C)
      in if coreid = 1 \<or> ncores = 1 then bk_high A B C else C)"

lemma bk_low_adds: "adds (bk_low A B) (tile 0 16 0 32) (mat_prod A B)"
  unfolding bk_low_def mat_part_all [symmetric]
  by (rule adds_sum_loop [where n = 2], simp, simp, rule adds_rows [where n = 16], simp, simp,
      rule adds_cols [where n = 4], simp, simp, simp only: tile_simps, rule adds_row8,
      simp_all add: mat_part_def mat_term_def min_def del: One_nat_def add_Suc_right)
    (simp_all add: ac_simps)

lemma bk_high_adds: "adds (bk_high A B) (tile 16 32 0 32) (mat_prod A B)"
  unfolding bk_high_def mat_part_all [symmetric]
  by (rule adds_sum_loop [where n = 2], simp, simp, rule adds_rows [where n = 16], simp, simp,
      rule adds_cols [where n = 4], simp, simp, simp only: tile_simps, rule adds_row8,
      simp_all add: mat_part_def mat_term_def min_def del: One_nat_def add_Suc_right)
    (simp_all add: ac_simps)

subsection \<open>dv\<close>

definition dv_low :: "c_array \<Rightarrow> c_array \<Rightarrow> c_array \<Rightarrow> c_array" where
  "dv_low A B = c_for 0 32 16 (\<lambda>kk. c_for 0 16 1 (\<lambda>j. c_for 0 32 8 (\<lambda>i C.
     let temp0 = C (i + j * 32); temp1 = C (i + j * 32 + 1); temp2 = C (i + j * 32 + 2); temp3 = C (i + j * 32 + 3);
         temp4 = C (i + j * 32 + 4); temp5 = C (i + j * 32 + 5); temp6 = C (i + j * 32 + 6); temp7 = C (i + j * 32 + 7);
         (temp0, temp1, temp2, temp3, temp4, temp5, temp6, temp7) =
           c_for kk (min (kk + 16) 32) 1 (\<lambda>k (temp0, temp1, temp2, temp3, temp4, temp5, temp6, temp7).
              let tempA = A (j * 32 + k)
              in (temp0 + tempA * B (k * 32 + i), temp1 + tempA * B (k * 32 + i + 1),
                  temp2 + tempA * B (k * 32 + i + 2), temp3 + tempA * B (k * 32 + i + 3),
                  temp4 + tempA * B (k * 32 + i + 4), temp5 + tempA * B (k * 32 + i + 5),
                  temp6 + tempA * B (k * 32 + i + 6), temp7 + tempA * B (k * 32 + i + 7)))
             (temp0, temp1, temp2, temp3, temp4, temp5, temp6, temp7)
     in C(i + j * 32 := temp0, i + j * 32 + 1 := temp1, i + j * 32 + 2 := temp2, i + j * 32 + 3 := temp3,
          i + j * 32 + 4 := temp4, i + j * 32 + 5 := temp5, i + j * 32 + 6 := temp6, i + j * 32 + 7 := temp7))))"

definition dv_high :: "c_array \<Rightarrow> c_array \<Rightarrow> c_array \<Rightarrow> c_array" where
  "dv_high A B = c_for 0 32 16 (\<lambda>kk. c_for 16 32 1 (\<lambda>j. c_for 0 32 8 (\<lambda>i C.
     let temp0 = C (i + j * 32); temp1 = C (i + j * 32 + 1); temp2 = C (i + j * 32 + 2); temp3 = C (i + j * 32 + 3);
         temp4 = C (i + j * 32 + 4); temp5 = C (i + j * 32 + 5); temp6 = C (i + j * 32 + 6); temp7 = C (i + j * 32 + 7);
         (temp0, temp1, temp2, temp3, temp4, temp5, temp6, temp7) =
           c_for kk (min (kk + 16) 32) 1 (\<lambda>k (temp0, temp1, temp2, temp3, temp4, temp5, temp6, temp7).
              let tempA = A (j * 32 + k)
              in (temp0 + tempA * B (k * 32 + i), temp1 + tempA * B (k * 32 + i + 1),
                  temp2 + tempA * B (k * 32 + i + 2), temp3 + tempA * B (k * 32 + i + 3),
                  temp4 + tempA * B (k * 32 + i + 4), temp5 + tempA * B (k * 32 + i + 5),
                  temp6 + tempA * B (k * 32 + i + 6), temp7 + tempA * B (k * 32 + i + 7)))
             (temp0, temp1, temp2, temp3, temp4, temp5, temp6, temp7)
     in C(i + j * 32 := temp0, i + j * 32 + 1 := temp1, i + j * 32 + 2 := temp2, i + j * 32 + 3 := temp3,
          i + j * 32 + 4 := temp4, i + j * 32 + 5 := temp5, i + j * 32 + 6 := temp6, i + j * 32 + 7 := temp7))))"

definition dv_matmul :: kernel where
  "dv_matmul coreid ncores lda A B C =
     (if coreid > 1 then C else
      let C = (if coreid \<noteq> 0 \<or> ncores = 1 then dv_low A B C else C)
      in if coreid = 0 then dv_high A B C else C)"

lemma dv_low_adds: "adds (dv_low A B) (tile 0 16 0 32) (mat_prod A B)"
  unfolding dv_low_def mat_part_all [symmetric]
  by (rule adds_sum_loop [where n = 2], simp, simp, rule adds_rows [where n = 16], simp, simp,
      rule adds_cols [where n = 4], simp, simp, simp only: tile_simps, rule adds_row8,
      simp_all add: mat_part_def mat_term_def min_def del: One_nat_def add_Suc_right)
    (simp_all add: ac_simps)

lemma dv_high_adds: "adds (dv_high A B) (tile 16 32 0 32) (mat_prod A B)"
  unfolding dv_high_def mat_part_all [symmetric]
  by (rule adds_sum_loop [where n = 2], simp, simp, rule adds_rows [where n = 16], simp, simp,
      rule adds_cols [where n = 4], simp, simp, simp only: tile_simps, rule adds_row8,
      simp_all add: mat_part_def mat_term_def min_def del: One_nat_def add_Suc_right)
    (simp_all add: ac_simps)

subsection \<open>What the threads compute\<close>

text \<open>The rows of \<^verbatim>\<open>dv\<close> go to the threads in the opposite order.\<close>

definition half_rows_swapped :: "nat \<Rightarrow> nat \<Rightarrow> nat \<Rightarrow> bool" where
  "half_rows_swapped nc cid x \<longleftrightarrow> x div 32 < 32 \<and> (cid = 0 \<and> 16 \<le> x div 32 \<or> (cid = 1 \<or> nc = 1) \<and> x div 32 < 16)"

lemma half_rows_swapped_cover: "0 < nc \<Longrightarrow> x < 1024 \<Longrightarrow> \<exists>cid < nc. half_rows_swapped nc cid x"
proof -
  assume a: "0 < nc" "x < 1024"
  moreover have "x div 32 < 32" using a by linarith
  ultimately have "half_rows_swapped nc (if nc = 1 \<or> 16 \<le> x div 32 then 0 else 1) x"
    by (auto simp: half_rows_swapped_def)
  moreover have "(if nc = 1 \<or> 16 \<le> x div 32 then 0 else 1) < nc" using a by simp
  ultimately show "\<exists>cid < nc. half_rows_swapped nc cid x" by blast
qed

lemma half_rows_swapped_apart:
  "0 < nc \<Longrightarrow> cid < nc \<Longrightarrow> cid' < nc \<Longrightarrow> half_rows_swapped nc cid x \<Longrightarrow> half_rows_swapped nc cid' x \<Longrightarrow> cid = cid'"
  by (auto simp: half_rows_swapped_def)

interpretation half_rows_swapped: mt_share "\<lambda>nc. 0 < nc" half_rows_swapped
  by unfold_locales (fact half_rows_swapped_cover, fact half_rows_swapped_apart)

lemma df_adds:
  "0 < nc \<Longrightarrow> cid < nc \<Longrightarrow> adds (df_matmul cid nc 32 A B) (half_cols nc cid) (mat_prod A B)"
  unfolding df_matmul_def [abs_def] Let_def
  by (rule adds_cong [OF adds_then [OF adds_if [OF adds_then [OF df_q1_adds df_q2_adds]] adds_if [OF adds_then [OF df_q3_adds df_q4_adds]]]])
    (auto simp: tile_def half_cols_def)

interpretation df: mt_adding "\<lambda>nc. 0 < nc" half_cols df_matmul
  by unfold_locales (rule df_adds)

lemma cl_adds:
  "0 < nc \<Longrightarrow> cid < nc \<Longrightarrow> adds (cl_matmul cid nc 32 A B) (half_cols nc cid) (mat_prod A B)"
  unfolding cl_matmul_def [abs_def] Let_def
  by (rule adds_cong [OF adds_return [OF adds_then [OF adds_if [OF cl_left_adds] adds_if [OF adds_then [OF cl_q3_adds cl_q4_adds]]]]])
    (auto simp: tile_def half_cols_def)

interpretation cl: mt_adding "\<lambda>nc. 0 < nc" half_cols cl_matmul
  by unfold_locales (rule cl_adds)

lemma al_adds:
  "0 < nc \<Longrightarrow> cid < nc \<Longrightarrow> adds (al_matmul cid nc 32 A B) (half_cols nc cid) (mat_prod A B)"
  unfolding al_matmul_def [abs_def] Let_def
  by (rule adds_cong [OF adds_return [OF adds_then [OF adds_if [OF al_left_adds] adds_if [OF al_right_adds]]]])
    (auto simp: tile_def half_cols_def)

interpretation al: mt_adding "\<lambda>nc. 0 < nc" half_cols al_matmul
  by unfold_locales (rule al_adds)

lemma bf_stores:
  "0 < nc \<Longrightarrow> cid < nc \<Longrightarrow> stores (bf_matmul cid nc 32 A B) (half_cols nc cid) (mat_prod A B)"
  unfolding bf_matmul_def [abs_def] Let_def
  by (rule stores_cong [OF stores_then [OF stores_if [OF bf_left_stores] stores_if [OF bf_right_stores]]])
    (auto simp: tile_def half_cols_def)

interpretation bf: mt_storing "\<lambda>nc. 0 < nc" half_cols bf_matmul
  by unfold_locales (rule bf_stores)

lemma bk_adds:
  "0 < nc \<Longrightarrow> cid < nc \<Longrightarrow> adds (bk_matmul cid nc 32 A B) (half_rows nc cid) (mat_prod A B)"
  unfolding bk_matmul_def [abs_def] Let_def
  by (rule adds_cong [OF adds_return [OF adds_then [OF adds_if [OF bk_low_adds] adds_if [OF bk_high_adds]]]])
    (auto simp: tile_def half_rows_def)

interpretation bk: mt_adding "\<lambda>nc. 0 < nc" half_rows bk_matmul
  by unfold_locales (rule bk_adds)

lemma dv_adds:
  "0 < nc \<Longrightarrow> cid < nc \<Longrightarrow> adds (dv_matmul cid nc 32 A B) (half_rows_swapped nc cid) (mat_prod A B)"
  unfolding dv_matmul_def [abs_def] Let_def
  by (rule adds_cong [OF adds_return [OF adds_then [OF adds_if [OF dv_low_adds] adds_if [OF dv_high_adds]]]])
    (auto simp: tile_def half_rows_swapped_def)

interpretation dv: mt_adding "\<lambda>nc. 0 < nc" half_rows_swapped dv_matmul
  by unfold_locales (rule dv_adds)

text \<open>
  C36. The kernels \<^verbatim>\<open>df\<close>, \<^verbatim>\<open>al\<close>, \<^verbatim>\<open>cl\<close>, \<^verbatim>\<open>bf\<close>, \<^verbatim>\<open>bk\<close> and \<^verbatim>\<open>dv\<close>, which keep eight or sixteen entries in
  local variables, multiply two 32 by 32 matrices modulo \<open>2^32\<close>: for any number of threads, run
  in any order on a zeroed result array, every entry of \<^verbatim>\<open>C\<close> is the row-by-column product,
  although only the first two threads have work and one thread alone does both parts.
\<close>

theorem tile_kernels_multiply:
  assumes "0 < nc" "distinct cids" "set cids = {0..<nc}" "C x = 0" "x < 1024"
  shows "mt_run df_matmul cids nc A B C x = mat_prod A B x \<and> mt_run al_matmul cids nc A B C x = mat_prod A B x
    \<and> mt_run cl_matmul cids nc A B C x = mat_prod A B x \<and> mt_run bf_matmul cids nc A B C x = mat_prod A B x
    \<and> mt_run bk_matmul cids nc A B C x = mat_prod A B x \<and> mt_run dv_matmul cids nc A B C x = mat_prod A B x"
  using df.product [of nc cids C x A B, OF assms] al.product [of nc cids C x A B, OF assms] cl.product [of nc cids C x A B, OF assms] bf.product [of nc cids C x A B, OF assms]
    bk.product [of nc cids C x A B, OF assms] dv.product [of nc cids C x A B, OF assms] by simp

theorem tile_kernels_multiply_witness:
  "mt_run df_matmul [1, 0] 2 (\<lambda>_. 3) (\<lambda>_. 2) (\<lambda>_. 0) 40 = 192"
  using tile_kernels_multiply [of 2 "[1, 0]" "\<lambda>_. 0" 40 "\<lambda>_. 3" "\<lambda>_. 2"]
  by (simp add: mat_prod_def insert_commute upt_sets)

end
