(* ===== verification/Mt_Blocks.thy ===== *)
theory Mt_Blocks
  imports Mt_Prelude
begin

text \<open>
  The kernels of \<^verbatim>\<open>riscv-tests/mt\<close> that are unrolled over blocks: \<^verbatim>\<open>cv\<close> and \<^verbatim>\<open>av\<close> (eight by eight,
  added to \<^verbatim>\<open>C\<close> term by term or in sums of eight), \<^verbatim>\<open>bm\<close> and \<^verbatim>\<open>dm\<close> (four by four in local variables;
  \<^verbatim>\<open>dm\<close> gives its last thread a copy of \<^verbatim>\<open>B\<close>, which the threads make together before a barrier).
  The elements of a local array that is only indexed by literals are variables of their own.
\<close>

subsection \<open>cv\<close>

text \<open>One of the eight groups of statements of the body, for row \<open>g\<close> of the block of \<^verbatim>\<open>B\<close>.\<close>

definition cv_group :: "nat \<Rightarrow> nat \<Rightarrow> c_int \<Rightarrow> c_array \<Rightarrow> nat \<Rightarrow> nat \<Rightarrow> nat \<Rightarrow> c_array \<Rightarrow> c_array" where
  "cv_group lda g TempA B j m n C =
     (let TempB0 = B ((g + 8 * m) * lda + 0 + 8 * n); TempB1 = B ((g + 8 * m) * lda + 1 + 8 * n);
          TempB2 = B ((g + 8 * m) * lda + 2 + 8 * n); TempB3 = B ((g + 8 * m) * lda + 3 + 8 * n);
          TempB4 = B ((g + 8 * m) * lda + 4 + 8 * n); TempB5 = B ((g + 8 * m) * lda + 5 + 8 * n);
          TempB6 = B ((g + 8 * m) * lda + 6 + 8 * n); TempB7 = B ((g + 8 * m) * lda + 7 + 8 * n);
          C = c_add C (0 + 8 * n + j * lda) (TempA * TempB0);
          C = c_add C (1 + 8 * n + j * lda) (TempA * TempB1);
          C = c_add C (2 + 8 * n + j * lda) (TempA * TempB2);
          C = c_add C (3 + 8 * n + j * lda) (TempA * TempB3);
          C = c_add C (4 + 8 * n + j * lda) (TempA * TempB4);
          C = c_add C (5 + 8 * n + j * lda) (TempA * TempB5);
          C = c_add C (6 + 8 * n + j * lda) (TempA * TempB6);
          C = c_add C (7 + 8 * n + j * lda) (TempA * TempB7)
      in C)"

definition cv_block :: "nat \<Rightarrow> c_array \<Rightarrow> c_array \<Rightarrow> nat \<Rightarrow> nat \<Rightarrow> c_array \<Rightarrow> c_array" where
  "cv_block lda A B j m =
     (let TempA0 = A (j * lda + 0 + 8 * m); TempA1 = A (j * lda + 1 + 8 * m);
          TempA2 = A (j * lda + 2 + 8 * m); TempA3 = A (j * lda + 3 + 8 * m);
          TempA4 = A (j * lda + 4 + 8 * m); TempA5 = A (j * lda + 5 + 8 * m);
          TempA6 = A (j * lda + 6 + 8 * m); TempA7 = A (j * lda + 7 + 8 * m)
      in c_for 0 4 1 (\<lambda>n C.
        let C = cv_group lda 0 TempA0 B j m n C; C = cv_group lda 1 TempA1 B j m n C;
            C = cv_group lda 2 TempA2 B j m n C; C = cv_group lda 3 TempA3 B j m n C;
            C = cv_group lda 4 TempA4 B j m n C; C = cv_group lda 5 TempA5 B j m n C;
            C = cv_group lda 6 TempA6 B j m n C; C = cv_group lda 7 TempA7 B j m n C
        in C))"

definition cv_core1 :: "nat \<Rightarrow> c_array \<Rightarrow> c_array \<Rightarrow> c_array \<Rightarrow> c_array" where
  "cv_core1 lda A B = c_for 16 32 1 (\<lambda>j. c_for 0 4 1 (\<lambda>m. cv_block lda A B j m))"

definition cv_core0 :: "nat \<Rightarrow> c_array \<Rightarrow> c_array \<Rightarrow> c_array \<Rightarrow> c_array" where
  "cv_core0 lda A B = c_for 0 16 1 (\<lambda>j. c_for 0 4 1 (\<lambda>m. cv_block lda A B j m))"

definition cv_matmul :: kernel where
  "cv_matmul coreid ncores lda A B C =
     (let C = (if coreid = 1 \<or> ncores = 1 then cv_core1 lda A B C else C)
      in if coreid = 0 then cv_core0 lda A B C else C)"

lemma cv_group_adds:
  assumes "g < 8" "m < 4" "n < 4" "TempA = A (j * 32 + g + 8 * m)"
  shows "adds (cv_group 32 g TempA B j m n) (tile j (j + 1) (8 * n) (8 * (n + 1))) (mat_part A B (8 * m + g) (8 * m + g + 1))"
  unfolding cv_group_def Let_def mat_part_1
  by (rule addc_1_8 [where i = "8 * n"], use assms in \<open>simp_all add: mat_term_def del: One_nat_def add_Suc_right\<close>)
    (simp_all add: ac_simps)

lemma cv_block_adds:
  assumes "m < 4"
  shows "adds (cv_block 32 A B j m) (tile j (j + 1) 0 32) (mat_part A B (8 * m) (8 * (m + 1)))"
proof -
  have body: "adds (\<lambda>C. let C = cv_group 32 0 (A (j * 32 + 0 + 8 * m)) B j m n C;
            C = cv_group 32 1 (A (j * 32 + 1 + 8 * m)) B j m n C;
            C = cv_group 32 2 (A (j * 32 + 2 + 8 * m)) B j m n C;
            C = cv_group 32 3 (A (j * 32 + 3 + 8 * m)) B j m n C;
            C = cv_group 32 4 (A (j * 32 + 4 + 8 * m)) B j m n C;
            C = cv_group 32 5 (A (j * 32 + 5 + 8 * m)) B j m n C;
            C = cv_group 32 6 (A (j * 32 + 6 + 8 * m)) B j m n C;
            C = cv_group 32 7 (A (j * 32 + 7 + 8 * m)) B j m n C in C)
    (tile j (j + 1) (8 * n) (8 * (n + 1))) (mat_part A B (8 * m) (8 * m + 8))" if "n < 4" for n
    unfolding Let_def
    by (rule adds_parts_8 [where K = "\<lambda>r. cv_group 32 r (A (j * 32 + r + 8 * m)) B j m n"])
      (rule cv_group_adds [OF _ assms that refl], assumption)
  show ?thesis
    unfolding cv_block_def Let_def
    using adds_col_blocks [where w = 8 and N = 4, OF body] by (simp add: Let_def algebra_simps)
qed

lemma cv_core1_adds: "adds (cv_core1 32 A B) (tile 16 32 0 32) (mat_prod A B)"
  unfolding cv_core1_def mat_part_all [symmetric]
  by (rule adds_rows [where n = 16], simp, simp)
    (use adds_part_blocks [where w = 8 and M = 4, OF cv_block_adds] in simp)

lemma cv_core0_adds: "adds (cv_core0 32 A B) (tile 0 16 0 32) (mat_prod A B)"
  unfolding cv_core0_def mat_part_all [symmetric]
  by (rule adds_rows [where n = 16], simp, simp)
    (use adds_part_blocks [where w = 8 and M = 4, OF cv_block_adds] in simp)

subsection \<open>av\<close>

definition av_block :: "nat \<Rightarrow> c_array \<Rightarrow> c_array \<Rightarrow> nat \<Rightarrow> nat \<Rightarrow> c_array \<Rightarrow> c_array" where
  "av_block lda A B j m =
     (let TempA0 = A (j * lda + 0 + 8 * m); TempA1 = A (j * lda + 1 + 8 * m);
          TempA2 = A (j * lda + 2 + 8 * m); TempA3 = A (j * lda + 3 + 8 * m);
          TempA4 = A (j * lda + 4 + 8 * m); TempA5 = A (j * lda + 5 + 8 * m);
          TempA6 = A (j * lda + 6 + 8 * m); TempA7 = A (j * lda + 7 + 8 * m)
      in c_for 0 4 1 (\<lambda>n C.
        let TempC0 = TempA0 * B ((0 + 8 * m) * lda + 0 + 8 * n); TempC1 = TempA0 * B ((0 + 8 * m) * lda + 1 + 8 * n);
            TempC2 = TempA0 * B ((0 + 8 * m) * lda + 2 + 8 * n); TempC3 = TempA0 * B ((0 + 8 * m) * lda + 3 + 8 * n);
            TempC4 = TempA0 * B ((0 + 8 * m) * lda + 4 + 8 * n); TempC5 = TempA0 * B ((0 + 8 * m) * lda + 5 + 8 * n);
            TempC6 = TempA0 * B ((0 + 8 * m) * lda + 6 + 8 * n); TempC7 = TempA0 * B ((0 + 8 * m) * lda + 7 + 8 * n);
            TempC0 = TempC0 + TempA1 * B ((1 + 8 * m) * lda + 0 + 8 * n); TempC1 = TempC1 + TempA1 * B ((1 + 8 * m) * lda + 1 + 8 * n);
            TempC2 = TempC2 + TempA1 * B ((1 + 8 * m) * lda + 2 + 8 * n); TempC3 = TempC3 + TempA1 * B ((1 + 8 * m) * lda + 3 + 8 * n);
            TempC4 = TempC4 + TempA1 * B ((1 + 8 * m) * lda + 4 + 8 * n); TempC5 = TempC5 + TempA1 * B ((1 + 8 * m) * lda + 5 + 8 * n);
            TempC6 = TempC6 + TempA1 * B ((1 + 8 * m) * lda + 6 + 8 * n); TempC7 = TempC7 + TempA1 * B ((1 + 8 * m) * lda + 7 + 8 * n);
            TempC0 = TempC0 + TempA2 * B ((2 + 8 * m) * lda + 0 + 8 * n); TempC1 = TempC1 + TempA2 * B ((2 + 8 * m) * lda + 1 + 8 * n);
            TempC2 = TempC2 + TempA2 * B ((2 + 8 * m) * lda + 2 + 8 * n); TempC3 = TempC3 + TempA2 * B ((2 + 8 * m) * lda + 3 + 8 * n);
            TempC4 = TempC4 + TempA2 * B ((2 + 8 * m) * lda + 4 + 8 * n); TempC5 = TempC5 + TempA2 * B ((2 + 8 * m) * lda + 5 + 8 * n);
            TempC6 = TempC6 + TempA2 * B ((2 + 8 * m) * lda + 6 + 8 * n); TempC7 = TempC7 + TempA2 * B ((2 + 8 * m) * lda + 7 + 8 * n);
            TempC0 = TempC0 + TempA3 * B ((3 + 8 * m) * lda + 0 + 8 * n); TempC1 = TempC1 + TempA3 * B ((3 + 8 * m) * lda + 1 + 8 * n);
            TempC2 = TempC2 + TempA3 * B ((3 + 8 * m) * lda + 2 + 8 * n); TempC3 = TempC3 + TempA3 * B ((3 + 8 * m) * lda + 3 + 8 * n);
            TempC4 = TempC4 + TempA3 * B ((3 + 8 * m) * lda + 4 + 8 * n); TempC5 = TempC5 + TempA3 * B ((3 + 8 * m) * lda + 5 + 8 * n);
            TempC6 = TempC6 + TempA3 * B ((3 + 8 * m) * lda + 6 + 8 * n); TempC7 = TempC7 + TempA3 * B ((3 + 8 * m) * lda + 7 + 8 * n);
            TempC0 = TempC0 + TempA4 * B ((4 + 8 * m) * lda + 0 + 8 * n); TempC1 = TempC1 + TempA4 * B ((4 + 8 * m) * lda + 1 + 8 * n);
            TempC2 = TempC2 + TempA4 * B ((4 + 8 * m) * lda + 2 + 8 * n); TempC3 = TempC3 + TempA4 * B ((4 + 8 * m) * lda + 3 + 8 * n);
            TempC4 = TempC4 + TempA4 * B ((4 + 8 * m) * lda + 4 + 8 * n); TempC5 = TempC5 + TempA4 * B ((4 + 8 * m) * lda + 5 + 8 * n);
            TempC6 = TempC6 + TempA4 * B ((4 + 8 * m) * lda + 6 + 8 * n); TempC7 = TempC7 + TempA4 * B ((4 + 8 * m) * lda + 7 + 8 * n);
            TempC0 = TempC0 + TempA5 * B ((5 + 8 * m) * lda + 0 + 8 * n); TempC1 = TempC1 + TempA5 * B ((5 + 8 * m) * lda + 1 + 8 * n);
            TempC2 = TempC2 + TempA5 * B ((5 + 8 * m) * lda + 2 + 8 * n); TempC3 = TempC3 + TempA5 * B ((5 + 8 * m) * lda + 3 + 8 * n);
            TempC4 = TempC4 + TempA5 * B ((5 + 8 * m) * lda + 4 + 8 * n); TempC5 = TempC5 + TempA5 * B ((5 + 8 * m) * lda + 5 + 8 * n);
            TempC6 = TempC6 + TempA5 * B ((5 + 8 * m) * lda + 6 + 8 * n); TempC7 = TempC7 + TempA5 * B ((5 + 8 * m) * lda + 7 + 8 * n);
            TempC0 = TempC0 + TempA6 * B ((6 + 8 * m) * lda + 0 + 8 * n); TempC1 = TempC1 + TempA6 * B ((6 + 8 * m) * lda + 1 + 8 * n);
            TempC2 = TempC2 + TempA6 * B ((6 + 8 * m) * lda + 2 + 8 * n); TempC3 = TempC3 + TempA6 * B ((6 + 8 * m) * lda + 3 + 8 * n);
            TempC4 = TempC4 + TempA6 * B ((6 + 8 * m) * lda + 4 + 8 * n); TempC5 = TempC5 + TempA6 * B ((6 + 8 * m) * lda + 5 + 8 * n);
            TempC6 = TempC6 + TempA6 * B ((6 + 8 * m) * lda + 6 + 8 * n); TempC7 = TempC7 + TempA6 * B ((6 + 8 * m) * lda + 7 + 8 * n);
            TempC0 = TempC0 + TempA7 * B ((7 + 8 * m) * lda + 0 + 8 * n); TempC1 = TempC1 + TempA7 * B ((7 + 8 * m) * lda + 1 + 8 * n);
            TempC2 = TempC2 + TempA7 * B ((7 + 8 * m) * lda + 2 + 8 * n); TempC3 = TempC3 + TempA7 * B ((7 + 8 * m) * lda + 3 + 8 * n);
            TempC4 = TempC4 + TempA7 * B ((7 + 8 * m) * lda + 4 + 8 * n); TempC5 = TempC5 + TempA7 * B ((7 + 8 * m) * lda + 5 + 8 * n);
            TempC6 = TempC6 + TempA7 * B ((7 + 8 * m) * lda + 6 + 8 * n); TempC7 = TempC7 + TempA7 * B ((7 + 8 * m) * lda + 7 + 8 * n);
            C = c_add C (0 + 8 * n + j * lda) TempC0; C = c_add C (1 + 8 * n + j * lda) TempC1;
            C = c_add C (2 + 8 * n + j * lda) TempC2; C = c_add C (3 + 8 * n + j * lda) TempC3;
            C = c_add C (4 + 8 * n + j * lda) TempC4; C = c_add C (5 + 8 * n + j * lda) TempC5;
            C = c_add C (6 + 8 * n + j * lda) TempC6; C = c_add C (7 + 8 * n + j * lda) TempC7
        in C))"

definition av_core1 :: "nat \<Rightarrow> c_array \<Rightarrow> c_array \<Rightarrow> c_array \<Rightarrow> c_array" where
  "av_core1 lda A B = c_for 16 32 1 (\<lambda>j. c_for 0 4 1 (\<lambda>m. av_block lda A B j m))"

definition av_core0 :: "nat \<Rightarrow> c_array \<Rightarrow> c_array \<Rightarrow> c_array \<Rightarrow> c_array" where
  "av_core0 lda A B = c_for 0 16 1 (\<lambda>j. c_for 0 4 1 (\<lambda>m. av_block lda A B j m))"

definition av_matmul :: kernel where
  "av_matmul coreid ncores lda A B C =
     (let C = (if coreid = 1 \<or> ncores = 1 then av_core1 lda A B C else C)
      in if coreid = 0 then av_core0 lda A B C else C)"

lemma av_block_adds:
  assumes "m < 4"
  shows "adds (av_block 32 A B j m) (tile j (j + 1) 0 32) (mat_part A B (8 * m) (8 * (m + 1)))"
proof -
  have "adds (av_block 32 A B j m) (tile j (j + 1) 0 (8 * 4)) (mat_part A B (8 * m) (8 * m + 8))"
    unfolding av_block_def Let_def
    by (rule adds_col_blocks, rule addc_1_8, simp_all add: mat_part_8 mat_term_def del: One_nat_def add_Suc_right)
      (simp_all add: ac_simps)
  then show ?thesis by (simp add: algebra_simps)
qed

lemma av_core1_adds: "adds (av_core1 32 A B) (tile 16 32 0 32) (mat_prod A B)"
  unfolding av_core1_def mat_part_all [symmetric]
  by (rule adds_rows [where n = 16], simp, simp)
    (use adds_part_blocks [where w = 8 and M = 4, OF av_block_adds] in simp)

lemma av_core0_adds: "adds (av_core0 32 A B) (tile 0 16 0 32) (mat_prod A B)"
  unfolding av_core0_def mat_part_all [symmetric]
  by (rule adds_rows [where n = 16], simp, simp)
    (use adds_part_blocks [where w = 8 and M = 4, OF av_block_adds] in simp)

subsection \<open>bm\<close>

text \<open>Four rows from \<open>i\<close>; the two branches of the source have the same body.\<close>

definition bm_main :: "nat \<Rightarrow> c_array \<Rightarrow> c_array \<Rightarrow> nat \<Rightarrow> c_array \<Rightarrow> c_array" where
  "bm_main lda A B i = c_for 0 lda 4 (\<lambda>j C.
     let temp1 = C (j + i * lda); temp2 = C (j + 1 + i * lda);
         temp3 = C (j + 2 + i * lda); temp4 = C (j + 3 + i * lda);
         temp1_1 = C (j + (i + 1) * lda); temp2_1 = C (j + 1 + (i + 1) * lda);
         temp3_1 = C (j + 2 + (i + 1) * lda); temp4_1 = C (j + 3 + (i + 1) * lda);
         temp1_2 = C (j + (i + 2) * lda); temp2_2 = C (j + 1 + (i + 2) * lda);
         temp3_2 = C (j + 2 + (i + 2) * lda); temp4_2 = C (j + 3 + (i + 2) * lda);
         temp1_3 = C (j + (i + 3) * lda); temp2_3 = C (j + 1 + (i + 3) * lda);
         temp3_3 = C (j + 2 + (i + 3) * lda); temp4_3 = C (j + 3 + (i + 3) * lda);
         (temp1, temp2, temp3, temp4,
          temp1_1, temp2_1, temp3_1, temp4_1,
          temp1_2, temp2_2, temp3_2, temp4_2,
          temp1_3, temp2_3, temp3_3, temp4_3) =
           c_for 0 lda 1 (\<lambda>k (temp1, temp2, temp3, temp4,
               temp1_1, temp2_1, temp3_1, temp4_1,
               temp1_2, temp2_2, temp3_2, temp4_2,
               temp1_3, temp2_3, temp3_3, temp4_3).
              let temp = A (k + i * lda); temp_1 = A (k + (i + 1) * lda);
                  temp_2 = A (k + (i + 2) * lda); temp_3 = A (k + (i + 3) * lda)
              in (temp1 + temp * B (j + k * lda), temp2 + temp * B (j + 1 + k * lda),
                  temp3 + temp * B (j + 2 + k * lda), temp4 + temp * B (j + 3 + k * lda),
                  temp1_1 + temp_1 * B (j + k * lda), temp2_1 + temp_1 * B (j + 1 + k * lda),
                  temp3_1 + temp_1 * B (j + 2 + k * lda), temp4_1 + temp_1 * B (j + 3 + k * lda),
                  temp1_2 + temp_2 * B (j + k * lda), temp2_2 + temp_2 * B (j + 1 + k * lda),
                  temp3_2 + temp_2 * B (j + 2 + k * lda), temp4_2 + temp_2 * B (j + 3 + k * lda),
                  temp1_3 + temp_3 * B (j + k * lda), temp2_3 + temp_3 * B (j + 1 + k * lda),
                  temp3_3 + temp_3 * B (j + 2 + k * lda), temp4_3 + temp_3 * B (j + 3 + k * lda)))
             (temp1, temp2, temp3, temp4,
              temp1_1, temp2_1, temp3_1, temp4_1,
              temp1_2, temp2_2, temp3_2, temp4_2,
              temp1_3, temp2_3, temp3_3, temp4_3)
     in C(j + i * lda := temp1, j + 1 + i * lda := temp2,
          j + 2 + i * lda := temp3, j + 3 + i * lda := temp4,
          j + (i + 1) * lda := temp1_1, j + 1 + (i + 1) * lda := temp2_1,
          j + 2 + (i + 1) * lda := temp3_1, j + 3 + (i + 1) * lda := temp4_1,
          j + (i + 2) * lda := temp1_2, j + 1 + (i + 2) * lda := temp2_2,
          j + 2 + (i + 2) * lda := temp3_2, j + 3 + (i + 2) * lda := temp4_2,
          j + (i + 3) * lda := temp1_3, j + 1 + (i + 3) * lda := temp2_3,
          j + 2 + (i + 3) * lda := temp3_3, j + 3 + (i + 3) * lda := temp4_3))"

definition bm_last :: "nat \<Rightarrow> c_array \<Rightarrow> c_array \<Rightarrow> nat \<Rightarrow> c_array \<Rightarrow> c_array" where
  "bm_last lda A B i = c_for 0 lda 4 (\<lambda>j C.
     let temp1 = C (j + i * lda); temp2 = C (j + 1 + i * lda);
         temp3 = C (j + 2 + i * lda); temp4 = C (j + 3 + i * lda);
         temp1_1 = C (j + (i + 1) * lda); temp2_1 = C (j + 1 + (i + 1) * lda);
         temp3_1 = C (j + 2 + (i + 1) * lda); temp4_1 = C (j + 3 + (i + 1) * lda);
         temp1_2 = C (j + (i + 2) * lda); temp2_2 = C (j + 1 + (i + 2) * lda);
         temp3_2 = C (j + 2 + (i + 2) * lda); temp4_2 = C (j + 3 + (i + 2) * lda);
         temp1_3 = C (j + (i + 3) * lda); temp2_3 = C (j + 1 + (i + 3) * lda);
         temp3_3 = C (j + 2 + (i + 3) * lda); temp4_3 = C (j + 3 + (i + 3) * lda);
         (temp1, temp2, temp3, temp4,
          temp1_1, temp2_1, temp3_1, temp4_1,
          temp1_2, temp2_2, temp3_2, temp4_2,
          temp1_3, temp2_3, temp3_3, temp4_3) =
           c_for 0 lda 1 (\<lambda>k (temp1, temp2, temp3, temp4,
               temp1_1, temp2_1, temp3_1, temp4_1,
               temp1_2, temp2_2, temp3_2, temp4_2,
               temp1_3, temp2_3, temp3_3, temp4_3).
              let temp = A (k + i * lda); temp_1 = A (k + (i + 1) * lda);
                  temp_2 = A (k + (i + 2) * lda); temp_3 = A (k + (i + 3) * lda)
              in (temp1 + temp * B (j + k * lda), temp2 + temp * B (j + 1 + k * lda),
                  temp3 + temp * B (j + 2 + k * lda), temp4 + temp * B (j + 3 + k * lda),
                  temp1_1 + temp_1 * B (j + k * lda), temp2_1 + temp_1 * B (j + 1 + k * lda),
                  temp3_1 + temp_1 * B (j + 2 + k * lda), temp4_1 + temp_1 * B (j + 3 + k * lda),
                  temp1_2 + temp_2 * B (j + k * lda), temp2_2 + temp_2 * B (j + 1 + k * lda),
                  temp3_2 + temp_2 * B (j + 2 + k * lda), temp4_2 + temp_2 * B (j + 3 + k * lda),
                  temp1_3 + temp_3 * B (j + k * lda), temp2_3 + temp_3 * B (j + 1 + k * lda),
                  temp3_3 + temp_3 * B (j + 2 + k * lda), temp4_3 + temp_3 * B (j + 3 + k * lda)))
             (temp1, temp2, temp3, temp4,
              temp1_1, temp2_1, temp3_1, temp4_1,
              temp1_2, temp2_2, temp3_2, temp4_2,
              temp1_3, temp2_3, temp3_3, temp4_3)
     in C(j + i * lda := temp1, j + 1 + i * lda := temp2,
          j + 2 + i * lda := temp3, j + 3 + i * lda := temp4,
          j + (i + 1) * lda := temp1_1, j + 1 + (i + 1) * lda := temp2_1,
          j + 2 + (i + 1) * lda := temp3_1, j + 3 + (i + 1) * lda := temp4_1,
          j + (i + 2) * lda := temp1_2, j + 1 + (i + 2) * lda := temp2_2,
          j + 2 + (i + 2) * lda := temp3_2, j + 3 + (i + 2) * lda := temp4_2,
          j + (i + 3) * lda := temp1_3, j + 1 + (i + 3) * lda := temp2_3,
          j + 2 + (i + 3) * lda := temp3_3, j + 3 + (i + 3) * lda := temp4_3))"

definition bm_matmul :: kernel where
  "bm_matmul coreid ncores lda A B C =
     (let space = lda div ncores;
          max = space * coreid + space
      in if int coreid \<noteq> int ncores - 1
         then c_for (space * coreid) (max div 4 * 4) 4 (bm_main lda A B) C
         else c_for (space * coreid) (lda div 4 * 4) 4 (bm_last lda A B) C)"

subsection \<open>dm\<close>

text \<open>Before the barrier: the static copy of \<^verbatim>\<open>B\<close>.\<close>

definition dm_copy :: "nat \<Rightarrow> nat \<Rightarrow> nat \<Rightarrow> c_array \<Rightarrow> c_array \<Rightarrow> c_array" where
  "dm_copy coreid ncores lda B B1 =
     (if int coreid = int ncores - 1
      then c_for 0 (lda * lda div ncores) 1 (\<lambda>i B1. B1(i := B i)) B1
      else c_for (lda * lda div ncores) (lda * lda) 1 (\<lambda>i B1. B1(i := B i)) B1)"

text \<open>After it: the last thread reads the copy, the others \<^verbatim>\<open>B\<close> itself.\<close>

definition dm_main :: "nat \<Rightarrow> c_array \<Rightarrow> c_array \<Rightarrow> nat \<Rightarrow> c_array \<Rightarrow> c_array" where
  "dm_main lda A B i = c_for 0 (lda div 4 * 4) 4 (\<lambda>j C.
     let temp = C (j + i * lda); temp1 = C (j + (i + 1) * lda);
         temp2 = C (j + (i + 2) * lda); temp3 = C (j + (i + 3) * lda);
         temp_1 = C (j + 1 + i * lda); temp1_1 = C (j + 1 + (i + 1) * lda);
         temp2_1 = C (j + 1 + (i + 2) * lda); temp3_1 = C (j + 1 + (i + 3) * lda);
         temp_2 = C (j + 2 + i * lda); temp1_2 = C (j + 2 + (i + 1) * lda);
         temp2_2 = C (j + 2 + (i + 2) * lda); temp3_2 = C (j + 2 + (i + 3) * lda);
         temp_3 = C (j + 3 + i * lda); temp1_3 = C (j + 3 + (i + 1) * lda);
         temp2_3 = C (j + 3 + (i + 2) * lda); temp3_3 = C (j + 3 + (i + 3) * lda);
         (temp, temp1, temp2, temp3,
          temp_1, temp1_1, temp2_1, temp3_1,
          temp_2, temp1_2, temp2_2, temp3_2,
          temp_3, temp1_3, temp2_3, temp3_3) =
           c_for 0 lda 1 (\<lambda>k (temp, temp1, temp2, temp3,
               temp_1, temp1_1, temp2_1, temp3_1,
               temp_2, temp1_2, temp2_2, temp3_2,
               temp_3, temp1_3, temp2_3, temp3_3).
              let tempB = B (j + k * lda); tempB_1 = B (j + 1 + k * lda);
                  tempB_2 = B (j + 2 + k * lda); tempB_3 = B (j + 3 + k * lda)
              in (temp + A (k + i * lda) * tempB, temp1 + A (k + (i + 1) * lda) * tempB,
                  temp2 + A (k + (i + 2) * lda) * tempB, temp3 + A (k + (i + 3) * lda) * tempB,
                  temp_1 + A (k + i * lda) * tempB_1, temp1_1 + A (k + (i + 1) * lda) * tempB_1,
                  temp2_1 + A (k + (i + 2) * lda) * tempB_1, temp3_1 + A (k + (i + 3) * lda) * tempB_1,
                  temp_2 + A (k + i * lda) * tempB_2, temp1_2 + A (k + (i + 1) * lda) * tempB_2,
                  temp2_2 + A (k + (i + 2) * lda) * tempB_2, temp3_2 + A (k + (i + 3) * lda) * tempB_2,
                  temp_3 + A (k + i * lda) * tempB_3, temp1_3 + A (k + (i + 1) * lda) * tempB_3,
                  temp2_3 + A (k + (i + 2) * lda) * tempB_3, temp3_3 + A (k + (i + 3) * lda) * tempB_3))
             (temp, temp1, temp2, temp3,
              temp_1, temp1_1, temp2_1, temp3_1,
              temp_2, temp1_2, temp2_2, temp3_2,
              temp_3, temp1_3, temp2_3, temp3_3)
     in C(j + i * lda := temp, j + (i + 1) * lda := temp1,
          j + (i + 2) * lda := temp2, j + (i + 3) * lda := temp3,
          j + 1 + i * lda := temp_1, j + 1 + (i + 1) * lda := temp1_1,
          j + 1 + (i + 2) * lda := temp2_1, j + 1 + (i + 3) * lda := temp3_1,
          j + 2 + i * lda := temp_2, j + 2 + (i + 1) * lda := temp1_2,
          j + 2 + (i + 2) * lda := temp2_2, j + 2 + (i + 3) * lda := temp3_2,
          j + 3 + i * lda := temp_3, j + 3 + (i + 1) * lda := temp1_3,
          j + 3 + (i + 2) * lda := temp2_3, j + 3 + (i + 3) * lda := temp3_3))"

definition dm_last :: "nat \<Rightarrow> c_array \<Rightarrow> c_array \<Rightarrow> nat \<Rightarrow> c_array \<Rightarrow> c_array" where
  "dm_last lda A B1 i = c_for 0 (lda div 4 * 4) 4 (\<lambda>j C.
     let temp = C (j + i * lda); temp1 = C (j + (i + 1) * lda);
         temp2 = C (j + (i + 2) * lda); temp3 = C (j + (i + 3) * lda);
         temp_1 = C (j + 1 + i * lda); temp1_1 = C (j + 1 + (i + 1) * lda);
         temp2_1 = C (j + 1 + (i + 2) * lda); temp3_1 = C (j + 1 + (i + 3) * lda);
         temp_2 = C (j + 2 + i * lda); temp1_2 = C (j + 2 + (i + 1) * lda);
         temp2_2 = C (j + 2 + (i + 2) * lda); temp3_2 = C (j + 2 + (i + 3) * lda);
         temp_3 = C (j + 3 + i * lda); temp1_3 = C (j + 3 + (i + 1) * lda);
         temp2_3 = C (j + 3 + (i + 2) * lda); temp3_3 = C (j + 3 + (i + 3) * lda);
         (temp, temp1, temp2, temp3,
          temp_1, temp1_1, temp2_1, temp3_1,
          temp_2, temp1_2, temp2_2, temp3_2,
          temp_3, temp1_3, temp2_3, temp3_3) =
           c_for 0 lda 1 (\<lambda>k (temp, temp1, temp2, temp3,
               temp_1, temp1_1, temp2_1, temp3_1,
               temp_2, temp1_2, temp2_2, temp3_2,
               temp_3, temp1_3, temp2_3, temp3_3).
              let tempB = B1 (j + k * lda); tempB_1 = B1 (j + 1 + k * lda);
                  tempB_2 = B1 (j + 2 + k * lda); tempB_3 = B1 (j + 3 + k * lda)
              in (temp + A (k + i * lda) * tempB, temp1 + A (k + (i + 1) * lda) * tempB,
                  temp2 + A (k + (i + 2) * lda) * tempB, temp3 + A (k + (i + 3) * lda) * tempB,
                  temp_1 + A (k + i * lda) * tempB_1, temp1_1 + A (k + (i + 1) * lda) * tempB_1,
                  temp2_1 + A (k + (i + 2) * lda) * tempB_1, temp3_1 + A (k + (i + 3) * lda) * tempB_1,
                  temp_2 + A (k + i * lda) * tempB_2, temp1_2 + A (k + (i + 1) * lda) * tempB_2,
                  temp2_2 + A (k + (i + 2) * lda) * tempB_2, temp3_2 + A (k + (i + 3) * lda) * tempB_2,
                  temp_3 + A (k + i * lda) * tempB_3, temp1_3 + A (k + (i + 1) * lda) * tempB_3,
                  temp2_3 + A (k + (i + 2) * lda) * tempB_3, temp3_3 + A (k + (i + 3) * lda) * tempB_3))
             (temp, temp1, temp2, temp3,
              temp_1, temp1_1, temp2_1, temp3_1,
              temp_2, temp1_2, temp2_2, temp3_2,
              temp_3, temp1_3, temp2_3, temp3_3)
     in C(j + i * lda := temp, j + (i + 1) * lda := temp1,
          j + (i + 2) * lda := temp2, j + (i + 3) * lda := temp3,
          j + 1 + i * lda := temp_1, j + 1 + (i + 1) * lda := temp1_1,
          j + 1 + (i + 2) * lda := temp2_1, j + 1 + (i + 3) * lda := temp3_1,
          j + 2 + i * lda := temp_2, j + 2 + (i + 1) * lda := temp1_2,
          j + 2 + (i + 2) * lda := temp2_2, j + 2 + (i + 3) * lda := temp3_2,
          j + 3 + i * lda := temp_3, j + 3 + (i + 1) * lda := temp1_3,
          j + 3 + (i + 2) * lda := temp2_3, j + 3 + (i + 3) * lda := temp3_3))"

definition dm_compute :: "nat \<Rightarrow> nat \<Rightarrow> nat \<Rightarrow> c_array \<Rightarrow> c_array \<Rightarrow> c_array \<Rightarrow> c_array \<Rightarrow> c_array" where
  "dm_compute coreid ncores lda A B B1 C =
     (let space = lda div ncores;
          max = space * coreid + space
      in if int coreid \<noteq> int ncores - 1
         then c_for (space * coreid) (max div 4 * 4) 4 (dm_main lda A B) C
         else c_for (space * coreid) (lda div 4 * 4) 4 (dm_last lda A B1) C)"

definition dm_run :: "nat list \<Rightarrow> nat list \<Rightarrow> nat \<Rightarrow> c_array \<Rightarrow> c_array \<Rightarrow> c_array \<Rightarrow> c_array \<Rightarrow> c_array" where
  "dm_run copiers cids nc A B B1 C =
     (let B1 = fold (\<lambda>cid. dm_copy cid nc 32 B) copiers B1
      in fold (\<lambda>cid. dm_compute cid nc 32 A B B1) cids C)"

lemma whole_quads: "32 div 4 * 4 = (32 :: nat)"
  by simp

lemma bm_main_adds: "adds (bm_main 32 A B i) (tile i (i + 4) 0 32) (mat_prod A B)"
  unfolding bm_main_def
  by (rule adds_cols [where n = 8], simp, simp, simp only: tile_simps, rule adds_4_4,
      simp_all add: mat_prod_at del: One_nat_def add_Suc_right add_2_eq_Suc' distrib_right_numeral)
    (simp_all add: ac_simps)

lemma bm_last_adds: "adds (bm_last 32 A B i) (tile i (i + 4) 0 32) (mat_prod A B)"
  unfolding bm_last_def
  by (rule adds_cols [where n = 8], simp, simp, simp only: tile_simps, rule adds_4_4,
      simp_all add: mat_prod_at del: One_nat_def add_Suc_right add_2_eq_Suc' distrib_right_numeral)
    (simp_all add: ac_simps)

lemma dm_main_adds: "adds (dm_main 32 A B i) (tile i (i + 4) 0 32) (mat_prod A B)"
  unfolding dm_main_def whole_quads
  by (rule adds_cols [where n = 8], simp, simp, simp only: tile_simps, rule adds_4_4c,
      simp_all add: mat_prod_at del: One_nat_def add_Suc_right add_2_eq_Suc' distrib_right_numeral)
    (simp_all add: ac_simps)

lemma dm_last_adds: "adds (dm_last 32 A B i) (tile i (i + 4) 0 32) (mat_prod A B)"
  unfolding dm_last_def whole_quads
  by (rule adds_cols [where n = 8], simp, simp, simp only: tile_simps, rule adds_4_4c,
      simp_all add: mat_prod_at del: One_nat_def add_Suc_right add_2_eq_Suc' distrib_right_numeral)
    (simp_all add: ac_simps)

lemma block_rows_tile: "block_rows nc cid x \<longleftrightarrow> tile ((32 div nc) * cid) ((32 div nc) * cid + 32 div nc) 0 32 x"
  by (simp add: block_rows_def tile_def ac_simps)

lemma rows_of_blocks:
  fixes nc cid :: nat
  assumes "nc dvd 8" "cid < nc"
  obtains q where "32 div nc = q * 4" "cid + 1 = nc \<Longrightarrow> (32 div nc) * cid + 32 div nc = 32"
proof -
  obtain d where d: "8 = nc * d" using assms(1) by blast
  then have "0 < nc" by (auto intro: Nat.gr0I)
  moreover have w: "32 = nc * (d * 4)"
    unfolding mult.assoc [symmetric] d [symmetric] by simp
  ultimately have "32 div nc = d * 4" by (metis nonzero_mult_div_cancel_left less_numeral_extra(3))
  moreover from this have "(32 div nc) * cid + 32 div nc = 32" if "cid + 1 = nc"
    using w that [symmetric] by (simp add: algebra_simps)
  ultimately show ?thesis using that by blast
qed

lemma four_rows_adds:
  assumes nc: "nc dvd 8" "cid < nc"
    and main: "\<And>i. adds (main i) (tile i (i + 4) 0 32) v" and final: "\<And>i. adds (final i) (tile i (i + 4) 0 32) v"
  shows "adds (\<lambda>C. if int cid \<noteq> int nc - 1
      then c_for ((32 div nc) * cid) (((32 div nc) * cid + 32 div nc) div 4 * 4) 4 main C
      else c_for ((32 div nc) * cid) (32 div 4 * 4) 4 final C) (block_rows nc cid) v"
proof -
  obtain q where q: "32 div nc = q * 4" "cid + 1 = nc \<Longrightarrow> (32 div nc) * cid + 32 div nc = 32"
    using rows_of_blocks [OF nc] by blast
  have bound: "((32 div nc) * cid + 32 div nc) div 4 * 4 = (32 div nc) * cid + 32 div nc"
    "(32 div nc) * cid + 32 div nc = (32 div nc) * cid + q * 4"
    unfolding q(1) by (simp_all add: algebra_simps)
  show ?thesis
  proof (cases "int cid = int nc - 1")
    case True
    then have "cid + 1 = nc" using nc(2) by linarith
    then have "32 div 4 * 4 = (32 div nc) * cid + q * 4" using q(2) bound(2) by simp
    then have "adds (c_for ((32 div nc) * cid) (32 div 4 * 4) 4 final) (tile ((32 div nc) * cid) (32 div 4 * 4) 0 32) v"
      by (rule adds_rows [OF _ _ final]) simp
    with True q(2) [OF \<open>cid + 1 = nc\<close>] show ?thesis
      by (simp add: block_rows_tile [abs_def])
  next
    case False
    have "adds (c_for ((32 div nc) * cid) ((32 div nc) * cid + 32 div nc) 4 main)
        (tile ((32 div nc) * cid) ((32 div nc) * cid + 32 div nc) 0 32) v"
      by (rule adds_rows [OF bound(2) _ main]) simp
    with False bound(1) show ?thesis by (simp add: block_rows_tile [abs_def])
  qed
qed

lemma bm_adds: "nc dvd 8 \<Longrightarrow> cid < nc \<Longrightarrow> adds (bm_matmul cid nc 32 A B) (block_rows nc cid) (mat_prod A B)"
  unfolding bm_matmul_def [abs_def] Let_def
  by (rule four_rows_adds [OF _ _ bm_main_adds bm_last_adds])

lemma dvd_8_32: "nc dvd 8 \<Longrightarrow> nc dvd (32 :: nat)"
  using dvd_trans [of nc 8 32] by simp

interpretation block_rows_8: mt_share "\<lambda>nc. nc dvd 8" block_rows
  by unfold_locales (erule block_rows_cover [OF dvd_8_32], assumption, erule (1) block_rows_apart)

interpretation bm: mt_adding "\<lambda>nc. nc dvd 8" block_rows bm_matmul
  by unfold_locales (rule bm_adds)

subsection \<open>What the threads compute\<close>

lemma cv_adds: "0 < nc \<Longrightarrow> cid < nc \<Longrightarrow> adds (cv_matmul cid nc 32 A B) (half_rows nc cid) (mat_prod A B)"
  unfolding cv_matmul_def [abs_def] Let_def
  by (rule adds_cong [OF adds_then [OF adds_if [OF cv_core1_adds] adds_if [OF cv_core0_adds]]])
    (auto simp: tile_def half_rows_def)

interpretation cv: mt_adding "\<lambda>nc. 0 < nc" half_rows cv_matmul
  by unfold_locales (rule cv_adds)

lemma av_adds: "0 < nc \<Longrightarrow> cid < nc \<Longrightarrow> adds (av_matmul cid nc 32 A B) (half_rows nc cid) (mat_prod A B)"
  unfolding av_matmul_def [abs_def] Let_def
  by (rule adds_cong [OF adds_then [OF adds_if [OF av_core1_adds] adds_if [OF av_core0_adds]]])
    (auto simp: tile_def half_rows_def)

interpretation av: mt_adding "\<lambda>nc. 0 < nc" half_rows av_matmul
  by unfold_locales (rule av_adds)

text \<open>
  C37. The block kernels \<^verbatim>\<open>cv\<close>, \<^verbatim>\<open>av\<close> and \<^verbatim>\<open>bm\<close> multiply two 32 by 32 matrices modulo \<open>2^32\<close>: for
  1, 2, 4 or 8 threads, run in any order on a zeroed result array, every entry of \<^verbatim>\<open>C\<close> is the
  row-by-column product. The rounding \<^verbatim>\<open>max/4*4\<close> of \<^verbatim>\<open>bm\<close> loses no row at these thread numbers.
\<close>

theorem block_kernels_multiply:
  assumes "nc dvd 8" "distinct cids" "set cids = {0..<nc}" "C x = 0" "x < 1024"
  shows "mt_run cv_matmul cids nc A B C x = mat_prod A B x \<and> mt_run av_matmul cids nc A B C x = mat_prod A B x
    \<and> mt_run bm_matmul cids nc A B C x = mat_prod A B x"
proof -
  have "0 < nc" using assms(1) by (auto intro: Nat.gr0I)
  then show ?thesis
    using cv.product [of nc cids C x A B] av.product [of nc cids C x A B] bm.product [of nc cids C x A B] assms by simp
qed

theorem block_kernels_multiply_witness:
  "mt_run bm_matmul [1, 0] 2 (\<lambda>_. 3) (\<lambda>_. 2) (\<lambda>_. 0) 700 = 192"
  using block_kernels_multiply [of 2 "[1, 0]" "\<lambda>_. 0" 700 "\<lambda>_. 3" "\<lambda>_. 2"]
  by (simp add: mat_prod_def insert_commute upt_sets)

text \<open>The copy that the threads of \<^verbatim>\<open>dm\<close> make before the barrier is complete.\<close>

lemma dm_copy_stores:
  assumes "0 < nc"
  shows "stores (dm_copy cid nc 32 B)
    (\<lambda>x. if int cid = int nc - 1 then x < 1024 div nc else 1024 div nc \<le> x \<and> x < 1024) B"
proof (cases "int cid = int nc - 1")
  case True
  then show ?thesis
    unfolding dm_copy_def [abs_def] using copy_stores [of 0 "1024 div nc" B] by simp
next
  case False
  have "1024 div nc \<le> 1024" by simp
  from copy_stores [OF this, of B] False show ?thesis
    unfolding dm_copy_def [abs_def] by simp
qed

lemma dm_copied:
  assumes "0 < nc" "set copiers = {0..<nc}" "x < 1024"
  shows "fold (\<lambda>cid. dm_copy cid nc 32 B) copiers B1 x = B x"
proof -
  let ?W = "\<lambda>cid x. if int cid = int nc - 1 then x < 1024 div nc else 1024 div nc \<le> x \<and> x < 1024"
  have "stores (fold (\<lambda>cid. dm_copy cid nc 32 B) copiers) (\<lambda>x. \<exists>cid \<in> set copiers. ?W cid x) B"
    by (rule stores_fold) (rule dm_copy_stores [OF assms(1)])
  moreover have "\<exists>cid \<in> set copiers. ?W cid x"
  proof (cases "x < 1024 div nc")
    case True
    then show ?thesis using assms(1,2) by (intro bexI [of _ "nc - 1"]) auto
  next
    case False
    then have "nc \<noteq> 1" using assms(3) by auto
    then show ?thesis using False assms by (intro bexI [of _ 0]) auto
  qed
  ultimately show ?thesis by (simp add: storesD)
qed

lemma mat_prod_copy: "(\<And>x. x < 1024 \<Longrightarrow> B1 x = B x) \<Longrightarrow> mat_prod A B1 = mat_prod A B"
proof
  fix x assume b: "\<And>x. x < 1024 \<Longrightarrow> B1 x = B x"
  have "B1 (k * 32 + x mod 32) = B (k * 32 + x mod 32)" if "k < 32" for k
  proof (rule b)
    have "x mod 32 < 32" by simp
    with that show "k * 32 + x mod 32 < 1024" by linarith
  qed
  then show "mat_prod A B1 x = mat_prod A B x" by (simp add: mat_prod_def)
qed

definition dm_local :: kernel where
  "dm_local cid nc lda A B C = dm_compute cid nc lda A B B C"

lemma dm_adds:
  assumes "nc dvd 8" "cid < nc" "\<And>x. x < 1024 \<Longrightarrow> B1 x = B x"
  shows "adds (dm_compute cid nc 32 A B B1) (block_rows nc cid) (mat_prod A B)"
  unfolding dm_compute_def [abs_def] Let_def
  by (rule four_rows_adds [OF assms(1,2) dm_main_adds]) (use dm_last_adds [of A B1] mat_prod_copy [OF assms(3)] in simp)

interpretation dm: mt_adding "\<lambda>nc. nc dvd 8" block_rows dm_local
  by unfold_locales (simp add: dm_local_def [abs_def] dm_adds)

text \<open>
  The kernel \<^verbatim>\<open>dm\<close>, whose last thread reads a copy of \<^verbatim>\<open>B\<close> that all threads make together before
  a barrier, multiplies two 32 by 32 matrices for 1, 2, 4 or 8 threads: whatever the copy held
  before, whatever the order of the copying threads and, after the barrier, of the computing
  ones, the copy is complete when it is read and every entry of \<^verbatim>\<open>C\<close> is the product.
\<close>

theorem dm_kernel_multiplies:
  assumes "nc dvd 8" "set copiers = {0..<nc}" "distinct cids" "set cids = {0..<nc}" "C x = 0" "x < 1024"
  shows "dm_run copiers cids nc A B B1 C x = mat_prod A B x"
proof -
  have nc: "0 < nc" using assms(1) by (auto intro: Nat.gr0I)
  let ?B1 = "fold (\<lambda>cid. dm_copy cid nc 32 B) copiers B1"
  have "dm_compute cid nc 32 A B ?B1 = dm_local cid nc 32 A B" if "cid \<in> set cids" for cid
  proof -
    have "cid < nc" using that assms(4) by simp
    then have "adds (dm_compute cid nc 32 A B ?B1) (block_rows nc cid) (mat_prod A B)"
      "adds (dm_local cid nc 32 A B) (block_rows nc cid) (mat_prod A B)"
      using dm_adds [OF assms(1) _ dm_copied [OF nc assms(2)]] dm.adds [OF assms(1)] by simp_all
    then show ?thesis by (intro ext) (simp add: addsD)
  qed
  then have "dm_run copiers cids nc A B B1 C = mt_run dm_local cids nc A B C"
    unfolding dm_run_def mt_run_def Let_def by (intro fold_cong) simp_all
  then show ?thesis using dm.product [of nc cids C x A B] assms by simp
qed

theorem dm_kernel_multiplies_witness:
  "dm_run [0, 1] [1, 0] 2 (\<lambda>_. 3) (\<lambda>_. 2) (\<lambda>_. 99) (\<lambda>_. 0) 700 = 192"
  using dm_kernel_multiplies [of 2 "[0, 1]" "[1, 0]" "\<lambda>_. 0" 700 "\<lambda>_. 3" "\<lambda>_. 2" "\<lambda>_. 99"]
  by (simp add: mat_prod_def insert_commute upt_sets)

end
