(* ===== verification/Mt_Windows.thy ===== *)
theory Mt_Windows
  imports Mt_Prelude
begin

text \<open>
  The kernels of \<^verbatim>\<open>riscv-tests/mt\<close> that run over \<^verbatim>\<open>C\<close> as one array, eight entries at a time:
  \<^verbatim>\<open>ay\<close>, \<^verbatim>\<open>az\<close> and \<^verbatim>\<open>cy\<close>, which computes the second half from copies of \<^verbatim>\<open>A\<close> and \<^verbatim>\<open>B\<close>. The row and the
  column of a window are computed from its index by shifts, and the sum runs over pairs of \<open>k\<close>.
\<close>

subsection \<open>Windows\<close>

lemma stores_aligned:
  assumes n: "hi = lo + n * st" "0 < st"
    and body: "\<And>k. k < n \<Longrightarrow> stores (body (lo + k * st)) (\<lambda>x. lo + k * st \<le> x \<and> x < lo + k * st + st) v"
  shows "stores (c_for lo hi st body) (\<lambda>x. lo \<le> x \<and> x < hi) v"
proof -
  have "stores (fold body (c_range lo hi st)) (\<lambda>x. \<exists>i \<in> set (c_range lo hi st). i \<le> x \<and> x < i + st) v"
  proof (rule stores_fold)
    fix i assume "i \<in> set (c_range lo hi st)"
    then obtain k where k: "i = lo + k * st" "k * st < n * st" using n by (auto simp: c_range_mem)
    then have "k < n" by simp
    then show "stores (body i) (\<lambda>x. i \<le> x \<and> x < i + st) v" unfolding k(1) by (rule body)
  qed
  then show ?thesis
    unfolding c_for_fold by (rule stores_cong) (use window_range [OF n] in blast)
qed

lemma stores_window8:
  assumes "s0 = v j" "s1 = v (j + 1)" "s2 = v (j + 2)" "s3 = v (j + 3)"
    "s4 = v (j + 4)" "s5 = v (j + 5)" "s6 = v (j + 6)" "s7 = v (j + 7)"
  shows "stores (\<lambda>C. C(j := s0, j + 1 := s1, j + 2 := s2, j + 3 := s3, j + 4 := s4, j + 5 := s5, j + 6 := s6, j + 7 := s7))
    (\<lambda>x. j \<le> x \<and> x < j + 8) v"
proof (rule storesI)
  fix C :: c_array and x
  show "(C(j := s0, j + 1 := s1, j + 2 := s2, j + 3 := s3, j + 4 := s4, j + 5 := s5, j + 6 := s6, j + 7 := s7)) x =
    (if j \<le> x \<and> x < j + 8 then v x else C x)"
  proof (cases "j \<le> x \<and> x < j + 8")
    case True
    then obtain r where r: "x = j + r" "r < 8" using le_Suc_ex by auto
    then have "r = 0 \<or> r = 1 \<or> r = 2 \<or> r = 3 \<or> r = 4 \<or> r = 5 \<or> r = 6 \<or> r = 7" by arith
    then show ?thesis using assms by (elim disjE) (simp_all add: r(1))
  next
    case False
    then have "x \<noteq> j" "x \<noteq> j + 1" "x \<noteq> j + 2" "x \<noteq> j + 3" "x \<noteq> j + 4" "x \<noteq> j + 5" "x \<noteq> j + 6" "x \<noteq> j + 7"
      by auto
    then show ?thesis unfolding if_not_P [OF False] by simp
  qed
qed

lemma c_sum_pairs: "c_sum 0 (n * 2) 2 (\<lambda>k. g k + g (k + 1)) = (\<Sum>k = 0..<n * 2. g k)"
proof -
  have "c_sum 0 (n * 2) 2 (\<lambda>k. g k + g (k + 1)) = (\<Sum>k\<leftarrow>[0..<n]. g (k * 2) + g (k * 2 + 1))"
    using c_range_mult [of 2 0 n] by (simp add: c_sum_def comp_def)
  also have "\<dots> = (\<Sum>k = 0..<n * 2. g k)" by (induction n) (simp_all add: add.assoc)
  finally show ?thesis .
qed

text \<open>The entries of an aligned window, with the sum over pairs.\<close>

lemma mat_prod_pairs:
  assumes "r < 8"
  shows "c_sum 0 32 2 (\<lambda>i. A (i + push_bit 5 (drop_bit 5 (m * 8))) * B (m * 8 mod 32 + r + i * 32)
      + A (i + 1 + push_bit 5 (drop_bit 5 (m * 8))) * B (m * 8 mod 32 + r + (i + 1) * 32)) = mat_prod A B (m * 8 + r)"
proof -
  let ?g = "\<lambda>k. A (m * 8 div 32 * 32 + k) * B (k * 32 + (m * 8 mod 32 + r))"
  have "m * 8 div 32 = m div 4" "m * 8 mod 32 = m mod 4 * 8" "m mod 4 < 4"
    by (simp_all add: div_mult_mult2 [of 8 m 4, simplified] mult_mod_left)
  moreover have "m * 8 + r = m div 4 * 32 + (m mod 4 * 8 + r)"
    using div_mult_mod_eq [of m 4] by linarith
  moreover have "m mod 4 * 8 + r < 32" using assms \<open>m mod 4 < 4\<close> by linarith
  ultimately have x: "(m * 8 + r) div 32 = m * 8 div 32" "(m * 8 + r) mod 32 = m * 8 mod 32 + r"
    by (simp_all add: add.assoc)
  have "mat_prod A B (m * 8 + r) = (\<Sum>k = 0..<16 * 2. ?g k)" unfolding mat_prod_def x by simp
  also have "\<dots> = c_sum 0 32 2 (\<lambda>k. ?g k + ?g (k + 1))" unfolding c_sum_pairs [symmetric] by simp
  finally show ?thesis by (simp add: push_bit_eq_mult drop_bit_eq_div ac_simps)
qed

lemma half_rows_range:
  "half_rows nc cid x \<longleftrightarrow> x < 1024 \<and> (cid = 0 \<and> x < 512 \<or> (cid = 1 \<or> nc = 1) \<and> 512 \<le> x)"
proof -
  have "x div 32 < 32 \<longleftrightarrow> x < 1024" "x div 32 < 16 \<longleftrightarrow> x < 512" by arith+
  then show ?thesis unfolding half_rows_def by (simp add: not_less [symmetric] del: not_less)
qed

lemma window_range_cases:
  assumes "0 < nc" "cid < nc" "\<not> cid > 1"
  shows "(push_bit 9 cid \<le> x \<and> x < push_bit 9 (if nc = 1 then 2 else cid + 1)) \<longleftrightarrow> half_rows nc cid x"
proof -
  have "cid = 0 \<or> cid = 1 \<and> nc \<noteq> 1" using assms by auto
  then show ?thesis by (auto simp: half_rows_range push_bit_eq_mult)
qed

lemma window_range_length:
  "\<exists>n. push_bit 9 (if nc = 1 then 2 else cid + 1) = push_bit 9 cid + n * 8 \<and> push_bit 9 cid = cid * 64 * (8 :: nat)"
  if "\<not> cid > 1" "cid < nc" for nc cid :: nat
  using that by (intro exI [of _ "if nc = 1 then 128 else 64"]) (auto simp: push_bit_eq_mult)

subsection \<open>ay\<close>

definition ay_matmul :: kernel where
  "ay_matmul coreid ncores lda A B C =
     (if coreid > 1 then C else
      let start = push_bit 9 coreid; stop = push_bit 9 (if ncores = 1 then 2 else coreid + 1)
      in c_for start stop 8 (\<lambda>j C.
     let jToRow = push_bit 5 (drop_bit 5 j); jToCol = j mod 32;
         (tempC0, tempC1, tempC2, tempC3, tempC4, tempC5, tempC6, tempC7) =
           c_for 0 lda 2 (\<lambda>i (tempC0, tempC1, tempC2, tempC3, tempC4, tempC5, tempC6, tempC7).
              let tempA0 = A (i + jToRow); tempA1 = A (i + 1 + jToRow);
                  tempC0 = tempC0 + tempA0 * B (jToCol + push_bit 5 i); tempC1 = tempC1 + tempA0 * B (jToCol + 1 + push_bit 5 i);
                  tempC2 = tempC2 + tempA0 * B (jToCol + 2 + push_bit 5 i); tempC3 = tempC3 + tempA0 * B (jToCol + 3 + push_bit 5 i);
                  tempC4 = tempC4 + tempA0 * B (jToCol + 4 + push_bit 5 i); tempC5 = tempC5 + tempA0 * B (jToCol + 5 + push_bit 5 i);
                  tempC6 = tempC6 + tempA0 * B (jToCol + 6 + push_bit 5 i); tempC7 = tempC7 + tempA0 * B (jToCol + 7 + push_bit 5 i);
                  tempC0 = tempC0 + tempA1 * B (jToCol + push_bit 5 (i + 1)); tempC1 = tempC1 + tempA1 * B (jToCol + 1 + push_bit 5 (i + 1));
                  tempC2 = tempC2 + tempA1 * B (jToCol + 2 + push_bit 5 (i + 1)); tempC3 = tempC3 + tempA1 * B (jToCol + 3 + push_bit 5 (i + 1));
                  tempC4 = tempC4 + tempA1 * B (jToCol + 4 + push_bit 5 (i + 1)); tempC5 = tempC5 + tempA1 * B (jToCol + 5 + push_bit 5 (i + 1));
                  tempC6 = tempC6 + tempA1 * B (jToCol + 6 + push_bit 5 (i + 1)); tempC7 = tempC7 + tempA1 * B (jToCol + 7 + push_bit 5 (i + 1))
              in (tempC0, tempC1, tempC2, tempC3, tempC4, tempC5, tempC6, tempC7)) (0, 0, 0, 0, 0, 0, 0, 0)
     in C(j := tempC0, j + 1 := tempC1, j + 2 := tempC2, j + 3 := tempC3,
          j + 4 := tempC4, j + 5 := tempC5, j + 6 := tempC6, j + 7 := tempC7)) C)"

subsection \<open>az\<close>

definition az_matmul :: kernel where
  "az_matmul coreid ncores lda A B C =
     (if coreid > 1 then C else
      let start = push_bit 9 coreid; stop = push_bit 9 (if ncores = 1 then 2 else coreid + 1)
      in c_for start stop 8 (\<lambda>j C.
     let jToRow = push_bit 5 (drop_bit 5 j); jToCol = j mod 32;
         (tempC0, tempC1, tempC2, tempC3, tempC4, tempC5, tempC6, tempC7) =
           c_for 0 lda 2 (\<lambda>i (tempC0, tempC1, tempC2, tempC3, tempC4, tempC5, tempC6, tempC7).
              let tempA0 = A (i + jToRow); tempA1 = A (i + 1 + jToRow);
                  iToRow = push_bit 5 i;
                  tempC0 = tempC0 + tempA0 * B (jToCol + iToRow); tempC1 = tempC1 + tempA0 * B (jToCol + 1 + iToRow);
                  tempC2 = tempC2 + tempA0 * B (jToCol + 2 + iToRow); tempC3 = tempC3 + tempA0 * B (jToCol + 3 + iToRow);
                  tempC4 = tempC4 + tempA0 * B (jToCol + 4 + iToRow); tempC5 = tempC5 + tempA0 * B (jToCol + 5 + iToRow);
                  tempC6 = tempC6 + tempA0 * B (jToCol + 6 + iToRow); tempC7 = tempC7 + tempA0 * B (jToCol + 7 + iToRow);
                  iToRow = iToRow + 32;
                  tempC0 = tempC0 + tempA1 * B (jToCol + iToRow); tempC1 = tempC1 + tempA1 * B (jToCol + 1 + iToRow);
                  tempC2 = tempC2 + tempA1 * B (jToCol + 2 + iToRow); tempC3 = tempC3 + tempA1 * B (jToCol + 3 + iToRow);
                  tempC4 = tempC4 + tempA1 * B (jToCol + 4 + iToRow); tempC5 = tempC5 + tempA1 * B (jToCol + 5 + iToRow);
                  tempC6 = tempC6 + tempA1 * B (jToCol + 6 + iToRow); tempC7 = tempC7 + tempA1 * B (jToCol + 7 + iToRow)
              in (tempC0, tempC1, tempC2, tempC3, tempC4, tempC5, tempC6, tempC7)) (0, 0, 0, 0, 0, 0, 0, 0)
     in C(j := tempC0, j + 1 := tempC1, j + 2 := tempC2, j + 3 := tempC3,
          j + 4 := tempC4, j + 5 := tempC5, j + 6 := tempC6, j + 7 := tempC7)) C)"

subsection \<open>cy\<close>

text \<open>
  The static arrays \<^verbatim>\<open>A1\<close> and \<^verbatim>\<open>B1\<close> of the second thread are written in full before they are read;
  what they held before are arguments.
\<close>

definition cy_first :: "nat \<Rightarrow> nat \<Rightarrow> nat \<Rightarrow> c_array \<Rightarrow> c_array \<Rightarrow> c_array \<Rightarrow> c_array" where
  "cy_first start stop lda A B = c_for start stop 8 (\<lambda>j C.
     let jToRow = push_bit 5 (drop_bit 5 j); jToCol = j mod 32;
         (tempC0, tempC1, tempC2, tempC3, tempC4, tempC5, tempC6, tempC7) =
           c_for 0 lda 2 (\<lambda>i (tempC0, tempC1, tempC2, tempC3, tempC4, tempC5, tempC6, tempC7).
              let tempA0 = A (i + jToRow); tempA1 = A (i + 1 + jToRow);
                  tempC0 = tempC0 + tempA0 * B (jToCol + push_bit 5 i); tempC1 = tempC1 + tempA0 * B (jToCol + 1 + push_bit 5 i);
                  tempC2 = tempC2 + tempA0 * B (jToCol + 2 + push_bit 5 i); tempC3 = tempC3 + tempA0 * B (jToCol + 3 + push_bit 5 i);
                  tempC4 = tempC4 + tempA0 * B (jToCol + 4 + push_bit 5 i); tempC5 = tempC5 + tempA0 * B (jToCol + 5 + push_bit 5 i);
                  tempC6 = tempC6 + tempA0 * B (jToCol + 6 + push_bit 5 i); tempC7 = tempC7 + tempA0 * B (jToCol + 7 + push_bit 5 i);
                  tempC0 = tempC0 + tempA1 * B (jToCol + push_bit 5 (i + 1)); tempC1 = tempC1 + tempA1 * B (jToCol + 1 + push_bit 5 (i + 1));
                  tempC2 = tempC2 + tempA1 * B (jToCol + 2 + push_bit 5 (i + 1)); tempC3 = tempC3 + tempA1 * B (jToCol + 3 + push_bit 5 (i + 1));
                  tempC4 = tempC4 + tempA1 * B (jToCol + 4 + push_bit 5 (i + 1)); tempC5 = tempC5 + tempA1 * B (jToCol + 5 + push_bit 5 (i + 1));
                  tempC6 = tempC6 + tempA1 * B (jToCol + 6 + push_bit 5 (i + 1)); tempC7 = tempC7 + tempA1 * B (jToCol + 7 + push_bit 5 (i + 1))
              in (tempC0, tempC1, tempC2, tempC3, tempC4, tempC5, tempC6, tempC7)) (0, 0, 0, 0, 0, 0, 0, 0)
     in C(j := tempC0, j + 1 := tempC1, j + 2 := tempC2, j + 3 := tempC3,
          j + 4 := tempC4, j + 5 := tempC5, j + 6 := tempC6, j + 7 := tempC7))"

definition cy_copy :: "c_array \<Rightarrow> c_array \<Rightarrow> c_array \<times> c_array \<Rightarrow> c_array \<times> c_array" where
  "cy_copy A B = c_for 0 1024 1 (\<lambda>i (A1, B1). (A1(i := A i), B1(i := B i)))"

definition cy_second :: "nat \<Rightarrow> nat \<Rightarrow> nat \<Rightarrow> c_array \<Rightarrow> c_array \<Rightarrow> c_array \<Rightarrow> c_array" where
  "cy_second start stop lda A1 B1 = c_for start stop 8 (\<lambda>j C.
     let jToRow = push_bit 5 (drop_bit 5 j); jToCol = j mod 32;
         (tempC0, tempC1, tempC2, tempC3, tempC4, tempC5, tempC6, tempC7) =
           c_for 0 lda 2 (\<lambda>i (tempC0, tempC1, tempC2, tempC3, tempC4, tempC5, tempC6, tempC7).
              let tempA0 = A1 (i + jToRow); tempA1 = A1 (i + 1 + jToRow);
                  tempC0 = tempC0 + tempA0 * B1 (jToCol + push_bit 5 i); tempC1 = tempC1 + tempA0 * B1 (jToCol + 1 + push_bit 5 i);
                  tempC2 = tempC2 + tempA0 * B1 (jToCol + 2 + push_bit 5 i); tempC3 = tempC3 + tempA0 * B1 (jToCol + 3 + push_bit 5 i);
                  tempC4 = tempC4 + tempA0 * B1 (jToCol + 4 + push_bit 5 i); tempC5 = tempC5 + tempA0 * B1 (jToCol + 5 + push_bit 5 i);
                  tempC6 = tempC6 + tempA0 * B1 (jToCol + 6 + push_bit 5 i); tempC7 = tempC7 + tempA0 * B1 (jToCol + 7 + push_bit 5 i);
                  tempC0 = tempC0 + tempA1 * B1 (jToCol + push_bit 5 (i + 1)); tempC1 = tempC1 + tempA1 * B1 (jToCol + 1 + push_bit 5 (i + 1));
                  tempC2 = tempC2 + tempA1 * B1 (jToCol + 2 + push_bit 5 (i + 1)); tempC3 = tempC3 + tempA1 * B1 (jToCol + 3 + push_bit 5 (i + 1));
                  tempC4 = tempC4 + tempA1 * B1 (jToCol + 4 + push_bit 5 (i + 1)); tempC5 = tempC5 + tempA1 * B1 (jToCol + 5 + push_bit 5 (i + 1));
                  tempC6 = tempC6 + tempA1 * B1 (jToCol + 6 + push_bit 5 (i + 1)); tempC7 = tempC7 + tempA1 * B1 (jToCol + 7 + push_bit 5 (i + 1))
              in (tempC0, tempC1, tempC2, tempC3, tempC4, tempC5, tempC6, tempC7)) (0, 0, 0, 0, 0, 0, 0, 0)
     in C(j := tempC0, j + 1 := tempC1, j + 2 := tempC2, j + 3 := tempC3,
          j + 4 := tempC4, j + 5 := tempC5, j + 6 := tempC6, j + 7 := tempC7))"

definition cy_matmul :: "c_array \<Rightarrow> c_array \<Rightarrow> kernel" where
  "cy_matmul A1 B1 coreid ncores lda A B C =
     (if coreid > 1 then C else
      let start = push_bit 9 coreid; stop = push_bit 9 (if ncores = 1 then 2 else coreid + 1)
      in if coreid = 0 then cy_first start stop lda A B C
         else let (A1, B1) = cy_copy A B (A1, B1)
              in cy_second start stop lda A1 B1 C)"

subsection \<open>What the threads compute\<close>

lemma window_loop:
  assumes "0 < nc" "cid < nc" "\<not> cid > 1"
    and body: "\<And>m. stores (body (m * 8)) (\<lambda>x. m * 8 \<le> x \<and> x < m * 8 + 8) v"
  shows "stores (c_for (push_bit 9 cid) (push_bit 9 (if nc = 1 then 2 else cid + 1)) 8 body) (half_rows nc cid) v"
proof -
  obtain n where n: "push_bit 9 (if nc = 1 then 2 else cid + 1) = push_bit 9 cid + n * 8" "push_bit 9 cid = cid * 64 * (8 :: nat)"
    using window_range_length [OF assms(3,2)] by blast
  have "stores (c_for (push_bit 9 cid) (push_bit 9 (if nc = 1 then 2 else cid + 1)) 8 body)
    (\<lambda>x. push_bit 9 cid \<le> x \<and> x < push_bit 9 (if nc = 1 then 2 else cid + 1)) v"
  proof (rule stores_aligned [OF n(1)])
    show "stores (body (push_bit 9 cid + k * 8)) (\<lambda>x. push_bit 9 cid + k * 8 \<le> x \<and> x < push_bit 9 cid + k * 8 + 8) v" for k
      using body [of "cid * 64 + k"] by (simp only: n(2) add_mult_distrib)
  qed simp
  then show ?thesis by (rule stores_cong) (simp only: window_range_cases [OF assms(1-3)])
qed

text \<open>The sums of one window in the form the loops leave them.\<close>

lemma window_sums:
  "c_sum 0 32 2 (\<lambda>i. A (i + push_bit 5 (drop_bit 5 (m * 8))) * B (m * 8 mod 32 + push_bit 5 i)
      + A (i + 1 + push_bit 5 (drop_bit 5 (m * 8))) * B (m * 8 mod 32 + push_bit 5 (i + 1))) = mat_prod A B (m * 8)"
  "r < 8 \<Longrightarrow> c_sum 0 32 2 (\<lambda>i. A (i + push_bit 5 (drop_bit 5 (m * 8))) * B (m * 8 mod 32 + (r + push_bit 5 i))
      + A (i + 1 + push_bit 5 (drop_bit 5 (m * 8))) * B (m * 8 mod 32 + (r + push_bit 5 (i + 1)))) = mat_prod A B (m * 8 + r)"
  using mat_prod_pairs [of 0 A m B] mat_prod_pairs [of r A m B] by (simp_all add: push_bit_eq_mult ac_simps)

lemma ay_window:
  "ay_matmul cid nc lda A B C = (if cid > 1 then C else
     cy_first (push_bit 9 cid) (push_bit 9 (if nc = 1 then 2 else cid + 1)) lda A B C)"
  by (simp add: ay_matmul_def cy_first_def Let_def)

lemma first_window:
  assumes "0 < nc" "cid < nc" "\<not> cid > 1"
  shows "stores (cy_first (push_bit 9 cid) (push_bit 9 (if nc = 1 then 2 else cid + 1)) 32 A B) (half_rows nc cid) (mat_prod A B)"
  unfolding cy_first_def
  by (rule window_loop [OF assms], simp only: Let_def prod.case add.assoc, simp only: acc8 prod.case, rule stores_window8)
    (simp_all add: window_sums [unfolded add.assoc] del: One_nat_def add_Suc_right plus_1_eq_Suc add_2_eq_Suc add_2_eq_Suc')

lemma ay_stores:
  assumes "0 < nc" "cid < nc"
  shows "stores (ay_matmul cid nc 32 A B) (half_rows nc cid) (mat_prod A B)"
proof (cases "cid > 1")
  case True
  have "\<not> half_rows nc cid x" for x using True assms by (auto simp: half_rows_def)
  with True show ?thesis unfolding ay_window [abs_def] by (simp add: stores_def)
next
  case False
  show ?thesis unfolding ay_window [abs_def] if_not_P [OF False] by (rule first_window [OF assms False])
qed

lemma az_window: "az_matmul cid nc lda A B C = ay_matmul cid nc lda A B C"
proof -
  have "push_bit 5 i + 32 = push_bit 5 (i + 1)" for i :: nat by (simp add: push_bit_eq_mult)
  then show ?thesis by (simp only: az_matmul_def ay_matmul_def Let_def)
qed

interpretation ay: mt_storing "\<lambda>nc. 0 < nc" half_rows ay_matmul
  by unfold_locales (rule ay_stores)

interpretation az: mt_storing "\<lambda>nc. 0 < nc" half_rows az_matmul
  by unfold_locales (simp add: az_window [abs_def] ay_stores)

text \<open>The copies of \<^verbatim>\<open>cy\<close> are complete.\<close>

lemma cy_copy_complete:
  assumes "cy_copy A B (A1, B1) = (A2, B2)" "x < 1024"
  shows "A2 x = A x \<and> B2 x = B x"
proof -
  have "fold (\<lambda>i (A1, B1). (A1(i := A i), B1(i := B i))) is (A1, B1) =
    (fold (\<lambda>i A1. A1(i := A i)) is A1, fold (\<lambda>i B1. B1(i := B i)) is B1)" for "is" :: "nat list" and A1 B1
    by (induction "is" arbitrary: A1 B1) simp_all
  then have "A2 = c_for 0 1024 1 (\<lambda>i A1. A1(i := A i)) A1" "B2 = c_for 0 1024 1 (\<lambda>i B1. B1(i := B i)) B1"
    using assms(1) unfolding cy_copy_def c_for_fold by simp_all
  then show ?thesis
    using assms(2) storesD [OF copy_stores [of 0 1024 A]] storesD [OF copy_stores [of 0 1024 B]] by simp
qed

lemma cy_second_first: "cy_second start stop lda A B = cy_first start stop lda A B"
  by (simp only: cy_second_def cy_first_def)

lemma cy_stores:
  assumes "0 < nc" "cid < nc"
  shows "stores (cy_matmul A1 B1 cid nc 32 A B) (half_rows nc cid) (mat_prod A B)"
proof (rule storesI)
  fix C x
  obtain A2 B2 where c: "cy_copy A B (A1, B1) = (A2, B2)" by (cases "cy_copy A B (A1, B1)")
  let ?s = "push_bit 9 cid" and ?e = "push_bit 9 (if nc = 1 then 2 else cid + 1) :: nat"
  have eq: "mat_prod A2 B2 x = mat_prod A B x" if "half_rows nc cid x"
    using that cy_copy_complete [OF c] by (intro mat_prod_local) (simp_all add: half_rows_range)
  show "cy_matmul A1 B1 cid nc 32 A B C x = (if half_rows nc cid x then mat_prod A B x else C x)"
  proof (cases "cid > 1")
    case True
    then show ?thesis by (simp add: cy_matmul_def half_rows_def) (use assms in auto)
  next
    case False
    have run: "cy_matmul A1 B1 cid nc 32 A B C = (if cid = 0 then cy_first ?s ?e 32 A B C else cy_first ?s ?e 32 A2 B2 C)"
      using False by (simp add: cy_matmul_def c cy_second_first Let_def)
    note first = storesD [OF first_window [OF assms False]]
    show ?thesis
    proof (cases "cid = 0")
      case True
      show ?thesis unfolding run if_P [OF True] by (rule first)
    next
      case False
      show ?thesis unfolding run if_not_P [OF False] first using eq by simp
    qed
  qed
qed

interpretation cy: mt_storing "\<lambda>nc. 0 < nc" half_rows "cy_matmul A1 B1"
  by unfold_locales (rule cy_stores)

text \<open>
  C38. The kernels \<^verbatim>\<open>ay\<close>, \<^verbatim>\<open>az\<close> and \<^verbatim>\<open>cy\<close>, which run over \<^verbatim>\<open>C\<close> as one array in windows of eight
  entries, multiply two 32 by 32 matrices modulo \<open>2^32\<close>: for any number of threads, run in any
  order on a zeroed result array, every entry is the row-by-column product, whatever the copies
  that the second thread of \<^verbatim>\<open>cy\<close> works on held before.
\<close>

theorem window_kernels_multiply:
  assumes "0 < nc" "distinct cids" "set cids = {0..<nc}" "C x = 0" "x < 1024"
  shows "mt_run ay_matmul cids nc A B C x = mat_prod A B x \<and> mt_run az_matmul cids nc A B C x = mat_prod A B x
    \<and> mt_run (cy_matmul A1 B1) cids nc A B C x = mat_prod A B x"
  using ay.product [of nc cids C x A B, OF assms] az.product [of nc cids C x A B, OF assms]
    cy.product [of nc cids C x A1 B1 A B, OF assms] by simp

theorem window_kernels_multiply_witness:
  "mt_run (cy_matmul (\<lambda>_. 7) (\<lambda>_. 8)) [1, 0] 2 (\<lambda>_. 3) (\<lambda>_. 2) (\<lambda>_. 0) 700 = 192"
  using window_kernels_multiply [of 2 "[1, 0]" "\<lambda>_. 0" 700 "\<lambda>_. 3" "\<lambda>_. 2" "\<lambda>_. 7" "\<lambda>_. 8"]
  by (simp add: mat_prod_def insert_commute upt_sets)

end
