(* ===== verification/Mt_Registers.thy ===== *)
theory Mt_Registers
  imports Mt_Blocks
begin

text \<open>
  Kernels of \<^verbatim>\<open>riscv-tests/mt\<close> that keep entries of \<^verbatim>\<open>B\<close> or sums over eight indices in local variables:
  \<^verbatim>\<open>ag\<close> and \<^verbatim>\<open>cg\<close> (four rows by two columns, four terms at a time), and \<^verbatim>\<open>ae\<close> and \<^verbatim>\<open>ce\<close>, whose threads
  first transpose \<^verbatim>\<open>B\<close> together, one row of \<^verbatim>\<open>B\<close> between two barriers. The barriers between
  iterations that write only the thread's own entries of \<^verbatim>\<open>C\<close> are left out.
\<close>

subsection \<open>ag and cg\<close>

definition ag_matmul :: kernel where
  "ag_matmul coreid ncores lda A B = c_for 0 lda 2 (\<lambda>i. c_for 0 lda 4 (\<lambda>k C.
     let d0 = B (k * lda + i); c0 = B (k * lda + i + 1);
         d1 = B ((k + 1) * lda + i); c1 = B ((k + 1) * lda + i + 1);
         d2 = B ((k + 2) * lda + i); c2 = B ((k + 2) * lda + i + 1);
         d3 = B ((k + 3) * lda + i); c3 = B ((k + 3) * lda + i + 1)
     in c_for (coreid * (lda div ncores)) ((coreid + 1) * (lda div ncores)) 4 (\<lambda>j C.
       let sum = A (j * lda + k) * d0;
           sum = sum + A (j * lda + k + 1) * d1; sum = sum + A (j * lda + k + 2) * d2; sum = sum + A (j * lda + k + 3) * d3;
           C = c_add C (j * lda + i) sum;
           sum = A (j * lda + k) * c0;
           sum = sum + A (j * lda + k + 1) * c1; sum = sum + A (j * lda + k + 2) * c2; sum = sum + A (j * lda + k + 3) * c3;
           C = c_add C (j * lda + i + 1) sum;
           sum = A ((j + 1) * lda + k) * d0;
           sum = sum + A ((j + 1) * lda + k + 1) * d1; sum = sum + A ((j + 1) * lda + k + 2) * d2; sum = sum + A ((j + 1) * lda + k + 3) * d3;
           C = c_add C ((j + 1) * lda + i) sum;
           sum = A ((j + 1) * lda + k) * c0;
           sum = sum + A ((j + 1) * lda + k + 1) * c1; sum = sum + A ((j + 1) * lda + k + 2) * c2; sum = sum + A ((j + 1) * lda + k + 3) * c3;
           C = c_add C ((j + 1) * lda + i + 1) sum;
           sum = A ((j + 2) * lda + k) * d0;
           sum = sum + A ((j + 2) * lda + k + 1) * d1; sum = sum + A ((j + 2) * lda + k + 2) * d2; sum = sum + A ((j + 2) * lda + k + 3) * d3;
           C = c_add C ((j + 2) * lda + i) sum;
           sum = A ((j + 2) * lda + k) * c0;
           sum = sum + A ((j + 2) * lda + k + 1) * c1; sum = sum + A ((j + 2) * lda + k + 2) * c2; sum = sum + A ((j + 2) * lda + k + 3) * c3;
           C = c_add C ((j + 2) * lda + i + 1) sum;
           sum = A ((j + 3) * lda + k) * d0;
           sum = sum + A ((j + 3) * lda + k + 1) * d1; sum = sum + A ((j + 3) * lda + k + 2) * d2; sum = sum + A ((j + 3) * lda + k + 3) * d3;
           C = c_add C ((j + 3) * lda + i) sum;
           sum = A ((j + 3) * lda + k) * c0;
           sum = sum + A ((j + 3) * lda + k + 1) * c1; sum = sum + A ((j + 3) * lda + k + 2) * c2; sum = sum + A ((j + 3) * lda + k + 3) * c3;
           C = c_add C ((j + 3) * lda + i + 1) sum
       in C) C))"

definition cg_matmul :: kernel where
  "cg_matmul coreid ncores lda A B = c_for 0 lda 2 (\<lambda>i. c_for 0 lda 4 (\<lambda>k C.
     let d0 = B (k * lda + i); c0 = B (k * lda + i + 1);
         d1 = B ((k + 1) * lda + i); c1 = B ((k + 1) * lda + i + 1);
         d2 = B ((k + 2) * lda + i); c2 = B ((k + 2) * lda + i + 1);
         d3 = B ((k + 3) * lda + i); c3 = B ((k + 3) * lda + i + 1)
     in c_for (coreid * (lda div ncores)) ((coreid + 1) * (lda div ncores)) 4 (\<lambda>j C.
       let sum = A (j * lda + k) * d0;
           sum = sum + A (j * lda + k + 1) * d1; sum = sum + A (j * lda + k + 2) * d2; sum = sum + A (j * lda + k + 3) * d3;
           C = c_add C (j * lda + i) sum;
           sum = A (j * lda + k) * c0;
           sum = sum + A (j * lda + k + 1) * c1; sum = sum + A (j * lda + k + 2) * c2; sum = sum + A (j * lda + k + 3) * c3;
           C = c_add C (j * lda + i + 1) sum;
           sum = A ((j + 1) * lda + k) * d0;
           sum = sum + A ((j + 1) * lda + k + 1) * d1; sum = sum + A ((j + 1) * lda + k + 2) * d2; sum = sum + A ((j + 1) * lda + k + 3) * d3;
           C = c_add C ((j + 1) * lda + i) sum;
           sum = A ((j + 1) * lda + k) * c0;
           sum = sum + A ((j + 1) * lda + k + 1) * c1; sum = sum + A ((j + 1) * lda + k + 2) * c2; sum = sum + A ((j + 1) * lda + k + 3) * c3;
           C = c_add C ((j + 1) * lda + i + 1) sum;
           sum = A ((j + 2) * lda + k) * d0;
           sum = sum + A ((j + 2) * lda + k + 1) * d1; sum = sum + A ((j + 2) * lda + k + 2) * d2; sum = sum + A ((j + 2) * lda + k + 3) * d3;
           C = c_add C ((j + 2) * lda + i) sum;
           sum = A ((j + 2) * lda + k) * c0;
           sum = sum + A ((j + 2) * lda + k + 1) * c1; sum = sum + A ((j + 2) * lda + k + 2) * c2; sum = sum + A ((j + 2) * lda + k + 3) * c3;
           C = c_add C ((j + 2) * lda + i + 1) sum;
           sum = A ((j + 3) * lda + k) * d0;
           sum = sum + A ((j + 3) * lda + k + 1) * d1; sum = sum + A ((j + 3) * lda + k + 2) * d2; sum = sum + A ((j + 3) * lda + k + 3) * d3;
           C = c_add C ((j + 3) * lda + i) sum;
           sum = A ((j + 3) * lda + k) * c0;
           sum = sum + A ((j + 3) * lda + k + 1) * c1; sum = sum + A ((j + 3) * lda + k + 2) * c2; sum = sum + A ((j + 3) * lda + k + 3) * c3;
           C = c_add C ((j + 3) * lda + i + 1) sum
       in C) C))"

subsection \<open>ae\<close>

text \<open>
  Row \<open>k\<close> of \<^verbatim>\<open>B\<close> is transposed by all threads before any of them goes on to the next; \<open>orders k\<close> is
  the order in which they do it.
\<close>

definition ae_transpose :: "nat \<Rightarrow> nat \<Rightarrow> nat \<Rightarrow> c_array \<Rightarrow> nat \<Rightarrow> c_array \<Rightarrow> c_array" where
  "ae_transpose coreid ncores lda B k = c_for (coreid * (lda div ncores)) ((coreid + 1) * (lda div ncores)) 1
     (\<lambda>i BB. BB(i * lda + k := B (k * lda + i)))"

definition ae_compute :: "nat \<Rightarrow> nat \<Rightarrow> nat \<Rightarrow> c_array \<Rightarrow> c_array \<Rightarrow> c_array \<Rightarrow> c_array" where
  "ae_compute coreid ncores lda A BB = c_for 0 lda 4 (\<lambda>i. c_for (coreid * (lda div ncores)) ((coreid + 1) * (lda div ncores)) 1 (\<lambda>j C.
     let
         b1 = (\<lambda>n. BB ((i + 0) * lda + n)); b2 = (\<lambda>n. BB ((i + 1) * lda + n));
         b3 = (\<lambda>n. BB ((i + 2) * lda + n)); b4 = (\<lambda>n. BB ((i + 3) * lda + n));
         (c1, c2, c3, c4) =
           c_for 0 lda 8 (\<lambda>k (c1, c2, c3, c4).
              let a1 = A (j * lda + k + 0); a2 = A (j * lda + k + 1); a3 = A (j * lda + k + 2); a4 = A (j * lda + k + 3);
                  a5 = A (j * lda + k + 4); a6 = A (j * lda + k + 5); a7 = A (j * lda + k + 6); a8 = A (j * lda + k + 7);
                  c1 = c1 + a1 * b1 (k + 0); c1 = c1 + a2 * b1 (k + 1); c1 = c1 + a3 * b1 (k + 2); c1 = c1 + a4 * b1 (k + 3);
                  c1 = c1 + a5 * b1 (k + 4); c1 = c1 + a6 * b1 (k + 5); c1 = c1 + a7 * b1 (k + 6); c1 = c1 + a8 * b1 (k + 7);
                  c2 = c2 + a1 * b2 (k + 0); c2 = c2 + a2 * b2 (k + 1); c2 = c2 + a3 * b2 (k + 2); c2 = c2 + a4 * b2 (k + 3);
                  c2 = c2 + a5 * b2 (k + 4); c2 = c2 + a6 * b2 (k + 5); c2 = c2 + a7 * b2 (k + 6); c2 = c2 + a8 * b2 (k + 7);
                  c3 = c3 + a1 * b3 (k + 0); c3 = c3 + a2 * b3 (k + 1); c3 = c3 + a3 * b3 (k + 2); c3 = c3 + a4 * b3 (k + 3);
                  c3 = c3 + a5 * b3 (k + 4); c3 = c3 + a6 * b3 (k + 5); c3 = c3 + a7 * b3 (k + 6); c3 = c3 + a8 * b3 (k + 7);
                  c4 = c4 + a1 * b4 (k + 0); c4 = c4 + a2 * b4 (k + 1); c4 = c4 + a3 * b4 (k + 2); c4 = c4 + a4 * b4 (k + 3);
                  c4 = c4 + a5 * b4 (k + 4); c4 = c4 + a6 * b4 (k + 5); c4 = c4 + a7 * b4 (k + 6); c4 = c4 + a8 * b4 (k + 7)
              in (c1, c2, c3, c4)) (0, 0, 0, 0)
     in C(i + 0 + j * lda := c1, i + 1 + j * lda := c2, i + 2 + j * lda := c3, i + 3 + j * lda := c4)))"

definition ae_run :: "(nat \<Rightarrow> nat list) \<Rightarrow> nat list \<Rightarrow> nat \<Rightarrow> c_array \<Rightarrow> c_array \<Rightarrow> c_array \<Rightarrow> c_array \<Rightarrow> c_array" where
  "ae_run orders cids nc A B BB C =
     (let BB = c_for 0 32 1 (\<lambda>k. fold (\<lambda>cid. ae_transpose cid nc 32 B k) (orders k)) BB
      in fold (\<lambda>cid. ae_compute cid nc 32 A BB) cids C)"

subsection \<open>ce\<close>

definition ce_transpose :: "nat \<Rightarrow> nat \<Rightarrow> nat \<Rightarrow> c_array \<Rightarrow> nat \<Rightarrow> c_array \<Rightarrow> c_array" where
  "ce_transpose coreid ncores lda B k = c_for (coreid * (lda div ncores)) ((coreid + 1) * (lda div ncores)) 1
     (\<lambda>i BB. BB(i * lda + k := B (k * lda + i)))"

definition ce_compute :: "nat \<Rightarrow> nat \<Rightarrow> nat \<Rightarrow> c_array \<Rightarrow> c_array \<Rightarrow> c_array \<Rightarrow> c_array" where
  "ce_compute coreid ncores lda A BB = c_for 0 ncores 1 (\<lambda>x.
     c_for (x * (32 div ncores)) ((x + 1) * (32 div ncores)) 8 (\<lambda>i.
       c_for (coreid * (lda div ncores)) ((coreid + 1) * (lda div ncores)) 1 (\<lambda>j C.
     let
         b1 = (\<lambda>n. BB ((i + 0) * lda + n)); b2 = (\<lambda>n. BB ((i + 1) * lda + n));
         b3 = (\<lambda>n. BB ((i + 2) * lda + n)); b4 = (\<lambda>n. BB ((i + 3) * lda + n));
         b5 = (\<lambda>n. BB ((i + 4) * lda + n)); b6 = (\<lambda>n. BB ((i + 5) * lda + n));
         b7 = (\<lambda>n. BB ((i + 6) * lda + n)); b8 = (\<lambda>n. BB ((i + 7) * lda + n));
         (c1, c2, c3, c4, c5, c6, c7, c8) =
           c_for 0 lda 8 (\<lambda>k (c1, c2, c3, c4, c5, c6, c7, c8).
              let a1 = A (j * lda + k + 0); a2 = A (j * lda + k + 1); a3 = A (j * lda + k + 2); a4 = A (j * lda + k + 3);
                  a5 = A (j * lda + k + 4); a6 = A (j * lda + k + 5); a7 = A (j * lda + k + 6); a8 = A (j * lda + k + 7);
                  c1 = c1 + a1 * b1 (k + 0); c1 = c1 + a2 * b1 (k + 1); c1 = c1 + a3 * b1 (k + 2); c1 = c1 + a4 * b1 (k + 3);
                  c1 = c1 + a5 * b1 (k + 4); c1 = c1 + a6 * b1 (k + 5); c1 = c1 + a7 * b1 (k + 6); c1 = c1 + a8 * b1 (k + 7);
                  c2 = c2 + a1 * b2 (k + 0); c2 = c2 + a2 * b2 (k + 1); c2 = c2 + a3 * b2 (k + 2); c2 = c2 + a4 * b2 (k + 3);
                  c2 = c2 + a5 * b2 (k + 4); c2 = c2 + a6 * b2 (k + 5); c2 = c2 + a7 * b2 (k + 6); c2 = c2 + a8 * b2 (k + 7);
                  c3 = c3 + a1 * b3 (k + 0); c3 = c3 + a2 * b3 (k + 1); c3 = c3 + a3 * b3 (k + 2); c3 = c3 + a4 * b3 (k + 3);
                  c3 = c3 + a5 * b3 (k + 4); c3 = c3 + a6 * b3 (k + 5); c3 = c3 + a7 * b3 (k + 6); c3 = c3 + a8 * b3 (k + 7);
                  c4 = c4 + a1 * b4 (k + 0); c4 = c4 + a2 * b4 (k + 1); c4 = c4 + a3 * b4 (k + 2); c4 = c4 + a4 * b4 (k + 3);
                  c4 = c4 + a5 * b4 (k + 4); c4 = c4 + a6 * b4 (k + 5); c4 = c4 + a7 * b4 (k + 6); c4 = c4 + a8 * b4 (k + 7);
                  c5 = c5 + a1 * b5 (k + 0); c5 = c5 + a2 * b5 (k + 1); c5 = c5 + a3 * b5 (k + 2); c5 = c5 + a4 * b5 (k + 3);
                  c5 = c5 + a5 * b5 (k + 4); c5 = c5 + a6 * b5 (k + 5); c5 = c5 + a7 * b5 (k + 6); c5 = c5 + a8 * b5 (k + 7);
                  c6 = c6 + a1 * b6 (k + 0); c6 = c6 + a2 * b6 (k + 1); c6 = c6 + a3 * b6 (k + 2); c6 = c6 + a4 * b6 (k + 3);
                  c6 = c6 + a5 * b6 (k + 4); c6 = c6 + a6 * b6 (k + 5); c6 = c6 + a7 * b6 (k + 6); c6 = c6 + a8 * b6 (k + 7);
                  c7 = c7 + a1 * b7 (k + 0); c7 = c7 + a2 * b7 (k + 1); c7 = c7 + a3 * b7 (k + 2); c7 = c7 + a4 * b7 (k + 3);
                  c7 = c7 + a5 * b7 (k + 4); c7 = c7 + a6 * b7 (k + 5); c7 = c7 + a7 * b7 (k + 6); c7 = c7 + a8 * b7 (k + 7);
                  c8 = c8 + a1 * b8 (k + 0); c8 = c8 + a2 * b8 (k + 1); c8 = c8 + a3 * b8 (k + 2); c8 = c8 + a4 * b8 (k + 3);
                  c8 = c8 + a5 * b8 (k + 4); c8 = c8 + a6 * b8 (k + 5); c8 = c8 + a7 * b8 (k + 6); c8 = c8 + a8 * b8 (k + 7)
              in (c1, c2, c3, c4, c5, c6, c7, c8)) (0, 0, 0, 0, 0, 0, 0, 0);
         C = c_add C (i + 0 + j * lda) c1;
         C = c_add C (i + 1 + j * lda) c2;
         C = c_add C (i + 2 + j * lda) c3;
         C = c_add C (i + 3 + j * lda) c4;
         C = c_add C (i + 4 + j * lda) c5;
         C = c_add C (i + 5 + j * lda) c6;
         C = c_add C (i + 6 + j * lda) c7;
         C = c_add C (i + 7 + j * lda) c8
     in C)))"

definition ce_run :: "(nat \<Rightarrow> nat list) \<Rightarrow> nat list \<Rightarrow> nat \<Rightarrow> c_array \<Rightarrow> c_array \<Rightarrow> c_array \<Rightarrow> c_array \<Rightarrow> c_array" where
  "ce_run orders cids nc A B BB C =
     (let BB = c_for 0 32 1 (\<lambda>k. fold (\<lambda>cid. ce_transpose cid nc 32 B k) (orders k)) BB
      in fold (\<lambda>cid. ce_compute cid nc 32 A BB) cids C)"

subsection \<open>Sums over eight indices\<close>

lemma c_sum_eights:
  "c_sum 0 (n * 8) 8 (\<lambda>k. g k + (g (k + 1) + (g (k + 2) + (g (k + 3) + (g (k + 4) + (g (k + 5) + (g (k + 6) + (g (k + 7))))))))) = (\<Sum>k = 0..<n * 8. g k)"
proof -
  have "c_sum 0 (n * 8) 8 f = (\<Sum>k\<leftarrow>[0..<n]. f (k * 8))" for f
    using c_range_mult [of 8 0 n] by (simp add: c_sum_def comp_def)
  moreover have "(\<Sum>k\<leftarrow>[0..<n]. (\<lambda>k. g k + (g (k + 1) + (g (k + 2) + (g (k + 3) + (g (k + 4) + (g (k + 5) + (g (k + 6) + (g (k + 7))))))))) (k * 8)) = (\<Sum>k = 0..<n * 8. g k)"
    by (induction n) (simp_all add: add.assoc numeral_eq_Suc)
  ultimately show ?thesis by simp
qed

definition transposed :: "c_array \<Rightarrow> c_array \<Rightarrow> bool" where
  "transposed B BB \<longleftrightarrow> (\<forall>i < 32. \<forall>k < 32. BB (i * 32 + k) = B (k * 32 + i))"

lemma transposedD: "transposed B BB \<Longrightarrow> i < 32 \<Longrightarrow> k < 32 \<Longrightarrow> BB (i * 32 + k) = B (k * 32 + i)"
  by (simp add: transposed_def)

lemma dot_eights:
  assumes "transposed B BB" "i < 32"
  shows "0 + c_sum 0 32 8 (\<lambda>k. A (j * 32 + k) * BB (i * 32 + k) + (A (j * 32 + (k + 1)) * BB (i * 32 + (k + 1)) + (A (j * 32 + (k + 2)) * BB (i * 32 + (k + 2)) + (A (j * 32 + (k + 3)) * BB (i * 32 + (k + 3)) + (A (j * 32 + (k + 4)) * BB (i * 32 + (k + 4)) + (A (j * 32 + (k + 5)) * BB (i * 32 + (k + 5)) + (A (j * 32 + (k + 6)) * BB (i * 32 + (k + 6)) + (A (j * 32 + (k + 7)) * BB (i * 32 + (k + 7)))))))))) = mat_prod A B (j * 32 + i)"
proof -
  let ?g = "\<lambda>k. A (j * 32 + k) * BB (i * 32 + k)"
  have "mat_prod A B (j * 32 + i) = (\<Sum>k = 0..<4 * 8. ?g k)"
    using assms by (simp add: mat_prod_at transposedD)
  then show ?thesis unfolding c_sum_eights [symmetric] by simp
qed


subsection \<open>Four rows by two columns\<close>

lemma addc_4_2:
  assumes "p0 = j * 32 + i" "p1 = j * 32 + (i + 1)" "p2 = (j + 1) * 32 + i" "p3 = (j + 1) * 32 + (i + 1)"
    "p4 = (j + 2) * 32 + i" "p5 = (j + 2) * 32 + (i + 1)" "p6 = (j + 3) * 32 + i" "p7 = (j + 3) * 32 + (i + 1)"
    and "s0 = v (j * 32 + i)" "s1 = v (j * 32 + (i + 1))" "s2 = v ((j + 1) * 32 + i)" "s3 = v ((j + 1) * 32 + (i + 1))"
    "s4 = v ((j + 2) * 32 + i)" "s5 = v ((j + 2) * 32 + (i + 1))" "s6 = v ((j + 3) * 32 + i)" "s7 = v ((j + 3) * 32 + (i + 1))"
    and "jh = j + 4" "ih = i + 2" "ih \<le> 32"
  shows "adds (\<lambda>C. c_add (c_add (c_add (c_add (c_add (c_add (c_add (c_add C p0 s0) p1 s1) p2 s2) p3 s3) p4
      s4) p5 s5) p6 s6) p7 s7)
    (tile j jh i ih) v"
proof -
  let ?qs = "[(0, 0), (0, 1), (1, 0), (1, 1), (2, 0), (2, 1), (3, 0), (3, 1)] :: (nat \<times> nat) list"
  have "adds (\<lambda>C. fold (\<lambda>(p, s) D. c_add D p s)
      (zip (map (\<lambda>(q, r). (j + q) * 32 + (i + r)) ?qs)
        [s0, s1, s2, s3, s4, s5, s6, s7]) C)
    (tile j (j + 4) i (i + 2)) v"
  proof (rule addc_block)
    show "set ?qs = {0..<4} \<times> {0..<2}" unfolding upt_sets by force
  qed (use assms(18,19) in \<open>simp_all add: assms(1-16) ac_simps\<close>)
  then show ?thesis by (simp add: assms(1-8,17,18) ac_simps)
qed

text \<open>The rows of a thread, four at a time.\<close>

lemma own_rows: "block_rows nc cid = tile (cid * (32 div nc)) ((cid + 1) * (32 div nc)) 0 32"
  by (rule ext) (simp add: block_rows_def tile_def)

lemma own_range:
  fixes nc cid :: nat
  assumes "nc dvd 8" "cid < nc"
  shows "\<exists>q. (cid + 1) * (32 div nc) = cid * (32 div nc) + q * 4"
proof -
  obtain q where "32 div nc = q * 4" using rows_of_blocks [OF assms] by blast
  then show ?thesis by (intro exI [of _ q]) simp
qed

lemma ag_adds:
  assumes "nc dvd 8" "cid < nc"
  shows "adds (ag_matmul cid nc 32 A B) (block_rows nc cid) (mat_prod A B)"
proof -
  obtain q where q: "(cid + 1) * (32 div nc) = cid * (32 div nc) + q * 4" using own_range [OF assms] by blast
  show ?thesis
    unfolding ag_matmul_def own_rows mat_part_all [symmetric]
    by (rule adds_cols [where n = 16], simp, simp, rule adds_sum_loop [where n = 8], simp, simp, simp only: Let_def,
        rule adds_rows [OF q], simp, rule addc_4_2,
        simp_all add: mat_part_4 mat_term_at del: One_nat_def add_Suc_right add_2_eq_Suc' distrib_right_numeral)
      (simp_all add: mat_term_def mult.commute add.assoc)
qed


lemma cg_ag: "cg_matmul cid nc lda A B C = ag_matmul cid nc lda A B C"
  by (simp only: ag_matmul_def cg_matmul_def)

interpretation ag: mt_adding "\<lambda>nc. nc dvd 8" block_rows ag_matmul
  by unfold_locales (rule ag_adds)

interpretation cg: mt_adding "\<lambda>nc. nc dvd 8" block_rows cg_matmul
  by unfold_locales (simp add: cg_ag [abs_def] ag_adds)

subsection \<open>The transposed copy\<close>

lemma transpose_row:
  assumes "k < 32"
  shows "stores (ae_transpose cid nc 32 B k)
    (\<lambda>x. x mod 32 = k \<and> cid * (32 div nc) \<le> x div 32 \<and> x div 32 < (cid + 1) * (32 div nc))
    (\<lambda>x. B (x mod 32 * 32 + x div 32))"
proof -
  have "stores (\<lambda>BB. BB(i * 32 + k := B (k * 32 + i))) (\<lambda>x. x mod 32 = k \<and> x div 32 = i)
      (\<lambda>x. B (x mod 32 * 32 + x div 32))" for i
    using assms div_mult_mod_eq [of _ 32] by (intro storesI) (auto simp: fun_upd_def)
  then have "stores (fold (\<lambda>i BB. BB(i * 32 + k := B (k * 32 + i))) [cid * (32 div nc)..<(cid + 1) * (32 div nc)])
      (\<lambda>x. \<exists>i \<in> set [cid * (32 div nc)..<(cid + 1) * (32 div nc)]. x mod 32 = k \<and> x div 32 = i)
      (\<lambda>x. B (x mod 32 * 32 + x div 32))"
    by (intro stores_fold)
  then show ?thesis
    unfolding ae_transpose_def c_for_fold One_nat_def c_range_1 by (rule stores_cong) auto
qed

lemma transposed_all:
  assumes "nc dvd 8" "\<And>k. k < 32 \<Longrightarrow> set (orders k) = {0..<nc}"
  shows "transposed B (c_for 0 32 1 (\<lambda>k. fold (\<lambda>cid. ae_transpose cid nc 32 B k) (orders k)) BB)"
proof -
  let ?V = "\<lambda>x. B (x mod 32 * 32 + x div 32)"
  have "stores (fold (\<lambda>cid. ae_transpose cid nc 32 B k) (orders k)) (\<lambda>x. \<exists>cid \<in> set (orders k). x mod 32 = k \<and> block_rows nc cid x) ?V"
    if "k < 32" for k
    using transpose_row [OF that] by (intro stores_fold) (simp add: block_rows_def)
  then have "stores (fold (\<lambda>k. fold (\<lambda>cid. ae_transpose cid nc 32 B k) (orders k)) [0..<32])
      (\<lambda>x. \<exists>k \<in> set [0..<32]. \<exists>cid \<in> set (orders k). x mod 32 = k \<and> block_rows nc cid x) ?V"
    by (rule stores_fold) simp
  moreover have "\<exists>k \<in> set [0..<32]. \<exists>cid \<in> set (orders k). x mod 32 = k \<and> block_rows nc cid x" if "x < 1024" for x
    using block_rows_cover [OF dvd_8_32 [OF assms(1)] that] assms(2) [of "x mod 32"] by auto
  ultimately have "c_for 0 32 1 (\<lambda>k. fold (\<lambda>cid. ae_transpose cid nc 32 B k) (orders k)) BB x = ?V x" if "x < 1024" for x
    using that unfolding c_for_fold One_nat_def c_range_1 by (simp only: storesD if_True)
  then show ?thesis unfolding transposed_def by simp
qed

lemma ce_transpose_ae: "ce_transpose cid nc lda B k = ae_transpose cid nc lda B k"
  by (simp only: ae_transpose_def ce_transpose_def)

lemma ae_stores:
  assumes "nc dvd 8" "cid < nc" "transposed B BB"
  shows "stores (ae_compute cid nc 32 A BB) (block_rows nc cid) (mat_prod A B)"
proof -
  have r: "(cid + 1) * (32 div nc) = cid * (32 div nc) + 32 div nc * 1" by simp
  show ?thesis
    unfolding ae_compute_def own_rows
    by (rule stores_cols [where n = 8], simp, simp, rule stores_rows [OF r], simp,
        simp only: Let_def prod.case add.assoc add_0_right, simp only: acc4 prod.case, rule stores_row4)
      (rule dot_eights [OF assms(3), where A = A] | simp)+
qed

lemma rows_of_quarter:
  fixes nc :: nat
  assumes "nc dvd 4"
  obtains w where "32 div nc = w * 8" "w * 8 * nc = 32"
proof -
  obtain d where d: "4 = nc * d" using assms by blast
  then have "0 < nc" by (auto intro: Nat.gr0I)
  moreover have w: "32 = nc * (d * 8)" unfolding mult.assoc [symmetric] d [symmetric] by simp
  ultimately have "32 div nc = d * 8" by (metis nonzero_mult_div_cancel_left less_numeral_extra(3))
  with w that show ?thesis by (simp add: mult.commute)
qed

lemma ce_adds:
  assumes "nc dvd 4" "cid < nc" "transposed B BB"
  shows "adds (ce_compute cid nc 32 A BB) (block_rows nc cid) (mat_prod A B)"
proof -
  obtain w where w: "32 div nc = w * 8" "w * 8 * nc = 32" using rows_of_quarter [OF assms(1)] by blast
  have r: "(cid + 1) * (32 div nc) = cid * (32 div nc) + 32 div nc * 1" by simp
  have cols: "adds (c_for (x * (32 div nc)) ((x + 1) * (32 div nc)) 8 body)
      (tile jl jh (w * 8 * x) (w * 8 * (x + 1))) v"
    if "x < nc" "\<And>i. i + 8 \<le> 32 \<Longrightarrow> adds (body i) (tile jl jh i (i + 8)) v" for x body jl jh v
  proof -
    have "(x + 1) * (w * 8) \<le> nc * (w * 8)" using that(1) by (intro mult_le_mono1) simp
    moreover have "nc * (w * 8) = 32" using w(2) by (simp only: mult.commute [of nc])
    ultimately have top: "(x + 1) * (32 div nc) \<le> 32" by (simp only: w(1))
    have "adds (c_for (x * (32 div nc)) ((x + 1) * (32 div nc)) 8 body) (tile jl jh (x * (32 div nc)) ((x + 1) * (32 div nc))) v"
      by (rule adds_cols [where n = w]) (use w(1) top that(2) in \<open>auto\<close>)
    then show ?thesis by (simp add: w(1) ac_simps)
  qed
  have "adds (ce_compute cid nc 32 A BB) (tile (cid * (32 div nc)) ((cid + 1) * (32 div nc)) 0 (w * 8 * nc)) (mat_prod A B)"
    unfolding ce_compute_def
    by (rule adds_col_blocks, rule cols, assumption, rule adds_rows [OF r], simp,
        simp only: Let_def prod.case add.assoc add_0_right, simp only: acc8 prod.case, rule addc_1_8)
      (rule dot_eights [OF assms(3), where A = A] | simp)+
  then show ?thesis unfolding own_rows w(2) .
qed

subsection \<open>What the threads compute\<close>

text \<open>A thread after the barrier, on the transposed matrix.\<close>

definition transpose_of :: "c_array \<Rightarrow> c_array" where
  "transpose_of B x = B (x mod 32 * 32 + x div 32)"

lemma transpose_of: "transposed B (transpose_of B)"
  by (simp add: transposed_def transpose_of_def)

definition ae_local :: kernel where
  "ae_local cid nc lda A B C = ae_compute cid nc lda A (transpose_of B) C"

definition ce_local :: kernel where
  "ce_local cid nc lda A B C = ce_compute cid nc lda A (transpose_of B) C"

interpretation ae: mt_storing "\<lambda>nc. nc dvd 8" block_rows ae_local
  by unfold_locales (simp add: ae_local_def [abs_def] ae_stores transpose_of)

lemma dvd_4_8: "nc dvd 4 \<Longrightarrow> nc dvd (8 :: nat)"
  using dvd_trans [of nc 4 8] by simp

interpretation block_rows_4: mt_share "\<lambda>nc. nc dvd 4" block_rows
  by unfold_locales (erule block_rows_8.cover [OF dvd_4_8], assumption, erule block_rows_8.apart [OF dvd_4_8])

interpretation ce: mt_adding "\<lambda>nc. nc dvd 4" block_rows ce_local
  by unfold_locales (simp add: ce_local_def [abs_def] ce_adds transpose_of)

lemma ae_run_local:
  assumes "nc dvd 8" "\<And>k. k < 32 \<Longrightarrow> set (orders k) = {0..<nc}" "set cids = {0..<nc}"
  shows "ae_run orders cids nc A B BB C = mt_run ae_local cids nc A B C"
proof -
  let ?BB = "c_for 0 32 1 (\<lambda>k. fold (\<lambda>cid. ae_transpose cid nc 32 B k) (orders k)) BB"
  have "ae_compute cid nc 32 A ?BB = ae_local cid nc 32 A B" if "cid \<in> set cids" for cid
    using that assms(3) storesD [OF ae_stores [OF assms(1) _ transposed_all [OF assms(1,2)]]] storesD [OF ae.stores [OF assms(1)]]
    by (intro ext) simp
  then show ?thesis
    unfolding ae_run_def mt_run_def Let_def by (intro fold_cong) simp_all
qed

lemma ce_run_local:
  assumes "nc dvd 4" "\<And>k. k < 32 \<Longrightarrow> set (orders k) = {0..<nc}" "set cids = {0..<nc}"
  shows "ce_run orders cids nc A B BB C = mt_run ce_local cids nc A B C"
proof -
  let ?BB = "c_for 0 32 1 (\<lambda>k. fold (\<lambda>cid. ae_transpose cid nc 32 B k) (orders k)) BB"
  have "ce_compute cid nc 32 A ?BB = ce_local cid nc 32 A B" if "cid \<in> set cids" for cid
    using that assms(3) addsD [OF ce_adds [OF assms(1) _ transposed_all [OF dvd_4_8 [OF assms(1)] assms(2)]]] addsD [OF ce.adds [OF assms(1)]]
    by (intro ext) simp
  then show ?thesis
    unfolding ce_run_def mt_run_def Let_def ce_transpose_ae [abs_def] by (intro fold_cong) simp_all
qed

text \<open>
  C39. The kernels \<^verbatim>\<open>ag\<close> and \<^verbatim>\<open>cg\<close>, and \<^verbatim>\<open>ae\<close> and \<^verbatim>\<open>ce\<close>, which first transpose \<^verbatim>\<open>B\<close> into a shared array,
  multiply two 32 by 32 matrices modulo \<open>2^32\<close> for 1, 2 or 4 threads: whatever the shared array
  held before, in whatever order the threads transpose each row between its barriers and compute
  after the last one, every entry of a zeroed \<^verbatim>\<open>C\<close> becomes the row-by-column product.
\<close>

theorem register_kernels_multiply:
  assumes "nc dvd 4" "distinct cids" "set cids = {0..<nc}" "C x = 0" "x < 1024"
    and "\<And>k. k < 32 \<Longrightarrow> set (orders k) = {0..<nc}"
  shows "mt_run ag_matmul cids nc A B C x = mat_prod A B x \<and> mt_run cg_matmul cids nc A B C x = mat_prod A B x
    \<and> ae_run orders cids nc A B BB C x = mat_prod A B x \<and> ce_run orders cids nc A B BB C x = mat_prod A B x"
  using ag.product [of nc cids C x A B] cg.product [of nc cids C x A B] ae.product [of nc cids C x A B]
    ce.product [of nc cids C x A B] assms(1-5) dvd_4_8 [OF assms(1)] ae_run_local [of nc orders cids A B BB C]
    ce_run_local [of nc orders cids A B BB C] assms(6) by simp

theorem register_kernels_multiply_witness:
  "ae_run (\<lambda>k. if even k then [0, 1] else [1, 0]) [1, 0] 2 (\<lambda>_. 3) (\<lambda>_. 2) (\<lambda>_. 99) (\<lambda>_. 0) 700 = 192"
  using register_kernels_multiply [of 2 "[1, 0]" "\<lambda>_. 0" 700 "\<lambda>k. if even k then [0, 1] else [1, 0]" "\<lambda>_. 3" "\<lambda>_. 2" "\<lambda>_. 99"]
  by (simp add: mat_prod_def insert_commute upt_sets)

end
