(* ===== verification/Tiny_Malloc.thy ===== *)
theory Tiny_Malloc
  imports C_Memory
begin

text \<open>
  The allocator \<^verbatim>\<open>riscv-tests/debug/programs/tiny-malloc.c\<close> for an upward growing heap
  (\<^verbatim>\<open>MALLOC_DIRECTION\<close> is 1) on a 64-bit machine. Addresses and sizes are natural numbers, with
  the wrap-around of \<^verbatim>\<open>size_t\<close> written out; block headers live in the byte memory, so the data of
  allocated blocks and the links of free ones share it as in the code. \<^verbatim>\<open>MALLOC_LIMIT\<close>, the
  frame address of the caller, is an argument.

  The invariant has two halves: \<open>layout\<close> says that the blocks tile the heap, \<open>chain\<close> that the free
  list links the free ones. Each operation is one of the steps \<open>split\<close>, \<open>extend\<close>, \<open>grow\<close>, \<open>merge\<close> on
  layouts.
\<close>

subsection \<open>Sizes\<close>

definition wadd :: "nat \<Rightarrow> nat \<Rightarrow> nat" where
  "wadd a b = (a + b) mod 2 ^ 64"

definition wsub :: "nat \<Rightarrow> nat \<Rightarrow> nat" where
  "wsub a b = (a + (2 ^ 64 - b mod 2 ^ 64)) mod 2 ^ 64"

definition m_align :: "nat \<Rightarrow> nat \<Rightarrow> nat" where
  "m_align x align = wsub 0 x AND wsub align 1"

definition real_size :: "nat \<Rightarrow> nat" where
  "real_size sz = (if sz < 16 - 8 then 16 else wadd (wadd sz 8) (m_align sz 8))"

lemma wadd_eq: "a + b < 2 ^ 64 \<Longrightarrow> wadd a b = a + b"
  by (simp add: wadd_def)

lemma wsub_eq: "b \<le> a \<Longrightarrow> a < 2 ^ 64 \<Longrightarrow> wsub a b = a - b"
proof -
  assume a: "b \<le> a" "a < 2 ^ 64"
  then have "b mod 2 ^ 64 = b" by (intro mod_less) linarith
  with a have "a + (2 ^ 64 - b mod 2 ^ 64) = (a - b) + 2 ^ 64" by linarith
  then have "wsub a b = ((a - b) + 2 ^ 64) mod 2 ^ 64" by (simp only: wsub_def)
  also have "\<dots> = (a - b) mod 2 ^ 64" by (rule mod_add_self2)
  also have "\<dots> = a - b" using a by (intro mod_less) linarith
  finally show ?thesis .
qed

lemma neg_mod: "y \<le> d * q \<Longrightarrow> 0 < d \<Longrightarrow> (d * q - y) mod d = (d - y mod d) mod (d :: nat)"
proof -
  assume y: "y \<le> d * q" and d0: "0 < d"
  have d: "y = d * (y div d) + y mod d" by simp
  show ?thesis
  proof (cases "y mod d = 0")
    case True
    with d have "d * q - y = d * (q - y div d)" by (simp add: diff_mult_distrib2)
    with True show ?thesis by simp
  next
    case False
    have r: "y mod d < d" using d0 by simp
    have "d * (y div d) < d * q" using y d False by linarith
    then have "y div d < q" by simp
    then obtain e where "q = Suc (y div d + e)" using less_iff_Suc_add by auto
    then have "d * q = d * (y div d) + d + d * e" by (simp add: distrib_left)
    then have "d * q - y = (d - y mod d) + d * e" using d r by linarith
    then show ?thesis by (simp only: mod_mult_self2)
  qed
qed

lemma m_align_exp:
  assumes "k < 64"
  shows "m_align x (2 ^ k) = (2 ^ k - x mod 2 ^ k) mod 2 ^ k"
proof -
  have "2 ^ k * 2 ^ (64 - k) = (2 :: nat) ^ (k + (64 - k))" by (rule power_add [symmetric])
  then have w: "2 ^ k * 2 ^ (64 - k) = (2 :: nat) ^ 64" using assms by simp
  have "2 ^ k dvd (2 :: nat) ^ 64" unfolding w [symmetric] by (rule dvd_triv_left)
  then have cut: "z mod 2 ^ 64 mod 2 ^ k = z mod 2 ^ k" for z :: nat by (rule mod_mod_cancel)
  have "(2 :: nat) ^ k < 2 ^ 64" using assms by (intro power_strict_increasing) simp_all
  then have "wsub (2 ^ k) 1 = 2 ^ k - 1" by (intro wsub_eq) simp_all
  then have ones: "wsub (2 ^ k) 1 = mask k" by (simp add: mask_eq_exp_minus_1)
  have "m_align x (2 ^ k) = wsub 0 x mod 2 ^ k"
    unfolding m_align_def ones take_bit_eq_mask [symmetric] take_bit_eq_mod ..
  also have "\<dots> = (2 ^ 64 - x mod 2 ^ 64) mod 2 ^ k"
    unfolding wsub_def cut by (simp only: add_0)
  also have "\<dots> = (2 ^ k - x mod 2 ^ 64 mod 2 ^ k) mod 2 ^ k"
    unfolding w [symmetric] by (rule neg_mod) (simp_all add: less_imp_le)
  finally show ?thesis unfolding cut .
qed

lemma m_align_8: "m_align x 8 = (8 - x mod 8) mod 8"
  using m_align_exp [of 3 x] by simp

text \<open>
  For a request that does not wrap, the block holds it with its header, is a multiple of eight
  and large enough to carry a free-list entry later.
\<close>

lemma pad_8: "8 dvd sz + 8 + (8 - sz mod 8) mod (8 :: nat)" "(8 - sz mod 8) mod (8 :: nat) < 8"
proof -
  obtain q r where d: "sz = 8 * q + r" "r < 8" "sz mod 8 = r"
    by (rule that [of "sz div 8" "sz mod 8"]) (rule mult_div_mod_eq [symmetric], rule mod_less_divisor, rule zero_less_numeral, rule refl)
  have "(8 - r) mod 8 = (if r = 0 then 0 else 8 - r)" using d(2) by simp
  then have "sz + 8 + (8 - r) mod 8 = (if r = 0 then 8 * (q + 1) else 8 * (q + 2))" using d(1,2) by simp
  then show "8 dvd sz + 8 + (8 - sz mod 8) mod (8 :: nat)" unfolding d(3) by simp
  show "(8 - sz mod 8) mod (8 :: nat) < 8" by (rule mod_less_divisor) simp
qed

lemma real_size_eq:
  assumes "sz + 16 < 2 ^ 64"
  shows "real_size sz = (if sz < 8 then 16 else sz + 8 + (8 - sz mod 8) mod 8)"
proof -
  have "wadd sz 8 = sz + 8" using assms by (intro wadd_eq) linarith
  moreover have "wadd (sz + 8) ((8 - sz mod 8) mod 8) = sz + 8 + (8 - sz mod 8) mod 8"
    using assms pad_8(2) [of sz] by (intro wadd_eq) linarith
  ultimately show ?thesis by (simp add: real_size_def m_align_8)
qed

lemma real_size_bounds:
  assumes "sz + 16 < 2 ^ 64"
  shows "sz + 8 \<le> real_size sz" "16 \<le> real_size sz" "8 dvd real_size sz" "real_size sz \<le> sz + 16"
  unfolding real_size_eq [OF assms] using pad_8 [of sz] by auto

text \<open>A request close to the top of the address space wraps to a tiny block.\<close>

lemma real_size_wraps: "real_size (2 ^ 64 - 8) = 0" "real_size (2 ^ 64 - 1) = 8"
  unfolding real_size_def m_align_8 by (simp_all add: wadd_def)

subsection \<open>The heap\<close>

record heap =
  hmem :: mem
  malloc_end :: nat
  malloc_freelist :: nat

definition ld :: "mem \<Rightarrow> nat \<Rightarrow> nat" where
  "ld m a = unat (load64 m a)"

definition st :: "mem \<Rightarrow> nat \<Rightarrow> nat \<Rightarrow> mem" where
  "st m a v = store64 a (word_of_nat v) m"

text \<open>What a \<^verbatim>\<open>fle *nextfree\<close> points to: the list head or the \<^verbatim>\<open>next\<close> field of a block.\<close>

datatype link = Head | Next nat

fun get_link :: "heap \<Rightarrow> link \<Rightarrow> nat" where
  "get_link s Head = malloc_freelist s"
| "get_link s (Next b) = ld (hmem s) (b + 8)"

fun set_link :: "link \<Rightarrow> nat \<Rightarrow> heap \<Rightarrow> heap" where
  "set_link Head v s = s\<lparr>malloc_freelist := v\<rparr>"
| "set_link (Next b) v s = s\<lparr>hmem := st (hmem s) (b + 8) v\<rparr>"

definition set_word :: "nat \<Rightarrow> nat \<Rightarrow> heap \<Rightarrow> heap" where
  "set_word a v s = s\<lparr>hmem := st (hmem s) a v\<rparr>"

definition can_alloc :: "nat \<Rightarrow> nat \<Rightarrow> heap \<Rightarrow> bool" where
  "can_alloc limit required s \<longleftrightarrow> required \<le> wsub (wsub limit (malloc_end s)) 32"

partial_function (option) malloc_scan :: "nat \<Rightarrow> nat \<Rightarrow> link \<Rightarrow> heap \<Rightarrow> (nat \<times> heap) option" where
  "malloc_scan limit rs nextfree s =
     (let block = get_link s nextfree
      in if block = 0
         then if \<not> can_alloc limit rs s then Some (0, s)
              else let block = malloc_end s;
                       s = s\<lparr>malloc_end := wadd (malloc_end s) rs\<rparr>
                   in Some (block + 8, set_word block rs s)
         else let size = ld (hmem s) block;
                  next = ld (hmem s) (block + 8)
              in if rs \<le> size
                 then if size < wadd rs 16 then Some (block + 8, set_link nextfree next s)
                      else let newsize = wsub size rs;
                               newblock = wadd block rs;
                               s = set_link nextfree newblock s;
                               s = set_word newblock newsize s;
                               s = set_word (newblock + 8) next s
                           in Some (block + 8, set_word block rs s)
                 else if next = 0 \<and> malloc_end s = wadd block size
                 then let moresize = wsub rs size
                      in if \<not> can_alloc limit moresize s then Some (0, s)
                         else let s = set_link nextfree 0 s;
                                  s = s\<lparr>malloc_end := wadd block rs\<rparr>
                              in Some (block + 8, set_word block rs s)
                 else malloc_scan limit rs (Next block) s)"

definition malloc :: "nat \<Rightarrow> nat \<Rightarrow> heap \<Rightarrow> (nat \<times> heap) option" where
  "malloc limit sz s = malloc_scan limit (real_size sz) Head s"

subsection \<open>Layouts\<close>

text \<open>
  The blocks with start addresses \<open>A\<close> and sizes \<open>sz\<close> tile the heap from \<open>lo\<close> to \<open>hi\<close>: none overlaps
  another and together they fill it.
\<close>

definition layout :: "nat \<Rightarrow> nat \<Rightarrow> (nat \<Rightarrow> nat) \<Rightarrow> nat set \<Rightarrow> bool" where
  "layout lo hi sz A \<longleftrightarrow> finite A \<and> lo \<le> hi
     \<and> (\<forall>a \<in> A. lo \<le> a \<and> a + sz a \<le> hi \<and> 16 \<le> sz a \<and> 8 dvd a \<and> 8 dvd sz a)
     \<and> (\<forall>a \<in> A. \<forall>b \<in> A. a < b \<longrightarrow> a + sz a \<le> b)
     \<and> (\<Sum>a \<in> A. sz a) = hi - lo"

lemma layoutD:
  assumes "layout lo hi sz A" "a \<in> A"
  shows "lo \<le> a" "a + sz a \<le> hi" "16 \<le> sz a" "8 dvd a" "8 dvd sz a"
  using assms unfolding layout_def by blast+

lemma layout_apart: "layout lo hi sz A \<Longrightarrow> a \<in> A \<Longrightarrow> b \<in> A \<Longrightarrow> a < b \<Longrightarrow> a + sz a \<le> b"
  unfolding layout_def by blast

lemma layout_sep:
  "layout lo hi sz A \<Longrightarrow> a \<in> A \<Longrightarrow> b \<in> A \<Longrightarrow> a \<noteq> b \<Longrightarrow> a + sz a \<le> b \<or> b + sz b \<le> a"
  using layout_apart [of lo hi sz A a b] layout_apart [of lo hi sz A b a] by (cases a b rule: linorder_cases) auto

lemma layout_cong: "layout lo hi sz A \<Longrightarrow> (\<And>a. a \<in> A \<Longrightarrow> sz' a = sz a) \<Longrightarrow> layout lo hi sz' A"
  unfolding layout_def by simp

lemma sum_upd: "finite A \<Longrightarrow> b \<in> A \<Longrightarrow> (\<Sum>a \<in> A. (f(b := r)) a) = (\<Sum>a \<in> A - {b}. f a) + (r :: nat)"
  by (simp add: sum.remove add.commute)

lemma sum_without: "finite A \<Longrightarrow> b \<in> A \<Longrightarrow> (\<Sum>a \<in> A. f a) = (\<Sum>a \<in> A - {b}. f a) + (f b :: nat)"
  by (simp add: sum.remove add.commute)

lemma layout_split:
  assumes L: "layout lo hi sz A" and b: "b \<in> A" and r: "16 \<le> r" "r + 16 \<le> sz b" "8 dvd r"
  shows "layout lo hi (sz(b := r, b + r := sz b - r)) (insert (b + r) A)"
proof -
  let ?s = "sz(b := r, b + r := sz b - r)"
  have new: "b + r \<notin> A"
  proof
    assume a: "b + r \<in> A"
    have "b < b + r" using r by linarith
    with a have "b + sz b \<le> b + r" by (rule layout_apart [OF L b])
    with r show False by linarith
  qed
  have fin: "finite A" using L by (simp add: layout_def)
  note bb = layoutD [OF L b]
  have old: "?s a = sz a" if "a \<in> A" "a \<noteq> b" for a using that new by auto
  have sb: "?s b = r" "?s (b + r) = sz b - r" using r by auto
  have "(\<Sum>a \<in> A. ?s a) = (\<Sum>a \<in> A. (sz(b := r)) a)" using new by (intro sum.cong) auto
  then have "(\<Sum>a \<in> insert (b + r) A. ?s a) = (\<Sum>a \<in> A - {b}. sz a) + r + (sz b - r)"
    using new fin b by (simp add: sum_upd sb(2) del: fun_upd_apply)
  also have "\<dots> = (\<Sum>a \<in> A. sz a)" using sum_without [OF fin b, of sz] r by linarith
  finally have sum: "(\<Sum>a \<in> insert (b + r) A. ?s a) = hi - lo" using L by (simp add: layout_def)
  have bounds: "lo \<le> a \<and> a + ?s a \<le> hi \<and> 16 \<le> ?s a \<and> 8 dvd a \<and> 8 dvd ?s a" if "a \<in> insert (b + r) A" for a
  proof -
    consider "a = b + r" | "a = b" | "a \<in> A" "a \<noteq> b" using \<open>a \<in> insert (b + r) A\<close> by blast
    then show ?thesis
    proof cases
      case 1
      have "8 dvd b + r" "8 dvd sz b - r" using bb(4,5) r by simp_all
      then show ?thesis unfolding 1 sb(2) using bb r by simp
    next
      case 2
      show ?thesis unfolding 2 sb(1) using bb r by simp
    next
      case 3
      then show ?thesis using old layoutD [OF L] by simp
    qed
  qed
  have apart: "a + ?s a \<le> c" if "a \<in> insert (b + r) A" "c \<in> insert (b + r) A" "a < c" for a c
  proof -
    consider "a = b + r" "c \<in> A" | "a = b" "c = b + r" | "a = b" "c \<in> A"
      | "a \<in> A" "a \<noteq> b" "c = b + r" | "a \<in> A" "a \<noteq> b" "c \<in> A" using \<open>a < c\<close> \<open>a \<in> insert (b + r) A\<close> \<open>c \<in> insert (b + r) A\<close> by blast
    then show ?thesis
    proof cases
      case 1
      have "b < c" using 1 that(3) by linarith
      then have "b + sz b \<le> c" using layout_apart [OF L b 1(2)] by simp
      then show ?thesis unfolding 1 sb(2) using r by linarith
    next
      case 2
      show ?thesis unfolding 2 sb(1) by simp
    next
      case 3
      have "b + sz b \<le> c" using layout_apart [OF L b 3(2)] that(3) 3(1) by simp
      then show ?thesis unfolding 3(1) sb(1) using r by linarith
    next
      case 4
      have "\<not> b < a" using layout_apart [OF L b 4(1)] 4 that(3) r by auto
      then have "a + sz a \<le> b" using layout_apart [OF L 4(1) b] 4(2) by simp
      then show ?thesis using 4 old by simp
    next
      case 5
      then show ?thesis using old layout_apart [OF L 5(1,3) that(3)] by simp
    qed
  qed
  show ?thesis unfolding layout_def
    using fin sum bounds apart L [unfolded layout_def] by blast
qed

lemma layout_extend:
  assumes L: "layout lo hi sz A" and r: "16 \<le> r" "8 dvd r" "8 dvd hi"
  shows "layout lo (hi + r) (sz(hi := r)) (insert hi A)" "hi \<notin> A"
proof -
  show new: "hi \<notin> A"
  proof
    assume "hi \<in> A"
    from layoutD(2,3) [OF L this] show False by linarith
  qed
  have fin: "finite A" "lo \<le> hi" using L by (simp_all add: layout_def)
  have old: "(sz(hi := r)) a = sz a" if "a \<in> A" for a using that new by auto
  have "(\<Sum>a \<in> A. (sz(hi := r)) a) = (\<Sum>a \<in> A. sz a)" using old by (rule sum.cong [OF refl])
  then have sum: "(\<Sum>a \<in> insert hi A. (sz(hi := r)) a) = hi + r - lo"
    using new fin L by (simp add: layout_def)
  have bounds: "lo \<le> a \<and> a + (sz(hi := r)) a \<le> hi + r \<and> 16 \<le> (sz(hi := r)) a \<and> 8 dvd a \<and> 8 dvd (sz(hi := r)) a"
    if "a \<in> insert hi A" for a
  proof (cases "a = hi")
    case True
    then show ?thesis using r fin by simp
  next
    case False
    then have a: "a \<in> A" using that by simp
    from layoutD [OF L a] old [OF a] show ?thesis by simp
  qed
  have apart: "a + (sz(hi := r)) a \<le> c" if "a \<in> insert hi A" "c \<in> insert hi A" "a < c" for a c
  proof -
    consider "a = hi" "c \<in> A" | "a \<in> A" "c = hi" | "a \<in> A" "c \<in> A"
      using \<open>a \<in> insert hi A\<close> \<open>c \<in> insert hi A\<close> \<open>a < c\<close> by blast
    then show ?thesis
    proof cases
      case 1
      then show ?thesis using layoutD(2,3) [OF L 1(2)] that(3) by linarith
    next
      case 2
      then show ?thesis using layoutD(2) [OF L 2(1)] old by simp
    next
      case 3
      then show ?thesis using layout_apart [OF L 3 that(3)] old by simp
    qed
  qed
  have "lo \<le> hi + r" using fin(2) by simp
  then show "layout lo (hi + r) (sz(hi := r)) (insert hi A)"
    unfolding layout_def using fin(1) sum bounds apart by blast
qed

lemma layout_grow:
  assumes L: "layout lo hi sz A" and b: "b \<in> A" "b + sz b = hi" and r: "sz b \<le> r" "8 dvd r"
  shows "layout lo (b + r) (sz(b := r)) A"
proof -
  note bb = layoutD [OF L b(1)]
  have fin: "finite A" "lo \<le> hi" using L by (simp_all add: layout_def)
  have "(\<Sum>a \<in> A. (sz(b := r)) a) = (\<Sum>a \<in> A - {b}. sz a) + r" using fin b by (intro sum_upd)
  also have "\<dots> = b + r - lo"
    using sum_without [OF fin(1) b(1), of sz] L b(2) bb unfolding layout_def by linarith
  finally have sum: "(\<Sum>a \<in> A. (sz(b := r)) a) = b + r - lo" .
  have bounds: "lo \<le> a \<and> a + (sz(b := r)) a \<le> b + r \<and> 16 \<le> (sz(b := r)) a \<and> 8 dvd a \<and> 8 dvd (sz(b := r)) a"
    if "a \<in> A" for a
    using layoutD [OF L that] bb r b by (cases "a = b") auto
  have apart: "a + (sz(b := r)) a \<le> c" if "a \<in> A" "c \<in> A" "a < c" for a c
  proof (cases "a = b")
    case True
    from layout_apart [OF L that, unfolded True] layoutD(2,3) [OF L that(2)] b(2) have False by linarith
    then show ?thesis ..
  next
    case False
    then show ?thesis using layout_apart [OF L that] by simp
  qed
  have "lo \<le> b + r" using fin(2) b(2) r(1) by linarith
  then show ?thesis
    unfolding layout_def using fin sum bounds apart by (intro conjI) (simp_all del: fun_upd_apply)
qed

lemma layout_merge:
  assumes L: "layout lo hi sz A" and a: "a \<in> A" "b \<in> A" "a + sz a = b"
  shows "layout lo hi (sz(a := sz a + sz b)) (A - {b})"
proof -
  note aa = layoutD [OF L a(1)] and bb = layoutD [OF L a(2)]
  have fin: "finite A" using L by (simp add: layout_def)
  have ne: "a \<noteq> b" using aa(3) a(3) by linarith
  have "(\<Sum>c \<in> A - {b}. (sz(a := sz a + sz b)) c) = (\<Sum>c \<in> A - {b} - {a}. sz c) + (sz a + sz b)"
    using fin a ne by (intro sum_upd) simp_all
  also have "\<dots> = (\<Sum>c \<in> A. sz c)"
    using sum_without [OF fin a(2), of sz] sum_without [of "A - {b}" a sz] fin a ne by simp
  finally have sum: "(\<Sum>c \<in> A - {b}. (sz(a := sz a + sz b)) c) = hi - lo" using L by (simp add: layout_def)
  have bounds: "lo \<le> c \<and> c + (sz(a := sz a + sz b)) c \<le> hi \<and> 16 \<le> (sz(a := sz a + sz b)) c
      \<and> 8 dvd c \<and> 8 dvd (sz(a := sz a + sz b)) c" if "c \<in> A - {b}" for c
  proof (cases "c = a")
    case True
    have "a + (sz a + sz b) \<le> hi" using bb(2) a(3) by linarith
    then show ?thesis using True aa bb by simp
  next
    case False
    then show ?thesis using that layoutD [OF L] by simp
  qed
  have apart: "c + (sz(a := sz a + sz b)) c \<le> d" if "c \<in> A - {b}" "d \<in> A - {b}" "c < d" for c d
  proof (cases "c = a")
    case True
    have "b \<le> d" using layout_apart [OF L a(1) _ that(3) [unfolded True]] that(2) a(3) by simp
    moreover have "b \<noteq> d" using that(2) by blast
    ultimately have "b + sz b \<le> d" using layout_apart [OF L a(2)] that(2) by simp
    then show ?thesis using True a(3) by simp
  next
    case False
    then show ?thesis using that layout_apart [OF L] by simp
  qed
  show ?thesis
    unfolding layout_def using fin sum bounds apart L [unfolded layout_def] by (intro conjI) (simp_all del: fun_upd_apply)
qed

subsection \<open>Headers in memory\<close>

lemma word_eq_by_bytes:
  fixes x y :: "64 word"
  assumes "\<And>i. i < 8 \<Longrightarrow> byte_of i x = byte_of i y"
  shows "x = y"
proof (rule bit_word_eqI)
  fix n assume "n < LENGTH(64)"
  then have n: "n div 8 < 8" "n mod 8 < 8" "8 * (n div 8) + n mod 8 = n" by simp_all
  from assms [OF n(1)] have "bit (byte_of (n div 8) x) (n mod 8) = bit (byte_of (n div 8) y) (n mod 8)" by simp
  then show "bit x n = bit y n" unfolding bit_byte_of using n by simp
qed

lemma load64_store64: "load64 (store64 a w m) a = w"
  by (rule word_eq_by_bytes) (simp add: byte_of_load64 store64_def)

lemma ld_st_same: "v < 2 ^ 64 \<Longrightarrow> ld (st m a v) a = v"
  by (simp add: ld_def st_def load64_store64 unat_of_nat)

lemma ld_cong: "(\<And>x. a \<le> x \<Longrightarrow> x < a + 8 \<Longrightarrow> m' x = m x) \<Longrightarrow> ld m' a = ld m a"
  by (simp add: ld_def load64_def)

lemma st_other: "x < a \<or> a + 8 \<le> x \<Longrightarrow> st m a v x = m x"
  by (auto simp: st_def store64_def)

lemma ld_st_other: "a + 8 \<le> b \<or> b + 8 \<le> a \<Longrightarrow> ld (st m a v) b = ld m b"
  by (rule ld_cong) (auto intro: st_other)

lemma ld_bound: "ld m a < 2 ^ 64"
  unfolding ld_def using unsigned_less [of "load64 m a"] by simp

text \<open>Headers of different blocks do not overlap.\<close>

lemma header_sz:
  assumes "b + 16 \<le> c \<or> c + 16 \<le> b"
  shows "ld (st m b v) c = ld m c" "ld (st m b v) (c + 8) = ld m (c + 8)"
    "ld (st m (b + 8) v) c = ld m c" "ld (st m (b + 8) v) (c + 8) = ld m (c + 8)"
  using assms by (auto intro!: ld_st_other)

lemma header_own: "ld (st m b v) (b + 8) = ld m (b + 8)" "ld (st m (b + 8) v) b = ld m b"
  by (auto intro!: ld_st_other)

subsection \<open>The free list\<close>

fun chain :: "mem \<Rightarrow> nat \<Rightarrow> nat list \<Rightarrow> bool" where
  "chain m p [] = (p = 0)"
| "chain m p (b # bs) = (p = b \<and> b \<noteq> 0 \<and> chain m (ld m (b + 8)) bs)"

definition link_of :: "nat list \<Rightarrow> link" where
  "link_of pre = (if pre = [] then Head else Next (last pre))"

definition first :: "nat list \<Rightarrow> nat" where
  "first bs = (case bs of [] \<Rightarrow> 0 | b # _ \<Rightarrow> b)"

lemma first_simps [simp]: "first [] = 0" "first (b # bs) = b"
  by (simp_all add: first_def)

lemma chain_first: "chain m p bs \<Longrightarrow> p = first bs"
  by (cases bs) simp_all

lemma chain_cong: "(\<And>b. b \<in> set bs \<Longrightarrow> ld m' (b + 8) = ld m (b + 8)) \<Longrightarrow> chain m' p bs = chain m p bs"
  by (induction bs arbitrary: p) simp_all

lemma chain_tail: "chain m p (pre @ rest) \<Longrightarrow> chain m (first rest) rest"
proof (induction pre arbitrary: p)
  case Nil
  then show ?case using chain_first [of m p rest] by simp
next
  case (Cons a pre)
  then show ?case using Cons.IH [of "ld m (a + 8)"] by simp
qed

lemma get_link_of:
  assumes "chain (hmem s) (malloc_freelist s) (pre @ rest)"
  shows "get_link s (link_of pre) = first rest"
proof -
  have "chain m p (pre @ rest) \<Longrightarrow> pre \<noteq> [] \<Longrightarrow> ld m (last pre + 8) = first rest" for m p
  proof (induction pre arbitrary: p)
    case (Cons a pre)
    then show ?case using chain_first [of m "ld m (a + 8)" rest] by (cases "pre = []") auto
  qed simp
  with assms show ?thesis using chain_first [of "hmem s" _ rest] by (auto simp: link_of_def)
qed

text \<open>Storing a new successor behind \<open>pre\<close>.\<close>

lemma chain_relink:
  assumes "chain m p (pre @ rest)" "pre \<noteq> []"
    and same: "\<And>b. b \<in> set (butlast pre) \<Longrightarrow> ld m' (b + 8) = ld m (b + 8)"
    and new: "ld m' (last pre + 8) = first rest'" "chain m' (first rest') rest'"
  shows "chain m' p (pre @ rest')"
  using assms
proof (induction pre arbitrary: p)
  case (Cons a pre)
  show ?case
  proof (cases "pre = []")
    case True
    then show ?thesis using Cons.prems by simp
  next
    case False
    have "ld m' (a + 8) = ld m (a + 8)" using False Cons.prems(3) by simp
    moreover have "chain m' (ld m (a + 8)) (pre @ rest')"
      using Cons.prems False by (intro Cons.IH) simp_all
    ultimately show ?thesis using Cons.prems(1) by simp
  qed
qed simp

subsection \<open>The invariant\<close>

definition heap_ok :: "nat \<Rightarrow> heap \<Rightarrow> nat list \<Rightarrow> nat set \<Rightarrow> bool" where
  "heap_ok lo s fl U \<longleftrightarrow> chain (hmem s) (malloc_freelist s) fl \<and> sorted_wrt (<) fl \<and> set fl \<inter> U = {}
     \<and> (\<forall>a \<in> set fl. \<forall>b \<in> set fl. a + ld (hmem s) a \<noteq> b)
     \<and> layout lo (malloc_end s) (ld (hmem s)) (set fl \<union> U)
     \<and> 0 < lo \<and> 8 dvd malloc_end s \<and> malloc_end s < 2 ^ 64"

lemma heap_okI:
  assumes "chain (hmem s) (malloc_freelist s) fl" "sorted_wrt (<) fl" "set fl \<inter> U = {}"
    "\<And>a b. a \<in> set fl \<Longrightarrow> b \<in> set fl \<Longrightarrow> a + ld (hmem s) a \<noteq> b"
    "layout lo (malloc_end s) (ld (hmem s)) A" "set fl \<union> U = A" "0 < lo" "8 dvd malloc_end s" "malloc_end s < 2 ^ 64"
  shows "heap_ok lo s fl U"
  unfolding heap_ok_def using assms(1-5,7-9) unfolding assms(6) [symmetric] by blast

text \<open>The contents of the allocated blocks, headers included.\<close>

definition keeps :: "nat set \<Rightarrow> heap \<Rightarrow> heap \<Rightarrow> bool" where
  "keeps U s s' \<longleftrightarrow> (\<forall>u \<in> U. \<forall>x. u \<le> x \<and> x < u + ld (hmem s) u \<longrightarrow> hmem s' x = hmem s x)"

definition nodes :: "nat set \<Rightarrow> bool" where
  "nodes N \<longleftrightarrow> (\<forall>a \<in> N. \<forall>b \<in> N. a \<noteq> b \<longrightarrow> a + 16 \<le> b \<or> b + 16 \<le> a)"

lemma nodes_layout: "layout lo hi sz A \<Longrightarrow> nodes A"
  unfolding nodes_def using layout_sep layoutD(3) by (metis add_le_cancel_left order_trans)

lemma nodesD: "nodes N \<Longrightarrow> a \<in> N \<Longrightarrow> b \<in> N \<Longrightarrow> a \<noteq> b \<Longrightarrow> a + 16 \<le> b \<or> b + 16 \<le> a"
  by (simp add: nodes_def)

text \<open>Writes to the headers of nodes, seen at the headers of nodes.\<close>

lemma node_write:
  assumes "nodes N" "b \<in> N" "c \<in> N" "v < 2 ^ 64"
  shows "ld (st m b v) c = (if c = b then v else ld m c)" "ld (st m b v) (c + 8) = ld m (c + 8)"
    "ld (st m (b + 8) v) c = ld m c" "ld (st m (b + 8) v) (c + 8) = (if c = b then v else ld m (c + 8))"
proof -
  consider "c = b" | "c \<noteq> b" "b + 16 \<le> c \<or> c + 16 \<le> b" using nodesD [OF assms(1-3)] by blast
  then have "ld (st m b v) c = (if c = b then v else ld m c) \<and> ld (st m b v) (c + 8) = ld m (c + 8)
    \<and> ld (st m (b + 8) v) c = ld m c \<and> ld (st m (b + 8) v) (c + 8) = (if c = b then v else ld m (c + 8))"
  proof cases
    case 1
    then show ?thesis by (simp add: ld_st_same [OF assms(4)] header_own)
  next
    case 2
    then show ?thesis by (simp add: header_sz)
  qed
  then show "ld (st m b v) c = (if c = b then v else ld m c)" "ld (st m b v) (c + 8) = ld m (c + 8)"
    "ld (st m (b + 8) v) c = ld m c" "ld (st m (b + 8) v) (c + 8) = (if c = b then v else ld m (c + 8))"
    by blast+
qed

lemma set_link_frame: "malloc_end (set_link l v s) = malloc_end s"
  by (cases l) simp_all

lemma set_link_node:
  assumes "nodes N" "set pre \<subseteq> N" "c \<in> N" "v < 2 ^ 64"
  shows "ld (hmem (set_link (link_of pre) v s)) c = ld (hmem s) c"
    "ld (hmem (set_link (link_of pre) v s)) (c + 8) = (if pre \<noteq> [] \<and> c = last pre then v else ld (hmem s) (c + 8))"
proof -
  have "last pre \<in> N" if "pre \<noteq> []" using assms(2) that by auto
  then show "ld (hmem (set_link (link_of pre) v s)) c = ld (hmem s) c"
    "ld (hmem (set_link (link_of pre) v s)) (c + 8) = (if pre \<noteq> [] \<and> c = last pre then v else ld (hmem s) (c + 8))"
    using node_write [OF assms(1) _ assms(3,4), of "last pre" "hmem s"] by (auto simp: link_of_def)
qed

lemma set_link_byte:
  "pre = [] \<or> x < last pre + 8 \<or> last pre + 16 \<le> x \<Longrightarrow> hmem (set_link (link_of pre) v s) x = hmem s x"
  by (auto simp: link_of_def intro!: st_other)

lemma set_link_head: "malloc_freelist (set_link (link_of pre) v s) = (if pre = [] then v else malloc_freelist s)"
  by (simp add: link_of_def)

lemma relink_chain:
  assumes N: "nodes N" "set pre \<subseteq> N" and v: "v < 2 ^ 64" and dist: "distinct pre"
    and old: "chain (hmem s) (malloc_freelist s) (pre @ rest)"
    and head: "malloc_freelist s' = malloc_freelist (set_link (link_of pre) v s)"
    and mem: "\<And>c. c \<in> set pre \<Longrightarrow> ld (hmem s') (c + 8) = ld (hmem (set_link (link_of pre) v s)) (c + 8)"
    and new: "v = first rest'" "chain (hmem s') v rest'"
  shows "chain (hmem s') (malloc_freelist s') (pre @ rest')"
proof (cases "pre = []")
  case True
  then show ?thesis using head new by (simp add: set_link_head)
next
  case False
  have "chain (hmem s') (malloc_freelist s) (pre @ rest')"
  proof (rule chain_relink [OF old False])
    fix b assume b: "b \<in> set (butlast pre)"
    then have "b \<in> set pre" by (rule in_set_butlastD)
    moreover have "b \<noteq> last pre"
      using b dist False by (metis append_butlast_last_id distinct_append disjoint_iff list.set_intros(1))
    ultimately show "ld (hmem s') (b + 8) = ld (hmem s) (b + 8)"
      using mem set_link_node(2) [OF N _ v, of b s] N(2) by auto
  next
    show "ld (hmem s') (last pre + 8) = first rest'"
      using mem [of "last pre"] set_link_node(2) [OF N _ v, of "last pre" s] N(2) False new(1) by (auto dest: last_in_set)
    show "chain (hmem s') (first rest') rest'" using new by simp
  qed
  then show ?thesis using head False by (simp add: set_link_head)
qed

lemma heap_okD:
  assumes "heap_ok lo s fl U"
  shows "chain (hmem s) (malloc_freelist s) fl" "sorted_wrt (<) fl" "distinct fl" "set fl \<inter> U = {}"
    "layout lo (malloc_end s) (ld (hmem s)) (set fl \<union> U)" "nodes (set fl \<union> U)" "0 < lo" "8 dvd malloc_end s"
    "malloc_end s < 2 ^ 64" "\<And>a b. a \<in> set fl \<Longrightarrow> b \<in> set fl \<Longrightarrow> a + ld (hmem s) a \<noteq> b"
  using assms nodes_layout strict_sorted_iff [of fl] unfolding heap_ok_def by blast+

lemma block_bounds:
  assumes "heap_ok lo s fl U" "b \<in> set fl \<union> U"
  shows "b \<noteq> 0" "b < 2 ^ 64" "b + ld (hmem s) b < 2 ^ 64" "16 \<le> ld (hmem s) b"
  using layoutD [OF heap_okD(5) [OF assms(1)] assms(2)] heap_okD(7,9) [OF assms(1)] by linarith+

lemma first_bound: "heap_ok lo s fl U \<Longrightarrow> set bs \<subseteq> set fl \<union> U \<Longrightarrow> first bs < 2 ^ 64"
  using block_bounds(2) [of lo s fl U "first bs"] by (cases bs) auto

lemma used_outside:
  assumes "heap_ok lo s fl U" "u \<in> U" "c \<in> set fl" "u \<le> x" "x < u + ld (hmem s) u"
  shows "x < c \<or> c + ld (hmem s) c \<le> x"
proof -
  have "c \<noteq> u" using heap_okD(4) [OF assms(1)] assms(2,3) by auto
  from layout_sep [OF heap_okD(5) [OF assms(1)] _ _ this] assms(2-) show ?thesis by auto
qed

text \<open>Taking a whole block off the free list.\<close>

lemma take_block:
  assumes ok: "heap_ok lo s (pre @ b # rest) U" and s': "s' = set_link (link_of pre) (ld (hmem s) (b + 8)) s"
  shows "heap_ok lo s' (pre @ rest) (insert b U)" "keeps U s s'" "ld (hmem s') b = ld (hmem s) b"
proof -
  let ?A = "set (pre @ b # rest) \<union> U"
  note D = heap_okD [OF ok]
  have b: "b \<in> ?A" and pre: "set pre \<subseteq> ?A" by auto
  have nx: "ld (hmem s) (b + 8) = first rest"
    using chain_tail [OF D(1)] chain_first [of "hmem s" _ rest] by simp
  have v: "ld (hmem s) (b + 8) < 2 ^ 64" by (rule ld_bound)
  have sz: "ld (hmem s') c = ld (hmem s) c" if "c \<in> ?A" for c
    unfolding s' using set_link_node(1) [OF D(6) pre that v] .
  have nxt: "ld (hmem s') (c + 8) = ld (hmem s) (c + 8)" if "c \<in> ?A" "c \<notin> set pre" for c
    unfolding s' using set_link_node(2) [OF D(6) pre that(1) v, of s] that(2) by auto
  have dist: "distinct pre" "set pre \<inter> set (b # rest) = {}" "b \<notin> set rest" using D(3) by auto
  have tail: "chain (hmem s') (first rest) rest"
  proof -
    have "chain (hmem s) (first rest) rest" using chain_tail [OF D(1)] nx by simp
    then show ?thesis using nxt dist by (subst chain_cong [of rest _ "hmem s"]) auto
  qed
  have frame: "malloc_end s' = malloc_end s" by (simp add: s' set_link_frame)
  show "heap_ok lo s' (pre @ rest) (insert b U)"
  proof (rule heap_okI)
    show "chain (hmem s') (malloc_freelist s') (pre @ rest)"
      by (rule relink_chain [OF D(6) pre v dist(1) D(1)]) (use s' nx tail in simp_all)
    show "sorted_wrt (<) (pre @ rest)" using D(2) by (simp add: sorted_wrt_append)
    show "set (pre @ rest) \<inter> insert b U = {}" using D(4) dist by auto
    show "layout lo (malloc_end s') (ld (hmem s')) ?A" unfolding frame by (rule layout_cong [OF D(5) sz])
    show "set (pre @ rest) \<union> insert b U = ?A" by auto
    show "a + ld (hmem s') a \<noteq> c" if "a \<in> set (pre @ rest)" "c \<in> set (pre @ rest)" for a c
      using D(10) [of a c] sz [of a] that by auto
  qed (use D(7-9) frame in simp_all)
  show "keeps U s s'" unfolding keeps_def
  proof (intro ballI allI impI)
    fix u x assume u: "u \<in> U" "u \<le> x \<and> x < u + ld (hmem s) u"
    have "x < last pre + 8 \<or> last pre + 16 \<le> x" if "pre \<noteq> []"
      using used_outside [OF ok u(1) _ conjunct1 [OF u(2)] conjunct2 [OF u(2)], of "last pre"]
        block_bounds(4) [OF ok, of "last pre"] that by auto
    then show "hmem s' x = hmem s x" unfolding s' by (intro set_link_byte) blast
  qed
  show "ld (hmem s') b = ld (hmem s) b" by (rule sz [OF b])
qed

text \<open>Splitting a free block: the front is allocated, the rest stays on the list.\<close>

lemma split_block:
  assumes ok: "heap_ok lo s (pre @ b # rest) U"
    and r: "16 \<le> r" "r + 16 \<le> ld (hmem s) b" "8 dvd r"
    and s': "s' = set_word b r (set_word (b + r + 8) (ld (hmem s) (b + 8))
      (set_word (b + r) (ld (hmem s) b - r) (set_link (link_of pre) (b + r) s)))"
  shows "heap_ok lo s' (pre @ (b + r) # rest) (insert b U)" "keeps U s s'" "ld (hmem s') b = r"
proof -
  let ?A = "set (pre @ b # rest) \<union> U" and ?m = "hmem s" and ?n = "b + r"
  let ?s1 = "set_link (link_of pre) ?n s"
  let ?m2 = "st (hmem ?s1) ?n (ld ?m b - r)" let ?m3 = "st ?m2 (?n + 8) (ld ?m (b + 8))"
  note D = heap_okD [OF ok]
  have b: "b \<in> ?A" by simp
  note B = block_bounds [OF ok b]
  have m': "hmem s' = st ?m3 b r" by (simp add: s' set_word_def)
  have L: "layout lo (malloc_end s) ((ld ?m)(b := r, ?n := ld ?m b - r)) (insert ?n ?A)"
    by (rule layout_split [OF D(5) b r])
  have N: "nodes (insert ?n ?A)" by (rule nodes_layout [OF L])
  have new: "?n \<notin> ?A"
  proof
    assume "?n \<in> ?A"
    from layout_apart [OF D(5) b this] r show False by linarith
  qed
  have pre: "set pre \<subseteq> insert ?n ?A" by auto
  have v: "?n < 2 ^ 64" "ld ?m b - r < 2 ^ 64" "r < 2 ^ 64" using B(3) r by linarith+
  have nx: "ld ?m (b + 8) = first rest"
    using chain_tail [OF D(1)] chain_first [of ?m _ rest] by simp
  have nw: "?n \<in> insert ?n ?A" "b \<in> insert ?n ?A" by simp_all
  note W2 = node_write [OF N nw(1) _ v(2), where m = "hmem ?s1"]
  note W3 = node_write [OF N nw(1) _ ld_bound [of ?m "b + 8"], where m = ?m2]
  note W4 = node_write [OF N nw(2) _ v(3), where m = ?m3]
  have sz: "ld (hmem s') c = ((ld ?m)(b := r, ?n := ld ?m b - r)) c" if "c \<in> insert ?n ?A" for c
    unfolding m' W4(1) [OF that] W3(3) [OF that] W2(1) [OF that] set_link_node(1) [OF N pre that v(1), of s]
    using r by auto
  have nxt: "ld (hmem s') (c + 8) = (if c = ?n then ld ?m (b + 8) else ld (hmem ?s1) (c + 8))" if "c \<in> insert ?n ?A" for c
    unfolding m' W4(2) [OF that] W3(4) [OF that] W2(2) [OF that] ..
  have dist: "distinct pre" "set pre \<inter> set (b # rest) = {}" "b \<notin> set rest" using D(3) by auto
  have nxt_rest: "ld (hmem s') (c + 8) = ld ?m (c + 8)" if "c \<in> set rest" for c
  proof -
    have c: "c \<in> insert ?n ?A" "c \<noteq> ?n" "c \<notin> set pre" using that new dist by auto
    moreover have "pre = [] \<or> c \<noteq> last pre" using c(3) last_in_set [of pre] by blast
    ultimately show ?thesis using nxt [OF c(1)] set_link_node(2) [OF N pre c(1) v(1), of s] by auto
  qed
  have tail: "chain (hmem s') ?n (?n # rest)"
  proof -
    have "chain ?m (first rest) rest" using chain_tail [OF D(1)] nx by simp
    then have "chain (hmem s') (first rest) rest" by (subst chain_cong [of rest _ ?m]) (simp_all add: nxt_rest)
    then show ?thesis using nxt [OF nw(1)] B(1) nx by simp
  qed
  have frame: "malloc_end s' = malloc_end s" "malloc_freelist s' = malloc_freelist ?s1"
    by (simp_all add: s' set_link_frame set_word_def)
  show "heap_ok lo s' (pre @ ?n # rest) (insert b U)"
  proof (rule heap_okI)
    show "chain (hmem s') (malloc_freelist s') (pre @ ?n # rest)"
    proof (rule relink_chain [OF N pre v(1) dist(1) D(1) frame(2)])
      fix c assume "c \<in> set pre"
      then show "ld (hmem s') (c + 8) = ld (hmem ?s1) (c + 8)" using nxt [of c] new by auto
    qed (use tail in simp_all)
    show "sorted_wrt (<) (pre @ ?n # rest)"
    proof -
      have "?n < c" if "c \<in> set rest" for c
      proof -
        have "b < c" using D(2) that by (simp add: sorted_wrt_append)
        then have "b + ld ?m b \<le> c" using layout_apart [OF D(5) b, of c] that by simp
        then show ?thesis using r by linarith
      qed
      moreover have "c < ?n" if "c \<in> set pre" for c
        using D(2) that by (auto simp: sorted_wrt_append)
      ultimately show ?thesis using D(2) by (auto simp: sorted_wrt_append)
    qed
    show "set (pre @ ?n # rest) \<inter> insert b U = {}" using D(4) dist new r(1) by auto
    show "layout lo (malloc_end s') (ld (hmem s')) (insert ?n ?A)" unfolding frame by (rule layout_cong [OF L sz])
    show "set (pre @ ?n # rest) \<union> insert b U = insert ?n ?A" by auto
    show "a + ld (hmem s') a \<noteq> c" if ac: "a \<in> set (pre @ ?n # rest)" "c \<in> set (pre @ ?n # rest)" for a c
    proof -
      have in_A: "a \<in> insert ?n ?A" "c \<in> insert ?n ?A" "a \<noteq> b" "c \<noteq> b" using ac dist r(1) by auto
      have fl: "a = ?n \<or> a \<in> set (pre @ b # rest)" "c = ?n \<or> c \<in> set (pre @ b # rest)" using ac by auto
      have szn: "ld (hmem s') a = (if a = ?n then ld ?m b - r else ld ?m a)" using sz [OF in_A(1)] in_A(3) by simp
      consider "a = ?n" "c = ?n" | "a = ?n" "c \<noteq> ?n" | "a \<noteq> ?n" "c = ?n" | "a \<noteq> ?n" "c \<noteq> ?n" by blast
      then show ?thesis
      proof cases
        case 1
        then show ?thesis using szn r by simp
      next
        case 2
        then have "b + ld ?m b \<noteq> c" using D(10) [of b c] fl(2) by simp
        then show ?thesis using szn 2(1) r by simp
      next
        case 3
        then have "a + ld ?m a \<le> b \<or> b + ld ?m b \<le> a" using layout_sep [OF D(5) _ b] in_A(1,3) by blast
        then show ?thesis using szn 3 r by auto
      next
        case 4
        then show ?thesis using szn D(10) [of a c] fl by simp
      qed
    qed
  qed (use D(7-9) frame in simp_all)
  show "ld (hmem s') b = r" using sz [OF nw(2)] r by simp
  show "keeps U s s'" unfolding keeps_def
  proof (intro ballI allI impI)
    fix u x assume u: "u \<in> U" and x: "u \<le> x \<and> x < u + ld ?m u"
    have "x < b \<or> b + ld ?m b \<le> x" using used_outside [OF ok u _ conjunct1 [OF x] conjunct2 [OF x], of b] by simp
    then have "hmem s' x = hmem ?s1 x" unfolding m' using r by (auto simp: st_other)
    moreover have "x < last pre + 8 \<or> last pre + 16 \<le> x" if "pre \<noteq> []"
      using used_outside [OF ok u _ conjunct1 [OF x] conjunct2 [OF x], of "last pre"]
        block_bounds(4) [OF ok, of "last pre"] that by auto
    ultimately show "hmem s' x = ?m x" by (simp add: set_link_byte) (metis set_link_byte)
  qed
qed

text \<open>Enlarging the last free block, which ends where the heap does, and allocating all of it.\<close>

lemma grow_block:
  assumes ok: "heap_ok lo s (pre @ [b]) U" and e: "malloc_end s = b + ld (hmem s) b"
    and r: "ld (hmem s) b \<le> r" "8 dvd r" "b + r < 2 ^ 64"
    and s': "s' = set_word b r ((set_link (link_of pre) 0 s)\<lparr>malloc_end := b + r\<rparr>)"
  shows "heap_ok lo s' pre (insert b U)" "keeps U s s'" "ld (hmem s') b = r"
proof -
  let ?A = "set (pre @ [b]) \<union> U" and ?m = "hmem s"
  let ?s1 = "set_link (link_of pre) 0 s"
  note D = heap_okD [OF ok]
  have b: "b \<in> ?A" and pre: "set pre \<subseteq> ?A" by auto
  note B = block_bounds [OF ok b]
  have m': "hmem s' = st (hmem ?s1) b r" by (simp add: s' set_word_def)
  have v: "r < 2 ^ 64" "(0 :: nat) < 2 ^ 64" using r(3) by linarith+
  note W = node_write [OF D(6) b _ v(1), where m = "hmem ?s1"]
  have sz: "ld (hmem s') c = ((ld ?m)(b := r)) c" if "c \<in> ?A" for c
    unfolding m' W(1) [OF that] set_link_node(1) [OF D(6) pre that v(2), of s] by simp
  have L: "layout lo (b + r) ((ld ?m)(b := r)) ?A"
    by (rule layout_grow [OF D(5) b e [symmetric] r(1,2)])
  have dist: "distinct pre" "b \<notin> set pre" using D(3) by auto
  have frame: "malloc_end s' = b + r" "malloc_freelist s' = malloc_freelist ?s1"
    by (simp_all add: s' set_word_def)
  show "heap_ok lo s' pre (insert b U)"
  proof (rule heap_okI)
    have "chain (hmem s') (malloc_freelist s') (pre @ [])"
    proof (rule relink_chain [OF D(6) pre v(2) dist(1) D(1) frame(2)])
      fix c assume "c \<in> set pre"
      then show "ld (hmem s') (c + 8) = ld (hmem ?s1) (c + 8)" unfolding m' using W(2) [of c] by simp
    qed simp_all
    then show "chain (hmem s') (malloc_freelist s') pre" by simp
    show "sorted_wrt (<) pre" using D(2) by (simp add: sorted_wrt_append)
    show "set pre \<inter> insert b U = {}" using D(4) dist by auto
    show "layout lo (malloc_end s') (ld (hmem s')) ?A" unfolding frame by (rule layout_cong [OF L sz])
    show "set pre \<union> insert b U = ?A" by auto
    show "a + ld (hmem s') a \<noteq> c" if "a \<in> set pre" "c \<in> set pre" for a c
      using D(10) [of a c] sz [of a] that dist by auto
    show "8 dvd malloc_end s'" unfolding frame using layoutD(4) [OF D(5) b] r(2) by simp
  qed (use D(7) r(3) frame in simp_all)
  show "ld (hmem s') b = r" using sz [OF b] by simp
  show "keeps U s s'" unfolding keeps_def
  proof (intro ballI allI impI)
    fix u x assume u: "u \<in> U" and x: "u \<le> x \<and> x < u + ld ?m u"
    have "x < b \<or> b + ld ?m b \<le> x" using used_outside [OF ok u _ conjunct1 [OF x] conjunct2 [OF x], of b] by simp
    then have "hmem s' x = hmem ?s1 x" unfolding m' using B(4) by (auto simp: st_other)
    moreover have "hmem ?s1 x = ?m x"
      by (rule set_link_byte) (use used_outside [OF ok u _ conjunct1 [OF x] conjunct2 [OF x], of "last pre"]
        block_bounds(4) [OF ok, of "last pre"] in auto)
    ultimately show "hmem s' x = ?m x" by simp
  qed
qed

text \<open>A new block at the end of the heap.\<close>

lemma new_block:
  assumes ok: "heap_ok lo s fl U" and r: "16 \<le> r" "8 dvd r" "malloc_end s + r < 2 ^ 64"
    and s': "s' = set_word (malloc_end s) r (s\<lparr>malloc_end := malloc_end s + r\<rparr>)"
  shows "heap_ok lo s' fl (insert (malloc_end s) U)" "keeps U s s'" "ld (hmem s') (malloc_end s) = r"
    "malloc_end s \<notin> set fl \<union> U"
proof -
  let ?A = "set fl \<union> U" and ?m = "hmem s" and ?e = "malloc_end s"
  note D = heap_okD [OF ok]
  have m': "hmem s' = st ?m ?e r" by (simp add: s' set_word_def)
  note L = layout_extend [OF D(5) r(1,2) D(8)]
  show new: "?e \<notin> ?A" by (rule L(2))
  have N: "nodes (insert ?e ?A)" by (rule nodes_layout [OF L(1)])
  have v: "r < 2 ^ 64" using r(3) by linarith
  note W = node_write [OF N insertI1 _ v, where m = ?m]
  have sz: "ld (hmem s') c = ((ld ?m)(?e := r)) c" if "c \<in> insert ?e ?A" for c
    unfolding m' W(1) [OF that] by simp
  have frame: "malloc_end s' = ?e + r" "malloc_freelist s' = malloc_freelist s" by (simp_all add: s' set_word_def)
  show "heap_ok lo s' fl (insert ?e U)"
  proof (rule heap_okI)
    show "chain (hmem s') (malloc_freelist s') fl"
      unfolding frame using D(1) W(2) by (subst chain_cong [of fl _ ?m]) (simp_all add: m')
    show "set fl \<inter> insert ?e U = {}" using D(4) new by auto
    show "layout lo (malloc_end s') (ld (hmem s')) (insert ?e ?A)" unfolding frame by (rule layout_cong [OF L(1) sz])
    show "a + ld (hmem s') a \<noteq> c" if "a \<in> set fl" "c \<in> set fl" for a c
      using D(10) [of a c] sz [of a] that new by auto
  qed (use D(2,7,8) r frame in simp_all)
  show "ld (hmem s') ?e = r" using sz [OF insertI1] by simp
  show "keeps U s s'" unfolding keeps_def
  proof (intro ballI allI impI)
    fix u x assume u: "u \<in> U" and x: "u \<le> x \<and> x < u + ld ?m u"
    have "u + ld ?m u \<le> ?e" using layoutD(2) [OF D(5)] u by simp
    with x show "hmem s' x = ?m x" unfolding m' by (intro st_other) linarith
  qed
qed

subsection \<open>malloc\<close>

lemma can_alloc_iff:
  assumes "malloc_end s + 32 \<le> limit" "limit < 2 ^ 64"
  shows "can_alloc limit required s \<longleftrightarrow> malloc_end s + required + 32 \<le> limit"
proof -
  have gap: "wsub limit (malloc_end s) = limit - malloc_end s" using assms by (intro wsub_eq) linarith+
  have "wsub (limit - malloc_end s) 32 = limit - malloc_end s - 32" using assms by (intro wsub_eq) linarith+
  then have "can_alloc limit required s \<longleftrightarrow> required \<le> limit - malloc_end s - 32"
    unfolding can_alloc_def gap by (simp only:)
  also have "\<dots> \<longleftrightarrow> malloc_end s + required + 32 \<le> limit" using assms by linarith
  finally show ?thesis .
qed

text \<open>
  What an allocation of \<open>sz\<close> bytes promises: a null result changes nothing and means that no free
  block is large enough and the heap cannot grow; otherwise the result is the data of a block
  that was not in use, of at least the requested size, and the other blocks are untouched.
\<close>

definition malloc_result :: "nat \<Rightarrow> nat \<Rightarrow> nat \<Rightarrow> heap \<Rightarrow> nat list \<Rightarrow> nat set \<Rightarrow> nat \<Rightarrow> heap \<Rightarrow> bool" where
  "malloc_result lo limit rs s fl U p s' \<longleftrightarrow>
     (if p = 0 then s' = s \<and> (\<forall>b \<in> set fl. ld (hmem s) b < rs) \<and> limit < malloc_end s + rs + 32
      else 8 \<le> p \<and> p - 8 \<notin> U \<and> rs \<le> ld (hmem s') (p - 8) \<and> keeps U s s' \<and> malloc_end s' + 32 \<le> limit
        \<and> (\<exists>fl'. heap_ok lo s' fl' (insert (p - 8) U)))"

lemma malloc_resultI:
  assumes "b \<notin> U" "rs \<le> ld (hmem s') b" "keeps U s s'" "malloc_end s' + 32 \<le> limit" "heap_ok lo s' fl' (insert b U)"
  shows "malloc_result lo limit rs s fl U (b + 8) s'"
  using assms unfolding malloc_result_def by auto

lemma malloc_scan_spec:
  assumes "heap_ok lo s (pre @ rest) U" "\<forall>b \<in> set pre. ld (hmem s) b < rs"
    and rs: "16 \<le> rs" "8 dvd rs" "rs + 16 < 2 ^ 64" and limit: "malloc_end s + 32 \<le> limit" "limit < 2 ^ 64"
  shows "\<exists>p s'. malloc_scan limit rs (link_of pre) s = Some (p, s') \<and> malloc_result lo limit rs s (pre @ rest) U p s'"
  using assms(1,2)
proof (induction rest arbitrary: pre)
  case Nil
  note ok = Nil.prems(1) and D = heap_okD [OF Nil.prems(1)]
  have link: "get_link s (link_of pre) = 0" using get_link_of [of s pre "[]"] D(1) by simp
  show ?case
  proof (cases "malloc_end s + rs + 32 \<le> limit")
    case True
    let ?s' = "set_word (malloc_end s) rs (s\<lparr>malloc_end := malloc_end s + rs\<rparr>)"
    have "wadd (malloc_end s) rs = malloc_end s + rs" using True limit by (intro wadd_eq) linarith
    then have scan: "malloc_scan limit rs (link_of pre) s = Some (malloc_end s + 8, ?s')"
      by (subst malloc_scan.simps) (simp add: link can_alloc_iff [OF limit] True Let_def)
    have "malloc_end s + rs < 2 ^ 64" using True limit by linarith
    note nb = new_block [OF ok rs(1,2) this refl]
    have "malloc_end ?s' = malloc_end s + rs" by (simp add: set_word_def)
    then have "malloc_result lo limit rs s (pre @ []) U (malloc_end s + 8) ?s'"
      using True by (intro malloc_resultI [OF _ _ nb(2) _ nb(1)]) (use nb(3,4) in auto)
    with scan show ?thesis by blast
  next
    case False
    then have "malloc_scan limit rs (link_of pre) s = Some (0, s)"
      by (subst malloc_scan.simps) (simp add: link can_alloc_iff [OF limit] Let_def)
    moreover have "malloc_result lo limit rs s (pre @ []) U 0 s"
      using False Nil.prems(2) by (simp add: malloc_result_def)
    ultimately show ?thesis by blast
  qed
next
  case (Cons b rest)
  note ok = Cons.prems(1) and D = heap_okD [OF Cons.prems(1)]
  have bA: "b \<in> set (pre @ b # rest) \<union> U" by simp
  note B = block_bounds [OF ok bA]
  have bU: "b \<notin> U" using D(4) by auto
  have link: "get_link s (link_of pre) = b" using get_link_of [OF D(1)] by simp
  have nx: "ld (hmem s) (b + 8) = first rest" using chain_tail [OF D(1)] chain_first [of "hmem s" _ rest] by simp
  have end_b: "b + ld (hmem s) b \<le> malloc_end s" using layoutD(2) [OF D(5) bA] .
  have plus: "wadd rs 16 = rs + 16" "wadd b (ld (hmem s) b) = b + ld (hmem s) b"
    using rs(3) B(3) by (simp_all only: wadd_eq)
  let ?size = "ld (hmem s) b" and ?next = "ld (hmem s) (b + 8)"
  consider (take) "rs \<le> ?size" "?size < rs + 16" | (split) "rs + 16 \<le> ?size"
    | (grow) "?size < rs" "?next = 0" "malloc_end s = b + ?size"
    | (step) "?size < rs" "\<not> (?next = 0 \<and> malloc_end s = b + ?size)" by linarith
  then show ?case
  proof cases
    case take
    let ?s' = "set_link (link_of pre) ?next s"
    note tb = take_block [OF ok refl]
    have "malloc_scan limit rs (link_of pre) s = Some (b + 8, ?s')"
      by (subst malloc_scan.simps) (simp add: link B(1) plus take Let_def)
    moreover have "malloc_result lo limit rs s (pre @ b # rest) U (b + 8) ?s'"
      by (rule malloc_resultI [OF bU _ tb(2) _ tb(1)]) (use tb(3) take limit set_link_frame in simp_all)
    ultimately show ?thesis by blast
  next
    case split
    let ?s' = "set_word b rs (set_word (b + rs + 8) ?next (set_word (b + rs) (?size - rs) (set_link (link_of pre) (b + rs) s)))"
    note sb = split_block [OF ok rs(1) split rs(2) refl]
    have "wadd b rs = b + rs" using split B(3) by (intro wadd_eq) linarith
    moreover have "wsub ?size rs = ?size - rs" using split ld_bound by (intro wsub_eq) linarith+
    moreover have "rs \<le> ?size" "\<not> ?size < rs + 16" using split by linarith+
    ultimately have "malloc_scan limit rs (link_of pre) s = Some (b + 8, ?s')"
      by (subst malloc_scan.simps) (simp add: link B(1) plus Let_def)
    moreover have "malloc_result lo limit rs s (pre @ b # rest) U (b + 8) ?s'"
      by (rule malloc_resultI [OF bU _ sb(2) _ sb(1)]) (use sb(3) limit in \<open>simp_all add: set_link_frame set_word_def\<close>)
    ultimately show ?thesis by blast
  next
    case grow
    have last: "rest = []"
    proof (cases rest)
      case (Cons c cs)
      then have "c = 0" using grow(2) nx by simp
      then show ?thesis using block_bounds(1) [OF ok, of c] Cons by simp
    qed
    have scan: "malloc_scan limit rs (link_of pre) s =
      (if \<not> can_alloc limit (wsub rs ?size) s then Some (0, s)
       else Some (b + 8, set_word b rs ((set_link (link_of pre) 0 s)\<lparr>malloc_end := wadd b rs\<rparr>)))"
      using grow by (subst malloc_scan.simps) (simp add: link B(1) plus Let_def)
    have more: "wsub rs ?size = rs - ?size" using grow(1) rs(3) by (intro wsub_eq) linarith+
    have can: "can_alloc limit (wsub rs ?size) s \<longleftrightarrow> b + rs + 32 \<le> limit"
      unfolding can_alloc_iff [OF limit] more using grow(1,3) by linarith
    show ?thesis
    proof (cases "b + rs + 32 \<le> limit")
      case True
      have bound: "b + rs < 2 ^ 64" using True limit by linarith
      let ?s' = "set_word b rs ((set_link (link_of pre) 0 s)\<lparr>malloc_end := b + rs\<rparr>)"
      note gb = grow_block [OF ok [unfolded last] grow(3) less_imp_le [OF grow(1)] rs(2) bound refl]
      have "malloc_scan limit rs (link_of pre) s = Some (b + 8, ?s')"
        using scan can True wadd_eq [OF bound] by simp
      moreover have "malloc_result lo limit rs s (pre @ b # rest) U (b + 8) ?s'"
        by (rule malloc_resultI [OF bU _ gb(2) _ gb(1)]) (use gb(3) True in \<open>simp_all add: set_word_def\<close>)
      ultimately show ?thesis by blast
    next
      case False
      have "malloc_scan limit rs (link_of pre) s = Some (0, s)" using scan can False by simp
      moreover have "malloc_result lo limit rs s (pre @ b # rest) U 0 s"
        using False Cons.prems(2) last grow(1,3) by (simp add: malloc_result_def)
      ultimately show ?thesis by blast
    qed
  next
    case step
    have "malloc_scan limit rs (link_of pre) s = malloc_scan limit rs (Next b) s"
      by (rule trans [OF malloc_scan.simps]) (use step in \<open>auto simp: link B(1) plus Let_def\<close>)
    moreover have "link_of (pre @ [b]) = Next b" by (simp add: link_of_def)
    moreover have "\<exists>p s'. malloc_scan limit rs (link_of (pre @ [b])) s = Some (p, s')
        \<and> malloc_result lo limit rs s ((pre @ [b]) @ rest) U p s'"
      by (rule Cons.IH) (use ok Cons.prems(2) step(1) in simp_all)
    ultimately show ?thesis by simp
  qed
qed


text \<open>
  An allocation always returns. The request must leave the size computation without wrap-around
  and the heap must end at least the minimum gap below the caller's frame.
\<close>

lemma malloc_spec:
  assumes "heap_ok lo s fl U" "sz + 32 < 2 ^ 64" "malloc_end s + 32 \<le> limit" "limit < 2 ^ 64"
  shows "\<exists>p s'. malloc limit sz s = Some (p, s') \<and> malloc_result lo limit (real_size sz) s fl U p s'"
proof -
  have "sz + 16 < 2 ^ 64" using assms(2) by linarith
  note r = real_size_bounds [OF this]
  have "real_size sz + 16 < 2 ^ 64" using r(4) assms(2) by linarith
  from malloc_scan_spec [of lo s "[]" fl U "real_size sz" limit, OF _ _ r(2,3) this assms(3,4)] assms(1)
  show ?thesis by (simp add: malloc_def link_of_def)
qed

end
