(* ===== verification/Tiny_Free.thy ===== *)
theory Tiny_Free
  imports Tiny_Malloc
begin

text \<open>
  The release side of \<^verbatim>\<open>riscv-tests/debug/programs/tiny-malloc.c\<close>: \<^verbatim>\<open>free\<close> with the merging of
  neighbours, \<^verbatim>\<open>realloc\<close>, \<^verbatim>\<open>calloc\<close>, \<^verbatim>\<open>cfree\<close>, the size query and the statistics. Every operation
  keeps the heap invariant of \<open>Tiny_Malloc\<close> and leaves the other allocated blocks alone.
\<close>

subsection \<open>free\<close>

partial_function (option) free_scan :: "nat \<Rightarrow> link \<Rightarrow> heap \<Rightarrow> heap option" where
  "free_scan block nextfree s =
     (let thisblock = get_link s nextfree;
          size = ld (hmem s) thisblock;
          bsize = ld (hmem s) block
      in if thisblock = 0 then Some (set_link nextfree block (set_word (block + 8) (get_link s nextfree) s))
         else if wadd thisblock size = block
         then let s = set_word thisblock (wadd size bsize) s;
                  next = ld (hmem s) (thisblock + 8)
              in if next \<noteq> 0 \<and> wadd block (ld (hmem s) block) = next
                 then let s = set_word thisblock (wadd (ld (hmem s) thisblock) (ld (hmem s) next)) s
                      in Some (set_word (thisblock + 8) (ld (hmem s) (next + 8)) s)
                 else Some s
         else if thisblock = wadd block bsize
         then let s = set_word block (wadd bsize size) s;
                  s = set_word (block + 8) (ld (hmem s) (thisblock + 8)) s
              in Some (set_link nextfree block s)
         else if block < thisblock
         then Some (set_link nextfree block (set_word (block + 8) (get_link s nextfree) s))
         else free_scan block (Next thisblock) s)"

definition free :: "nat \<Rightarrow> heap \<Rightarrow> heap option" where
  "free block_p s = (if block_p = 0 then Some s else free_scan (wsub block_p 8) Head s)"

subsection \<open>Writes to headers\<close>

lemma set_word_frame [simp]:
  "malloc_end (set_word a v s) = malloc_end s" "malloc_freelist (set_word a v s) = malloc_freelist s"
  by (simp_all add: set_word_def)

lemma set_word_node:
  assumes "nodes N" "b \<in> N" "v < 2 ^ 64" "c \<in> N"
  shows "ld (hmem (set_word b v s)) c = (if c = b then v else ld (hmem s) c)"
    "ld (hmem (set_word b v s)) (c + 8) = ld (hmem s) (c + 8)"
    "ld (hmem (set_word (b + 8) v s)) c = ld (hmem s) c"
    "ld (hmem (set_word (b + 8) v s)) (c + 8) = (if c = b then v else ld (hmem s) (c + 8))"
  using node_write [OF assms(1,2,4,3), of "hmem s"] by (simp_all add: set_word_def)

text \<open>Headers of free blocks, and of the block being released, lie outside the blocks in use.\<close>

lemma outside_header:
  assumes "heap_ok lo s fl U" "u \<in> U" "c \<in> set fl \<union> U" "c \<noteq> u" "u \<le> x" "x < u + ld (hmem s) u"
  shows "x < c \<or> c + 16 \<le> x"
  using layout_sep [OF heap_okD(5) [OF assms(1)] assms(3) _ assms(4)] block_bounds(4) [OF assms(1,3)] assms(2,5,6)
  by fastforce

lemma keeps_word:
  assumes ok: "heap_ok lo s fl U" and c: "c \<in> set fl \<union> U" and V: "V \<subseteq> U" "c \<notin> V" and k: "keeps V s s1"
  shows "keeps V s (set_word c v s1)" "keeps V s (set_word (c + 8) v s1)"
proof -
  have "hmem (set_word a v s1) x = hmem s x" if a: "a = c \<or> a = c + 8" and u: "u \<in> V" "u \<le> x" "x < u + ld (hmem s) u" for a u x
  proof -
    have "c \<noteq> u" "u \<in> U" using u(1) V by auto
    from outside_header [OF ok this(2) c this(1) u(2,3)] have "x < a \<or> a + 8 \<le> x" using a by auto
    then have "hmem (set_word a v s1) x = hmem s1 x" by (simp add: set_word_def st_other)
    with k u show ?thesis by (simp add: keeps_def)
  qed
  then show "keeps V s (set_word c v s1)" "keeps V s (set_word (c + 8) v s1)"
    by (simp_all add: keeps_def)
qed

lemma keeps_link:
  assumes ok: "heap_ok lo s fl U" and pre: "set pre \<subseteq> set fl" and V: "V \<subseteq> U" and k: "keeps V s s1"
  shows "keeps V s (set_link (link_of pre) v s1)"
proof (cases "pre = []")
  case True
  with k show ?thesis by (simp add: keeps_def link_of_def)
next
  case False
  then have l: "last pre \<in> set fl" using pre by auto
  have "set_link (link_of pre) v s1 = set_word (last pre + 8) v s1" using False by (simp add: link_of_def set_word_def)
  moreover have "last pre \<notin> V" using l V heap_okD(4) [OF ok] by blast
  ultimately show ?thesis using keeps_word(2) [OF ok _ V _ k, of "last pre"] l by simp
qed

lemma keeps_refl: "keeps U s s"
  by (simp add: keeps_def)


text \<open>Hanging a block between \<open>pre\<close> and a tail \<open>rest'\<close> of what followed it.\<close>

lemma relink_block:
  assumes N: "nodes N" "set pre \<subseteq> N" "set rest \<subseteq> N" "b \<in> N" and b: "b \<notin> set pre" "b \<notin> set rest" "b \<noteq> 0" "b < 2 ^ 64"
    and dist: "distinct (pre @ rest)" and old: "chain (hmem s) (malloc_freelist s) (pre @ rest)"
    and tail: "rest = mid @ rest'"
    and s1: "malloc_freelist s1 = malloc_freelist s" "ld (hmem s1) (b + 8) = first rest'"
      "\<And>c. c \<in> set (pre @ rest) \<Longrightarrow> ld (hmem s1) (c + 8) = ld (hmem s) (c + 8)"
    and s': "s' = set_link (link_of pre) b s1"
  shows "chain (hmem s') (malloc_freelist s') (pre @ b # rest')"
proof (rule relink_chain [OF N(1,2) b(4) _ _ _ _ _ , where s = s1 and rest = rest])
  have old1: "chain (hmem s1) (malloc_freelist s1) (pre @ rest)"
    unfolding s1(1) using old s1(3) by (subst chain_cong [of _ _ "hmem s"]) simp_all
  then show "chain (hmem s1) (malloc_freelist s1) (pre @ rest)" .
  have same: "ld (hmem s') (c + 8) = ld (hmem s1) (c + 8)" if "c \<in> N" "c \<notin> set pre" for c
    unfolding s' using set_link_node(2) [OF N(1,2) that(1) b(4), of s1] that(2) last_in_set [of pre] by auto
  have "chain (hmem s1) (first rest') rest'"
    using chain_tail [of "hmem s1" _ "pre @ mid" rest'] old1 tail by simp
  then have "chain (hmem s') (first rest') rest'"
  proof (subst chain_cong [of _ _ "hmem s1"])
    fix c assume "c \<in> set rest'"
    then have "c \<in> N" "c \<notin> set pre" using N(3) dist tail by auto
    then show "ld (hmem s') (c + 8) = ld (hmem s1) (c + 8)" by (rule same)
  qed
  then show "chain (hmem s') b (b # rest')" using same [OF N(4) b(1)] s1(2) b(3) by simp
qed (use dist s' in simp_all)

text \<open>The released block has no free neighbour: it is only linked in.\<close>

lemma release_block:
  assumes ok: "heap_ok lo s (pre @ rest) U" and b: "b \<in> U"
    and left: "\<And>c. c \<in> set pre \<Longrightarrow> c < b \<and> c + ld (hmem s) c \<noteq> b"
    and right: "\<And>c. c \<in> set rest \<Longrightarrow> b < c \<and> b + ld (hmem s) b \<noteq> c"
    and s': "s' = set_link (link_of pre) b (set_word (b + 8) (first rest) s)"
  shows "heap_ok lo s' (pre @ b # rest) (U - {b})" "keeps (U - {b}) s s'"
    "\<And>c. c \<in> set (pre @ rest) \<union> U \<Longrightarrow> ld (hmem s') c = ld (hmem s) c"
proof -
  let ?A = "set (pre @ rest) \<union> U" and ?s1 = "set_word (b + 8) (first rest) s"
  note D = heap_okD [OF ok]
  have bA: "b \<in> ?A" and sub: "set pre \<subseteq> ?A" "set rest \<subseteq> ?A" "set pre \<subseteq> set (pre @ rest)" using b by auto
  have new: "b \<notin> set pre" "b \<notin> set rest" using D(4) b by auto
  note B = block_bounds [OF ok bA]
  have v: "first rest < 2 ^ 64" by (rule first_bound [OF ok]) auto
  note W = set_word_node [OF D(6) bA v, where s = s]
  have sz: "ld (hmem s') c = ld (hmem s) c" if "c \<in> ?A" for c
    unfolding s' set_link_node(1) [OF D(6) sub(1) that B(2)] W(3) [OF that] ..
  show "\<And>c. c \<in> ?A \<Longrightarrow> ld (hmem s') c = ld (hmem s) c" by (rule sz)
  show "heap_ok lo s' (pre @ b # rest) (U - {b})"
  proof (rule heap_okI)
    show "chain (hmem s') (malloc_freelist s') (pre @ b # rest)"
      by (rule relink_block [OF D(6) sub(1,2) bA new B(1,2) D(3,1) _ _ _ _ s', where mid = "[]"])
        (use W(4) bA new in auto)
    show "sorted_wrt (<) (pre @ b # rest)" using D(2) left right by (auto simp: sorted_wrt_append)
    show "set (pre @ b # rest) \<inter> (U - {b}) = {}" using D(4) by auto
    show "layout lo (malloc_end s') (ld (hmem s')) ?A"
      unfolding s' set_link_frame set_word_frame by (rule layout_cong [OF D(5) sz [unfolded s']])
    show "set (pre @ b # rest) \<union> (U - {b}) = ?A" using b by auto
    show "a + ld (hmem s') a \<noteq> c" if ac: "a \<in> set (pre @ b # rest)" "c \<in> set (pre @ b # rest)" for a c
    proof -
      have "a \<in> ?A" using ac b by auto
      note sza = sz [OF this]
      consider "a = b" "c = b" | "a = b" "c \<in> set pre" | "a = b" "c \<in> set rest"
        | "c = b" "a \<in> set pre" | "c = b" "a \<in> set rest" | "a \<in> set (pre @ rest)" "c \<in> set (pre @ rest)"
        using ac by auto
      then show ?thesis
        by cases (use sza B(4) left right D(10) in \<open>auto dest!: left right\<close>)
    qed
  qed (use D(7-9) s' in \<open>simp_all add: set_link_frame\<close>)
  show "keeps (U - {b}) s s'"
    unfolding s' by (rule keeps_link [OF ok sub(3) _ keeps_word(2) [OF ok bA _ _ keeps_refl]]) auto
qed


text \<open>The released block ends where the free block \<open>c\<close> starts: it takes its place in the list.\<close>

lemma release_before:
  assumes ok: "heap_ok lo s (pre @ c # rest) U" and b: "b \<in> U" "c = b + ld (hmem s) b"
    and left: "\<And>a. a \<in> set pre \<Longrightarrow> a < b \<and> a + ld (hmem s) a \<noteq> b"
    and s': "s' = set_link (link_of pre) b (set_word (b + 8) (ld (hmem s) (c + 8)) (set_word b (ld (hmem s) b + ld (hmem s) c) s))"
  shows "heap_ok lo s' (pre @ b # rest) (U - {b})" "keeps (U - {b}) s s'"
proof -
  let ?A = "set (pre @ c # rest) \<union> U" and ?m = "hmem s"
  let ?s1 = "set_word b (ld ?m b + ld ?m c) s" let ?s2 = "set_word (b + 8) (ld ?m (c + 8)) ?s1"
  note D = heap_okD [OF ok]
  have bA: "b \<in> ?A" and cA: "c \<in> ?A" and sub: "set pre \<subseteq> ?A" "set (c # rest) \<subseteq> ?A" "set pre \<subseteq> set (pre @ c # rest)"
    using b by auto
  have new: "b \<notin> set pre" "b \<notin> set (c # rest)" and dist: "c \<notin> set pre" "c \<notin> set rest" using D(3,4) b(1) by auto
  note B = block_bounds [OF ok bA] and C = block_bounds [OF ok cA]
  have v: "ld ?m b + ld ?m c < 2 ^ 64" using C(3) b(2) by linarith
  have nx: "ld ?m (c + 8) = first rest" using chain_tail [OF D(1)] chain_first [of ?m _ rest] by simp
  note W1 = set_word_node [OF D(6) bA v, where s = s]
  note W2 = set_word_node [OF D(6) bA ld_bound [of ?m "c + 8"], where s = ?s1]
  have sz: "ld (hmem s') a = ((ld ?m)(b := ld ?m b + ld ?m c)) a" if "a \<in> ?A" for a
    unfolding s' set_link_node(1) [OF D(6) sub(1) that B(2)] W2(3) [OF that] W1(1) [OF that] by simp
  have L: "layout lo (malloc_end s) ((ld ?m)(b := ld ?m b + ld ?m c)) (?A - {c})"
    by (rule layout_merge [OF D(5) bA cA b(2) [symmetric]])
  show "heap_ok lo s' (pre @ b # rest) (U - {b})"
  proof (rule heap_okI)
    show "chain (hmem s') (malloc_freelist s') (pre @ b # rest)"
      by (rule relink_block [OF D(6) sub(1,2) bA new B(1,2) D(3,1) _ _ _ _ s', where mid = "[c]"])
        (use W1(2) W2(4) bA new nx in auto)
    show "sorted_wrt (<) (pre @ b # rest)" using D(2) left b(2) by (auto simp: sorted_wrt_append)
    show "set (pre @ b # rest) \<inter> (U - {b}) = {}" using D(4) by auto
    show "layout lo (malloc_end s') (ld (hmem s')) (?A - {c})"
    proof -
      have "malloc_end s' = malloc_end s" by (simp add: s' set_link_frame)
      then show ?thesis using layout_cong [OF L sz] by simp
    qed
    show "set (pre @ b # rest) \<union> (U - {b}) = ?A - {c}" using b(1) dist new D(4) by auto
    show "a + ld (hmem s') a \<noteq> d" if ad: "a \<in> set (pre @ b # rest)" "d \<in> set (pre @ b # rest)" for a d
    proof (cases "a = b")
      case True
      have "c + ld ?m c \<noteq> d" if "d \<noteq> b" using D(10) [of c d] ad(2) that by auto
      moreover have "ld (hmem s') b = ld ?m b + ld ?m c" using sz [OF bA] by simp
      ultimately show ?thesis using True b(2) B(4) by (cases "d = b") (simp_all add: add.assoc)
    next
      case False
      then have a: "a \<in> set (pre @ rest)" "a \<in> ?A" using ad by auto
      have sza: "ld (hmem s') a = ld ?m a" using sz [OF a(2)] False by simp
      show ?thesis
      proof (cases "d = b")
        case True
        have "\<not> a < b \<or> a \<in> set pre" using a(1) D(2) b(2) by (auto simp: sorted_wrt_append)
        then show ?thesis using left [of a] sza True B(4) block_bounds(4) [OF ok a(2)] by auto
      next
        case False
        then show ?thesis using D(10) [of a d] a(1) ad(2) sza by auto
      qed
    qed
  qed (use D(7-9) s' in \<open>simp_all add: set_link_frame\<close>)
  show "keeps (U - {b}) s s'"
    unfolding s'
    by (rule keeps_link [OF ok sub(3) _ keeps_word(2) [OF ok bA _ _ keeps_word(1) [OF ok bA _ _ keeps_refl]]]) auto
qed


text \<open>The released block starts where the free block \<open>c\<close> ends: it becomes part of it.\<close>

lemma after_gap:
  assumes ok: "heap_ok lo s (pre @ c # rest) U" and b: "b \<in> U" "c + ld (hmem s) c = b"
    and d: "d \<in> set (pre @ c # rest)" "d \<noteq> c"
  shows "d < c \<and> d \<in> set pre \<or> b + ld (hmem s) b \<le> d \<and> d \<in> set rest"
proof -
  note D = heap_okD [OF ok]
  have A: "c \<in> set (pre @ c # rest) \<union> U" "d \<in> set (pre @ c # rest) \<union> U" "b \<in> set (pre @ c # rest) \<union> U"
    using b d by auto
  have "d < c \<and> d \<in> set pre \<or> c < d \<and> d \<in> set rest" using D(2) d by (auto simp: sorted_wrt_append)
  moreover have "b + ld (hmem s) b \<le> d" if "c < d"
  proof -
    have "b \<le> d" using layout_apart [OF D(5) A(1,2) that] b(2) by simp
    moreover have "b \<noteq> d" using D(4) b(1) d(1) by auto
    ultimately show ?thesis using layout_apart [OF D(5) A(3,2)] by simp
  qed
  ultimately show ?thesis by blast
qed

lemma release_after:
  assumes ok: "heap_ok lo s (pre @ c # rest) U" and b: "b \<in> U" "c + ld (hmem s) c = b"
    and right: "b + ld (hmem s) b \<noteq> first rest"
    and s': "s' = set_word c (ld (hmem s) c + ld (hmem s) b) s"
  shows "heap_ok lo s' (pre @ c # rest) (U - {b})" "keeps (U - {b}) s s'"
proof -
  let ?A = "set (pre @ c # rest) \<union> U" and ?m = "hmem s"
  note D = heap_okD [OF ok]
  have bA: "b \<in> ?A" and cA: "c \<in> ?A" using b by auto
  have new: "b \<notin> set (pre @ c # rest)" and cU: "c \<notin> U" using D(4) b(1) by auto
  note B = block_bounds [OF ok bA]
  have v: "ld ?m c + ld ?m b < 2 ^ 64" using B(3) b(2) by linarith
  note W = set_word_node [OF D(6) cA v, where s = s]
  have sz: "ld (hmem s') a = ((ld ?m)(c := ld ?m c + ld ?m b)) a" if "a \<in> ?A" for a
    unfolding s' using W(1) [OF that] by simp
  have L: "layout lo (malloc_end s) ((ld ?m)(c := ld ?m c + ld ?m b)) (?A - {b})"
    by (rule layout_merge [OF D(5) cA bA b(2)])
  show "heap_ok lo s' (pre @ c # rest) (U - {b})"
  proof (rule heap_okI)
    show "chain (hmem s') (malloc_freelist s') (pre @ c # rest)"
      unfolding s' set_word_frame using D(1) W(2) by (subst chain_cong [of _ _ ?m]) auto
    show "layout lo (malloc_end s') (ld (hmem s')) (?A - {b})"
      using layout_cong [OF L sz] by (simp add: s')
    show "set (pre @ c # rest) \<inter> (U - {b}) = {}" using D(4) by auto
    show "set (pre @ c # rest) \<union> (U - {b}) = ?A - {b}" using new by auto
    show "a + ld (hmem s') a \<noteq> d" if a: "a \<in> set (pre @ c # rest)" and d: "d \<in> set (pre @ c # rest)" for a d
    proof (cases "a = c")
      case False
      then show ?thesis using D(10) [OF a d] sz [of a] a by auto
    next
      case True
      have e: "ld (hmem s') c = ld ?m c + ld ?m b" using sz [OF cA] by simp
      have "d \<noteq> b + ld ?m b" if "d \<in> set rest"
      proof (cases rest)
        case (Cons r rs)
        then have "b + ld ?m b \<le> r" "r \<le> d"
          using after_gap [OF ok b, of r] D(2,3) that by (auto simp: sorted_wrt_append)
        moreover have "r \<noteq> b + ld ?m b" using right Cons by simp
        ultimately show ?thesis by linarith
      qed (use that in simp)
      then show ?thesis using after_gap [OF ok b d] b(2) B(4) e True by (cases "d = c") auto
    qed
  qed (use D(2,7-9) s' in simp_all)
  show "keeps (U - {b}) s s'"
    unfolding s' by (rule keeps_word(1) [OF ok cA _ _ keeps_refl]) (use cU in auto)
qed

text \<open>It ends where the next free block starts as well: all three become one.\<close>

lemma release_between:
  assumes ok: "heap_ok lo s (pre @ c # d # rest) U" and b: "b \<in> U" "c + ld (hmem s) c = b" "b + ld (hmem s) b = d"
    and s': "s' = set_word (c + 8) (ld (hmem s) (d + 8))
      (set_word c (ld (hmem s) c + ld (hmem s) b + ld (hmem s) d) (set_word c w s))" "w < 2 ^ 64"
  shows "heap_ok lo s' (pre @ c # rest) (U - {b})" "keeps (U - {b}) s s'"
proof -
  let ?A = "set (pre @ c # d # rest) \<union> U" and ?m = "hmem s"
  let ?v = "ld ?m c + ld ?m b + ld ?m d" let ?s1 = "set_word c ?v (set_word c w s)"
  note D = heap_okD [OF ok]
  have bA: "b \<in> ?A" and cA: "c \<in> ?A" and dA: "d \<in> ?A" using b by auto
  have new: "b \<notin> set (pre @ c # d # rest)" and cU: "c \<notin> U" "d \<notin> U" and dist: "d \<noteq> c" "d \<notin> set pre" "d \<notin> set rest" "c \<notin> set pre" "c \<notin> set rest"
    using D(3,4) b(1) by auto
  have v: "?v < 2 ^ 64" using block_bounds(3) [OF ok dA] b(2,3) by linarith
  have nx: "ld ?m (d + 8) = first rest"
    using chain_tail [of ?m _ "pre @ [c, d]" rest] D(1) chain_tail [of ?m _ "pre @ [c]" "d # rest"] chain_first [of ?m _ rest] by simp
  note W0 = set_word_node [OF D(6) cA s'(2), where s = s]
  note W1 = set_word_node [OF D(6) cA v, where s = "set_word c w s"]
  note W2 = set_word_node [OF D(6) cA ld_bound [of ?m "d + 8"], where s = ?s1]
  have sz: "ld (hmem s') a = ((ld ?m)(c := ?v)) a" if "a \<in> ?A" for a
    unfolding s' W2(3) [OF that] W1(1) [OF that] W0(1) [OF that] by simp
  have nxt: "ld (hmem s') (a + 8) = (if a = c then first rest else ld ?m (a + 8))" if "a \<in> ?A" for a
    using W2(4) [OF that] W1(2) [OF that] W0(2) [OF that] nx by (simp add: s')
  have L: "layout lo (malloc_end s) ((ld ?m)(c := ?v)) (?A - {b} - {d})"
  proof -
    let ?f = "(ld ?m)(c := ld ?m c + ld ?m b)"
    have "layout lo (malloc_end s) ?f (?A - {b})" by (rule layout_merge [OF D(5) cA bA b(2)])
    from layout_merge [OF this, of c d] have "layout lo (malloc_end s) (?f(c := ?f c + ?f d)) (?A - {b} - {d})"
      using cA dA new dist(1) b(2,3) by auto
    then show ?thesis using dist(1) by simp
  qed
  show "heap_ok lo s' (pre @ c # rest) (U - {b})"
  proof (rule heap_okI)
    show "chain (hmem s') (malloc_freelist s') (pre @ c # rest)"
    proof -
      have "chain ?m (first rest) rest" using chain_tail [of ?m _ "pre @ [c, d]" rest] D(1) by simp
      then have "chain (hmem s') (first rest) rest"
        using nxt dist by (subst chain_cong [of _ _ ?m]) auto
      then have tail: "chain (hmem s') c (c # rest)" using nxt [OF cA] block_bounds(1) [OF ok cA] by simp
      have same: "ld (hmem s') (a + 8) = ld ?m (a + 8)" if "a \<in> set pre" for a
        using nxt [of a] that dist(4) by auto
      have "chain (hmem s') (malloc_freelist s) (pre @ c # rest)"
      proof (cases "pre = []")
        case True
        then show ?thesis using tail D(1) by simp
      next
        case False
        have "ld ?m (last pre + 8) = c"
          using get_link_of [of s pre "c # d # rest"] D(1) False by (simp add: link_of_def)
        then have "ld (hmem s') (last pre + 8) = c" using same [OF last_in_set [OF False]] by simp
        then show ?thesis
          using tail by (intro chain_relink [OF D(1) False]) (simp_all add: same in_set_butlastD)
      qed
      then show ?thesis by (simp add: s')
    qed
    show "sorted_wrt (<) (pre @ c # rest)" using D(2) by (auto simp: sorted_wrt_append)
    have e: "malloc_end s' = malloc_end s" by (simp add: s')
    show "layout lo (malloc_end s') (ld (hmem s')) (?A - {b} - {d})"
      unfolding e by (rule layout_cong [OF L sz]) blast
    show "set (pre @ c # rest) \<inter> (U - {b}) = {}" using D(4) by auto
    show "set (pre @ c # rest) \<union> (U - {b}) = ?A - {b} - {d}" using new dist cU by auto
    show "a + ld (hmem s') a \<noteq> e" if a: "a \<in> set (pre @ c # rest)" and e: "e \<in> set (pre @ c # rest)" for a e
    proof (cases "a = c")
      case False
      then show ?thesis using D(10) [of a e] a e sz [of a] by auto
    next
      case True
      have "d + ld ?m d \<noteq> e" using D(10) [of d e] e by auto
      then show ?thesis using sz [OF cA] True b(2,3) by simp
    qed
  qed (use D(7-9) s' in simp_all)
  show "keeps (U - {b}) s s'"
    unfolding s'
    by (rule keeps_word(2) [OF ok cA _ _ keeps_word(1) [OF ok cA _ _ keeps_word(1) [OF ok cA _ _ keeps_refl]]])
      (use cU in auto)
qed


lemma free_scan_spec:
  assumes "heap_ok lo s (pre @ rest) U" and b: "b \<in> U"
    and "\<And>c. c \<in> set pre \<Longrightarrow> c < b \<and> c + ld (hmem s) c \<noteq> b"
  shows "\<exists>s' fl'. free_scan b (link_of pre) s = Some s' \<and> heap_ok lo s' fl' (U - {b}) \<and> keeps (U - {b}) s s'
    \<and> malloc_end s' = malloc_end s"
  using assms(1,3)
proof (induction rest arbitrary: pre)
  case Nil
  note ok = Nil.prems(1) and D = heap_okD [OF Nil.prems(1)]
  have link: "get_link s (link_of pre) = 0" using get_link_of [of s pre "[]"] D(1) by simp
  let ?s' = "set_link (link_of pre) b (set_word (b + 8) 0 s)"
  have "free_scan b (link_of pre) s = Some ?s'"
    by (rule trans [OF free_scan.simps]) (simp add: link Let_def)
  moreover have "heap_ok lo ?s' (pre @ b # []) (U - {b}) \<and> keeps (U - {b}) s ?s'"
    using release_block [OF ok b Nil.prems(2), of ?s'] by simp
  ultimately show ?case by (force simp: set_link_frame)
next
  case (Cons c rest)
  note ok = Cons.prems(1) and D = heap_okD [OF Cons.prems(1)]
  have cA: "c \<in> set (pre @ c # rest) \<union> U" and bA: "b \<in> set (pre @ c # rest) \<union> U" using b by simp_all
  note C = block_bounds [OF ok cA] and B = block_bounds [OF ok bA]
  have link: "get_link s (link_of pre) = c" using get_link_of [OF D(1)] by simp
  have nx: "ld (hmem s) (c + 8) = first rest" using chain_tail [OF D(1)] chain_first [of "hmem s" _ rest] by simp
  have plus: "wadd c (ld (hmem s) c) = c + ld (hmem s) c" "wadd b (ld (hmem s) b) = b + ld (hmem s) b"
    using B(3) C(3) by (simp_all only: wadd_eq)
  have bc: "b \<noteq> c" using D(4) b by auto
  let ?bs = "ld (hmem s) b" and ?cs = "ld (hmem s) c"
  have order: "b < d" if "b < c" "d \<in> set (c # rest)" for d
    using D(2) that by (auto simp: sorted_wrt_append)
  consider (after) "c + ?cs = b" | (before) "c + ?cs \<noteq> b" "c = b + ?bs"
    | (insert) "c + ?cs \<noteq> b" "c \<noteq> b + ?bs" "b < c" | (step) "c + ?cs \<noteq> b" "c \<noteq> b + ?bs" "c < b"
    using bc by linarith
  then show ?case
  proof cases
    case after
    have v: "?cs + ?bs < 2 ^ 64" using after B(3) by linarith
    have w: "wadd ?cs ?bs = ?cs + ?bs" by (rule wadd_eq [OF v])
    let ?s1 = "set_word c (?cs + ?bs) s"
    note W = set_word_node [OF D(6) cA v, where s = s]
    have ld1: "ld (hmem ?s1) (c + 8) = first rest" "ld (hmem ?s1) c = ?cs + ?bs" "ld (hmem ?s1) b = ?bs"
      using W(1) [OF cA] W(1) [OF bA] W(2) [OF cA] bc nx by simp_all
    show ?thesis
    proof (cases "b + ?bs = first rest")
      case False
      have "free_scan b (link_of pre) s = Some ?s1"
        by (rule trans [OF free_scan.simps]) (use False in \<open>auto simp: link C(1) plus after w ld1 Let_def\<close>)
      moreover have "heap_ok lo ?s1 (pre @ c # rest) (U - {b}) \<and> keeps (U - {b}) s ?s1"
        using release_after [OF ok b after False refl] by blast
      ultimately show ?thesis by force
    next
      case True
      then obtain d rs where rest: "rest = d # rs" "b + ?bs = d" using B(1) by (cases rest) auto
      have dA: "d \<in> set (pre @ c # rest) \<union> U" using rest by simp
      have d: "d \<noteq> 0" "d \<noteq> c" "d + ld (hmem s) d < 2 ^ 64"
        using block_bounds [OF ok dA] D(3) rest by auto
      have ld2: "ld (hmem ?s1) d = ld (hmem s) d" using W(1) [OF dA] d(2) by simp
      have v2: "?cs + ?bs + ld (hmem s) d < 2 ^ 64" using d(3) rest(2) after by linarith
      let ?s2 = "set_word c (?cs + ?bs + ld (hmem s) d) ?s1"
      have nx2: "ld (hmem ?s2) (d + 8) = ld (hmem s) (d + 8)"
        using set_word_node(2) [OF D(6) cA v2 dA, of ?s1] W(2) [OF dA] by simp
      let ?s3 = "set_word (c + 8) (ld (hmem s) (d + 8)) ?s2"
      have "free_scan b (link_of pre) s = Some ?s3"
        by (rule trans [OF free_scan.simps])
          (use True rest(1) d(1) in \<open>simp add: link C(1) plus after w ld1 ld2 nx2 wadd_eq [OF v2] Let_def\<close>)
      moreover have "heap_ok lo ?s3 (pre @ c # rs) (U - {b}) \<and> keeps (U - {b}) s ?s3"
        using release_between [OF ok [unfolded rest(1)] b after rest(2) refl v] by blast
      ultimately show ?thesis by force
    qed
  next
    case before
    have v: "?bs + ?cs < 2 ^ 64" using before C(3) by linarith
    have w: "wadd ?bs ?cs = ?bs + ?cs" by (rule wadd_eq [OF v])
    have nx1: "ld (hmem (set_word b (?bs + ?cs) s)) (c + 8) = ld (hmem s) (c + 8)"
      by (rule set_word_node(2) [OF D(6) bA v cA])
    let ?s' = "set_link (link_of pre) b (set_word (b + 8) (ld (hmem s) (c + 8)) (set_word b (?bs + ?cs) s))"
    have ne: "(b + ?bs) + ?cs \<noteq> b" using B(4) by simp
    have "free_scan b (link_of pre) s = Some ?s'"
      by (rule trans [OF free_scan.simps])
        (use before(1) in \<open>simp add: link C(1) plus before(2) [symmetric] w nx1 Let_def\<close>)
    moreover have "heap_ok lo ?s' (pre @ b # rest) (U - {b}) \<and> keeps (U - {b}) s ?s'"
      using release_before [OF ok b before(2) Cons.prems(2) refl] by blast
    ultimately show ?thesis by (force simp: set_link_frame)
  next
    case insert
    let ?s' = "set_link (link_of pre) b (set_word (b + 8) c s)"
    have "free_scan b (link_of pre) s = Some ?s'"
      by (rule trans [OF free_scan.simps]) (use insert in \<open>simp add: link C(1) plus Let_def\<close>)
    moreover have "b + ?bs \<noteq> d" if d: "d \<in> set (c # rest)" for d
    proof (cases "d = c")
      case False
      then have "c + ?cs \<le> d" using layout_apart [OF D(5) cA, of d] D(2) d by (auto simp: sorted_wrt_append)
      moreover have "b + ?bs \<le> c" by (rule layout_apart [OF D(5) bA cA insert(3)])
      ultimately show ?thesis using C(4) by linarith
    qed (use insert in simp)
    then have "heap_ok lo ?s' (pre @ b # c # rest) (U - {b}) \<and> keeps (U - {b}) s ?s'"
      using release_block [OF ok b Cons.prems(2), of ?s'] order [OF insert(3)] by simp
    ultimately show ?thesis by (force simp: set_link_frame)
  next
    case step
    have "free_scan b (link_of pre) s = free_scan b (Next c) s"
      by (rule trans [OF free_scan.simps]) (use step in \<open>simp add: link C(1) plus Let_def\<close>)
    moreover have "link_of (pre @ [c]) = Next c" by (simp add: link_of_def)
    moreover have "\<exists>s' fl'. free_scan b (link_of (pre @ [c])) s = Some s' \<and> heap_ok lo s' fl' (U - {b})
        \<and> keeps (U - {b}) s s' \<and> malloc_end s' = malloc_end s"
      by (rule Cons.IH) (use ok Cons.prems(2) step in auto)
    ultimately show ?thesis by simp
  qed
qed


definition free_result :: "nat \<Rightarrow> heap \<Rightarrow> nat set \<Rightarrow> nat \<Rightarrow> heap \<Rightarrow> bool" where
  "free_result lo s U b s' \<longleftrightarrow> (\<exists>fl'. heap_ok lo s' fl' (U - {b})) \<and> keeps (U - {b}) s s' \<and> malloc_end s' = malloc_end s"

lemma free_spec:
  assumes ok: "heap_ok lo s fl U" and b: "b \<in> U"
  shows "\<exists>s'. free (b + 8) s = Some s' \<and> free_result lo s U b s'"
proof -
  have "b \<in> set fl \<union> U" using b by simp
  note B = block_bounds [OF ok this]
  have "wsub (b + 8) 8 = b" using wsub_eq [of 8 "b + 8"] B(3,4) by simp
  then have "free (b + 8) s = free_scan b (link_of []) s" by (simp add: free_def link_of_def)
  then show ?thesis using free_scan_spec [of lo s "[]" fl U b] ok b by (auto simp: free_result_def)
qed

subsection \<open>Writing to the data of a block\<close>

lemma data_write:
  assumes ok: "heap_ok lo s fl U" and b: "b \<in> U"
    and m: "\<And>x. x < b + 8 \<or> b + ld (hmem s) b \<le> x \<Longrightarrow> m x = hmem s x"
  shows "heap_ok lo (s\<lparr>hmem := m\<rparr>) fl U" "keeps (U - {b}) s (s\<lparr>hmem := m\<rparr>)" "\<And>c. c \<in> set fl \<union> U \<Longrightarrow> ld m c = ld (hmem s) c"
proof -
  note D = heap_okD [OF ok]
  have bA: "b \<in> set fl \<union> U" using b by simp
  have sep: "c + ld (hmem s) c \<le> b \<or> b + ld (hmem s) b \<le> c" if "c \<in> set fl \<union> U" "c \<noteq> b" for c
    using layout_sep [OF D(5) that(1) bA that(2)] .
  have head: "ld m c = ld (hmem s) c" if "c \<in> set fl \<union> U" for c
  proof (rule ld_cong, rule m)
    fix x assume x: "c \<le> x" "x < c + 8"
    show "x < b + 8 \<or> b + ld (hmem s) b \<le> x"
      using sep [OF that] x block_bounds(4) [OF ok that] by (cases "c = b") linarith+
  qed
  show "\<And>c. c \<in> set fl \<union> U \<Longrightarrow> ld m c = ld (hmem s) c" by (rule head)
  have nxt: "ld m (c + 8) = ld (hmem s) (c + 8)" if "c \<in> set fl" for c
  proof (rule ld_cong, rule m)
    fix x assume x: "c + 8 \<le> x" "x < c + 8 + 8"
    have c: "c \<in> set fl \<union> U" "c \<noteq> b" using that D(4) b by auto
    show "x < b + 8 \<or> b + ld (hmem s) b \<le> x"
      using sep [OF c] x block_bounds(4) [OF ok c(1)] by linarith
  qed
  show "heap_ok lo (s\<lparr>hmem := m\<rparr>) fl U"
  proof (rule heap_okI [where A = "set fl \<union> U"])
    show "chain (hmem (s\<lparr>hmem := m\<rparr>)) (malloc_freelist (s\<lparr>hmem := m\<rparr>)) fl"
      using D(1) nxt by (subst chain_cong [of _ _ "hmem s"]) simp_all
    show "layout lo (malloc_end (s\<lparr>hmem := m\<rparr>)) (ld (hmem (s\<lparr>hmem := m\<rparr>))) (set fl \<union> U)"
      using layout_cong [OF D(5) head] by simp
    show "a + ld (hmem (s\<lparr>hmem := m\<rparr>)) a \<noteq> c" if "a \<in> set fl" "c \<in> set fl" for a c
      using D(10) [OF that] head [of a] that by simp
  qed (use D(2,4,7-9) in simp_all)
  show "keeps (U - {b}) s (s\<lparr>hmem := m\<rparr>)"
    unfolding keeps_def
  proof (intro ballI allI impI)
    fix u x assume u: "u \<in> U - {b}" and x: "u \<le> x \<and> x < u + ld (hmem s) u"
    have "x < b + 8 \<or> b + ld (hmem s) b \<le> x" using sep [of u] u x by auto
    then show "hmem (s\<lparr>hmem := m\<rparr>) x = hmem s x" using m by simp
  qed
qed

lemma keeps_sub: "keeps U s s' \<Longrightarrow> V \<subseteq> U \<Longrightarrow> keeps V s s'"
  unfolding keeps_def by blast

lemma keeps_size: "heap_ok lo s fl U \<Longrightarrow> keeps V s s' \<Longrightarrow> V \<subseteq> U \<Longrightarrow> u \<in> V \<Longrightarrow> ld (hmem s') u = ld (hmem s) u"
  using block_bounds(4) [of lo s fl U u] by (intro ld_cong) (auto simp: keeps_def)

lemma keeps_trans:
  assumes "heap_ok lo s fl U" "keeps V s s1" "V \<subseteq> U" "keeps V s1 s2"
  shows "keeps V s s2"
  using keeps_size [OF assms(1-3)] assms(2,4) unfolding keeps_def by simp


subsection \<open>realloc, calloc, cfree\<close>

definition realloc :: "nat \<Rightarrow> nat \<Rightarrow> nat \<Rightarrow> heap \<Rightarrow> (nat \<times> heap) option" where
  "realloc limit block_p sz s =
     (let block = wsub block_p 8; rs = real_size sz
      in if block_p = 0 then malloc limit sz s
         else let old_real_size = ld (hmem s) block
              in if old_real_size < rs
                 then let old_size = wsub old_real_size 8
                      in case malloc limit sz s of
                           None \<Rightarrow> None
                         | Some (result, s) \<Rightarrow>
                             if result = 0 then Some (0, s)
                             else let s = s\<lparr>hmem := blk_copy result block_p (if old_size < sz then old_size else sz) (hmem s)\<rparr>
                                  in (case free block_p s of None \<Rightarrow> None | Some s \<Rightarrow> Some (result, s))
                 else if 16 \<le> wsub old_real_size rs
                 then let newblock = wadd block rs;
                          s = set_word block rs s;
                          s = set_word newblock (wsub old_real_size rs) s
                      in (case free (wadd newblock 8) s of None \<Rightarrow> None | Some s \<Rightarrow> Some (block_p, s))
                 else Some (block_p, s))"

definition calloc :: "nat \<Rightarrow> nat \<Rightarrow> nat \<Rightarrow> heap \<Rightarrow> (nat \<times> heap) option" where
  "calloc limit n elem_size s =
     (let sz = n * elem_size mod 2 ^ 64
      in case malloc limit sz s of
           None \<Rightarrow> None
         | Some (result, s) \<Rightarrow>
             Some (result, if result \<noteq> 0 then s\<lparr>hmem := blk_fill result 0 sz (hmem s)\<rparr> else s))"

definition cfree :: "nat \<Rightarrow> heap \<Rightarrow> heap option" where
  "cfree p s = free p s"

definition malloc_usable_size :: "nat \<Rightarrow> heap \<Rightarrow> nat" where
  "malloc_usable_size block_p s = wsub (ld (hmem s) (wsub block_p 8)) 8"

definition mallopt :: "c_int \<Rightarrow> c_int \<Rightarrow> c_int" where
  "mallopt n v = 0"

text \<open>
  A successful resize: the new block, of at least the requested size, replaces the old one, starts
  with the old data up to the smaller of both sizes, and no other block in use changes.
\<close>

definition realloc_result :: "nat \<Rightarrow> heap \<Rightarrow> nat set \<Rightarrow> nat \<Rightarrow> nat \<Rightarrow> nat \<Rightarrow> heap \<Rightarrow> bool" where
  "realloc_result lo s U b sz r s' \<longleftrightarrow>
     8 \<le> r \<and> r - 8 \<notin> U - {b} \<and> real_size sz \<le> ld (hmem s') (r - 8) \<and> keeps (U - {b}) s s'
     \<and> (\<exists>fl'. heap_ok lo s' fl' (insert (r - 8) (U - {b})))
     \<and> (\<forall>i. i < sz \<and> i + 8 < ld (hmem s) b \<longrightarrow> hmem s' (r + i) = hmem s (b + 8 + i))"

lemma realloc_resultI:
  assumes "c \<notin> U - {b}" "real_size sz \<le> ld (hmem s') c" "keeps (U - {b}) s s'"
    "heap_ok lo s' fl' (insert c (U - {b}))"
    "\<And>i. i < sz \<Longrightarrow> i + 8 < ld (hmem s) b \<Longrightarrow> hmem s' (c + 8 + i) = hmem s (b + 8 + i)"
  shows "realloc_result lo s U b sz (c + 8) s'"
  using assms unfolding realloc_result_def by auto

text \<open>Cutting a block in two; the rear part is an allocated block of its own.\<close>

lemma cut_block:
  assumes ok: "heap_ok lo s fl U" and b: "b \<in> set fl \<union> U"
    and r: "16 \<le> r" "r + 16 \<le> ld (hmem s) b" "8 dvd r"
    and s': "s' = set_word (b + r) (ld (hmem s) b - r) (set_word b r s)"
  shows "heap_ok lo s' fl (insert (b + r) U)" "b + r \<notin> set fl \<union> U" "keeps (U - {b}) s s'" "ld (hmem s') b = r"
    "ld (hmem s') (b + r) = ld (hmem s) b - r" "\<And>x. b + 8 \<le> x \<Longrightarrow> x < b + r \<Longrightarrow> hmem s' x = hmem s x"
proof -
  let ?A = "set fl \<union> U" and ?m = "hmem s" and ?n = "b + r"
  note D = heap_okD [OF ok]
  have bA: "b \<in> ?A" by (rule b)
  note B = block_bounds [OF ok bA]
  have L: "layout lo (malloc_end s) ((ld ?m)(b := r, ?n := ld ?m b - r)) (insert ?n ?A)"
    by (rule layout_split [OF D(5) bA r])
  have N: "nodes (insert ?n ?A)" by (rule nodes_layout [OF L])
  show new: "?n \<notin> ?A"
  proof
    assume "?n \<in> ?A"
    from layout_apart [OF D(5) bA this] r show False by linarith
  qed
  have v: "r < 2 ^ 64" "ld ?m b - r < 2 ^ 64" using B(3) r by linarith+
  note W1 = set_word_node [OF N insertI2 [OF bA] v(1), where s = s]
  note W2 = set_word_node [OF N insertI1 v(2), where s = "set_word b r s"]
  have sz: "ld (hmem s') c = ((ld ?m)(b := r, ?n := ld ?m b - r)) c" if "c \<in> insert ?n ?A" for c
    unfolding s' W2(1) [OF that] W1(1) [OF that] using r(1) by auto
  have nxt: "ld (hmem s') (c + 8) = ld ?m (c + 8)" if "c \<in> insert ?n ?A" for c
    unfolding s' W2(2) [OF that] W1(2) [OF that] ..
  show "heap_ok lo s' fl (insert ?n U)"
  proof (rule heap_okI [where A = "insert ?n ?A"])
    show "chain (hmem s') (malloc_freelist s') fl"
      using D(1) nxt by (subst chain_cong [of _ _ ?m]) (auto simp: s')
    have e: "malloc_end s' = malloc_end s" by (simp add: s')
    show "layout lo (malloc_end s') (ld (hmem s')) (insert ?n ?A)"
      unfolding e by (rule layout_cong [OF L sz])
    show "a + ld (hmem s') a \<noteq> c" if ac: "a \<in> set fl" "c \<in> set fl" for a c
    proof (cases "a = b")
      case True
      have "ld (hmem s') b = r" using sz [of b] bA r(1) by simp
      then show ?thesis using True ac(2) new by auto
    next
      case False
      moreover have "a \<noteq> ?n" using ac(1) new by auto
      ultimately have "ld (hmem s') a = ld ?m a" using sz [of a] ac(1) by simp
      then show ?thesis using D(10) [OF ac] by simp
    qed
  qed (use D(2,4,7-9) new s' in auto)
  have frame: "hmem s' x = ?m x" if "(x < b \<or> b + 8 \<le> x) \<and> (x < ?n \<or> ?n + 8 \<le> x)" for x
    using that by (simp add: s' set_word_def st_other)
  show "keeps (U - {b}) s s'" unfolding keeps_def
  proof (intro ballI allI impI, rule frame)
    fix u x assume u: "u \<in> U - {b}" and x: "u \<le> x \<and> x < u + ld ?m u"
    have "u + ld ?m u \<le> b \<or> b + ld ?m b \<le> u" using layout_sep [OF D(5) _ bA, of u] u by auto
    then show "(x < b \<or> b + 8 \<le> x) \<and> (x < ?n \<or> ?n + 8 \<le> x)" using x r by linarith
  qed
  show "ld (hmem s') b = r" "ld (hmem s') ?n = ld ?m b - r" using sz [of b] sz [of ?n] bA r by simp_all
  show "hmem s' x = hmem s x" if "b + 8 \<le> x" "x < b + r" for x
    by (rule frame) (use that in linarith)
qed


lemma realloc_spec:
  assumes ok: "heap_ok lo s fl U" and b: "b \<in> U" and sz: "sz + 32 < 2 ^ 64"
    and limit: "malloc_end s + 32 \<le> limit" "limit < 2 ^ 64"
  shows "\<exists>r s'. realloc limit (b + 8) sz s = Some (r, s') \<and> malloc_end s' + 32 \<le> limit
    \<and> (if r = 0 then s' = s \<and> ld (hmem s) b < real_size sz else realloc_result lo s U b sz r s')"
proof -
  let ?rs = "real_size sz" and ?old = "ld (hmem s) b"
  have bA: "b \<in> set fl \<union> U" using b by simp
  note B = block_bounds [OF ok bA]
  have b8: "wsub (b + 8) 8 = b" using wsub_eq [of 8 "b + 8"] B(3,4) by simp
  have "sz + 16 < 2 ^ 64" using sz by linarith
  note R = real_size_bounds [OF this]
  have old: "wsub ?old 8 = ?old - 8" using B(4) ld_bound by (intro wsub_eq) linarith+
  consider (more) "?old < ?rs" | (cut) "?rs + 16 \<le> ?old" | (same) "?rs \<le> ?old" "?old < ?rs + 16" by linarith
  then show ?thesis
  proof cases
    case more
    from malloc_spec [OF ok sz limit] obtain p s1 where m: "malloc limit sz s = Some (p, s1)"
      and res: "malloc_result lo limit ?rs s fl U p s1" by blast
    show ?thesis
    proof (cases "p = 0")
      case True
      then have "realloc limit (b + 8) sz s = Some (0, s)"
        using res m more by (simp add: realloc_def b8 malloc_result_def)
      then show ?thesis using more limit by auto
    next
      case False
      define c where "c = p - 8"
      from res False obtain fl1 where p: "p = c + 8" and c: "c \<notin> U" "?rs \<le> ld (hmem s1) c" and k: "keeps U s s1"
        and ok1: "heap_ok lo s1 fl1 (insert c U)" and e1: "malloc_end s1 + 32 \<le> limit"
        by (auto simp: malloc_result_def c_def)
      let ?n = "if ?old - 8 < sz then ?old - 8 else sz"
      let ?m = "blk_copy p (b + 8) ?n (hmem s1)"
      have n: "?n \<le> sz" "?n + 8 \<le> ?old" using B(4) by auto
      note dw = data_write [OF ok1 insertI1, of ?m]
      have outside: "?m x = hmem s1 x" if "x < c + 8 \<or> c + ld (hmem s1) c \<le> x" for x
        using that n(1) R(1) c(2) p by (simp add: blk_copy_def) linarith
      note dw = dw [OF outside]
      have V: "insert c U - {c} = U" using c(1) by auto
      have bI: "b \<in> insert c U" using b by simp
      obtain s2 where f: "free (b + 8) (s1\<lparr>hmem := ?m\<rparr>) = Some s2"
        and fr: "free_result lo (s1\<lparr>hmem := ?m\<rparr>) (insert c U) b s2" using free_spec [OF dw(1) bI] by blast
      have run: "realloc limit (b + 8) sz s = Some (p, s2)"
        using more False m f by (simp add: realloc_def b8 old)
      have bc: "insert c U - {b} = insert c (U - {b})" using b c(1) by auto
      from fr obtain fl2 where ok2: "heap_ok lo s2 fl2 (insert c (U - {b}))"
        and k2: "keeps (insert c (U - {b})) (s1\<lparr>hmem := ?m\<rparr>) s2" and e2: "malloc_end s2 = malloc_end s1"
        unfolding free_result_def bc by auto
      have "ld (hmem s2) c = ld (hmem (s1\<lparr>hmem := ?m\<rparr>)) c"
        by (rule keeps_size [OF dw(1) k2]) blast+
      then have szc: "ld (hmem s2) c = ld (hmem s1) c" using dw(3) [of c] by simp
      have "keeps U s (s1\<lparr>hmem := ?m\<rparr>)" by (rule keeps_trans [OF ok k subset_refl dw(2) [unfolded V]])
      then have kk: "keeps (U - {b}) s s2"
        by (intro keeps_trans [OF ok keeps_sub _ keeps_sub [OF k2]]) auto
      have "realloc_result lo s U b sz (c + 8) s2"
      proof (rule realloc_resultI [OF _ _ kk ok2])
        fix i assume i: "i < sz" "i + 8 < ?old"
        have "ld ?m c = ld (hmem s1) c" using dw(3) [of c] by simp
        then have "hmem s2 (c + 8 + i) = ?m (c + 8 + i)"
          using k2 i(1) R(1) c(2) unfolding keeps_def by simp
        also have "\<dots> = hmem s1 (b + 8 + i)" using i by (simp add: blk_copy_def p) linarith
        also have "\<dots> = hmem s (b + 8 + i)" using k b i(2) unfolding keeps_def by simp
        finally show "hmem s2 (c + 8 + i) = hmem s (b + 8 + i)" .
      qed (use c szc in auto)
      then show ?thesis using run False e1 e2 p by auto
    qed
  next
    case cut
    let ?n = "b + ?rs" let ?s1 = "set_word ?n (?old - ?rs) (set_word b ?rs s)"
    note cb = cut_block [OF ok bA R(2) cut R(3) refl]
    have w: "wsub ?old ?rs = ?old - ?rs" using cut ld_bound by (intro wsub_eq) linarith+
    have n8: "wadd b ?rs = ?n" "wadd ?n 8 = ?n + 8" using cut B(3) by (auto intro!: wadd_eq)
    obtain s2 where f: "free (?n + 8) ?s1 = Some s2" and fr: "free_result lo ?s1 (insert ?n U) ?n s2"
      using free_spec [OF cb(1) insertI1] by blast
    have "\<not> ?old < ?rs" "16 \<le> ?old - ?rs" using cut by linarith+
    then have run: "realloc limit (b + 8) sz s = Some (b + 8, s2)"
      using f by (simp add: realloc_def b8 n8 w Let_def)
    have V: "insert ?n U - {?n} = U" using cb(2) by auto
    from fr obtain fl2 where ok2: "heap_ok lo s2 fl2 U" and k2: "keeps U ?s1 s2" and e2: "malloc_end s2 = malloc_end s"
      unfolding free_result_def V by auto
    have szb: "ld (hmem s2) b = ?rs" using keeps_size [OF cb(1) k2 _ b] cb(4) by auto
    have kk: "keeps (U - {b}) s s2"
      by (rule keeps_trans [OF ok cb(3) _ keeps_sub [OF k2]]) auto
    have ins: "insert b (U - {b}) = U" using b by auto
    have okb: "heap_ok lo s2 fl2 (insert b (U - {b}))" using ok2 by (simp only: ins)
    have "realloc_result lo s U b sz (b + 8) s2"
    proof (rule realloc_resultI [OF _ _ kk okb])
      fix i assume i: "i < sz" "i + 8 < ?old"
      have "hmem s2 (b + 8 + i) = hmem ?s1 (b + 8 + i)"
        using k2 b i(1) R(1) cb(4) unfolding keeps_def by simp
      also have "\<dots> = hmem s (b + 8 + i)" by (rule cb(6)) (use i(1) R(1) in linarith)+
      finally show "hmem s2 (b + 8 + i) = hmem s (b + 8 + i)" .
    qed (use szb in auto)
    then show ?thesis using run e2 limit by auto
  next
    case same
    have w: "wsub ?old ?rs = ?old - ?rs" using same ld_bound by (intro wsub_eq) linarith+
    have "\<not> ?old < ?rs" "\<not> 16 \<le> ?old - ?rs" using same by linarith+
    then have run: "realloc limit (b + 8) sz s = Some (b + 8, s)"
      by (simp add: realloc_def b8 w Let_def)
    have ins: "insert b (U - {b}) = U" using b by auto
    have okb: "heap_ok lo s fl (insert b (U - {b}))" using ok by (simp only: ins)
    have "realloc_result lo s U b sz (b + 8) s"
      by (rule realloc_resultI [OF _ same(1) keeps_refl okb]) auto
    then show ?thesis using run limit by auto
  qed
qed


text \<open>
  The zeroed allocation clears the whole request, whose size is the product of both arguments
  modulo the word size.
\<close>

lemma calloc_spec:
  assumes ok: "heap_ok lo s fl U" and sz: "sz = n * elem_size mod 2 ^ 64" "sz + 32 < 2 ^ 64"
    and limit: "malloc_end s + 32 \<le> limit" "limit < 2 ^ 64"
  shows "\<exists>p s'. calloc limit n elem_size s = Some (p, s') \<and> malloc_result lo limit (real_size sz) s fl U p s'
    \<and> (p \<noteq> 0 \<longrightarrow> (\<forall>i < sz. hmem s' (p + i) = 0))"
proof -
  from malloc_spec [OF ok sz(2) limit] obtain p s1 where m: "malloc limit sz s = Some (p, s1)"
    and res: "malloc_result lo limit (real_size sz) s fl U p s1" by blast
  show ?thesis
  proof (cases "p = 0")
    case True
    then have "calloc limit n elem_size s = Some (0, s1)" using m by (simp add: calloc_def sz(1) Let_def)
    then show ?thesis using res True by auto
  next
    case False
    have "sz + 16 < 2 ^ 64" using sz(2) by linarith
    note R = real_size_bounds [OF this]
    define c where "c = p - 8"
    from res False obtain fl1 where p: "p = c + 8" and c: "c \<notin> U" "real_size sz \<le> ld (hmem s1) c" and k: "keeps U s s1"
      and ok1: "heap_ok lo s1 fl1 (insert c U)" and e1: "malloc_end s1 + 32 \<le> limit"
      by (auto simp: malloc_result_def c_def)
    let ?m = "blk_fill p 0 sz (hmem s1)"
    have outside: "?m x = hmem s1 x" if "x < c + 8 \<or> c + ld (hmem s1) c \<le> x" for x
      using that R(1) c(2) p by (simp add: blk_fill_def) linarith
    note dw = data_write [OF ok1 insertI1 outside]
    have V: "insert c U - {c} = U" using c(1) by auto
    have "calloc limit n elem_size s = Some (p, s1\<lparr>hmem := ?m\<rparr>)"
      using m False by (simp add: calloc_def sz(1) Let_def)
    moreover have "keeps U s (s1\<lparr>hmem := ?m\<rparr>)" by (rule keeps_trans [OF ok k subset_refl dw(2) [unfolded V]])
    then have "malloc_result lo limit (real_size sz) s fl U (c + 8) (s1\<lparr>hmem := ?m\<rparr>)"
      by (rule malloc_resultI [OF c(1) _ _ _ dw(1), rotated]) (use c(2) dw(3) [of c] e1 in simp_all)
    then have "malloc_result lo limit (real_size sz) s fl U p (s1\<lparr>hmem := ?m\<rparr>)" by (simp only: p)
    moreover have "\<forall>i < sz. hmem (s1\<lparr>hmem := ?m\<rparr>) (p + i) = 0" by (simp add: blk_fill_def)
    ultimately show ?thesis by blast
  qed
qed

lemma usable_size_spec:
  assumes ok: "heap_ok lo s fl U" and b: "b \<in> U"
  shows "malloc_usable_size (b + 8) s = ld (hmem s) b - 8" "real_size sz \<le> ld (hmem s) b \<Longrightarrow> sz + 16 < 2 ^ 64 \<Longrightarrow> sz \<le> malloc_usable_size (b + 8) s"
proof -
  have "b \<in> set fl \<union> U" using b by simp
  note B = block_bounds [OF ok this]
  have "wsub (b + 8) 8 = b" using wsub_eq [of 8 "b + 8"] B(3,4) by simp
  moreover have "wsub (ld (hmem s) b) 8 = ld (hmem s) b - 8" using B(4) ld_bound by (intro wsub_eq) linarith+
  ultimately show u: "malloc_usable_size (b + 8) s = ld (hmem s) b - 8" by (simp add: malloc_usable_size_def)
  show "real_size sz \<le> ld (hmem s) b \<Longrightarrow> sz + 16 < 2 ^ 64 \<Longrightarrow> sz \<le> malloc_usable_size (b + 8) s"
    unfolding u using real_size_bounds(1) [of sz] by linarith
qed


subsection \<open>Statistics\<close>

text \<open>
  The fields of \<^verbatim>\<open>struct mallinfo\<close> have the type the C library gives them; \<open>conv\<close> stands for the
  conversion of a \<^verbatim>\<open>size_t\<close> to it. \<open>start\<close> is the address of \<^verbatim>\<open>__malloc_start\<close>.
\<close>

record 'f mallinfo =
  arena :: 'f
  fordblks :: 'f
  uordblks :: 'f
  ordblks :: 'f
  keepcost :: 'f

partial_function (option) mallinfo_scan :: "nat \<Rightarrow> nat \<Rightarrow> nat \<Rightarrow> nat \<Rightarrow> heap \<Rightarrow> (nat \<times> nat \<times> nat) option" where
  "mallinfo_scan fr free_size free_blocks keep s =
     (if fr = 0 then Some (free_size, free_blocks, keep)
      else let size = ld (hmem s) fr; next = ld (hmem s) (fr + 8);
               keep = (if next = 0 then if wadd fr size = malloc_end s then size else keep else keep)
           in mallinfo_scan next (wadd free_size size) (wadd free_blocks 1) keep s)"

definition mallinfo_c :: "(nat \<Rightarrow> 'f) \<Rightarrow> nat \<Rightarrow> heap \<Rightarrow> 'f mallinfo option" where
  "mallinfo_c conv start s =
     (case mallinfo_scan (malloc_freelist s) 0 0 0 s of
        None \<Rightarrow> None
      | Some (free_size, free_blocks, keep) \<Rightarrow>
          let total_size = wsub (malloc_end s) start
          in Some \<lparr>arena = conv total_size, fordblks = conv free_size, uordblks = conv (wsub total_size free_size),
               ordblks = conv free_blocks, keepcost = conv keep\<rparr>)"

text \<open>The size of the free block at the end of the heap, or 0.\<close>

definition spare :: "heap \<Rightarrow> nat list \<Rightarrow> nat" where
  "spare s fl = (if fl \<noteq> [] \<and> last fl + ld (hmem s) (last fl) = malloc_end s then ld (hmem s) (last fl) else 0)"

lemma mallinfo_scan_spec:
  assumes "chain (hmem s) p bs" "\<And>b. b \<in> set bs \<Longrightarrow> b + ld (hmem s) b < 2 ^ 64 \<and> 1 \<le> ld (hmem s) b"
    "f + (\<Sum>b\<leftarrow>bs. ld (hmem s) b) < 2 ^ 64" "n \<le> f"
  shows "mallinfo_scan p f n 0 s = Some (f + (\<Sum>b\<leftarrow>bs. ld (hmem s) b), n + length bs, spare s bs)"
  using assms
proof (induction bs arbitrary: p f n)
  case Nil
  then show ?case by (subst mallinfo_scan.simps) (simp add: spare_def)
next
  case (Cons b bs)
  let ?sz = "ld (hmem s) b"
  have b: "p = b" "b \<noteq> 0" and tail: "chain (hmem s) (ld (hmem s) (b + 8)) bs" using Cons.prems(1) by simp_all
  note nx = chain_first [OF tail]
  have B: "b + ?sz < 2 ^ 64" "1 \<le> ?sz" using Cons.prems(2) by simp_all
  have w: "wadd b ?sz = b + ?sz" "wadd f ?sz = f + ?sz" "wadd n 1 = n + 1"
  proof -
    have "f + ?sz < 2 ^ 64" using Cons.prems(3) by simp
    then show "wadd b ?sz = b + ?sz" "wadd f ?sz = f + ?sz" "wadd n 1 = n + 1"
      using B Cons.prems(4) by (intro wadd_eq; linarith)+
  qed
  show ?case
  proof (cases "bs = []")
    case True
    then show ?thesis
      using nx b by (subst mallinfo_scan.simps, subst mallinfo_scan.simps) (simp add: w [simplified] spare_def Let_def)
  next
    case False
    have ne: "first bs \<noteq> 0" using tail False by (cases bs) auto
    have "mallinfo_scan p f n 0 s = mallinfo_scan (ld (hmem s) (b + 8)) (f + ?sz) (n + 1) 0 s"
      by (rule trans [OF mallinfo_scan.simps]) (use ne nx b in \<open>simp add: w [simplified]\<close>)
    also have "\<dots> = Some (f + ?sz + (\<Sum>b\<leftarrow>bs. ld (hmem s) b), n + 1 + length bs, spare s bs)"
    proof (rule Cons.IH [OF tail])
      show "n + 1 \<le> f + ?sz" using Cons.prems(4) B(2) by linarith
      show "f + ?sz + (\<Sum>b\<leftarrow>bs. ld (hmem s) b) < 2 ^ 64" using Cons.prems(3) by (simp add: add.assoc)
      show "c + ld (hmem s) c < 2 ^ 64 \<and> 1 \<le> ld (hmem s) c" if "c \<in> set bs" for c
        by (rule Cons.prems(2)) (use that in simp)
    qed
    also have "spare s bs = spare s (b # bs)" using False by (simp add: spare_def)
    finally show ?thesis by (simp add: add.assoc)
  qed
qed

lemma mallinfo_spec:
  assumes ok: "heap_ok lo s fl U"
  shows "mallinfo_c conv lo s = Some \<lparr>arena = conv (malloc_end s - lo), fordblks = conv (\<Sum>b \<in> set fl. ld (hmem s) b),
    uordblks = conv (\<Sum>u \<in> U. ld (hmem s) u), ordblks = conv (length fl), keepcost = conv (spare s fl)\<rparr>"
proof -
  note D = heap_okD [OF ok]
  have fin: "finite (set fl \<union> U)" and le: "lo \<le> malloc_end s"
    and sum: "(\<Sum>a \<in> set fl \<union> U. ld (hmem s) a) = malloc_end s - lo" using D(5) by (simp_all add: layout_def)
  let ?F = "\<Sum>b \<in> set fl. ld (hmem s) b" and ?V = "\<Sum>u \<in> U. ld (hmem s) u"
  have parts: "?F + ?V = malloc_end s - lo"
    using sum fin D(4) by (subst sum.union_disjoint [symmetric]) auto
  have F: "(\<Sum>b\<leftarrow>fl. ld (hmem s) b) = ?F" using D(3) by (rule sum_list_distinct_conv_sum_set)
  have bound: "?F < 2 ^ 64" using parts D(9) by linarith
  have each: "b + ld (hmem s) b < 2 ^ 64 \<and> 1 \<le> ld (hmem s) b" if "b \<in> set fl" for b
    using block_bounds(3,4) [OF ok, of b] that by auto
  have "mallinfo_scan (malloc_freelist s) 0 0 0 s = Some (0 + (\<Sum>b\<leftarrow>fl. ld (hmem s) b), 0 + length fl, spare s fl)"
    by (rule mallinfo_scan_spec [OF D(1) each]) (use bound in \<open>simp_all only: F add_0 le_refl\<close>)
  then have "mallinfo_scan (malloc_freelist s) 0 0 0 s = Some (?F, length fl, spare s fl)"
    by (simp only: F add_0)
  moreover have "wsub (malloc_end s) lo = malloc_end s - lo" using le D(9) by (rule wsub_eq)
  moreover have "wsub (malloc_end s - lo) ?F = ?V"
  proof -
    have "wsub (malloc_end s - lo) ?F = malloc_end s - lo - ?F" using parts D(9) by (intro wsub_eq) linarith+
    also have "\<dots> = ?V" using parts by linarith
    finally show ?thesis .
  qed
  ultimately show ?thesis by (simp add: mallinfo_c_def)
qed

end
