(* ===== verification/Tiny_Memalign.thy ===== *)
theory Tiny_Memalign
  imports Tiny_Free
begin

text \<open>
  Aligned allocation of \<^verbatim>\<open>riscv-tests/debug/programs/tiny-malloc.c\<close>: \<^verbatim>\<open>memalign\<close>, \<^verbatim>\<open>valloc\<close> and
  \<^verbatim>\<open>pvalloc\<close>. The scan returns \<open>Inl\<close> what the function returns and \<open>Inr\<close> the state with which the
  loop goes on.
\<close>

subsection \<open>The function\<close>

text \<open>The block of this iteration with its size; a new one at the end of the heap if the list ends.\<close>

definition memalign_block :: "nat \<Rightarrow> nat \<Rightarrow> nat \<Rightarrow> link \<Rightarrow> heap \<Rightarrow> (nat \<times> heap) + (nat \<times> nat \<times> heap)" where
  "memalign_block limit align rs nextfree s =
     (if get_link s nextfree = 0
      then let old_size = wadd rs (m_align (wadd (malloc_end s) 8) align); block = malloc_end s
           in if \<not> can_alloc limit old_size s then Inl (0, s)
              else let s = s\<lparr>malloc_end := wadd (malloc_end s) old_size\<rparr>;
                       s = set_link nextfree block s;
                       s = set_word block old_size s;
                       s = set_word (block + 8) 0 s
                   in Inr (block, old_size, s)
      else let block = get_link s nextfree in Inr (block, ld (hmem s) block, s))"

definition before_size :: "nat \<Rightarrow> nat \<Rightarrow> nat" where
  "before_size block align =
     (let before_size = m_align (wadd block 8) align
      in if before_size \<noteq> 0 then wadd 16 (m_align (wadd (wadd block 16) 8) align) else before_size)"

text \<open>The last block of the list is enlarged if it is too small and ends where the heap does.\<close>

definition memalign_grow :: "nat \<Rightarrow> nat \<Rightarrow> nat \<Rightarrow> nat \<Rightarrow> nat \<Rightarrow> heap \<Rightarrow> (nat \<times> heap) + (nat \<times> heap)" where
  "memalign_grow limit rs before block old_size s =
     (if ld (hmem s) (block + 8) = 0 \<and> old_size < wadd rs before \<and> malloc_end s = wadd block (ld (hmem s) block)
      then if \<not> can_alloc limit (wsub (wadd before rs) (ld (hmem s) block)) s then Inl (0, s)
           else let s = s\<lparr>malloc_end := wadd (wadd block before) rs\<rparr>
                in Inr (wadd before rs, set_word block (wadd before rs) s)
      else Inr (old_size, s))"

text \<open>Taking the block: the space before the aligned address stays free, a large rest is cut off.\<close>

definition memalign_take :: "link \<Rightarrow> nat \<Rightarrow> nat \<Rightarrow> nat \<Rightarrow> nat \<Rightarrow> heap \<Rightarrow> nat \<times> heap" where
  "memalign_take nextfree rs before block old_size s =
     (if before \<noteq> 0
      then let old_block = block;
               s = set_word old_block before s;
               block = wadd block before
           in if wsub old_size before \<le> wadd rs 16
              then (block + 8, set_word block (wsub old_size before) s)
              else let new_block = wadd block rs;
                       s = set_word new_block (wsub (wsub old_size before) rs) s;
                       s = set_word (new_block + 8) (ld (hmem s) (old_block + 8)) s;
                       s = set_word (old_block + 8) new_block s
                   in (block + 8, set_word block rs s)
      else if old_size \<le> wadd rs 16 then (block + 8, set_link nextfree (ld (hmem s) (block + 8)) s)
      else let newsize = wsub old_size rs;
               newnext = ld (hmem s) (block + 8);
               newblock = wadd block rs;
               s = set_link nextfree newblock s;
               s = set_word newblock newsize s;
               s = set_word (newblock + 8) newnext s
           in (block + 8, set_word block rs s))"

definition memalign_body :: "nat \<Rightarrow> nat \<Rightarrow> nat \<Rightarrow> link \<Rightarrow> nat \<Rightarrow> nat \<Rightarrow> heap \<Rightarrow> (nat \<times> heap) + heap" where
  "memalign_body limit align rs nextfree block old_size s =
     (let before = before_size block align
      in case memalign_grow limit rs before block old_size s of
           Inl r \<Rightarrow> Inl r
         | Inr (old_size, s) \<Rightarrow>
             if wadd rs before \<le> old_size then Inl (memalign_take nextfree rs before block old_size s) else Inr s)"

partial_function (option) memalign_scan :: "nat \<Rightarrow> nat \<Rightarrow> nat \<Rightarrow> link \<Rightarrow> heap \<Rightarrow> (nat \<times> heap) option" where
  "memalign_scan limit align rs nextfree s =
     (case memalign_block limit align rs nextfree s of
        Inl r \<Rightarrow> Some r
      | Inr (block, old_size, s) \<Rightarrow>
          (case memalign_body limit align rs nextfree block old_size s of
             Inl r \<Rightarrow> Some r
           | Inr s \<Rightarrow> memalign_scan limit align rs (Next block) s))"

definition memalign :: "nat \<Rightarrow> nat \<Rightarrow> nat \<Rightarrow> heap \<Rightarrow> (nat \<times> heap) option" where
  "memalign limit align sz s =
     (let rs = real_size sz
      in if (align AND wsub align 1) \<noteq> 0 \<or> align \<le> 0 then Some (0, s)
         else memalign_scan limit align rs Head s)"

definition valloc :: "nat \<Rightarrow> nat \<Rightarrow> heap \<Rightarrow> (nat \<times> heap) option" where
  "valloc limit sz s = memalign limit 128 sz s"

definition pvalloc :: "nat \<Rightarrow> nat \<Rightarrow> heap \<Rightarrow> (nat \<times> heap) option" where
  "pvalloc limit sz s = memalign limit 128 (wadd sz (m_align sz 128)) s"

subsection \<open>Alignment\<close>

lemma m_align_aligns:
  assumes "k < 64"
  shows "2 ^ k dvd x + m_align x (2 ^ k)" "m_align x (2 ^ k) < 2 ^ k"
proof -
  show "m_align x (2 ^ k) < 2 ^ k" unfolding m_align_exp [OF assms] by (rule mod_less_divisor) simp
  have "(x + (2 ^ k - x mod 2 ^ k) mod 2 ^ k) mod 2 ^ k = (x mod 2 ^ k + (2 ^ k - x mod 2 ^ k)) mod 2 ^ k"
    unfolding mod_add_left_eq mod_add_right_eq ..
  also have "x mod 2 ^ k + (2 ^ k - x mod 2 ^ k) = (2 :: nat) ^ k"
    by (rule le_add_diff_inverse) (rule less_imp_le, rule mod_less_divisor, simp)
  finally show "2 ^ k dvd x + m_align x (2 ^ k)"
    unfolding m_align_exp [OF assms] dvd_eq_mod_eq_0 mod_self .
qed


lemma m_align_mult_8:
  assumes k: "k < 64" and x: "8 dvd x"
  shows "8 dvd m_align x (2 ^ k)"
proof (cases "k < 3")
  case True
  have "2 ^ k dvd (2 :: nat) ^ 3" using True by (intro le_imp_power_dvd) simp
  then have "2 ^ k dvd x" using x by (simp add: dvd_trans)
  then have "x mod 2 ^ k = 0" by simp
  then show ?thesis unfolding m_align_exp [OF k] by simp
next
  case False
  have "(2 :: nat) ^ 3 dvd 2 ^ k" using False by (intro le_imp_power_dvd) simp
  then have "8 dvd (2 :: nat) ^ k" by simp
  then have "8 dvd m_align x (2 ^ k) + x" using m_align_aligns(1) [OF k, of x] dvd_trans by (simp only: add.commute) blast
  then show ?thesis using x dvd_add_left_iff by blast
qed

subsection \<open>Independent writes\<close>

lemma st_swap: "a + 8 \<le> b \<or> b + 8 \<le> a \<Longrightarrow> st (st m a v) b w = st (st m b w) a v"
  unfolding st_def store64_def by (rule ext) auto

lemma set_word_swap: "a + 8 \<le> b \<or> b + 8 \<le> a \<Longrightarrow> set_word b w (set_word a v s) = set_word a v (set_word b w s)"
  by (simp add: set_word_def st_swap [of a b])

lemma set_word_again: "set_word a v (set_word a w s) = set_word a v s"
proof -
  have "st (st (hmem s) a w) a v = st (hmem s) a v" unfolding st_def store64_def by (rule ext) auto
  then show ?thesis by (simp add: set_word_def)
qed

lemma set_link_swap:
  assumes "pre \<noteq> [] \<longrightarrow> last pre + 16 \<le> a \<or> a + 8 \<le> last pre + 8"
  shows "set_word a w (set_link (link_of pre) v s) = set_link (link_of pre) v (set_word a w s)"
  using assms by (auto simp: link_of_def set_word_def st_swap)

subsection \<open>Blocks of the free list\<close>

text \<open>The last free block grows with the heap and stays free.\<close>

lemma grow_free:
  assumes ok: "heap_ok lo s (pre @ [b]) U" and e: "malloc_end s = b + ld (hmem s) b"
    and r: "ld (hmem s) b \<le> r" "8 dvd r" "b + r < 2 ^ 64"
    and s': "s' = set_word b r (s\<lparr>malloc_end := b + r\<rparr>)"
  shows "heap_ok lo s' (pre @ [b]) U" "keeps U s s'" "ld (hmem s') b = r" "malloc_end s' = b + r"
proof -
  let ?A = "set (pre @ [b]) \<union> U" and ?m = "hmem s" let ?s1 = "s\<lparr>malloc_end := b + r\<rparr>"
  note D = heap_okD [OF ok]
  have b: "b \<in> ?A" by auto
  note B = block_bounds [OF ok b]
  have v: "r < 2 ^ 64" using r(3) by linarith
  note W = set_word_node [OF D(6) b v, where s = ?s1]
  have sz: "ld (hmem s') c = ((ld ?m)(b := r)) c" if "c \<in> ?A" for c
    unfolding s' W(1) [OF that] by simp
  have L: "layout lo (b + r) ((ld ?m)(b := r)) ?A"
    by (rule layout_grow [OF D(5) b e [symmetric] r(1,2)])
  show frame: "malloc_end s' = b + r" by (simp add: s')
  show "heap_ok lo s' (pre @ [b]) U"
  proof (rule heap_okI)
    show "chain (hmem s') (malloc_freelist s') (pre @ [b])"
      using D(1) W(2) by (subst chain_cong [of _ _ ?m]) (auto simp: s')
    show "layout lo (malloc_end s') (ld (hmem s')) ?A" unfolding frame by (rule layout_cong [OF L sz])
    show "a + ld (hmem s') a \<noteq> c" if ac: "a \<in> set (pre @ [b])" "c \<in> set (pre @ [b])" for a c
    proof (cases "a = b")
      case True
      have "c < b + r" using ac(2) D(2) B(4) r(1) by (auto simp: sorted_wrt_append)
      then show ?thesis using True sz [OF b] by simp
    next
      case False
      then show ?thesis using D(10) [OF ac] sz [of a] ac by auto
    qed
    show "8 dvd malloc_end s'" unfolding frame using layoutD(4) [OF D(5) b] r(2) by simp
  qed (use D(2,4,7) r(3) frame in simp_all)
  show "ld (hmem s') b = r" using sz [OF b] by simp
  have "b \<notin> U" using D(4) by auto
  then show "keeps U s s'"
    unfolding s' by (intro keeps_word(1) [OF ok b subset_refl]) (simp_all add: keeps_def)
qed


text \<open>A new free block at the end of the heap, behind a list that does not touch it.\<close>

lemma append_free:
  assumes ok: "heap_ok lo s fl U" and gap: "\<And>c. c \<in> set fl \<Longrightarrow> c + ld (hmem s) c \<noteq> malloc_end s"
    and r: "16 \<le> r" "8 dvd r" "malloc_end s + r < 2 ^ 64"
    and s': "s' = set_word (malloc_end s + 8) 0 (set_word (malloc_end s) r
      (set_link (link_of fl) (malloc_end s) (s\<lparr>malloc_end := malloc_end s + r\<rparr>)))"
  shows "heap_ok lo s' (fl @ [malloc_end s]) U" "keeps U s s'" "ld (hmem s') (malloc_end s) = r"
    "malloc_end s' = malloc_end s + r"
proof -
  let ?e = "malloc_end s" let ?s1 = "set_word ?e r (s\<lparr>malloc_end := ?e + r\<rparr>)"
  note D = heap_okD [OF ok]
  note nb = new_block [OF ok r refl]
  have far: "c + 16 \<le> ?e" if "c \<in> set fl" for c
    using layoutD(2,3) [OF D(5), of c] that by simp
  have head: "fl \<noteq> [] \<longrightarrow> last fl + 16 \<le> a \<or> a + 8 \<le> last fl + 8" if "?e \<le> a" for a
    using far [of "last fl"] that by auto
  have s'_eq: "s' = set_link (link_of fl) ?e (set_word (?e + 8) (first []) ?s1)"
    unfolding s' set_link_swap [OF head [OF order_refl]] set_link_swap [OF head [OF le_add1]] by simp
  have ok1: "heap_ok lo ?s1 (fl @ []) (insert ?e U)" using nb(1) by simp
  have left: "c < ?e \<and> c + ld (hmem ?s1) c \<noteq> ?e" if "c \<in> set fl" for c
  proof -
    have c: "?e + 8 \<le> c \<or> c + 8 \<le> ?e" using far [OF that] by linarith
    have "ld (hmem ?s1) c = ld (hmem s) c" by (simp add: set_word_def ld_st_other [OF c])
    then show ?thesis using far [OF that] gap [OF that] by simp
  qed
  note rb = release_block [OF ok1 insertI1 left _ s'_eq]
  have V: "insert ?e U - {?e} = U" using nb(4) by auto
  show "heap_ok lo s' (fl @ [?e]) U" using rb(1) V by simp
  have "keeps U ?s1 s'" using rb(2) V by simp
  then show "keeps U s s'" by (rule keeps_trans [OF ok nb(2) subset_refl])
  show "ld (hmem s') ?e = r" using rb(3) [of ?e] nb(3) by simp
  show "malloc_end s' = ?e + r" by (simp add: s' set_link_frame)
qed

text \<open>A block cut out of the middle of a free one.\<close>

lemma cut_middle:
  assumes ok: "heap_ok lo s (pre @ b # rest) U" and w: "16 \<le> w" "8 dvd w" and r: "16 \<le> r" "8 dvd r" "w + r + 16 \<le> ld (hmem s) b"
    and s': "s' = set_word (b + w) r (set_word (b + 8) (b + w + r) (set_word (b + w + r + 8) (ld (hmem s) (b + 8))
      (set_word (b + w + r) (ld (hmem s) b - w - r) (set_word b w s))))"
  shows "heap_ok lo s' (pre @ b # (b + w + r) # rest) (insert (b + w) U)" "keeps U s s'" "b + w \<notin> U"
    "ld (hmem s') (b + w) = r"
proof -
  let ?m = "hmem s" and ?n = "b + w" let ?nb = "?n + r"
  let ?s1 = "set_word ?n (ld ?m b - w) (set_word b w s)"
  let ?s2 = "set_word ?nb (ld ?m b - w - r) (set_word ?n r ?s1)"
  note D = heap_okD [OF ok]
  have bA: "b \<in> set (pre @ b # rest) \<union> U" by simp
  note B = block_bounds [OF ok bA]
  have bU: "b \<notin> U" using D(4) by auto
  have nx: "ld ?m (b + 8) = first rest" using chain_tail [OF D(1)] chain_first [of ?m _ rest] by simp
  have "w + 16 \<le> ld ?m b" using r(1,3) by linarith
  note c1 = cut_block [OF ok bA w(1) this w(2) refl]
  have nA: "?n \<in> set (pre @ b # rest) \<union> insert ?n U" by simp
  have big: "r + 16 \<le> ld (hmem ?s1) ?n" unfolding c1(5) using r(3) by linarith
  have "?s2 = set_word ?nb (ld (hmem ?s1) ?n - r) (set_word ?n r ?s1)" by (simp only: c1(5))
  note c2 = cut_block [OF c1(1) nA r(1) big r(2) this]
  have szb: "ld (hmem ?s2) b = w"
  proof -
    have "?n + 8 \<le> b \<or> b + 8 \<le> ?n" "?nb + 8 \<le> b \<or> b + 8 \<le> ?nb" using w(1) r(1) by linarith+
    then show ?thesis using c1(4) by (simp add: set_word_def ld_st_other)
  qed
  have ok2: "heap_ok lo ?s2 ((pre @ [b]) @ rest) (insert ?nb (insert ?n U))" using c2(1) by simp
  have sz2: "ld (hmem ?s2) c = ld ?m c" if "c \<in> set (pre @ rest)" for c
  proof -
    have c: "c \<in> set (pre @ b # rest) \<union> U" "c \<noteq> b" using that D(3) by auto
    have "c + ld ?m c \<le> b \<or> b + ld ?m b \<le> c" by (rule layout_sep [OF D(5) c(1) bA c(2)])
    then have "(b + 8 \<le> c \<or> c + 8 \<le> b) \<and> (?n + 8 \<le> c \<or> c + 8 \<le> ?n) \<and> (?nb + 8 \<le> c \<or> c + 8 \<le> ?nb)"
      using block_bounds(4) [OF ok c(1)] r(1,3) by linarith
    then show ?thesis by (simp add: set_word_def ld_st_other)
  qed
  have left: "c < ?nb \<and> c + ld (hmem ?s2) c \<noteq> ?nb" if c: "c \<in> set (pre @ [b])" for c
  proof (cases "c = b")
    case True
    then show ?thesis using szb w(1) r(1) by simp
  next
    case False
    then have cp: "c \<in> set pre" "c < b" using c D(2) by (auto simp: sorted_wrt_append)
    have "c + ld ?m c \<le> b" using layout_apart [OF D(5) _ bA cp(2)] cp(1) by simp
    then show ?thesis using cp sz2 [of c] w(1) by simp
  qed
  have right: "?nb < c \<and> ?nb + ld (hmem ?s2) ?nb \<noteq> c" if c: "c \<in> set rest" for c
  proof -
    have "b < c" using c D(2) by (simp add: sorted_wrt_append)
    then have "b + ld ?m b \<le> c" using layout_apart [OF D(5) bA, of c] c by simp
    moreover have "b + ld ?m b \<noteq> c" using D(10) [of b c] c by simp
    ultimately show ?thesis unfolding c2(5) c1(5) using r(1,3) by linarith
  qed
  have s'_eq: "s' = set_link (link_of (pre @ [b])) ?nb (set_word (?nb + 8) (first rest) ?s2)"
  proof -
    have "set_link (link_of (pre @ [b])) ?nb x = set_word (b + 8) ?nb x" for x by (simp add: link_of_def set_word_def)
    moreover have "set_word ?nb (ld ?m b - w - r) (set_word ?n r ?s1)
        = set_word ?n r (set_word ?nb (ld ?m b - w - r) (set_word b w s))"
      unfolding set_word_again by (rule set_word_swap) (use r(1) in linarith)
    moreover have "set_word (?nb + 8) (first rest) (set_word ?n r x) = set_word ?n r (set_word (?nb + 8) (first rest) x)" for x
      by (rule set_word_swap) (use r(1) in linarith)
    moreover have "set_word (b + 8) ?nb (set_word ?n r x) = set_word ?n r (set_word (b + 8) ?nb x)" for x
      by (rule set_word_swap) (use w(1) in linarith)
    ultimately show ?thesis by (simp only: s' nx)
  qed
  note rb = release_block [OF ok2 insertI1 left right s'_eq]
  have V: "insert ?nb (insert ?n U) - {?nb} = insert ?n U" using c2(2) by auto
  show "heap_ok lo s' (pre @ b # ?nb # rest) (insert ?n U)" using rb(1) V by simp
  show "ld (hmem s') ?n = r" using rb(3) [of ?n] c2(4) by simp
  show nU: "?n \<notin> U" using c1(2) by simp
  have k1: "keeps U s ?s1" using c1(3) bU by simp
  have VU: "insert ?n U - {?n} = U" using nU by auto
  have "keeps U ?s1 ?s2" using c2(3) VU by simp
  then have k2: "keeps U s ?s2" by (rule keeps_trans [OF ok k1 subset_refl])
  have "keeps (insert ?n U) ?s2 s'" using rb(2) V by simp
  then have "keeps U ?s2 s'" by (rule keeps_sub) auto
  then show "keeps U s s'" by (rule keeps_trans [OF ok k2 subset_refl])
qed


subsection \<open>memalign\<close>

text \<open>
  The space before the result: none if the block is aligned already, otherwise enough for a free
  block, and always less than the alignment and a header pair.
\<close>

lemma before_size_aligns:
  assumes k: "k < 64" and b: "8 dvd b" "b + 32 < 2 ^ 64" and big: "2 ^ k + 16 < (2 :: nat) ^ 64"
  shows "2 ^ k dvd b + before_size b (2 ^ k) + 8" "8 dvd before_size b (2 ^ k)"
    "before_size b (2 ^ k) = 0 \<or> 16 \<le> before_size b (2 ^ k)" "before_size b (2 ^ k) < 2 ^ k + 16"
proof -
  have b8: "wadd b 8 = b + 8" using b(2) by (intro wadd_eq) linarith
  have "wadd b 16 = b + 16" using b(2) by (intro wadd_eq) linarith
  moreover have "wadd (b + 16) 8 = b + 24" using b(2) wadd_eq [of "b + 16" 8] by simp
  ultimately have b24: "wadd (wadd b 16) 8 = b + 24" by simp
  note A = m_align_aligns [OF k]
  let ?m = "m_align (b + 24) (2 ^ k)" let ?r = "before_size b (2 ^ k)"
  have m16: "wadd 16 ?m = 16 + ?m" using A(2) [of "b + 24"] big by (intro wadd_eq) linarith
  have r: "?r = (if m_align (b + 8) (2 ^ k) \<noteq> 0 then 16 + ?m else 0)"
    by (simp add: before_size_def b8 b24 m16 Let_def)
  show al: "2 ^ k dvd b + ?r + 8"
  proof (cases "m_align (b + 8) (2 ^ k) = 0")
    case True
    then show ?thesis using A(1) [of "b + 8"] r by simp
  next
    case False
    then have "b + ?r + 8 = b + 24 + ?m" using r by simp
    then show ?thesis using A(1) [of "b + 24"] by (simp only:)
  qed
  show "?r = 0 \<or> 16 \<le> ?r" using r by simp
  show "?r < 2 ^ k + 16" using r A(2) [of "b + 24"] by simp
  have "8 dvd ?m" by (rule m_align_mult_8 [OF k]) (use b(1) in simp)
  then show "8 dvd ?r" using r by simp
qed

text \<open>What the function promises on every path.\<close>

definition memalign_result :: "nat \<Rightarrow> nat \<Rightarrow> nat \<Rightarrow> nat \<Rightarrow> heap \<Rightarrow> nat set \<Rightarrow> nat \<Rightarrow> heap \<Rightarrow> bool" where
  "memalign_result lo limit align rs s U p s' \<longleftrightarrow> keeps U s s' \<and> malloc_end s' + 32 \<le> limit
     \<and> (if p = 0 then \<exists>fl'. heap_ok lo s' fl' U
        else 8 \<le> p \<and> align dvd p \<and> p - 8 \<notin> U \<and> rs \<le> ld (hmem s') (p - 8)
          \<and> (\<exists>fl'. heap_ok lo s' fl' (insert (p - 8) U)))"

lemma memalign_resultI:
  assumes "keeps U s s'" "malloc_end s' + 32 \<le> limit" "align dvd b + 8" "b \<notin> U" "rs \<le> ld (hmem s') b"
    "heap_ok lo s' fl' (insert b U)"
  shows "memalign_result lo limit align rs s U (b + 8) s'"
  using assms unfolding memalign_result_def by auto

lemma memalign_null:
  "keeps U s s' \<Longrightarrow> malloc_end s' + 32 \<le> limit \<Longrightarrow> heap_ok lo s' fl' U \<Longrightarrow> memalign_result lo limit align rs s U 0 s'"
  unfolding memalign_result_def by auto

lemma memalign_take_spec:
  assumes ok: "heap_ok lo s (pre @ b # rest) U" and rs: "16 \<le> rs" "8 dvd rs"
    and before: "before = 0 \<or> 16 \<le> before" "8 dvd before" and fits: "rs + before \<le> ld (hmem s) b" "ld (hmem s) b + 16 < 2 ^ 64"
    and al: "align dvd b + before + 8" and limit: "malloc_end s + 32 \<le> limit"
  shows "\<exists>p s'. memalign_take (link_of pre) rs before b (ld (hmem s) b) s = (p, s')
    \<and> memalign_result lo limit align rs s U p s'"
proof -
  let ?old = "ld (hmem s) b" and ?next = "ld (hmem s) (b + 8)"
  note D = heap_okD [OF ok]
  have bA: "b \<in> set (pre @ b # rest) \<union> U" by simp
  have bU: "b \<notin> U" using D(4) by auto
  note B = block_bounds [OF ok bA]
  have w: "wadd rs 16 = rs + 16" "wsub ?old before = ?old - before" "wadd b before = b + before"
    "wadd b rs = b + rs" "wsub ?old rs = ?old - rs"
    using fits B(3) by (intro wadd_eq wsub_eq; linarith)+
  consider (take) "before = 0" "?old \<le> rs + 16" | (split) "before = 0" "rs + 16 < ?old"
    | (rear) "16 \<le> before" "?old - before \<le> rs + 16" | (middle) "16 \<le> before" "rs + 16 < ?old - before"
    using before(1) by linarith
  then show ?thesis
  proof cases
    case take
    let ?s' = "set_link (link_of pre) ?next s"
    note tb = take_block [OF ok refl]
    have "memalign_take (link_of pre) rs before b ?old s = (b + 8, ?s')"
      using take by (simp add: memalign_take_def w)
    moreover have "memalign_result lo limit align rs s U (b + 8) ?s'"
      by (rule memalign_resultI [OF tb(2) _ _ bU _ tb(1)]) (use tb(3) fits take al limit in \<open>simp_all add: set_link_frame\<close>)
    ultimately show ?thesis by blast
  next
    case split
    let ?s' = "set_word b rs (set_word (b + rs + 8) ?next (set_word (b + rs) (?old - rs) (set_link (link_of pre) (b + rs) s)))"
    have "rs + 16 \<le> ?old" using split by linarith
    note sb = split_block [OF ok rs(1) this rs(2) refl]
    have "memalign_take (link_of pre) rs before b ?old s = (b + 8, ?s')"
      using split by (simp add: memalign_take_def w Let_def)
    moreover have "memalign_result lo limit align rs s U (b + 8) ?s'"
      by (rule memalign_resultI [OF sb(2) _ _ bU _ sb(1)]) (use sb(3) split al limit in \<open>simp_all add: set_link_frame\<close>)
    ultimately show ?thesis by blast
  next
    case rear
    let ?s' = "set_word (b + before) (?old - before) (set_word b before s)"
    have "before + 16 \<le> ?old" using fits rs(1) by linarith
    note cb = cut_block [OF ok bA rear(1) this before(2) refl]
    have "memalign_take (link_of pre) rs before b ?old s = (b + before + 8, ?s')"
      using rear by (simp add: memalign_take_def w Let_def)
    moreover have "keeps U s ?s'" using cb(3) bU by simp
    then have "memalign_result lo limit align rs s U (b + before + 8) ?s'"
      by (rule memalign_resultI [OF _ _ _ _ _ cb(1)]) (use cb(2,5) fits al limit in simp_all)
    ultimately show ?thesis by blast
  next
    case middle
    let ?n = "b + before"
    let ?s' = "set_word ?n rs (set_word (b + 8) (?n + rs) (set_word (?n + rs + 8) ?next
      (set_word (?n + rs) (?old - before - rs) (set_word b before s))))"
    have m: "before + rs + 16 \<le> ?old" using middle by linarith
    note cm = cut_middle [OF ok middle(1) before(2) rs m refl]
    have w2: "wadd ?n rs = ?n + rs" "wsub (?old - before) rs = ?old - before - rs"
      using m B(3) ld_bound [of "hmem s" b] by (intro wadd_eq wsub_eq; linarith)+
    have next_same: "ld (hmem (set_word (?n + rs) v (set_word b before s))) (b + 8) = ?next" for v
      using rs(1) middle(1) by (simp add: set_word_def ld_st_other)
    have "memalign_take (link_of pre) rs before b ?old s = (?n + 8, ?s')"
      using middle by (simp add: memalign_take_def w w2 next_same Let_def)
    moreover have "memalign_result lo limit align rs s U (?n + 8) ?s'"
      by (rule memalign_resultI [OF cm(2) _ al cm(3) _ cm(1)]) (use cm(4) limit in simp_all)
    ultimately show ?thesis by blast
  qed
qed


text \<open>One round of the loop on the block behind \<open>pre\<close>.\<close>

lemma memalign_body_spec:
  assumes ok: "heap_ok lo s (pre @ b # rest) U" and rs: "16 \<le> rs" "8 dvd rs" and k: "k < 64"
    and big: "rs + 2 ^ k + 16 < 2 ^ 64" and limit: "malloc_end s + 32 \<le> limit" "limit < 2 ^ 64"
  shows "(\<exists>p s'. memalign_body limit (2 ^ k) rs (link_of pre) b (ld (hmem s) b) s = Inl (p, s')
      \<and> memalign_result lo limit (2 ^ k) rs s U p s')
    \<or> memalign_body limit (2 ^ k) rs (link_of pre) b (ld (hmem s) b) s = Inr s
      \<and> (rest = [] \<longrightarrow> malloc_end s \<noteq> b + ld (hmem s) b)"
proof -
  let ?old = "ld (hmem s) b" and ?next = "ld (hmem s) (b + 8)" and ?before = "before_size b (2 ^ k)"
  note D = heap_okD [OF ok]
  have bA: "b \<in> set (pre @ b # rest) \<union> U" by simp
  note B = block_bounds [OF ok bA]
  have end_b: "b + ?old \<le> malloc_end s" using layoutD(2) [OF D(5) bA] .
  have b32: "b + 32 < 2 ^ 64" using end_b B(4) limit by linarith
  have "2 ^ k + 16 < (2 :: nat) ^ 64" using big by linarith
  note before = before_size_aligns [OF k layoutD(4) [OF D(5) bA] b32 this]
  have nx: "?next = first rest" using chain_tail [OF D(1)] chain_first [of "hmem s" _ rest] by simp
  have w: "wadd rs ?before = rs + ?before" "wadd ?before rs = rs + ?before" "wadd b ?old = b + ?old"
    using before(4) big B(3) wadd_eq [of ?before rs] by (auto intro!: wadd_eq simp: add.commute)
  consider (grow) "?next = 0" "?old < rs + ?before" "malloc_end s = b + ?old" | (fits) "rs + ?before \<le> ?old"
    | (skip) "?old < rs + ?before" "\<not> (?next = 0 \<and> malloc_end s = b + ?old)" by linarith
  then show ?thesis
  proof cases
    case grow
    have last: "rest = []"
    proof (cases rest)
      case (Cons c cs)
      then have "c = 0" using grow(1) nx by simp
      then show ?thesis using block_bounds(1) [OF ok, of c] Cons by simp
    qed
    have more: "wsub (rs + ?before) ?old = rs + ?before - ?old" using grow(2) before(4) big by (intro wsub_eq) linarith+
    have can: "can_alloc limit (wsub (rs + ?before) ?old) s \<longleftrightarrow> b + rs + ?before + 32 \<le> limit"
      unfolding can_alloc_iff [OF limit] more using grow(2,3) by linarith
    show ?thesis
    proof (cases "b + rs + ?before + 32 \<le> limit")
      case False
      then have "memalign_body limit (2 ^ k) rs (link_of pre) b ?old s = Inl (0, s)"
        using grow can by (simp add: memalign_body_def memalign_grow_def w Let_def)
      then show ?thesis using memalign_null [OF keeps_refl limit(1) ok] by blast
    next
      case True
      let ?s1 = "set_word b (rs + ?before) (s\<lparr>malloc_end := b + (rs + ?before)\<rparr>)"
      have e: "wadd (wadd b ?before) rs = b + (rs + ?before)"
        using wadd_eq [of b ?before] wadd_eq [of "b + ?before" rs] True limit by simp
      have "?old \<le> rs + ?before" "8 dvd rs + ?before" "b + (rs + ?before) < 2 ^ 64"
        using grow(2) rs(2) before(2) True limit by simp_all
      note gf = grow_free [OF ok [unfolded last] grow(3) this refl]
      have "memalign_grow limit rs ?before b ?old s = Inr (rs + ?before, ?s1)"
        using grow can True by (simp add: memalign_grow_def w e Let_def)
      then have body: "memalign_body limit (2 ^ k) rs (link_of pre) b ?old s
          = Inl (memalign_take (link_of pre) rs ?before b (ld (hmem ?s1) b) ?s1)"
        by (simp add: memalign_body_def w gf(3) Let_def)
      have "rs + ?before \<le> ld (hmem ?s1) b" "ld (hmem ?s1) b + 16 < 2 ^ 64" "malloc_end ?s1 + 32 \<le> limit"
        unfolding gf(3,4) using True b32 limit by simp_all
      from memalign_take_spec [OF gf(1) rs before(3,2) this(1,2) before(1) this(3)]
      obtain p s' where t: "memalign_take (link_of pre) rs ?before b (ld (hmem ?s1) b) ?s1 = (p, s')"
        and r: "memalign_result lo limit (2 ^ k) rs ?s1 U p s'" by blast
      have "memalign_result lo limit (2 ^ k) rs s U p s'"
        using r keeps_trans [OF ok gf(2) subset_refl] unfolding memalign_result_def by blast
      then show ?thesis using body t by simp
    qed
  next
    case fits
    have "memalign_grow limit rs ?before b ?old s = Inr (?old, s)" using fits by (simp add: memalign_grow_def w)
    then have body: "memalign_body limit (2 ^ k) rs (link_of pre) b ?old s
        = Inl (memalign_take (link_of pre) rs ?before b ?old s)"
      using fits by (simp add: memalign_body_def w Let_def)
    have "?old + 16 < 2 ^ 64" using end_b limit by linarith
    from memalign_take_spec [OF ok rs before(3,2) fits this before(1) limit(1)] body show ?thesis by auto
  next
    case skip
    then have "memalign_grow limit rs ?before b ?old s = Inr (?old, s)" by (auto simp: memalign_grow_def w)
    then have "memalign_body limit (2 ^ k) rs (link_of pre) b ?old s = Inr s"
      using skip by (simp add: memalign_body_def w Let_def)
    moreover have "malloc_end s \<noteq> b + ?old" if "rest = []" using that skip(2) nx by simp
    ultimately show ?thesis by blast
  qed
qed


lemma memalign_scan_spec:
  assumes "heap_ok lo s (pre @ rest) U" and "\<And>c. c \<in> set pre \<Longrightarrow> c + ld (hmem s) c \<noteq> malloc_end s"
    and rs: "16 \<le> rs" "8 dvd rs" and k: "k < 64"
    and big: "rs + 2 ^ k + 16 < 2 ^ 64" and limit: "malloc_end s + 32 \<le> limit" "limit < 2 ^ 64"
  shows "\<exists>p s'. memalign_scan limit (2 ^ k) rs (link_of pre) s = Some (p, s') \<and> memalign_result lo limit (2 ^ k) rs s U p s'"
  using assms(1,2)
proof (induction rest arbitrary: pre)
  case Nil
  have ok: "heap_ok lo s pre U" using Nil.prems(1) by simp
  note D = heap_okD [OF ok]
  have link: "get_link s (link_of pre) = 0" using get_link_of [of s pre "[]"] D(1) by simp
  let ?e = "malloc_end s" let ?m = "m_align (?e + 8) (2 ^ k)" let ?r = "rs + ?m"
  have e8: "wadd ?e 8 = ?e + 8" using limit by (intro wadd_eq) linarith
  note A = m_align_aligns [OF k, of "?e + 8"]
  have w: "wadd rs ?m = ?r" using A(2) big by (intro wadd_eq) linarith
  show ?case
  proof (cases "can_alloc limit ?r s")
    case False
    then have "memalign_scan limit (2 ^ k) rs (link_of pre) s = Some (0, s)"
      by (subst memalign_scan.simps) (simp add: memalign_block_def link e8 w)
    then show ?thesis using memalign_null [OF keeps_refl limit(1) ok] by blast
  next
    case True
    then have room: "?e + ?r + 32 \<le> limit" using can_alloc_iff [OF limit] by simp
    let ?s1 = "set_word (?e + 8) 0 (set_word ?e ?r (set_link (link_of pre) ?e (s\<lparr>malloc_end := ?e + ?r\<rparr>)))"
    have we: "wadd ?e ?r = ?e + ?r" using room limit by (intro wadd_eq) linarith
    have m8: "8 dvd ?m" by (rule m_align_mult_8 [OF k]) (use D(8) in simp)
    have r8: "16 \<le> ?r" "8 dvd ?r" "?e + ?r < 2 ^ 64" using rs m8 room limit by simp_all
    note af = append_free [OF ok Nil.prems(2) r8 refl]
    have block: "memalign_block limit (2 ^ k) rs (link_of pre) s = Inr (?e, ld (hmem ?s1) ?e, ?s1)"
      using True by (simp add: memalign_block_def link e8 w we af(3) Let_def)
    have room1: "malloc_end ?s1 + 32 \<le> limit" using af(4) room by linarith
    have end1: "malloc_end ?s1 = ?e + ld (hmem ?s1) ?e" using af(3,4) by linarith
    have ok1: "heap_ok lo ?s1 (pre @ ?e # []) U" using af(1) by simp
    from memalign_body_spec [OF ok1 rs k big room1 limit(2)] end1
    obtain p s' where b: "memalign_body limit (2 ^ k) rs (link_of pre) ?e (ld (hmem ?s1) ?e) ?s1 = Inl (p, s')"
      and r: "memalign_result lo limit (2 ^ k) rs ?s1 U p s'" by blast
    have "memalign_scan limit (2 ^ k) rs (link_of pre) s = Some (p, s')"
      by (rule trans [OF memalign_scan.simps]) (simp add: block b)
    moreover have "memalign_result lo limit (2 ^ k) rs s U p s'"
      using r keeps_trans [OF ok af(2) subset_refl] unfolding memalign_result_def by blast
    ultimately show ?thesis by blast
  qed
next
  case (Cons b rest)
  note ok = Cons.prems(1) and D = heap_okD [OF Cons.prems(1)]
  have bA: "b \<in> set (pre @ b # rest) \<union> U" by simp
  note B = block_bounds [OF ok bA]
  have link: "get_link s (link_of pre) = b" using get_link_of [OF D(1)] by simp
  have block: "memalign_block limit (2 ^ k) rs (link_of pre) s = Inr (b, ld (hmem s) b, s)"
    using B(1) by (simp add: memalign_block_def link)
  from memalign_body_spec [OF ok rs k big limit] show ?case
  proof (elim disjE exE conjE)
    fix p s' assume b: "memalign_body limit (2 ^ k) rs (link_of pre) b (ld (hmem s) b) s = Inl (p, s')"
      and r: "memalign_result lo limit (2 ^ k) rs s U p s'"
    have "memalign_scan limit (2 ^ k) rs (link_of pre) s = Some (p, s')"
      by (rule trans [OF memalign_scan.simps]) (simp add: block b)
    with r show ?thesis by blast
  next
    assume b: "memalign_body limit (2 ^ k) rs (link_of pre) b (ld (hmem s) b) s = Inr s"
      and last: "rest = [] \<longrightarrow> malloc_end s \<noteq> b + ld (hmem s) b"
    have "memalign_scan limit (2 ^ k) rs (link_of pre) s = memalign_scan limit (2 ^ k) rs (Next b) s"
      by (rule trans [OF memalign_scan.simps]) (simp add: block b)
    moreover have "link_of (pre @ [b]) = Next b" by (simp add: link_of_def)
    moreover have "b + ld (hmem s) b \<noteq> malloc_end s"
    proof (cases rest)
      case (Cons c cs)
      have c: "c \<in> set (pre @ b # rest) \<union> U" "b < c" using D(2) Cons by (auto simp: sorted_wrt_append)
      then have "b + ld (hmem s) b \<le> c" using layout_apart [OF D(5) bA] by blast
      then show ?thesis using layoutD(2,3) [OF D(5) c(1)] by linarith
    qed (use last in simp)
    then have "\<exists>p s'. memalign_scan limit (2 ^ k) rs (link_of (pre @ [b])) s = Some (p, s')
        \<and> memalign_result lo limit (2 ^ k) rs s U p s'"
      by (intro Cons.IH) (use ok Cons.prems(2) in auto)
    ultimately show ?thesis by simp
  qed
qed

lemma memalign_spec:
  assumes ok: "heap_ok lo s fl U" and sz: "sz + 2 ^ k + 32 < 2 ^ 64" and k: "k < 64"
    and limit: "malloc_end s + 32 \<le> limit" "limit < 2 ^ 64"
  shows "\<exists>p s'. memalign limit (2 ^ k) sz s = Some (p, s') \<and> memalign_result lo limit (2 ^ k) (real_size sz) s U p s'"
proof -
  have "sz + 16 < 2 ^ 64" using sz by linarith
  note r = real_size_bounds [OF this]
  have big: "real_size sz + 2 ^ k + 16 < 2 ^ 64" using r(4) sz by linarith
  have "(2 :: nat) ^ k < 2 ^ 64" using big by linarith
  then have "wsub (2 ^ k) 1 = 2 ^ k - 1" by (intro wsub_eq) simp_all
  then have "(2 ^ k) AND wsub (2 ^ k) 1 = (2 ^ k :: nat) mod 2 ^ k"
    by (simp only: mask_eq_exp_minus_1 [symmetric] take_bit_eq_mask [symmetric] take_bit_eq_mod)
  then have "memalign limit (2 ^ k) sz s = memalign_scan limit (2 ^ k) (real_size sz) (link_of []) s"
    by (simp add: memalign_def link_of_def)
  then show ?thesis
    using memalign_scan_spec [of lo s "[]" fl U "real_size sz" k limit, OF _ _ r(2,3) k big limit] ok by simp
qed

text \<open>An alignment that is not a power of two is refused.\<close>

lemma memalign_refuses: "(align AND wsub align 1) \<noteq> 0 \<or> align = 0 \<Longrightarrow> memalign limit align sz s = Some (0, s)"
  by (auto simp: memalign_def)

end
