(* ===== verification/Tiny_Client.thy ===== *)
theory Tiny_Client
  imports Tiny_Memalign
begin

text \<open>
  The contract of an allocator as its clients see it, an abstract machine of independent blocks,
  and the proof that a sequence of requests served by \<^verbatim>\<open>tiny-malloc.c\<close> behaves like the abstract
  machine. The contract is the locale \<open>allocator\<close>; \<open>malloc\<close>, \<open>realloc\<close> and \<open>free\<close> discharge it.
\<close>

subsection \<open>Requests\<close>

record 'h heap_ops =
  op_alloc :: "nat \<Rightarrow> 'h \<Rightarrow> (nat \<times> 'h) option"
  op_resize :: "nat \<Rightarrow> nat \<Rightarrow> 'h \<Rightarrow> (nat \<times> 'h) option"
  op_release :: "nat \<Rightarrow> 'h \<Rightarrow> 'h option"
  op_store :: "nat \<Rightarrow> byte \<Rightarrow> 'h \<Rightarrow> 'h"

text \<open>
  A client refers to its blocks by their position in the list of the pointers and sizes it holds;
  a null pointer stands for a refused or released block. It does not resize a null pointer and
  stays within the size it asked for.
\<close>

datatype request = Alloc nat | Resize nat nat | Release nat | Store nat nat byte

type_synonym holdings = "(nat \<times> nat) list"

fun serve :: "'h heap_ops \<Rightarrow> request \<Rightarrow> 'h \<times> holdings \<Rightarrow> ('h \<times> holdings) option" where
  "serve ops (Alloc sz) (h, ps) =
     map_option (\<lambda>(p, h'). (h', ps @ [if p = 0 then (0, 0) else (p, sz)])) (op_alloc ops sz h)"
| "serve ops (Resize i sz) (h, ps) =
     (if i < length ps \<and> fst (ps ! i) \<noteq> 0
      then map_option (\<lambda>(p, h'). (h', if p = 0 then ps else ps[i := (p, sz)])) (op_resize ops (fst (ps ! i)) sz h)
      else Some (h, ps))"
| "serve ops (Release i) (h, ps) =
     (if i < length ps then map_option (\<lambda>h'. (h', ps[i := (0, 0)])) (op_release ops (fst (ps ! i)) h) else Some (h, ps))"
| "serve ops (Store i j v) (h, ps) =
     (if i < length ps \<and> j < snd (ps ! i) then Some (op_store ops (fst (ps ! i) + j) v h, ps) else Some (h, ps))"

fun serve_all :: "'h heap_ops \<Rightarrow> request list \<Rightarrow> 'h \<times> holdings \<Rightarrow> ('h \<times> holdings) option" where
  "serve_all ops [] s = Some s"
| "serve_all ops (r # rs) s = Option.bind (serve ops r s) (serve_all ops rs)"

text \<open>The largest size a request asks for.\<close>

fun size_asked :: "request \<Rightarrow> nat" where
  "size_asked (Alloc sz) = sz"
| "size_asked (Resize i sz) = sz"
| "size_asked (Release i) = 0"
| "size_asked (Store i j v) = 0"

subsection \<open>The abstract machine\<close>

text \<open>Its state is the list of the client's blocks, whose bytes are known or not yet written.\<close>

type_synonym blocks = "byte option list option list"

text \<open>The states a request may lead to; an allocation may be refused.\<close>

fun answers :: "request \<Rightarrow> blocks \<Rightarrow> blocks list" where
  "answers (Alloc sz) bs = [bs @ [Some (replicate sz None)], bs @ [None]]"
| "answers (Resize i sz) bs =
     (if i < length bs
      then case bs ! i of None \<Rightarrow> [bs] | Some b \<Rightarrow> [bs[i := Some (take sz b @ replicate (sz - length b) None)], bs]
      else [bs])"
| "answers (Release i) bs = (if i < length bs then [bs[i := None]] else [bs])"
| "answers (Store i j v) bs =
     (if i < length bs
      then case bs ! i of None \<Rightarrow> [bs] | Some b \<Rightarrow> if j < length b then [bs[i := Some (b[j := Some v])]] else [bs]
      else [bs])"

fun conversation :: "request list \<Rightarrow> blocks \<Rightarrow> blocks \<Rightarrow> bool" where
  "conversation [] bs bs' = (bs' = bs)"
| "conversation (r # rs) bs bs' = list_ex (\<lambda>bs1. conversation rs bs1 bs') (answers r bs)"

subsection \<open>Held pointers\<close>

definition live :: "holdings \<Rightarrow> nat set" where
  "live ps = fst ` set ps - {0}"

definition separate :: "holdings \<Rightarrow> bool" where
  "separate ps \<longleftrightarrow> (\<forall>i < length ps. \<forall>j < length ps. i \<noteq> j \<longrightarrow> fst (ps ! i) \<noteq> 0 \<longrightarrow> fst (ps ! i) \<noteq> fst (ps ! j))"

lemma live_iff: "p \<in> live ps \<longleftrightarrow> p \<noteq> 0 \<and> (\<exists>i < length ps. fst (ps ! i) = p)"
proof -
  have "p \<in> fst ` set ps \<longleftrightarrow> (\<exists>i < length ps. fst (ps ! i) = p)" by (force simp: in_set_conv_nth)
  then show ?thesis by (auto simp: live_def)
qed

lemma live_update:
  assumes "separate ps" "i < length ps"
  shows "live (ps[i := (q, n)]) = (if q = 0 then live ps - {fst (ps ! i)} else insert q (live ps - {fst (ps ! i)}))"
proof (rule set_eqI)
  fix p
  have other: "fst (ps ! j) \<noteq> fst (ps ! i) \<longleftrightarrow> j \<noteq> i" if "j < length ps" "fst (ps ! j) \<noteq> 0" for j
    using assms that unfolding separate_def by blast
  have "p \<in> live (ps[i := (q, n)]) \<longleftrightarrow> p \<noteq> 0 \<and> (p = q \<or> (\<exists>j < length ps. j \<noteq> i \<and> fst (ps ! j) = p))"
    using assms(2) by (auto simp: live_iff nth_list_update)
  also have "\<dots> \<longleftrightarrow> p \<noteq> 0 \<and> (p = q \<or> p \<in> live ps - {fst (ps ! i)})"
    using other by (auto simp: live_iff)
  finally show "p \<in> live (ps[i := (q, n)]) \<longleftrightarrow> p \<in> (if q = 0 then live ps - {fst (ps ! i)} else insert q (live ps - {fst (ps ! i)}))"
    by (auto simp: live_iff)
qed

lemma separate_update:
  assumes "separate ps" "i < length ps" "q = 0 \<or> q \<notin> live ps - {fst (ps ! i)}"
  shows "separate (ps[i := (q, n)])"
proof -
  have "fst (ps ! j) \<noteq> q" if "j < length ps" "j \<noteq> i" "q \<noteq> 0" for j
    using assms that unfolding separate_def live_iff by (metis DiffI live_iff singletonD)
  then show ?thesis using assms(1,2) unfolding separate_def by (auto simp: nth_list_update)
qed

lemma live_append: "live (ps @ [(q, n)]) = (if q = 0 then live ps else insert q (live ps))"
  by (auto simp: live_def)

lemma separate_append: "separate ps \<Longrightarrow> q = 0 \<or> q \<notin> live ps \<Longrightarrow> separate (ps @ [(q, n)])"
  unfolding separate_def live_iff by (auto simp: nth_append less_Suc_eq)

subsection \<open>The contract\<close>

definition kept :: "('h \<Rightarrow> nat \<Rightarrow> nat) \<Rightarrow> ('h \<Rightarrow> nat \<Rightarrow> byte) \<Rightarrow> nat set \<Rightarrow> 'h \<Rightarrow> 'h \<Rightarrow> bool" where
  "kept extent byte P h h' \<longleftrightarrow> (\<forall>p \<in> P. extent h' p = extent h p \<and> (\<forall>i < extent h p. byte h' (p + i) = byte h (p + i)))"

text \<open>The block at \<open>p\<close> holds the abstract block: it is large enough and has the written bytes.\<close>

definition holds :: "('h \<Rightarrow> nat \<Rightarrow> nat) \<Rightarrow> ('h \<Rightarrow> nat \<Rightarrow> byte) \<Rightarrow> 'h \<Rightarrow> nat \<times> nat \<Rightarrow> byte option list option \<Rightarrow> bool" where
  "holds extent byte h pn ab \<longleftrightarrow> (case ab of None \<Rightarrow> pn = (0, 0)
     | Some b \<Rightarrow> fst pn \<noteq> 0 \<and> snd pn = length b \<and> length b \<le> extent h (fst pn)
         \<and> (\<forall>j < length b. \<forall>v. b ! j = Some v \<longrightarrow> byte h (fst pn + j) = v))"

lemma holds_kept:
  "kept extent byte P h h' \<Longrightarrow> fst pn = 0 \<or> fst pn \<in> P \<Longrightarrow> holds extent byte h pn b \<Longrightarrow> holds extent byte h' pn b"
  by (auto simp: holds_def kept_def split: option.splits)

lemma hold_update:
  assumes k: "kept extent byte (live ps - {fst (ps ! i)}) h h'"
    and old: "list_all2 (holds extent byte h) ps bs" "separate ps" "i < length ps"
    and new: "holds extent byte h' q b"
  shows "list_all2 (holds extent byte h') (ps[i := q]) (bs[i := b])"
  unfolding list_all2_conv_all_nth
proof (intro conjI allI impI)
  show "length (ps[i := q]) = length (bs[i := b])" using old(1) by (simp add: list_all2_lengthD)
  fix j assume j: "j < length (ps[i := q])"
  show "holds extent byte h' (ps[i := q] ! j) (bs[i := b] ! j)"
  proof (cases "j = i")
    case True
    then show ?thesis using new j list_all2_lengthD [OF old(1)] by simp
  next
    case False
    have "fst (ps ! j) = 0 \<or> fst (ps ! j) \<in> live ps - {fst (ps ! i)}"
      using False j old(2,3) live_iff [of "fst (ps ! j)" ps] unfolding separate_def by auto
    then show ?thesis using holds_kept [OF k] old(1) False j by (simp add: list_all2_conv_all_nth)
  qed
qed

locale allocator =
  fixes valid :: "'h \<Rightarrow> nat set \<Rightarrow> bool"
    and extent :: "'h \<Rightarrow> nat \<Rightarrow> nat"
    and byte :: "'h \<Rightarrow> nat \<Rightarrow> byte"
    and ops :: "'h heap_ops"
    and most :: nat
  assumes alloc: "valid h P \<Longrightarrow> sz \<le> most \<Longrightarrow> \<exists>p h'. op_alloc ops sz h = Some (p, h')
      \<and> (p = 0 \<and> h' = h \<or> p \<noteq> 0 \<and> p \<notin> P \<and> valid h' (insert p P) \<and> sz \<le> extent h' p \<and> kept extent byte P h h')"
    and resize: "valid h P \<Longrightarrow> p \<in> P \<Longrightarrow> sz \<le> most \<Longrightarrow> \<exists>q h'. op_resize ops p sz h = Some (q, h')
      \<and> (q = 0 \<and> h' = h \<or> q \<noteq> 0 \<and> q \<notin> P - {p} \<and> valid h' (insert q (P - {p})) \<and> sz \<le> extent h' q
          \<and> kept extent byte (P - {p}) h h' \<and> (\<forall>i. i < sz \<and> i < extent h p \<longrightarrow> byte h' (q + i) = byte h (p + i)))"
    and release: "valid h P \<Longrightarrow> p \<in> P \<Longrightarrow> \<exists>h'. op_release ops p h = Some h' \<and> valid h' (P - {p})
      \<and> kept extent byte (P - {p}) h h'"
    and release_null: "op_release ops 0 h = Some h"
    and store: "valid h P \<Longrightarrow> p \<in> P \<Longrightarrow> i < extent h p \<Longrightarrow> valid (op_store ops (p + i) v h) P
      \<and> kept extent byte (P - {p}) h (op_store ops (p + i) v h) \<and> extent (op_store ops (p + i) v h) p = extent h p
      \<and> byte (op_store ops (p + i) v h) = (byte h)(p + i := v)"
begin

definition simulates :: "'h \<times> holdings \<Rightarrow> blocks \<Rightarrow> bool" where
  "simulates s bs \<longleftrightarrow> valid (fst s) (live (snd s)) \<and> separate (snd s)
     \<and> list_all2 (holds extent byte (fst s)) (snd s) bs"

lemma simulatesI:
  "valid h (live ps) \<Longrightarrow> separate ps \<Longrightarrow> list_all2 (holds extent byte h) ps bs \<Longrightarrow> simulates (h, ps) bs"
  by (simp add: simulates_def)

lemma serve_alloc:
  assumes sim: "simulates (h, ps) bs" and sz: "sz \<le> most"
  shows "\<exists>s' bs'. serve ops (Alloc sz) (h, ps) = Some s' \<and> bs' \<in> set (answers (Alloc sz) bs) \<and> simulates s' bs'"
proof -
  have V: "valid h (live ps)" and sep: "separate ps" and H: "list_all2 (holds extent byte h) ps bs"
    using sim by (simp_all add: simulates_def)
  from alloc [OF V sz] obtain p h' where a: "op_alloc ops sz h = Some (p, h')"
    and c: "p = 0 \<and> h' = h \<or> p \<noteq> 0 \<and> p \<notin> live ps \<and> valid h' (insert p (live ps)) \<and> sz \<le> extent h' p
      \<and> kept extent byte (live ps) h h'" by blast
  show ?thesis
  proof (cases "p = 0")
    case True
    have "simulates (h', ps @ [(0, 0)]) (bs @ [None])"
      by (rule simulatesI) (use True c V sep H in \<open>simp_all add: live_append separate_append list_all2_appendI holds_def\<close>)
    then show ?thesis using True a by auto
  next
    case False
    have new: "holds extent byte h' (p, sz) (Some (replicate sz None))" using c False by (simp add: holds_def)
    have k: "kept extent byte (live ps) h h'" using c False by simp
    have "list_all2 (holds extent byte h') ps bs"
    proof (rule list.rel_mono_strong [OF H])
      fix pn b assume "pn \<in> set ps" "holds extent byte h pn b"
      then show "holds extent byte h' pn b" by (intro holds_kept [OF k]) (auto simp: live_def)
    qed
    with new have "simulates (h', ps @ [(p, sz)]) (bs @ [Some (replicate sz None)])"
      using c False sep by (intro simulatesI) (simp_all add: live_append separate_append list_all2_appendI)
    then show ?thesis using False a by auto
  qed
qed

lemma serve_resize:
  assumes sim: "simulates (h, ps) bs" and sz: "sz \<le> most"
  shows "\<exists>s' bs'. serve ops (Resize i sz) (h, ps) = Some s' \<and> bs' \<in> set (answers (Resize i sz) bs) \<and> simulates s' bs'"
proof -
  have V: "valid h (live ps)" and sep: "separate ps" and H: "list_all2 (holds extent byte h) ps bs"
    using sim by (simp_all add: simulates_def)
  note len = list_all2_lengthD [OF H]
  show ?thesis
  proof (cases "i < length ps \<and> fst (ps ! i) \<noteq> 0")
    case False
    then have "bs \<in> set (answers (Resize i sz) bs)" by (auto split: option.splits)
    moreover have "serve ops (Resize i sz) (h, ps) = Some (h, ps)" using False by auto
    ultimately show ?thesis using sim by blast
  next
    case True
    let ?p = "fst (ps ! i)"
    have p: "?p \<in> live ps" using True by (auto simp: live_iff)
    have hi: "holds extent byte h (ps ! i) (bs ! i)" using H True by (simp add: list_all2_conv_all_nth)
    then obtain b where b: "bs ! i = Some b" "snd (ps ! i) = length b" "length b \<le> extent h ?p"
      "\<forall>j < length b. \<forall>v. b ! j = Some v \<longrightarrow> byte h (?p + j) = v"
      using True by (auto simp: holds_def split: option.splits)
    from resize [OF V p sz] obtain q h' where a: "op_resize ops ?p sz h = Some (q, h')"
      and c: "q = 0 \<and> h' = h \<or> q \<noteq> 0 \<and> q \<notin> live ps - {?p} \<and> valid h' (insert q (live ps - {?p})) \<and> sz \<le> extent h' q
        \<and> kept extent byte (live ps - {?p}) h h' \<and> (\<forall>j. j < sz \<and> j < extent h ?p \<longrightarrow> byte h' (q + j) = byte h (?p + j))"
      by blast
    show ?thesis
    proof (cases "q = 0")
      case q: True
      have "bs \<in> set (answers (Resize i sz) bs)" using b by simp
      moreover have "serve ops (Resize i sz) (h, ps) = Some (h, ps)" using True q a c by simp
      ultimately show ?thesis using sim by blast
    next
      case q: False
      let ?b = "take sz b @ replicate (sz - length b) None"
      have new: "holds extent byte h' (q, sz) (Some ?b)"
        using b c q by (auto simp: holds_def nth_append)
      have "list_all2 (holds extent byte h') (ps[i := (q, sz)]) (bs[i := Some ?b])"
        using c q True by (intro hold_update [OF _ H sep _ new]) simp_all
      then have "simulates (h', ps[i := (q, sz)]) (bs[i := Some ?b])"
        using c q True sep by (intro simulatesI) (simp_all add: live_update separate_update)
      moreover have "serve ops (Resize i sz) (h, ps) = Some (h', ps[i := (q, sz)])" using True q a by simp
      moreover have "bs[i := Some ?b] \<in> set (answers (Resize i sz) bs)" using b True len by simp
      ultimately show ?thesis by blast
    qed
  qed
qed

lemma serve_release:
  assumes sim: "simulates (h, ps) bs"
  shows "\<exists>s' bs'. serve ops (Release i) (h, ps) = Some s' \<and> bs' \<in> set (answers (Release i) bs) \<and> simulates s' bs'"
proof -
  have V: "valid h (live ps)" and sep: "separate ps" and H: "list_all2 (holds extent byte h) ps bs"
    using sim by (simp_all add: simulates_def)
  note len = list_all2_lengthD [OF H]
  show ?thesis
  proof (cases "i < length ps")
    case False
    then show ?thesis using sim len by auto
  next
    case True
    let ?p = "fst (ps ! i)"
    have "\<exists>h'. op_release ops ?p h = Some h' \<and> valid h' (live ps - {?p}) \<and> kept extent byte (live ps - {?p}) h h'"
    proof (cases "?p = 0")
      case True
      have "live ps - {0} = live ps" by (auto simp: live_def)
      then show ?thesis using True V release_null by (simp add: kept_def)
    next
      case False
      then have "?p \<in> live ps" using True by (auto simp: live_iff)
      then show ?thesis by (rule release [OF V])
    qed
    then obtain h' where a: "op_release ops ?p h = Some h'" and c: "valid h' (live ps - {?p})" "kept extent byte (live ps - {?p}) h h'"
      by blast
    have "list_all2 (holds extent byte h') (ps[i := (0, 0)]) (bs[i := None])"
      by (rule hold_update [OF c(2) H sep True]) (simp add: holds_def)
    then have "simulates (h', ps[i := (0, 0)]) (bs[i := None])"
      using c(1) True sep by (intro simulatesI) (simp_all add: live_update separate_update)
    moreover have "bs[i := None] \<in> set (answers (Release i) bs)" using True len by simp
    moreover have "serve ops (Release i) (h, ps) = Some (h', ps[i := (0, 0)])" using True a by simp
    ultimately show ?thesis by blast
  qed
qed

lemma serve_store:
  assumes sim: "simulates (h, ps) bs"
  shows "\<exists>s' bs'. serve ops (Store i j v) (h, ps) = Some s' \<and> bs' \<in> set (answers (Store i j v) bs) \<and> simulates s' bs'"
proof -
  have V: "valid h (live ps)" and sep: "separate ps" and H: "list_all2 (holds extent byte h) ps bs"
    using sim by (simp_all add: simulates_def)
  note len = list_all2_lengthD [OF H]
  show ?thesis
  proof (cases "i < length ps")
    case False
    then show ?thesis using sim len by auto
  next
    case True
    let ?p = "fst (ps ! i)"
    have hi: "holds extent byte h (ps ! i) (bs ! i)" using H True by (simp add: list_all2_conv_all_nth)
    show ?thesis
    proof (cases "j < snd (ps ! i)")
      case False
      then have "bs \<in> set (answers (Store i j v) bs)" using hi True len by (auto simp: holds_def split: option.splits)
      moreover have "serve ops (Store i j v) (h, ps) = Some (h, ps)" using False by simp
      ultimately show ?thesis using sim by blast
    next
      case j: True
      then obtain b where b: "bs ! i = Some b" "?p \<noteq> 0" "snd (ps ! i) = length b" "length b \<le> extent h ?p"
        "\<forall>j < length b. \<forall>v. b ! j = Some v \<longrightarrow> byte h (?p + j) = v"
        using hi by (auto simp: holds_def split: option.splits)
      have p: "?p \<in> live ps" using True b(2) by (auto simp: live_iff)
      have "j < extent h ?p" using j b(3,4) by simp
      note st = store [OF V p this, of v]
      let ?h = "op_store ops (?p + j) v h" let ?b = "b[j := Some v]"
      have new: "holds extent byte ?h (ps ! i) (Some ?b)"
        using b st j by (auto simp: holds_def nth_list_update)
      have "list_all2 (holds extent byte ?h) (ps[i := ps ! i]) (bs[i := Some ?b])"
        using st by (intro hold_update [OF _ H sep True new]) simp
      then have "simulates (?h, ps) (bs[i := Some ?b])" using st sep by (intro simulatesI) simp_all
      moreover have "bs[i := Some ?b] \<in> set (answers (Store i j v) bs)" using b j True len by simp
      moreover have "serve ops (Store i j v) (h, ps) = Some (?h, ps)" using True j by simp
      ultimately show ?thesis by blast
    qed
  qed
qed

lemma serve_simulates:
  assumes "simulates s bs" "size_asked r \<le> most"
  shows "\<exists>s' bs'. serve ops r s = Some s' \<and> bs' \<in> set (answers r bs) \<and> simulates s' bs'"
  using assms serve_alloc serve_resize serve_release serve_store by (cases s; cases r) auto

text \<open>A conversation: every request is answered, and the answers are those of the abstract machine.\<close>

lemma serve_all_simulates:
  "simulates s bs \<Longrightarrow> list_all (\<lambda>r. size_asked r \<le> most) rs \<Longrightarrow>
     \<exists>s' bs'. serve_all ops rs s = Some s' \<and> conversation rs bs bs' \<and> simulates s' bs'"
proof (induction rs arbitrary: s bs)
  case (Cons r rs)
  then have "size_asked r \<le> most" "list_all (\<lambda>r. size_asked r \<le> most) rs" by simp_all
  from serve_simulates [OF Cons.prems(1) this(1)] obtain s1 bs1
    where 1: "serve ops r s = Some s1" "bs1 \<in> set (answers r bs)" "simulates s1 bs1" by blast
  from Cons.IH [OF 1(3) \<open>list_all (\<lambda>r. size_asked r \<le> most) rs\<close>] 1(1,2) show ?case by (auto simp: list_ex_iff)
qed auto

end

subsection \<open>The allocator of the code\<close>

text \<open>
  \<open>heap_of U\<close> are the pointers to the data of the blocks \<open>U\<close>; the heap must end below the frame,
  whose address fits in a register.
\<close>

definition data_of :: "nat set \<Rightarrow> nat set" where
  "data_of U = (\<lambda>b. b + 8) ` U"

definition tiny_valid :: "nat \<Rightarrow> nat \<Rightarrow> heap \<Rightarrow> nat set \<Rightarrow> bool" where
  "tiny_valid lo limit s P \<longleftrightarrow> (\<exists>fl U. heap_ok lo s fl U \<and> P = data_of U) \<and> malloc_end s + 32 \<le> limit \<and> limit < 2 ^ 64"

definition tiny_ops :: "nat \<Rightarrow> heap heap_ops" where
  "tiny_ops limit = \<lparr>op_alloc = malloc limit, op_resize = realloc limit, op_release = free,
     op_store = (\<lambda>a v s. s\<lparr>hmem := (hmem s)(a := v)\<rparr>)\<rparr>"

text \<open>A heap before its first allocation.\<close>

definition fresh_heap :: "mem \<Rightarrow> nat \<Rightarrow> heap" where
  "fresh_heap m lo = \<lparr>hmem = m, malloc_end = lo, malloc_freelist = 0\<rparr>"

lemma fresh_heap_ok: "0 < lo \<Longrightarrow> 8 dvd lo \<Longrightarrow> lo < 2 ^ 64 \<Longrightarrow> heap_ok lo (fresh_heap m lo) [] {}"
  by (simp add: heap_ok_def layout_def fresh_heap_def)

lemma data_of_diff: "data_of U - {b + 8} = data_of (U - {b})"
  by (auto simp: data_of_def)

lemma data_of_insert: "insert (b + 8) (data_of U) = data_of (insert b U)"
  by (simp add: data_of_def)

lemma data_of_mem: "b + 8 \<in> data_of U \<longleftrightarrow> b \<in> U"
  by (auto simp: data_of_def)

lemma tiny_validI: "heap_ok lo s fl U \<Longrightarrow> malloc_end s + 32 \<le> limit \<Longrightarrow> limit < 2 ^ 64 \<Longrightarrow> tiny_valid lo limit s (data_of U)"
  unfolding tiny_valid_def by blast

lemma usable: "heap_ok lo s fl U \<Longrightarrow> b \<in> U \<Longrightarrow> malloc_usable_size (b + 8) s = ld (hmem s) b - 8"
  by (rule usable_size_spec(1))

lemma keeps_kept:
  assumes ok: "heap_ok lo s fl U" and ok': "heap_ok lo s' fl' U'" and V: "V \<subseteq> U" "V \<subseteq> U'" and k: "keeps V s s'"
  shows "kept (\<lambda>s p. malloc_usable_size p s) hmem (data_of V) s s'"
  unfolding kept_def data_of_def
proof (rule ballI)
  fix p assume "p \<in> (\<lambda>b. b + 8) ` V"
  then obtain b where b: "p = b + 8" "b \<in> V" by blast
  then have m: "b \<in> U" "b \<in> U'" using V by auto
  have sz: "ld (hmem s') b = ld (hmem s) b" by (rule keeps_size [OF ok k V(1) b(2)])
  show "malloc_usable_size p s' = malloc_usable_size p s
    \<and> (\<forall>i < malloc_usable_size p s. hmem s' (p + i) = hmem s (p + i))"
  proof (intro conjI allI impI)
    show "malloc_usable_size p s' = malloc_usable_size p s"
      unfolding b(1) usable [OF ok m(1)] usable [OF ok' m(2)] sz ..
    fix i assume "i < malloc_usable_size p s"
    then have "i + 8 < ld (hmem s) b" unfolding b(1) usable [OF ok m(1)] by linarith
    then show "hmem s' (p + i) = hmem s (p + i)" using k b unfolding keeps_def by simp
  qed
qed

interpretation tiny: allocator "tiny_valid lo limit" "\<lambda>s p. malloc_usable_size p s" hmem "tiny_ops limit" "2 ^ 64 - 33"
  for lo limit
proof unfold_locales
  fix s P and sz :: nat assume V: "tiny_valid lo limit s P" and sz: "sz \<le> 2 ^ 64 - 33"
  then obtain fl U where ok: "heap_ok lo s fl U" and P: "P = data_of U" and lim: "malloc_end s + 32 \<le> limit" "limit < 2 ^ 64"
    unfolding tiny_valid_def by blast
  have sz': "sz + 32 < 2 ^ 64" using sz by simp
  then have sz16: "sz + 16 < 2 ^ 64" by linarith
  from malloc_spec [OF ok sz' lim] obtain p s' where m: "malloc limit sz s = Some (p, s')"
    and r: "malloc_result lo limit (real_size sz) s fl U p s'" by blast
  show "\<exists>p s'. op_alloc (tiny_ops limit) sz s = Some (p, s') \<and> (p = 0 \<and> s' = s \<or> p \<noteq> 0 \<and> p \<notin> P
    \<and> tiny_valid lo limit s' (insert p P) \<and> sz \<le> malloc_usable_size p s' \<and> kept (\<lambda>s p. malloc_usable_size p s) hmem P s s')"
  proof (cases "p = 0")
    case True
    then show ?thesis using m r by (auto simp: tiny_ops_def malloc_result_def)
  next
    case False
    then obtain b fl' where p: "p = b + 8" and b: "b \<notin> U" "real_size sz \<le> ld (hmem s') b" "keeps U s s'"
      "malloc_end s' + 32 \<le> limit" "heap_ok lo s' fl' (insert b U)"
      using r unfolding malloc_result_def by (metis le_add_diff_inverse2)
    have "tiny_valid lo limit s' (insert p P)"
      unfolding p P data_of_insert by (rule tiny_validI [OF b(5,4) lim(2)])
    moreover have "sz \<le> malloc_usable_size p s'"
      unfolding p by (rule usable_size_spec(2) [OF b(5) insertI1 b(2) sz16])
    moreover have "kept (\<lambda>s p. malloc_usable_size p s) hmem P s s'"
      unfolding P by (rule keeps_kept [OF ok b(5) subset_refl _ b(3)]) blast
    moreover have "p \<notin> P" using b(1) by (simp add: p P data_of_mem)
    ultimately show ?thesis using m False by (simp add: tiny_ops_def)
  qed
next
  fix s P p and sz :: nat assume V: "tiny_valid lo limit s P" and pP: "p \<in> P" and sz: "sz \<le> 2 ^ 64 - 33"
  then obtain fl U where ok: "heap_ok lo s fl U" and P: "P = data_of U" and lim: "malloc_end s + 32 \<le> limit" "limit < 2 ^ 64"
    unfolding tiny_valid_def by blast
  obtain b where p: "p = b + 8" and b: "b \<in> U" using pP P by (auto simp: data_of_def)
  have sz': "sz + 32 < 2 ^ 64" using sz by simp
  then have sz16: "sz + 16 < 2 ^ 64" by linarith
  from realloc_spec [OF ok b sz' lim] obtain q s' where m: "realloc limit p sz s = Some (q, s')" "malloc_end s' + 32 \<le> limit"
    and r: "if q = 0 then s' = s \<and> ld (hmem s) b < real_size sz else realloc_result lo s U b sz q s'" unfolding p by blast
  show "\<exists>q s'. op_resize (tiny_ops limit) p sz s = Some (q, s') \<and> (q = 0 \<and> s' = s \<or> q \<noteq> 0 \<and> q \<notin> P - {p}
    \<and> tiny_valid lo limit s' (insert q (P - {p})) \<and> sz \<le> malloc_usable_size q s'
    \<and> kept (\<lambda>s p. malloc_usable_size p s) hmem (P - {p}) s s'
    \<and> (\<forall>i. i < sz \<and> i < malloc_usable_size p s \<longrightarrow> hmem s' (q + i) = hmem s (p + i)))"
  proof (cases "q = 0")
    case True
    then show ?thesis using m(1) r by (auto simp: tiny_ops_def)
  next
    case False
    then obtain c fl' where q: "q = c + 8" and c: "c \<notin> U - {b}" "real_size sz \<le> ld (hmem s') c" "keeps (U - {b}) s s'"
      "heap_ok lo s' fl' (insert c (U - {b}))" "\<forall>i. i < sz \<and> i + 8 < ld (hmem s) b \<longrightarrow> hmem s' (q + i) = hmem s (b + 8 + i)"
      using r unfolding realloc_result_def by (metis le_add_diff_inverse2)
    have Pp: "P - {p} = data_of (U - {b})" unfolding P p by (rule data_of_diff)
    have "tiny_valid lo limit s' (insert q (P - {p}))"
      unfolding Pp q data_of_insert by (rule tiny_validI [OF c(4) m(2) lim(2)])
    moreover have "sz \<le> malloc_usable_size q s'"
      unfolding q by (rule usable_size_spec(2) [OF c(4) insertI1 c(2) sz16])
    moreover have "kept (\<lambda>s p. malloc_usable_size p s) hmem (P - {p}) s s'"
      unfolding Pp by (rule keeps_kept [OF ok c(4) _ _ c(3)]) blast+
    moreover have "q \<notin> P - {p}" using c(1) unfolding Pp q data_of_mem .
    moreover have "\<forall>i. i < sz \<and> i < malloc_usable_size p s \<longrightarrow> hmem s' (q + i) = hmem s (p + i)"
      using c(5) unfolding p usable [OF ok b] by auto
    ultimately show ?thesis using m(1) False by (simp add: tiny_ops_def)
  qed
next
  fix s P p assume V: "tiny_valid lo limit s P" and pP: "p \<in> P"
  then obtain fl U where ok: "heap_ok lo s fl U" and P: "P = data_of U" and lim: "malloc_end s + 32 \<le> limit" "limit < 2 ^ 64"
    unfolding tiny_valid_def by blast
  obtain b where p: "p = b + 8" and b: "b \<in> U" using pP P by (auto simp: data_of_def)
  from free_spec [OF ok b] obtain s' fl' where f: "free p s = Some s'" and r: "heap_ok lo s' fl' (U - {b})"
    "keeps (U - {b}) s s'" "malloc_end s' = malloc_end s" unfolding free_result_def p by blast
  have Pp: "P - {p} = data_of (U - {b})" unfolding P p by (rule data_of_diff)
  have "tiny_valid lo limit s' (P - {p})" unfolding Pp by (rule tiny_validI [OF r(1) _ lim(2)]) (simp add: r(3) lim)
  moreover have "kept (\<lambda>s p. malloc_usable_size p s) hmem (P - {p}) s s'"
    unfolding Pp by (rule keeps_kept [OF ok r(1) _ _ r(2)]) blast+
  ultimately show "\<exists>s'. op_release (tiny_ops limit) p s = Some s' \<and> tiny_valid lo limit s' (P - {p})
    \<and> kept (\<lambda>s p. malloc_usable_size p s) hmem (P - {p}) s s'" using f by (simp add: tiny_ops_def)
next
  show "op_release (tiny_ops limit) 0 s = Some s" for s by (simp add: tiny_ops_def free_def)
next
  fix s P p v and i :: nat assume V: "tiny_valid lo limit s P" and pP: "p \<in> P" and i: "i < malloc_usable_size p s"
  then obtain fl U where ok: "heap_ok lo s fl U" and P: "P = data_of U" and lim: "malloc_end s + 32 \<le> limit" "limit < 2 ^ 64"
    unfolding tiny_valid_def by blast
  obtain b where p: "p = b + 8" and b: "b \<in> U" using pP P by (auto simp: data_of_def)
  let ?m = "(hmem s)(p + i := v)" let ?s = "s\<lparr>hmem := ?m\<rparr>"
  have "i + 8 < ld (hmem s) b" using i unfolding p usable [OF ok b] by linarith
  then have out: "?m x = hmem s x" if "x < b + 8 \<or> b + ld (hmem s) b \<le> x" for x using that p by auto
  have dw: "heap_ok lo ?s fl U" "keeps (U - {b}) s ?s" "c \<in> set fl \<union> U \<Longrightarrow> ld ?m c = ld (hmem s) c" for c
    by (rule data_write [OF ok b]; (rule out)?; assumption)+
  have Pp: "P - {p} = data_of (U - {b})" unfolding P p by (rule data_of_diff)
  have "malloc_end ?s + 32 \<le> limit" using lim(1) by simp
  then have "tiny_valid lo limit ?s P" unfolding P by (rule tiny_validI [OF dw(1) _ lim(2)])
  moreover have "kept (\<lambda>s p. malloc_usable_size p s) hmem (P - {p}) s ?s"
    unfolding Pp by (rule keeps_kept [OF ok dw(1) _ _ dw(2)]) blast+
  moreover have "malloc_usable_size p ?s = malloc_usable_size p s"
    using usable [OF ok b] usable [OF dw(1) b] dw(3) [of b] b by (simp add: p)
  ultimately show "tiny_valid lo limit (op_store (tiny_ops limit) (p + i) v s) P
    \<and> kept (\<lambda>s p. malloc_usable_size p s) hmem (P - {p}) s (op_store (tiny_ops limit) (p + i) v s)
    \<and> malloc_usable_size p (op_store (tiny_ops limit) (p + i) v s) = malloc_usable_size p s
    \<and> hmem (op_store (tiny_ops limit) (p + i) v s) = (hmem s)(p + i := v)" by (simp add: tiny_ops_def)
qed


lemma live_nil: "live [] = {}"
  by (simp add: live_def)

text \<open>
  C5. The allocator implements the machine of independent blocks. Started on a fresh heap, it
  answers every request of a conversation whose sizes stay 33 bytes below the end of the address
  space, each answer is one the abstract machine allows (an allocation may be refused), and in the
  end every pointer the client holds leads to a block of its own with at least the size asked for,
  in which every byte the client wrote and did not cut off is still there.
\<close>

theorem tiny_malloc_refines_blocks:
  assumes "0 < lo" "8 dvd lo" "lo + 32 \<le> limit" "limit < 2 ^ 64" "list_all (\<lambda>r. size_asked r \<le> 2 ^ 64 - 33) rs"
  shows "\<exists>s ps bs. serve_all (tiny_ops limit) rs (fresh_heap m lo, []) = Some (s, ps) \<and> conversation rs [] bs
    \<and> tiny_valid lo limit s (live ps) \<and> separate ps
    \<and> list_all2 (holds (\<lambda>s p. malloc_usable_size p s) hmem s) ps bs"
proof -
  have "lo < 2 ^ 64" using assms(3,4) by linarith
  have "malloc_end (fresh_heap m lo) = lo" by (simp add: fresh_heap_def)
  then have "tiny_valid lo limit (fresh_heap m lo) (data_of {})"
    using assms(3,4) by (intro tiny_validI [OF fresh_heap_ok [OF assms(1,2) \<open>lo < 2 ^ 64\<close>]]) simp_all
  then have "tiny_valid lo limit (fresh_heap m lo) (live [])" by (simp add: data_of_def live_nil)
  then have "tiny.simulates lo limit (fresh_heap m lo, []) []"
    by (intro tiny.simulatesI) (simp_all add: separate_def)
  from tiny.serve_all_simulates [OF this assms(5)] show ?thesis
    by (fastforce simp: tiny.simulates_def)
qed

theorem tiny_malloc_refines_blocks_witness:
  "\<exists>s ps bs. serve_all (tiny_ops 65536) [Alloc 100, Alloc 8, Store 0 99 7, Release 1, Resize 0 300, Store 0 250 1]
      (fresh_heap (\<lambda>_. 0) 4096, []) = Some (s, ps)
    \<and> conversation [Alloc 100, Alloc 8, Store 0 99 7, Release 1, Resize 0 300, Store 0 250 1] [] bs
    \<and> tiny_valid 4096 65536 s (live ps) \<and> separate ps
    \<and> list_all2 (holds (\<lambda>s p. malloc_usable_size p s) hmem s) ps bs"
  by (rule tiny_malloc_refines_blocks) simp_all

text \<open>
  C17. \<^verbatim>\<open>malloc\<close> returns on every well-formed heap. A null result leaves the heap as it was and
  means that every free block is too small and the heap cannot grow to the frame; otherwise the
  result points into a block that was not in use, large enough for the request, the invariant
  holds with that block in use, and the contents of the blocks in use are unchanged.
\<close>

theorem malloc_correct:
  assumes "heap_ok lo s fl U" "sz + 32 < 2 ^ 64" "malloc_end s + 32 \<le> limit" "limit < 2 ^ 64"
  shows "\<exists>p s'. malloc limit sz s = Some (p, s')
    \<and> (if p = 0 then s' = s \<and> (\<forall>b \<in> set fl. ld (hmem s) b < real_size sz) \<and> limit < malloc_end s + real_size sz + 32
       else 8 \<le> p \<and> p - 8 \<notin> U \<and> sz \<le> malloc_usable_size p s' \<and> keeps U s s' \<and> malloc_end s' + 32 \<le> limit
         \<and> (\<exists>fl'. heap_ok lo s' fl' (insert (p - 8) U)))"
proof -
  have sz16: "sz + 16 < 2 ^ 64" using assms(2) by linarith
  from malloc_spec [OF assms] obtain p s' where m: "malloc limit sz s = Some (p, s')"
    and r: "malloc_result lo limit (real_size sz) s fl U p s'" by blast
  have "sz \<le> malloc_usable_size p s'" if "p \<noteq> 0"
  proof -
    from r that obtain fl' where "heap_ok lo s' fl' (insert (p - 8) U)" "real_size sz \<le> ld (hmem s') (p - 8)" "8 \<le> p"
      by (auto simp: malloc_result_def)
    then show ?thesis using usable_size_spec(2) [of lo s' fl' "insert (p - 8) U" "p - 8" sz] sz16 by simp
  qed
  then show ?thesis using m r by (auto simp: malloc_result_def)
qed

theorem malloc_correct_witness:
  "\<exists>p s'. malloc 65536 100 (fresh_heap (\<lambda>_. 0) 4096) = Some (p, s')
    \<and> (if p = 0 then s' = fresh_heap (\<lambda>_. 0) 4096 \<and> (\<forall>b \<in> set []. ld (hmem (fresh_heap (\<lambda>_. 0) 4096)) b < real_size 100)
         \<and> 65536 < malloc_end (fresh_heap (\<lambda>_. 0) 4096) + real_size 100 + 32
       else 8 \<le> p \<and> p - 8 \<notin> {} \<and> 100 \<le> malloc_usable_size p s' \<and> keeps {} (fresh_heap (\<lambda>_. 0) 4096) s' \<and> malloc_end s' + 32 \<le> 65536
         \<and> (\<exists>fl'. heap_ok 4096 s' fl' (insert (p - 8) {})))"
  by (rule malloc_correct [OF fresh_heap_ok]) (simp_all add: fresh_heap_def)

text \<open>
  C18. \<^verbatim>\<open>memalign\<close> with a power of two returns on every well-formed heap; a non-null result is
  aligned, points into a block that was not in use and is large enough, and the contents of the
  blocks in use are unchanged. Even when it returns null, after it has put a new block on the free
  list, the heap is well formed.
\<close>

theorem memalign_correct:
  assumes "heap_ok lo s fl U" "sz + 2 ^ k + 32 < 2 ^ 64" "k < 64" "malloc_end s + 32 \<le> limit" "limit < 2 ^ 64"
  shows "\<exists>p s'. memalign limit (2 ^ k) sz s = Some (p, s') \<and> keeps U s s' \<and> malloc_end s' + 32 \<le> limit
    \<and> (if p = 0 then \<exists>fl'. heap_ok lo s' fl' U
       else 8 \<le> p \<and> 2 ^ k dvd p \<and> p - 8 \<notin> U \<and> real_size sz \<le> ld (hmem s') (p - 8)
         \<and> (\<exists>fl'. heap_ok lo s' fl' (insert (p - 8) U)))"
  using memalign_spec [OF assms] unfolding memalign_result_def .

theorem memalign_correct_witness:
  "\<exists>p s'. memalign 65536 (2 ^ 7) 100 (fresh_heap (\<lambda>_. 0) 4096) = Some (p, s') \<and> keeps {} (fresh_heap (\<lambda>_. 0) 4096) s'
    \<and> malloc_end s' + 32 \<le> 65536
    \<and> (if p = 0 then \<exists>fl'. heap_ok 4096 s' fl' {}
       else 8 \<le> p \<and> 2 ^ 7 dvd p \<and> p - 8 \<notin> {} \<and> real_size 100 \<le> ld (hmem s') (p - 8)
         \<and> (\<exists>fl'. heap_ok 4096 s' fl' (insert (p - 8) {})))"
  by (rule memalign_correct [OF fresh_heap_ok]) (simp_all add: fresh_heap_def)

text \<open>
  C40. \<^verbatim>\<open>mallinfo\<close> accounts for every byte of the heap: the arena is the whole heap, the free and
  the used sizes are the sums over the free list and over the blocks in use, and \<^verbatim>\<open>keepcost\<close> is the
  free block at the end of the heap.
\<close>

theorem mallinfo_accounts:
  assumes "heap_ok lo s fl U"
  shows "mallinfo_c conv lo s = Some \<lparr>arena = conv (malloc_end s - lo), fordblks = conv (\<Sum>b \<in> set fl. ld (hmem s) b),
      uordblks = conv (\<Sum>u \<in> U. ld (hmem s) u), ordblks = conv (length fl), keepcost = conv (spare s fl)\<rparr>
    \<and> (\<Sum>b \<in> set fl. ld (hmem s) b) + (\<Sum>u \<in> U. ld (hmem s) u) = malloc_end s - lo"
proof -
  note D = heap_okD [OF assms]
  have "finite (set fl \<union> U)" "(\<Sum>a \<in> set fl \<union> U. ld (hmem s) a) = malloc_end s - lo"
    using D(5) by (simp_all add: layout_def)
  then have "(\<Sum>b \<in> set fl. ld (hmem s) b) + (\<Sum>u \<in> U. ld (hmem s) u) = malloc_end s - lo"
    using D(4) by (subst sum.union_disjoint [symmetric]) auto
  with mallinfo_spec [OF assms, of conv] show ?thesis by blast
qed

theorem mallinfo_accounts_witness:
  "mallinfo_c word_of_nat 4096 (fresh_heap (\<lambda>_. 0) 4096)
    = Some \<lparr>arena = word_of_nat (malloc_end (fresh_heap (\<lambda>_. 0) 4096) - 4096), fordblks = word_of_nat (\<Sum>b \<in> set []. ld (hmem (fresh_heap (\<lambda>_. 0) 4096)) b),
      uordblks = word_of_nat (\<Sum>u \<in> {}. ld (hmem (fresh_heap (\<lambda>_. 0) 4096)) u), ordblks = word_of_nat (length ([] :: nat list)),
      keepcost = (word_of_nat (spare (fresh_heap (\<lambda>_. 0) 4096) []) :: c_int)\<rparr>
    \<and> (\<Sum>b \<in> set []. ld (hmem (fresh_heap (\<lambda>_. 0) 4096)) b) + (\<Sum>u \<in> {}. ld (hmem (fresh_heap (\<lambda>_. 0) 4096)) u)
      = malloc_end (fresh_heap (\<lambda>_. 0) 4096) - 4096"
  by (rule mallinfo_accounts [OF fresh_heap_ok]) simp_all

text \<open>
  The size computation of \<^verbatim>\<open>calloc\<close> and the header overhead wrap: a request of more elements than
  the address space holds, and one close to its end, get a block smaller than asked for.
\<close>

lemma calloc_size_wraps: "calloc limit (2 ^ 61) 8 s = calloc limit 0 0 s"
  by (simp add: calloc_def)

end
