(* ===== verification/Debug_Checksum.thy ===== *)
theory Debug_Checksum
  imports C_Strings
begin

text \<open>
  The checksum program of \<^verbatim>\<open>riscv-tests/debug/programs\<close>: \<^verbatim>\<open>checksum.c\<close> (bit reversal and the
  basic CRC loop), \<^verbatim>\<open>debug.c\<close> (\<^verbatim>\<open>fib\<close>, \<^verbatim>\<open>rot13\<close>, \<^verbatim>\<open>strlen\<close> and \<^verbatim>\<open>main\<close>), and the two counting
  programs \<^verbatim>\<open>ebreak.c\<close> and \<^verbatim>\<open>counting_loop.c\<close>. The loops over strings are partial functions,
  where \<open>None\<close> is the loop that never ends; characters are unsigned bytes.
\<close>

subsection \<open>checksum.c\<close>

definition reverse :: "32 word \<Rightarrow> 32 word" where
  "reverse x =
     (let x = push_bit 1 (x AND 0x55555555) OR (drop_bit 1 x AND 0x55555555);
          x = push_bit 2 (x AND 0x33333333) OR (drop_bit 2 x AND 0x33333333);
          x = push_bit 4 (x AND 0x0F0F0F0F) OR (drop_bit 4 x AND 0x0F0F0F0F)
      in push_bit 24 x OR push_bit 8 (x AND 0xFF00) OR (drop_bit 8 x AND 0xFF00) OR drop_bit 24 x)"

definition crc_bit :: "32 word \<times> 32 word \<Rightarrow> 32 word \<times> 32 word" where
  "crc_bit cb = (let (crc, byte) = cb;
       crc = (if sint (crc XOR byte) < 0 then push_bit 1 crc XOR 0x04C11DB7 else push_bit 1 crc)
     in (crc, push_bit 1 byte))"

definition crc_byte :: "32 word \<Rightarrow> byte \<Rightarrow> 32 word" where
  "crc_byte crc b = fst (c_for 0 8 1 (\<lambda>j. crc_bit) (crc, reverse (ucast b)))"

text \<open>The counter is an \<^verbatim>\<open>int\<close> compared with an \<^verbatim>\<open>unsigned\<close> length; a natural number is the same below \<open>2 ^ 31\<close> bytes.\<close>

definition crc32a :: "mem \<Rightarrow> nat \<Rightarrow> nat \<Rightarrow> 32 word" where
  "crc32a m message len = reverse (NOT (c_for 0 len 1 (\<lambda>i crc. crc_byte crc (m (message + i))) 0xFFFFFFFF))"

subsection \<open>debug.c, ebreak.c and counting_loop.c\<close>

definition fib :: "32 word \<Rightarrow> 32 word" where
  "fib n = (if n = 0 then 0 else snd (c_for 1 (unat n) 1 (\<lambda>i (a, b). (b, a + b)) (0, 1)))"

text \<open>In \<^verbatim>\<open>ebreak.c\<close> each iteration also executes a breakpoint; the second component counts them.\<close>

definition fib_ebreak :: "32 word \<Rightarrow> 32 word \<times> nat" where
  "fib_ebreak n = (if n = 0 then (0, 0)
     else let (a, b, breaks) = c_for 1 (unat n) 1 (\<lambda>i (a, b, breaks). (b, a + b, Suc breaks)) (0, 1, 0)
          in (b, breaks))"

definition ebreak_main :: "32 word \<times> nat" where
  "ebreak_main = fib_ebreak 4"

function counting_loop :: "32 word \<Rightarrow> 32 word \<Rightarrow> 32 word" where
  "counting_loop acc counter =
     (if sint counter < 10 then let counter = counter + 1 in counting_loop (acc + counter) counter else counter)"
  by pat_completeness auto
termination
proof (relation "measure (\<lambda>(acc, counter). nat (10 - sint counter))")
  fix acc counter x :: "32 word"
  assume c: "sint counter < 10" and x: "x = counter + 1"
  have lo: "- (2 ^ 31) \<le> sint counter" using sint_greater_eq [of counter] by simp
  have "sint x = sint counter + 1"
    using c lo unfolding x by (simp add: sint_word_ariths signed_take_bit_int_eq_self)
  then show "((acc + x, x), (acc, counter)) \<in> measure (\<lambda>(acc, counter). nat (10 - sint counter))"
    using c by simp
qed simp

declare counting_loop.simps [simp del]

definition counting_main :: "32 word" where
  "counting_main = counting_loop 0 0"

definition rot13_byte :: "byte \<Rightarrow> byte" where
  "rot13_byte c =
     (if 97 \<le> c \<and> c \<le> 109 \<or> 65 \<le> c \<and> c \<le> 77 then c + 13
      else if 110 \<le> c \<and> c \<le> 122 \<or> 78 \<le> c \<and> c \<le> 90 then c - 13 else c)"

partial_function (option) rot13 :: "mem \<Rightarrow> nat \<Rightarrow> mem option" where
  "rot13 m buf = (if m buf \<noteq> 0 then rot13 (m(buf := rot13_byte (m buf))) (buf + 1) else Some m)"

partial_function (option) strlen_from :: "mem \<Rightarrow> nat \<Rightarrow> nat \<Rightarrow> nat option" where
  "strlen_from m buf len = (if m (buf + len) \<noteq> 0 then strlen_from m buf (len + 1) else Some len)"

text \<open>
  The variable \<^verbatim>\<open>i\<close> of \<^verbatim>\<open>main\<close> is only changed by a debugger; with its initial value the waiting
  loop is left at once.
\<close>

definition debug_main :: "mem \<Rightarrow> nat \<Rightarrow> 32 word option" where
  "debug_main m fox =
     Option.bind (rot13 m fox) (\<lambda>m. Option.bind (strlen_from m fox 0) (\<lambda>len.
       let checksum = 0 XOR crc32a m fox len
       in Option.bind (rot13 m fox) (\<lambda>m. Option.bind (strlen_from m fox 0) (\<lambda>len.
            Some (checksum XOR crc32a m fox len)))))"

subsection \<open>Bit reversal\<close>

lemma less_32_cases:
  "i < 32 \<Longrightarrow> i \<in> {0, 1, 2, 3, 4, 5, 6, 7, 8, 9, 10, 11, 12, 13, 14, 15, 16, 17, 18, 19, 20, 21, 22, 23, 24, 25, 26, 27, 28, 29, 30, 31 :: nat}"
  unfolding insert_iff empty_iff by presburger

lemma bit_twice: "bit (x * 2 :: 32 word) n \<longleftrightarrow> 0 < n \<and> n < 32 \<and> bit x (n - 1)"
proof -
  have "x * 2 = push_bit 1 x" by simp
  then show ?thesis by (simp only: bit_simps) auto
qed

lemma bit_reverse:
  assumes "i < 32"
  shows "bit (reverse x) i = bit x (31 - i)"
  using less_32_cases [OF assms] by (elim insertE) (simp_all add: reverse_def Let_def bit_simps bit_twice)


lemma reverse_bits: "reverse x = y \<longleftrightarrow> (\<forall>i < 32. bit y i = bit x (31 - i))"
proof
  assume "\<forall>i < 32. bit y i = bit x (31 - i)"
  then show "reverse x = y" by (intro bit_word_eqI) (simp add: bit_reverse)
qed (auto simp: bit_reverse)

lemma reverse_reverse: "reverse (reverse x) = x"
  by (simp add: reverse_bits bit_reverse)

lemma reverse_xor: "reverse (x XOR y) = reverse x XOR reverse y"
  by (simp add: reverse_bits bit_reverse bit_simps)

lemma reverse_not: "reverse (NOT x) = NOT (reverse x)"
  by (auto simp: reverse_bits bit_reverse bit_simps)

lemma reverse_up: "reverse (push_bit 1 x) = drop_bit 1 (reverse x)"
proof (rule bit_word_eqI)
  fix i assume "i < LENGTH(32)"
  then have i: "i < 32" by simp
  have "bit (drop_bit 1 (reverse x)) i \<longleftrightarrow> bit (reverse x) (1 + i)" by (simp only: bit_drop_bit_eq comp_apply)
  moreover have "bit (reverse x) (1 + i) \<longleftrightarrow> i < 31 \<and> bit x (30 - i)"
  proof (cases "i < 31")
    case True
    then show ?thesis using bit_reverse [of "1 + i" x] by simp
  next
    case False
    then have "\<not> bit (reverse x) (1 + i)" using bit_imp_le_length [of "reverse x" "1 + i"] by auto
    then show ?thesis using False by simp
  qed
  moreover have "bit (push_bit 1 x) (31 - i) \<longleftrightarrow> i < 31 \<and> bit x (30 - i)"
    using i by (auto simp: bit_twice)
  ultimately show "bit (reverse (push_bit 1 x)) i = bit (drop_bit 1 (reverse x)) i" using bit_reverse [OF i] by simp
qed

subsection \<open>The CRC\<close>

text \<open>
  The reference: the reflected CRC-32 (polynomial \<^verbatim>\<open>0xEDB88320\<close>, least significant bit first,
  initial value and result complemented) over a list of bytes.
\<close>

definition crc_step :: "32 word \<Rightarrow> 32 word" where
  "crc_step r = (if bit r 0 then drop_bit 1 r XOR 0xEDB88320 else drop_bit 1 r)"

definition crc_feed :: "32 word \<Rightarrow> byte \<Rightarrow> 32 word" where
  "crc_feed r b = (crc_step ^^ 8) (r XOR ucast b)"

definition crc32 :: "byte list \<Rightarrow> 32 word" where
  "crc32 bs = NOT (foldl crc_feed 0xFFFFFFFF bs)"

lemma crc_bit_step: "reverse (fst (crc_bit (c, b)) XOR snd (crc_bit (c, b))) = crc_step (reverse (c XOR b))"
proof -
  let ?d = "c XOR b"
  have top: "sint ?d < 0 \<longleftrightarrow> bit (reverse ?d) 0"
    using bit_reverse [of 0 ?d] bit_last_iff [of ?d] by simp
  have poly: "reverse 0x04C11DB7 = 0xEDB88320"
    by (simp add: reverse_def Let_def)
  have shift: "push_bit 1 c XOR push_bit 1 b = push_bit 1 ?d" by (simp only: push_bit_xor)
  have "fst (crc_bit (c, b)) XOR snd (crc_bit (c, b))
      = (if sint ?d < 0 then push_bit 1 ?d XOR 0x04C11DB7 else push_bit 1 ?d)"
    unfolding shift [symmetric] by (simp add: crc_bit_def Let_def ac_simps)
  then show ?thesis by (simp only: top crc_step_def reverse_xor reverse_up poly if_distrib [of reverse])
qed

lemma crc_bits:
  "reverse (fst ((crc_bit ^^ n) cb) XOR snd ((crc_bit ^^ n) cb)) = (crc_step ^^ n) (reverse (fst cb XOR snd cb))"
proof (induction n)
  case (Suc n)
  then show ?case using crc_bit_step [of "fst ((crc_bit ^^ n) cb)" "snd ((crc_bit ^^ n) cb)"] by simp
qed simp

lemma crc_bits_byte: "snd ((crc_bit ^^ n) cb) = push_bit n (snd cb)"
proof (induction n)
  case (Suc n)
  have "snd (crc_bit cb) = push_bit 1 (snd cb)" for cb by (cases cb) (simp add: crc_bit_def Let_def)
  then show ?case using Suc by (simp add: push_bit_push_bit flip: push_bit_Suc)
qed simp

lemma fold_const: "fold (\<lambda>j. f) xs = f ^^ length xs"
proof (induction xs)
  case (Cons x xs)
  then have "fold (\<lambda>j. f) (x # xs) = f ^^ length xs \<circ> f" by (simp only: fold.simps)
  also have "\<dots> = f ^^ length (x # xs)" by (simp only: funpow_Suc_right list.size add_Suc_right add_0_right)
  finally show ?case .
qed simp

lemma reverse_crc_byte: "reverse (crc_byte c b) = crc_feed (reverse c) b"
proof -
  let ?cb = "(c, reverse (ucast b :: 32 word))"
  have loop: "c_for 0 8 1 (\<lambda>j. crc_bit) ?cb = (crc_bit ^^ 8) ?cb"
    by (simp add: c_for_1 fold_const)
  have "snd ((crc_bit ^^ 8) ?cb) = push_bit 8 (reverse (ucast b))" by (simp add: crc_bits_byte)
  also have "\<dots> = 0"
  proof (rule bit_word_eqI)
    fix i assume "i < LENGTH(32)"
    then have i: "i < 32" by simp
    have "bit (push_bit 8 (reverse (ucast b :: 32 word))) i \<longleftrightarrow> 8 \<le> i \<and> bit (ucast b :: 32 word) (39 - i)"
      using i bit_reverse [of "i - 8" "ucast b"] by (auto simp: bit_push_bit_iff)
    also have "\<dots> \<longleftrightarrow> False" using i by (auto simp: bit_ucast_iff dest: bit_imp_le_length)
    finally show "bit (push_bit 8 (reverse (ucast b :: 32 word))) i = bit (0 :: 32 word) i" by simp
  qed
  finally have "reverse (fst ((crc_bit ^^ 8) ?cb)) = (crc_step ^^ 8) (reverse (c XOR reverse (ucast b)))"
    using crc_bits [of 8 ?cb] by simp
  then show ?thesis by (simp add: crc_byte_def loop crc_feed_def reverse_xor reverse_reverse del: One_nat_def)
qed

lemma crc32a_list: "crc32a m p n = crc32 (map (\<lambda>i. m (p + i)) [0..<n])"
proof -
  have "reverse (fold (\<lambda>i crc. crc_byte crc (m (p + i))) is c) = foldl crc_feed (reverse c) (map (\<lambda>i. m (p + i)) is)" for "is" c
    by (induction "is" arbitrary: c) (simp_all add: reverse_crc_byte)
  moreover have "reverse 0xFFFFFFFF = 0xFFFFFFFF" by (simp add: reverse_def Let_def)
  ultimately show ?thesis by (simp add: crc32a_def c_for_1 reverse_not crc32_def del: One_nat_def) (simp add: c_for_1 reverse_not)
qed


lemma xor_cancel: "x XOR a = y XOR a \<longleftrightarrow> x = (y :: 'a::len word)"
proof
  assume "x XOR a = y XOR a"
  then have "(x XOR a) XOR a = (y XOR a) XOR a" by (rule arg_cong)
  then show "x = y" by (simp only: xor.assoc xor_self_eq xor.right_neutral)
qed simp

text \<open>Each step is invertible, so a message that differs in one byte has another checksum.\<close>

lemma crc_step_inj: "inj crc_step"
proof (rule injI)
  fix x y :: "32 word"
  have top: "bit (crc_step z) 31 \<longleftrightarrow> bit z 0" for z
    by (simp add: crc_step_def bit_simps) (auto dest: bit_imp_le_length)
  have low: "bit (crc_step z XOR (if bit z 0 then 0xEDB88320 else 0)) i \<longleftrightarrow> bit z (1 + i)" for z i
  proof -
    have "crc_step z XOR (if bit z 0 then 0xEDB88320 else 0) = drop_bit 1 z" by (simp add: crc_step_def xor.assoc)
    then show ?thesis by (simp only: bit_drop_bit_eq comp_apply)
  qed
  assume eq: "crc_step x = crc_step y"
  then have 0: "bit x 0 \<longleftrightarrow> bit y 0" using top by metis
  show "x = y"
  proof (rule bit_word_eqI)
    fix i assume "i < LENGTH(32)"
    show "bit x i = bit y i"
    proof (cases i)
      case (Suc j)
      then show ?thesis using low [of x j] low [of y j] eq 0 by simp
    qed (use 0 in simp)
  qed
qed

lemma crc_steps_inj: "inj (crc_step ^^ n)"
  using inj_fn [OF crc_step_inj] by simp

lemma foldl_feed_inj: "inj (\<lambda>r. foldl crc_feed r bs)"
proof (induction bs)
  case (Cons b bs)
  have "inj (\<lambda>r. crc_feed r b)"
  proof (rule injI)
    fix x y assume "crc_feed x b = crc_feed y b"
    then have "x XOR ucast b = y XOR ucast b" unfolding crc_feed_def by (rule injD [OF crc_steps_inj])
    then show "x = y" by (simp only: xor_cancel)
  qed
  from inj_compose [OF Cons.IH this] show ?case by (simp only: comp_def foldl.simps)
qed (simp add: inj_on_def)

lemma crc32_one_byte: "crc32 (xs @ a # ys) = crc32 (xs @ b # ys) \<longleftrightarrow> a = b"
proof
  assume "crc32 (xs @ a # ys) = crc32 (xs @ b # ys)"
  then have "foldl crc_feed (crc_feed (foldl crc_feed 0xFFFFFFFF xs) a) ys = foldl crc_feed (crc_feed (foldl crc_feed 0xFFFFFFFF xs) b) ys"
    by (simp add: crc32_def)
  then have "crc_feed (foldl crc_feed 0xFFFFFFFF xs) a = crc_feed (foldl crc_feed 0xFFFFFFFF xs) b"
    by (rule injD [OF foldl_feed_inj])
  then have "foldl crc_feed 0xFFFFFFFF xs XOR ucast a = foldl crc_feed 0xFFFFFFFF xs XOR ucast b"
    unfolding crc_feed_def by (rule injD [OF crc_steps_inj])
  then have "(ucast a :: 32 word) = ucast b" unfolding xor.commute [of "foldl crc_feed 0xFFFFFFFF xs"] xor_cancel .
  then have same: "bit (ucast a :: 32 word) i \<longleftrightarrow> bit (ucast b :: 32 word) i" for i by simp
  show "a = b"
  proof (rule bit_word_eqI)
    fix i assume "i < LENGTH(8)"
    then show "bit a i = bit b i" using same [of i] by (simp add: bit_ucast_iff)
  qed
qed simp

subsection \<open>The programs\<close>

fun fibonacci :: "nat \<Rightarrow> nat" where
  "fibonacci 0 = 0"
| "fibonacci (Suc 0) = 1"
| "fibonacci (Suc (Suc n)) = fibonacci (Suc n) + fibonacci n"

lemma fib_loop: "fold (\<lambda>i (a, b). (b, a + b)) [1..<Suc n] (0, 1) = (word_of_nat (fibonacci n), word_of_nat (fibonacci (Suc n)) :: 32 word)"
  by (induction n) simp_all

lemma fib_eq: "fib n = word_of_nat (fibonacci (unat n))"
proof (cases "unat n")
  case 0
  then show ?thesis by (simp add: fib_def unat_eq_zero)
next
  case (Suc k)
  then have "n \<noteq> 0" by auto
  then show ?thesis using Suc fib_loop [of k] by (simp add: fib_def c_for_1)
qed

lemma fib_ebreak_loop:
  "fold (\<lambda>i (a, b, breaks). (b, a + b, Suc breaks)) ks (a, b, d) =
     (let (a', b') = fold (\<lambda>i (a, b). (b, a + b)) ks (a, b) in (a', b', d + length ks))"
  by (induction ks arbitrary: a b d) (simp_all split: prod.splits)

lemma fib_ebreak_eq: "fib_ebreak n = (fib n, unat n - 1)"
  by (simp add: fib_ebreak_def fib_def c_for_1 fib_ebreak_loop Let_def unat_eq_zero split: prod.splits)

lemma byte_up: "c \<le> 109 \<Longrightarrow> unat (c + 13 :: byte) = unat c + 13"
  by (simp add: word_le_nat_alt unat_word_ariths)

lemma byte_down: "13 \<le> c \<Longrightarrow> unat (c - 13 :: byte) = unat c - 13"
  by (simp add: unat_sub)

lemma byte_ranges:
  fixes c :: byte
  shows "97 \<le> c \<Longrightarrow> c \<le> 109 \<Longrightarrow> 110 \<le> c + 13 \<and> c + 13 \<le> 122" "65 \<le> c \<Longrightarrow> c \<le> 77 \<Longrightarrow> 78 \<le> c + 13 \<and> c + 13 \<le> 90"
    "110 \<le> c \<Longrightarrow> c \<le> 122 \<Longrightarrow> 97 \<le> c - 13 \<and> c - 13 \<le> 109" "78 \<le> c \<Longrightarrow> c \<le> 90 \<Longrightarrow> 65 \<le> c - 13 \<and> c - 13 \<le> 77"
  using byte_up [of c] byte_down [of c] by (simp_all add: word_le_nat_alt) presburger+

lemma upper_half: "110 \<le> c \<or> 78 \<le> c \<and> c \<le> 90 \<Longrightarrow> \<not> (97 \<le> c \<and> c \<le> 109 \<or> 65 \<le> c \<and> c \<le> (77 :: byte))"
  by (auto simp: word_le_nat_alt)

lemma rot13_byte_involution: "rot13_byte (rot13_byte c) = c"
proof -
  consider (low) "97 \<le> c \<and> c \<le> 109 \<or> 65 \<le> c \<and> c \<le> 77"
    | (high) "\<not> (97 \<le> c \<and> c \<le> 109 \<or> 65 \<le> c \<and> c \<le> 77)" "110 \<le> c \<and> c \<le> 122 \<or> 78 \<le> c \<and> c \<le> 90"
    | (none) "\<not> (97 \<le> c \<and> c \<le> 109 \<or> 65 \<le> c \<and> c \<le> 77)" "\<not> (110 \<le> c \<and> c \<le> 122 \<or> 78 \<le> c \<and> c \<le> 90)"
    by blast
  then show ?thesis
  proof cases
    case low
    then have r: "110 \<le> c + 13 \<and> c + 13 \<le> 122 \<or> 78 \<le> c + 13 \<and> c + 13 \<le> 90" using byte_ranges by blast
    then have "\<not> (97 \<le> c + 13 \<and> c + 13 \<le> 109 \<or> 65 \<le> c + 13 \<and> c + 13 \<le> 77)" using upper_half by blast
    with low r show ?thesis unfolding rot13_byte_def by (simp only: if_True if_False) simp
  next
    case high
    then have "97 \<le> c - 13 \<and> c - 13 \<le> 109 \<or> 65 \<le> c - 13 \<and> c - 13 \<le> 77" using byte_ranges by blast
    with high show ?thesis unfolding rot13_byte_def by (simp only: if_True if_False) simp
  next
    case none
    then show ?thesis unfolding rot13_byte_def by (simp only: if_False)
  qed
qed

lemma rot13_byte_nonzero: "rot13_byte c = 0 \<longleftrightarrow> c = 0"
  using rot13_byte_involution [of c] by (auto simp: rot13_byte_def)


lemma rot13_str:
  "is_str m p xs \<Longrightarrow> rot13 m p = Some (\<lambda>x. if p \<le> x \<and> x < p + length xs then rot13_byte (m x) else m x)"
proof (induction xs arbitrary: m p)
  case Nil
  then show ?case by (subst rot13.simps) (auto simp: fun_eq_iff)
next
  case (Cons x xs)
  let ?m = "m(p := rot13_byte (m p))"
  have "is_str ?m (p + 1) xs" using Cons.prems by (auto simp: is_str_def)
  have "m p \<noteq> 0" using Cons.prems by simp
  then have "rot13 m p = rot13 ?m (p + 1)" by (rule trans [OF rot13.simps if_P])
  also from Cons.IH [OF \<open>is_str ?m (p + 1) xs\<close>] have "rot13 ?m (p + 1)
      = Some (\<lambda>x. if p + 1 \<le> x \<and> x < p + 1 + length xs then rot13_byte (?m x) else ?m x)" .
  also have "(\<lambda>x. if p + 1 \<le> x \<and> x < p + 1 + length xs then rot13_byte (?m x) else ?m x)
      = (\<lambda>y. if p \<le> y \<and> y < p + length (x # xs) then rot13_byte (m y) else m y)"
    by (rule ext) auto
  finally show ?case .
qed

lemma rot13_is_str:
  assumes "is_str m p xs"
  shows "is_str (\<lambda>x. if p \<le> x \<and> x < p + length xs then rot13_byte (m x) else m x) p (map rot13_byte xs)"
  using assms by (auto simp: is_str_def rot13_byte_nonzero)

lemma strlen_from_str: "is_str m p (xs @ ys) \<Longrightarrow> strlen_from m p (length xs) = Some (length xs + length ys)"
proof (induction ys arbitrary: xs)
  case Nil
  then show ?case by (subst strlen_from.simps) (simp add: is_str_def)
next
  case (Cons y ys)
  have "m (p + length xs) \<noteq> 0" using Cons.prems by (auto simp: is_str_def nth_append dest: spec [of _ "length xs"])
  then show ?case using Cons.IH [of "xs @ [y]"] Cons.prems by (subst strlen_from.simps) simp
qed

lemma crc32a_str: "is_str m p xs \<Longrightarrow> crc32a m p (length xs) = crc32 xs"
proof -
  assume "is_str m p xs"
  then have "map (\<lambda>i. m (p + i)) [0..<length xs] = xs" by (intro nth_equalityI) (simp_all add: is_str_def)
  then show ?thesis by (simp add: crc32a_list)
qed

lemma debug_main_str:
  assumes "is_str m fox xs"
  shows "debug_main m fox = Some (crc32 (map rot13_byte xs) XOR crc32 xs)"
proof -
  let ?m1 = "\<lambda>x. if fox \<le> x \<and> x < fox + length xs then rot13_byte (m x) else m x"
  have s1: "is_str ?m1 fox (map rot13_byte xs)" by (rule rot13_is_str [OF assms])
  let ?m2 = "\<lambda>x. if fox \<le> x \<and> x < fox + length (map rot13_byte xs) then rot13_byte (?m1 x) else ?m1 x"
  have "map rot13_byte (map rot13_byte xs) = xs" by (simp add: comp_def rot13_byte_involution)
  then have s2: "is_str ?m2 fox xs" using rot13_is_str [OF s1] by simp
  have "strlen_from ?m1 fox 0 = Some (length xs)" using strlen_from_str [of ?m1 fox "[]"] s1 by simp
  moreover have "strlen_from ?m2 fox 0 = Some (length xs)" using strlen_from_str [of ?m2 fox "[]"] s2 by simp
  moreover have "crc32a ?m1 fox (length xs) = crc32 (map rot13_byte xs)" using crc32a_str [OF s1] by simp
  moreover have "crc32a ?m2 fox (length xs) = crc32 xs" by (rule crc32a_str [OF s2])
  ultimately show ?thesis
    unfolding debug_main_def rot13_str [OF assms] by (simp only: bind.bind_lunit rot13_str [OF s1] Let_def xor.left_neutral)
qed

text \<open>The string of \<^verbatim>\<open>main\<close>.\<close>

definition fox_string :: "byte list" where
  "fox_string = map (\<lambda>c. word_of_nat (of_char c)) ''The quick brown fox jumps of the lazy dog.''"

text \<open>A memory that holds a list of bytes from an address on, and zeros elsewhere.\<close>

definition mem_of :: "nat \<Rightarrow> byte list \<Rightarrow> mem" where
  "mem_of p bs = (\<lambda>x. if p \<le> x \<and> x < p + length bs then bs ! (x - p) else 0)"


subsection \<open>The string of main\<close>

lemma fox_string_bytes: "fox_string =
   [84, 104, 101, 32, 113, 117, 105, 99, 107, 32, 98, 114, 111, 119, 110, 32, 102, 111, 120, 32, 106,
    117, 109, 112, 115, 32, 111, 102, 32, 116, 104, 101, 32, 108, 97, 122, 121, 32, 100, 111, 103,
    46]"
  by code_simp

lemma fox_string_rot13: "map rot13_byte fox_string =
   [71, 117, 114, 32, 100, 104, 118, 112, 120, 32, 111, 101, 98, 106, 97, 32, 115, 98, 107, 32, 119,
    104, 122, 99, 102, 32, 98, 115, 32, 103, 117, 114, 32, 121, 110, 109, 108, 32, 113, 98, 116, 46]"
  unfolding fox_string_bytes by (simp add: rot13_byte_def)

lemma crc_feed_8: "crc_feed r b = crc_step (crc_step (crc_step (crc_step (crc_step (crc_step (crc_step (crc_step
    (r XOR ucast b))))))))"
  by (simp add: crc_feed_def eval_nat_numeral)

lemma fox_crc: "foldl crc_feed 0xFFFFFFFF fox_string = 1834254192"
  unfolding fox_string_bytes by (simp add: crc_feed_8 crc_step_def)

lemma fox_rot13_crc: "foldl crc_feed 0xFFFFFFFF (map rot13_byte fox_string) = 2771397284"
  unfolding fox_string_rot13 by (simp add: crc_feed_8 crc_step_def)

lemma fox_is_str: "is_str (mem_of p fox_string) p fox_string"
proof -
  have "list_all (\<lambda>c. c \<noteq> 0) fox_string" unfolding fox_string_bytes by simp
  then show ?thesis by (simp add: is_str_def mem_of_def list_all_length)
qed

subsection \<open>Properties\<close>

text \<open>
  C23. The basic CRC loop computes the reflected CRC-32 of the message, whatever its length, and
  two messages that differ in exactly one byte have different checksums.
\<close>

theorem crc32a_is_crc32:
  "crc32a m p n = crc32 (map (\<lambda>i. m (p + i)) [0..<n])
   \<and> (k < n \<longrightarrow> crc32a (m(p + k := v)) p n = crc32a m p n \<longrightarrow> m (p + k) = v)"
proof -
  have "m (p + k) = v" if k: "k < n" and eq: "crc32a (m(p + k := v)) p n = crc32a m p n"
  proof -
    let ?xs = "map (\<lambda>i. m (p + i)) [0..<k]" and ?ys = "map (\<lambda>i. m (p + i)) [Suc k..<n]"
    have "[0..<n] = [0..<k] @ k # [Suc k..<n]" 
      using upt_add_eq_append [of 0 k "n - k"] k by (simp add: upt_conv_Cons)
    then have "map (\<lambda>i. m' (p + i)) [0..<n] = map (\<lambda>i. m' (p + i)) [0..<k] @ m' (p + k) # map (\<lambda>i. m' (p + i)) [Suc k..<n]" for m' :: mem
      by simp
    moreover have "map (\<lambda>i. (m(p + k := v)) (p + i)) [0..<k] = ?xs" "map (\<lambda>i. (m(p + k := v)) (p + i)) [Suc k..<n] = ?ys"
      by simp_all
    ultimately have "crc32 (?xs @ v # ?ys) = crc32 (?xs @ m (p + k) # ?ys)"
      using eq unfolding crc32a_list by (metis fun_upd_same)
    then show ?thesis by (simp add: crc32_one_byte)
  qed
  then show ?thesis using crc32a_list by blast
qed

theorem crc32a_is_crc32_witness:
  "crc32a (mem_of 0 [1, 2, 3]) 0 3 = crc32 (map (\<lambda>i. mem_of 0 [1, 2, 3] (0 + i)) [0..<3])
   \<and> crc32a ((mem_of 0 [1, 2, 3])(0 + 1 := 9)) 0 3 \<noteq> crc32a (mem_of 0 [1, 2, 3]) 0 3"
  using crc32a_is_crc32 [of "mem_of 0 [1, 2, 3]" 0 3 1 9] by (auto simp: mem_of_def)

text \<open>
  \<^verbatim>\<open>main\<close> of the checksum program returns and its value is the exit status that the test
  \<^verbatim>\<open>DebugTest\<close> of \<^verbatim>\<open>debug/gdbserver.py\<close> expects: the checksums of the string and of its
  rotation, combined; both rotations undo each other. \<^verbatim>\<open>fib\<close> is the Fibonacci function modulo
  \<open>2 ^ 32\<close>, in both programs, and the counting loop ends with ten.
\<close>

theorem debug_programs_results:
  "(is_str m fox fox_string \<longrightarrow> debug_main m fox = Some 0xc86455d4)
   \<and> (is_str m p xs \<longrightarrow> debug_main m p = Some (crc32 (map rot13_byte xs) XOR crc32 xs))
   \<and> fib n = word_of_nat (fibonacci (unat n)) \<and> fib_ebreak n = (fib n, unat n - 1) \<and> counting_main = 10"
proof -
  have "crc32 (map rot13_byte fox_string) XOR crc32 fox_string = 0xc86455d4"
    unfolding crc32_def fox_crc fox_rot13_crc by simp
  then have "is_str m fox fox_string \<longrightarrow> debug_main m fox = Some 0xc86455d4" using debug_main_str by fastforce
  moreover have "counting_main = 10" by (simp add: counting_main_def counting_loop.simps)
  ultimately show ?thesis using debug_main_str fib_eq fib_ebreak_eq by blast
qed

theorem debug_programs_results_witness: "debug_main (mem_of 4096 fox_string) 4096 = Some 0xc86455d4 \<and> fib 7 = 13"
proof -
  have "fibonacci 7 = 13" by (simp add: eval_nat_numeral)
  then show ?thesis
    using debug_programs_results [of "mem_of 4096 fox_string" 4096 4096 fox_string 7] fox_is_str [of 4096] by simp
qed

end
