(* ===== verification/Debug_Multicore.thy ===== *)
theory Debug_Multicore
  imports C_Memory
begin

text \<open>
  \<^verbatim>\<open>riscv-tests/debug/programs/multicore.c\<close>, in which harts take turns rewriting a buffer under a
  spin lock, with the trap dispatch of \<^verbatim>\<open>init.c\<close> it uses. A hart is a program counter with the
  local variables of \<^verbatim>\<open>main\<close>; its next memory access is a function of the shared state, and an
  execution is a list of events that interleaves the harts and their timer interrupts in any
  order. Characters are unsigned bytes, \<^verbatim>\<open>int\<close> and \<^verbatim>\<open>unsigned\<close> are 32-bit words.
\<close>

subsection \<open>init.c\<close>

definition enable_timer_interrupts :: "64 word \<times> 64 word \<Rightarrow> 64 word \<times> 64 word" where
  "enable_timer_interrupts csrs = (let (mie, mstatus) = csrs in (mie OR 0x80, mstatus OR 0x8))"

text \<open>Whether the hart takes a pending timer interrupt in machine mode.\<close>

definition timer_enabled :: "64 word \<times> 64 word \<Rightarrow> bool" where
  "timer_enabled csrs \<longleftrightarrow> bit (fst csrs) 7 \<and> bit (snd csrs) 3"

subsection \<open>State\<close>

datatype pc = Start | Get_Lock | Test_Init | Init nat | Read_First | Wait c_int c_int nat | Fill c_int c_int nat
  | Put_Lock | Count

datatype handler = Increment_Count

record multicore =
  buf_lock :: c_int
  buf :: "nat \<Rightarrow> byte"
  buf_initialized :: c_int
  hart_count :: "nat \<Rightarrow> 32 word"
  interrupt_count :: "nat \<Rightarrow> 32 word"
  mtimecmp :: "nat \<Rightarrow> 64 word"
  csrs :: "nat \<Rightarrow> 64 word \<times> 64 word"
  trap_handler :: "nat \<Rightarrow> handler option"
  pcs :: "nat \<Rightarrow> pc"

definition goto :: "nat \<Rightarrow> pc \<Rightarrow> multicore \<Rightarrow> multicore" where
  "goto h p s = s\<lparr>pcs := (pcs s)(h := p)\<rparr>"

text \<open>\<^verbatim>\<open>amoswap\<close> on the lock: the old value and the new state.\<close>

definition atomic_xchg :: "c_int \<Rightarrow> multicore \<Rightarrow> c_int \<times> multicore" where
  "atomic_xchg n s = (buf_lock s, s\<lparr>buf_lock := n\<rparr>)"

text \<open>One round of the loop of \<^verbatim>\<open>get_lock\<close>: whether it ends. The fences order the accesses as they are.\<close>

definition get_lock :: "multicore \<Rightarrow> bool \<times> multicore" where
  "get_lock s = (let (c, s) = atomic_xchg 1 s in (c \<noteq> 1, s))"

definition put_lock :: "multicore \<Rightarrow> multicore" where
  "put_lock s = snd (atomic_xchg 0 s)"

definition increment_count :: "nat \<Rightarrow> 64 word \<Rightarrow> multicore \<Rightarrow> multicore" where
  "increment_count h mtime s =
     s\<lparr>interrupt_count := (interrupt_count s)(h := interrupt_count s h + 1), mtimecmp := (mtimecmp s)(h := mtime + 0x100)\<rparr>"

definition set_trap_handler :: "nat \<Rightarrow> handler \<Rightarrow> multicore \<Rightarrow> multicore" where
  "set_trap_handler hartid handler s = s\<lparr>trap_handler := (trap_handler s)(hartid := Some handler)\<rparr>"

text \<open>\<open>None\<close> is the endless loop of a trap without a handler.\<close>

definition handle_trap :: "nat \<Rightarrow> 64 word \<Rightarrow> multicore \<Rightarrow> multicore option" where
  "handle_trap hartid mtime s =
     (case trap_handler s hartid of Some Increment_Count \<Rightarrow> Some (increment_count hartid mtime s) | None \<Rightarrow> None)"

subsection \<open>The characters of the buffer\<close>

definition init_char :: "nat \<Rightarrow> byte" where
  "init_char i = ucast (65 + (word_of_nat i mod 26 :: c_int))"

definition expected_char :: "c_int \<Rightarrow> c_int \<Rightarrow> nat \<Rightarrow> c_int" where
  "expected_char first offset i = first - offset + ((offset + word_of_nat i) mod 26)"

definition new_char :: "nat \<Rightarrow> 32 word \<Rightarrow> nat \<Rightarrow> byte" where
  "new_char h count i =
     (if (word_of_nat h :: c_int) AND 1 \<noteq> 0 then ucast (65 + ((word_of_nat i + word_of_nat h + count) mod 26))
      else ucast (97 + ((word_of_nat i + word_of_nat h + count) mod 26)))"

subsection \<open>Steps\<close>

definition hart_step :: "nat \<Rightarrow> 64 word \<Rightarrow> multicore \<Rightarrow> multicore" where
  "hart_step h mtime s = (case pcs s h of
     Start \<Rightarrow>
       (let s = s\<lparr>hart_count := (hart_count s)(h := 0), interrupt_count := (interrupt_count s)(h := 0)\<rparr>;
            s = set_trap_handler h Increment_Count s;
            s = s\<lparr>mtimecmp := (mtimecmp s)(h := mtime + 0x100), csrs := (csrs s)(h := enable_timer_interrupts (csrs s h))\<rparr>
        in goto h Get_Lock s)
   | Get_Lock \<Rightarrow> (let (got, s) = get_lock s in if got then goto h Test_Init s else s)
   | Test_Init \<Rightarrow> goto h (if buf_initialized s = 0 then Init 0 else Read_First) s
   | Init i \<Rightarrow> if i < 32 then goto h (Init (i + 1)) (s\<lparr>buf := (buf s)(i := init_char i)\<rparr>)
       else goto h Read_First (s\<lparr>buf_initialized := 1\<rparr>)
   | Read_First \<Rightarrow> (let first = ucast (buf s 0); offset = (first AND NOT 0x20) - 65 in goto h (Wait first offset 0) s)
   | Wait first offset i \<Rightarrow>
       if i < 32 then if ucast (buf s i) \<noteq> expected_char first offset i then s else goto h (Fill first offset i) s
       else goto h Put_Lock s
   | Fill first offset i \<Rightarrow> goto h (Wait first offset (i + 1)) (s\<lparr>buf := (buf s)(i := new_char h (hart_count s h) i)\<rparr>)
   | Put_Lock \<Rightarrow> goto h Count (put_lock s)
   | Count \<Rightarrow> goto h Get_Lock (s\<lparr>hart_count := (hart_count s)(h := hart_count s h + 1)\<rparr>))"

text \<open>
  An event: a hart makes a step, or a timer interrupt arrives, which the hart takes if it has
  enabled it. \<open>mtime\<close> is the value the step reads from the timer. The set-up in \<^verbatim>\<open>main\<close> is one
  step, as the hart touches no shared variable in it and interrupts are enabled last.
\<close>

datatype event = Step nat "64 word" | Timer nat "64 word"

fun event_step :: "event \<Rightarrow> multicore \<Rightarrow> multicore option" where
  "event_step (Step h mtime) s = Some (hart_step h mtime s)"
| "event_step (Timer h mtime) s = (if timer_enabled (csrs s h) then handle_trap h mtime s else Some s)"

fun run :: "event list \<Rightarrow> multicore \<Rightarrow> multicore option" where
  "run [] s = Some s"
| "run (e # es) s = Option.bind (event_step e s) (run es)"

definition power_on :: "(nat \<Rightarrow> byte) \<Rightarrow> multicore" where
  "power_on b = \<lparr>buf_lock = 0, buf = b, buf_initialized = 0, hart_count = (\<lambda>_. 0), interrupt_count = (\<lambda>_. 0),
     mtimecmp = (\<lambda>_. 0), csrs = (\<lambda>_. (0, 0)), trap_handler = (\<lambda>_. None), pcs = (\<lambda>_. Start)\<rparr>"

subsection \<open>Patterns\<close>

text \<open>The buffer holds the alphabet from one letter on, upper or lower case.\<close>

definition alphabet :: "nat \<Rightarrow> nat \<Rightarrow> nat \<Rightarrow> byte" where
  "alphabet base off i = word_of_nat (base + (off + i) mod 26)"

definition is_base :: "nat \<Rightarrow> bool" where
  "is_base base \<longleftrightarrow> base = 65 \<or> base = 97"

lemma word_mod_26: "word_of_nat n mod 26 = (word_of_nat (n mod 2 ^ 32 mod 26) :: c_int)"
proof -
  have "unat (word_of_nat n mod 26 :: c_int) = unat (word_of_nat (n mod 2 ^ 32 mod 26) :: c_int)"
    by (simp add: unat_mod unsigned_of_nat take_bit_eq_mod)
  then show ?thesis by (simp only: word_unat_eq_iff)
qed

lemma ucast_small: "n < 256 \<Longrightarrow> ucast (word_of_nat n :: byte) = (word_of_nat n :: c_int)"
  by (simp add: word_unat_eq_iff unsigned_ucast_eq unsigned_of_nat take_bit_eq_mod)

lemma alphabet_char: "base \<le> 97 \<Longrightarrow> ucast (alphabet base off i) = (word_of_nat (base + (off + i) mod 26) :: c_int)"
proof -
  assume b: "base \<le> 97"
  have "(off + i) mod 26 < 26" by simp
  with b have "base + (off + i) mod 26 < 256" by linarith
  then show ?thesis unfolding alphabet_def by (rule ucast_small)
qed

lemma expected_alphabet:
  assumes "is_base base" "off < 26" "i < 32"
  shows "expected_char (word_of_nat (base + off)) (word_of_nat off) i = ucast (alphabet base off i)"
proof -
  have "word_of_nat off + word_of_nat i = (word_of_nat (off + i) :: c_int)" by simp
  moreover have "word_of_nat (off + i) mod 26 = (word_of_nat ((off + i) mod 26) :: c_int)"
    using assms word_mod_26 [of "off + i"] by simp
  moreover have "base \<le> 97" using assms(1) by (auto simp: is_base_def)
  ultimately show ?thesis by (simp add: expected_char_def alphabet_char)
qed

lemma init_alphabet: "i < 32 \<Longrightarrow> init_char i = alphabet 65 0 i"
  using word_mod_26 [of i]
  by (simp add: init_char_def alphabet_def word_unat_eq_iff unsigned_ucast_eq unsigned_of_nat take_bit_eq_mod unat_word_ariths)

lemma trunc_of_nat: "ucast (word_of_nat n :: c_int) = (word_of_nat n :: byte)"
proof -
  have "(256 :: nat) dvd 4294967296" by simp
  then show ?thesis
    by (simp add: word_unat_eq_iff unsigned_ucast_eq unsigned_of_nat take_bit_eq_mod mod_mod_cancel)
qed

lemma new_alphabet:
  assumes "h + unat count + 32 \<le> 2 ^ 32" "i < 32"
  shows "new_char h count i = alphabet (if odd h then 65 else 97) ((h + unat count) mod 26) i"
proof -
  have "word_of_nat i + word_of_nat h + count = (word_of_nat (i + h + unat count) :: c_int)" by simp
  moreover have "word_of_nat (i + h + unat count) mod 26 = (word_of_nat ((i + h + unat count) mod 26) :: c_int)"
    using assms word_mod_26 [of "i + h + unat count"] by simp
  moreover have "(i + h + unat count) mod 26 = ((h + unat count) mod 26 + i) mod 26"
    unfolding mod_add_left_eq by (simp only: ac_simps)
  moreover have "(word_of_nat h :: c_int) AND 1 \<noteq> 0 \<longleftrightarrow> odd h"
    by (simp add: and_one_eq mod_2_eq_odd)
  moreover have "ucast (word_of_nat a + word_of_nat k :: c_int) = (word_of_nat (a + k) :: byte)" for a k
    using trunc_of_nat [of "a + k"] by simp
  from this [of 65] this [of 97] have "ucast (65 + word_of_nat k :: c_int) = (word_of_nat (65 + k) :: byte)"
    "ucast (97 + word_of_nat k :: c_int) = (word_of_nat (97 + k) :: byte)" for k by simp_all
  ultimately show ?thesis by (simp only: new_char_def alphabet_def if_True if_False not_not split: if_split) simp
qed

text \<open>Reading the first character gives back the pattern.\<close>

lemma first_offset:
  assumes "is_base base" "off < 26"
  shows "((word_of_nat (base + off) :: c_int) AND NOT 0x20) - 65 = word_of_nat off"
proof -
  have "off \<in> {0, 1, 2, 3, 4, 5, 6, 7, 8, 9, 10, 11, 12, 13, 14, 15, 16, 17, 18, 19, 20, 21, 22, 23, 24, 25}"
    unfolding insert_iff empty_iff using assms(2) by presburger
  moreover have "base = 65 \<or> base = 97" using assms(1) by (simp add: is_base_def)
  ultimately show ?thesis by (elim insertE disjE) simp_all
qed

subsection \<open>The invariant\<close>

definition pattern :: "(nat \<Rightarrow> byte) \<Rightarrow> bool" where
  "pattern b \<longleftrightarrow> (\<exists>base off. is_base base \<and> off < 26 \<and> (\<forall>i < 32. b i = alphabet base off i))"

fun critical :: "pc \<Rightarrow> bool" where
  "critical Start = False"
| "critical Get_Lock = False"
| "critical Count = False"
| "critical _ = True"

text \<open>What a hart inside the critical section relies on; outside it relies on nothing.\<close>

definition half_done :: "(nat \<Rightarrow> byte) \<Rightarrow> nat \<Rightarrow> 32 word \<Rightarrow> c_int \<Rightarrow> c_int \<Rightarrow> nat \<Rightarrow> bool" where
  "half_done b h count first offset i \<longleftrightarrow> i \<le> 32 \<and> (\<forall>j < i. b j = new_char h count j)
     \<and> (\<exists>base off. is_base base \<and> off < 26 \<and> first = word_of_nat (base + off) \<and> offset = word_of_nat off
          \<and> (\<forall>j. i \<le> j \<and> j < 32 \<longrightarrow> b j = alphabet base off j))"

fun phase_ok :: "(nat \<Rightarrow> byte) \<Rightarrow> c_int \<Rightarrow> nat \<Rightarrow> 32 word \<Rightarrow> pc \<Rightarrow> bool" where
  "phase_ok b ini h count Test_Init = (ini = 0 \<or> pattern b)"
| "phase_ok b ini h count (Init i) = (i \<le> 32 \<and> (\<forall>j < i. b j = alphabet 65 0 j))"
| "phase_ok b ini h count Read_First = pattern b"
| "phase_ok b ini h count (Wait first offset i) = half_done b h count first offset i"
| "phase_ok b ini h count (Fill first offset i) = (i < 32 \<and> half_done b h count first offset i)"
| "phase_ok b ini h count Put_Lock = pattern b"
| "phase_ok b ini h count _ = True"

definition inv :: "nat \<Rightarrow> multicore \<Rightarrow> bool" where
  "inv n s \<longleftrightarrow> (\<forall>h. unat (hart_count s h) \<le> n)
     \<and> (\<forall>h h'. critical (pcs s h) \<longrightarrow> critical (pcs s h') \<longrightarrow> h = h')
     \<and> buf_lock s = (if \<exists>h. critical (pcs s h) then 1 else 0)
     \<and> (\<forall>h. phase_ok (buf s) (buf_initialized s) h (hart_count s h) (pcs s h))
     \<and> ((\<forall>h. \<not> critical (pcs s h)) \<longrightarrow> buf_initialized s = 0 \<or> pattern (buf s))
     \<and> (\<forall>h. timer_enabled (csrs s h) \<longrightarrow> trap_handler s h \<noteq> None)"

lemma phase_outside: "\<not> critical p \<Longrightarrow> phase_ok b ini h count p"
  by (cases p) simp_all

text \<open>A step that stays inside the critical section, and one that stays outside.\<close>

lemma inv_inside:
  assumes I: "inv n s" and h: "critical (pcs s h)" "critical p"
    and ok: "phase_ok (buf s') (buf_initialized s') h (hart_count s h) p"
    and s': "buf_lock s' = buf_lock s" "hart_count s' = hart_count s" "csrs s' = csrs s" "trap_handler s' = trap_handler s"
      "pcs s' = pcs s"
  shows "inv (Suc n) (goto h p s')"
proof -
  have out: "\<not> critical (pcs s h')" if "h' \<noteq> h" for h' using I h(1) that unfolding inv_def by blast
  have "phase_ok (buf s') (buf_initialized s') h' (hart_count s h') (((pcs s)(h := p)) h')" for h'
    using ok out phase_outside by (cases "h' = h") simp_all
  moreover have "critical (((pcs s)(h := p)) h') \<longleftrightarrow> h' = h" for h' using out h(2) by (cases "h' = h") simp_all
  moreover have "buf_lock s = 1" using I h(1) unfolding inv_def by auto
  ultimately show ?thesis using I by (auto simp: inv_def goto_def s' intro: le_SucI)
qed

lemma inv_outside:
  assumes I: "inv n s" and h: "\<not> critical (pcs s h)" "\<not> critical p"
    and s': "buf_lock s' = buf_lock s" "buf s' = buf s" "buf_initialized s' = buf_initialized s" "pcs s' = pcs s"
      "\<And>h'. h' \<noteq> h \<Longrightarrow> hart_count s' h' = hart_count s h'" "unat (hart_count s' h) \<le> Suc n"
      "\<And>h'. timer_enabled (csrs s' h') \<Longrightarrow> trap_handler s' h' \<noteq> None"
  shows "inv (Suc n) (goto h p s')"
proof -
  have same: "critical (((pcs s)(h := p)) h') \<longleftrightarrow> critical (pcs s h')" for h' using h by (cases "h' = h") simp_all
  have "phase_ok (buf s) (buf_initialized s) h' (hart_count s' h') (((pcs s)(h := p)) h')" for h'
    using I phase_outside [OF h(2)] s'(5) unfolding inv_def by (cases "h' = h") simp_all
  moreover have "unat (hart_count s' h') \<le> Suc n" for h'
    using I s'(5,6) unfolding inv_def by (cases "h' = h") (simp_all add: le_SucI)
  ultimately show ?thesis using I by (simp add: inv_def goto_def s' same del: fun_upd_apply)
qed


lemma half_done_start:
  assumes "pattern b"
  shows "half_done b h count (ucast (b 0)) ((ucast (b 0) AND NOT 0x20) - 65) 0"
proof -
  from assms obtain base off where p: "is_base base" "off < 26" "\<forall>i < 32. b i = alphabet base off i"
    unfolding pattern_def by blast
  have "base \<le> 97" using p(1) by (auto simp: is_base_def)
  then have "ucast (b 0) = (word_of_nat (base + off) :: c_int)"
    using alphabet_char [of base off 0] p(2,3) by simp
  moreover from first_offset [OF p(1,2)] have "((word_of_nat (base + off) :: c_int) AND NOT 0x20) - 65 = word_of_nat off" .
  ultimately have "first = word_of_nat (base + off) \<and> offset = word_of_nat off"
    if "first = (ucast (b 0) :: c_int)" "offset = ((ucast (b 0) :: c_int) AND NOT 0x20) - 65" for first offset
    using that by (simp only:)
  then show ?thesis unfolding half_done_def using p by blast
qed

lemma half_done_expected:
  assumes "half_done b h count first offset i" "i < 32"
  shows "ucast (b i) = expected_char first offset i"
proof -
  from assms obtain base off where p: "is_base base" "off < 26" "first = word_of_nat (base + off)" "offset = word_of_nat off"
    "b i = alphabet base off i" unfolding half_done_def by blast
  show ?thesis unfolding p(3,4,5) by (rule expected_alphabet [OF p(1,2) assms(2), symmetric])
qed

lemma half_done_next:
  assumes "half_done b h count first offset i" "i < 32"
  shows "half_done (b(i := new_char h count i)) h count first offset (i + 1)"
proof -
  from assms obtain base off where p: "is_base base" "off < 26" "first = word_of_nat (base + off)" "offset = word_of_nat off"
    "\<forall>j. i \<le> j \<and> j < 32 \<longrightarrow> b j = alphabet base off j" unfolding half_done_def by blast
  moreover have "\<forall>j < i + 1. (b(i := new_char h count i)) j = new_char h count j"
    using assms unfolding half_done_def by (simp add: less_Suc_eq)
  moreover have "\<forall>j. i + 1 \<le> j \<and> j < 32 \<longrightarrow> (b(i := new_char h count i)) j = alphabet base off j" using p(5) by simp
  moreover have "i + 1 \<le> 32" using assms(2) by simp
  ultimately show ?thesis unfolding half_done_def by blast
qed

lemma half_done_end:
  assumes "half_done b h count first offset i" "\<not> i < 32" "h + unat count + 32 \<le> 2 ^ 32"
  shows "pattern b"
proof -
  have "b j = alphabet (if odd h then 65 else 97) ((h + unat count) mod 26) j" if "j < 32" for j
    using assms(1,2) that new_alphabet [OF assms(3) that] unfolding half_done_def by auto
  moreover have "(h + unat count) mod 26 < 26" by simp
  moreover have "is_base (if odd h then 65 else 97)" by (simp add: is_base_def)
  ultimately show ?thesis unfolding pattern_def by blast
qed

lemma init_done: "\<forall>j < 32. b j = alphabet 65 0 j \<Longrightarrow> pattern b"
  unfolding pattern_def is_base_def by (intro exI [of _ 65] exI [of _ 0]) simp

lemma inv_hart_step:
  assumes I: "inv n s" and small: "h + n + 32 \<le> 2 ^ 32"
  shows "inv (Suc n) (hart_step h mtime s)"
proof -
  have count: "h + unat (hart_count s h) + 32 \<le> 2 ^ 32" using I small unfolding inv_def by (meson add_le_mono le_trans order_refl add_le_mono1 add_le_cancel_left)
  have ph: "phase_ok (buf s) (buf_initialized s) h (hart_count s h) (pcs s h)" using I by (simp add: inv_def)
  have suc: "inv (Suc n) s" using I by (auto simp: inv_def intro: le_SucI)
  have hd: "timer_enabled (csrs s h') \<Longrightarrow> trap_handler s h' \<noteq> None" for h' using I by (simp add: inv_def)
  show ?thesis
  proof (cases "pcs s h")
    case Start
    let ?s = "set_trap_handler h Increment_Count
      (s\<lparr>hart_count := (hart_count s)(h := 0), interrupt_count := (interrupt_count s)(h := 0)\<rparr>)"
    have "inv (Suc n) (goto h Get_Lock (?s\<lparr>mtimecmp := (mtimecmp s)(h := mtime + 0x100),
        csrs := (csrs s)(h := enable_timer_interrupts (csrs s h))\<rparr>))"
      by (rule inv_outside [OF I]) (use Start hd in \<open>auto simp: set_trap_handler_def split: if_splits\<close>)
    then show ?thesis using Start by (simp add: hart_step_def set_trap_handler_def Let_def)
  next
    case Get_Lock
    show ?thesis
    proof (cases "buf_lock s = 1")
      case True
      then have "hart_step h mtime s = s" using Get_Lock by (simp add: hart_step_def get_lock_def put_lock_def atomic_xchg_def)
      then show ?thesis using suc by simp
    next
      case False
      then have none: "\<not> critical (pcs s h')" for h' using I unfolding inv_def by (metis (full_types))
      then have idle: "buf_initialized s = 0 \<or> pattern (buf s)" using I by (simp add: inv_def)
      have step: "hart_step h mtime s = goto h Test_Init (s\<lparr>buf_lock := 1\<rparr>)"
        using False Get_Lock by (simp add: hart_step_def get_lock_def put_lock_def atomic_xchg_def)
      have crit: "critical (((pcs s)(h := Test_Init)) h') \<longleftrightarrow> h' = h" for h' using none by (cases "h' = h") simp_all
      have "phase_ok (buf s) (buf_initialized s) h' (hart_count s h') (((pcs s)(h := Test_Init)) h')" for h'
        using idle phase_outside none by (cases "h' = h") simp_all
      moreover have "unat (hart_count s h') \<le> Suc n" for h' using I by (simp add: inv_def le_SucI)
      ultimately show ?thesis unfolding step using hd crit by (simp add: inv_def goto_def del: fun_upd_apply)
    qed
  next
    case Test_Init
    let ?p = "if buf_initialized s = 0 then Init 0 else Read_First"
    have "inv (Suc n) (goto h ?p s)"
      by (rule inv_inside [OF I]) (use Test_Init ph in auto)
    then show ?thesis using Test_Init by (simp add: hart_step_def)
  next
    case (Init i)
    show ?thesis
    proof (cases "i < 32")
      case True
      have "inv (Suc n) (goto h (Init (i + 1)) (s\<lparr>buf := (buf s)(i := init_char i)\<rparr>))"
        by (rule inv_inside [OF I]) (use Init ph True init_alphabet in \<open>auto simp: less_Suc_eq\<close>)
      then show ?thesis using Init True by (simp add: hart_step_def)
    next
      case False
      have "pattern (buf s)" using Init ph False by (intro init_done) simp
      then have "inv (Suc n) (goto h Read_First (s\<lparr>buf_initialized := 1\<rparr>))"
        by (intro inv_inside [OF I]) (use Init in simp_all)
      then show ?thesis using Init False by (simp add: hart_step_def)
    qed
  next
    case Read_First
    let ?first = "ucast (buf s 0) :: c_int"
    have "inv (Suc n) (goto h (Wait ?first ((?first AND NOT 0x20) - 65) 0) s)"
      by (rule inv_inside [OF I]) (use Read_First ph half_done_start in simp_all)
    then show ?thesis using Read_First by (simp add: hart_step_def Let_def)
  next
    case (Wait first offset i)
    show ?thesis
    proof (cases "i < 32")
      case True
      have "ucast (buf s i) = expected_char first offset i"
        using half_done_expected [OF _ True] Wait ph by simp
      moreover have "inv (Suc n) (goto h (Fill first offset i) s)"
        by (rule inv_inside [OF I]) (use Wait ph True in simp_all)
      ultimately show ?thesis using Wait True by (simp add: hart_step_def)
    next
      case False
      have "pattern (buf s)" using half_done_end [OF _ False count] Wait ph by simp
      then have "inv (Suc n) (goto h Put_Lock s)" by (intro inv_inside [OF I]) (use Wait in simp_all)
      then show ?thesis using Wait False by (simp add: hart_step_def)
    qed
  next
    case (Fill first offset i)
    have "inv (Suc n) (goto h (Wait first offset (i + 1)) (s\<lparr>buf := (buf s)(i := new_char h (hart_count s h) i)\<rparr>))"
      by (rule inv_inside [OF I]) (use Fill ph half_done_next in simp_all)
    then show ?thesis using Fill by (simp add: hart_step_def)
  next
    case Put_Lock
    have step: "hart_step h mtime s = goto h Count (s\<lparr>buf_lock := 0\<rparr>)"
      using Put_Lock by (simp add: hart_step_def get_lock_def put_lock_def atomic_xchg_def)
    have none: "\<not> critical (((pcs s)(h := Count)) h')" for h'
      using I Put_Lock unfolding inv_def by (metis critical.simps(3,9) fun_upd_apply)
    have "phase_ok (buf s) (buf_initialized s) h' (hart_count s h') (((pcs s)(h := Count)) h')" for h'
      using phase_outside [OF none] by simp
    moreover have "unat (hart_count s h') \<le> Suc n" for h' using I by (simp add: inv_def le_SucI)
    moreover have "pattern (buf s)" using Put_Lock ph by simp
    ultimately show ?thesis unfolding step using hd none by (simp add: inv_def goto_def del: fun_upd_apply)
  next
    case Count
    have "unat (hart_count s h + 1) \<le> Suc (unat (hart_count s h))"
      by (simp add: unat_word_ariths le_trans [OF mod_less_eq_dividend])
    then have "unat (hart_count s h + 1) \<le> Suc n" using I unfolding inv_def by (meson Suc_le_mono le_trans)
    then have "inv (Suc n) (goto h Get_Lock (s\<lparr>hart_count := (hart_count s)(h := hart_count s h + 1)\<rparr>))"
      by (intro inv_outside [OF I]) (use Count hd in simp_all)
    then show ?thesis using Count by (simp add: hart_step_def)
  qed
qed


fun event_hart :: "event \<Rightarrow> nat" where
  "event_hart (Step h mtime) = h"
| "event_hart (Timer h mtime) = h"

lemma inv_event:
  assumes I: "inv n s" and small: "event_hart e + n + 32 \<le> 2 ^ 32"
  shows "\<exists>s'. event_step e s = Some s' \<and> inv (Suc n) s'"
proof (cases e)
  case (Step h mtime)
  then show ?thesis using inv_hart_step [OF I, of h] small by simp
next
  case (Timer h mtime)
  have suc: "inv (Suc n) s" using I by (auto simp: inv_def intro: le_SucI)
  then have "inv (Suc n) (increment_count h mtime s)" by (simp add: inv_def increment_count_def)
  moreover have "trap_handler s h = Some Increment_Count" if "timer_enabled (csrs s h)"
    using I that handler.exhaust unfolding inv_def by (metis not_None_eq)
  ultimately show ?thesis using suc Timer by (simp add: handle_trap_def)
qed

lemma inv_run:
  "inv n s \<Longrightarrow> \<forall>e \<in> set es. event_hart e < N \<Longrightarrow> N + n + length es + 32 \<le> 2 ^ 32 \<Longrightarrow>
     \<exists>s'. run es s = Some s' \<and> inv (n + length es) s'"
proof (induction es arbitrary: n s)
  case (Cons e es)
  have "event_hart e + n + 32 \<le> 2 ^ 32" using Cons.prems(2,3) by auto
  from inv_event [OF Cons.prems(1) this] obtain s1 where s1: "event_step e s = Some s1" "inv (Suc n) s1" by blast
  have "\<forall>e \<in> set es. event_hart e < N" "N + Suc n + length es + 32 \<le> 2 ^ 32" using Cons.prems(2,3) by simp_all
  from Cons.IH [OF s1(2) this] s1(1) show ?case by simp
qed simp

lemma power_on_inv: "inv 0 (power_on b)"
  by (simp add: inv_def power_on_def timer_enabled_def)

text \<open>When the count wraps in the middle of the buffer, the letters are no longer consecutive.\<close>

lemma count_wrap_breaks_pattern:
  "new_char 0 (2 ^ 32 - 1) 0 = 118" "new_char 0 (2 ^ 32 - 1) 1 = 97"
  "ucast (new_char 0 (2 ^ 32 - 1) 1) \<noteq> expected_char (ucast (new_char 0 (2 ^ 32 - 1) 0)) 21 1"
  by (simp_all add: new_char_def expected_char_def)

text \<open>
  C9. The harts of the multi-core program take turns. For every interleaving of fewer than
  \<open>2 ^ 32\<close> events (less the number of harts and the buffer size, so that no pass counter wraps)
  no trap finds the dispatch table empty, at most one hart is between taking and releasing the
  lock, the lock is taken exactly then, and the buffer is a run of the alphabet whenever it is
  free and initialised. A hart that owns the buffer never waits: the character it looks for is
  always there.
\<close>

theorem harts_take_turns:
  assumes "\<forall>e \<in> set es. event_hart e < N" "N + length es + 32 \<le> 2 ^ 32"
  shows "\<exists>s. run es (power_on b) = Some s
    \<and> (\<forall>h h'. critical (pcs s h) \<and> critical (pcs s h') \<longrightarrow> h = h')
    \<and> (buf_lock s \<noteq> 0 \<longleftrightarrow> (\<exists>h. critical (pcs s h)))
    \<and> (buf_lock s = 0 \<longrightarrow> buf_initialized s \<noteq> 0 \<longrightarrow> pattern (buf s))
    \<and> (\<forall>h first offset i. pcs s h = Wait first offset i \<longrightarrow> i < 32 \<longrightarrow> ucast (buf s i) = expected_char first offset i)"
proof -
  have "N + 0 + length es + 32 \<le> 2 ^ 32" using assms(2) by simp
  from inv_run [OF power_on_inv assms(1) this] obtain s where s: "run es (power_on b) = Some s" "inv (0 + length es) s" by blast
  have "ucast (buf s i) = expected_char first offset i" if w: "pcs s h = Wait first offset i" "i < 32" for h first offset i
  proof (rule half_done_expected [OF _ w(2)])
    have "phase_ok (buf s) (buf_initialized s) h (hart_count s h) (pcs s h)" using s(2) by (simp add: inv_def)
    then show "half_done (buf s) h (hart_count s h) first offset i" using w by simp
  qed
  then show ?thesis using s by (auto simp: inv_def)
qed

theorem harts_take_turns_witness:
  "\<exists>s. run [Step 0 0, Step 1 0, Step 0 0, Step 1 0, Timer 1 5] (power_on (\<lambda>_. 0)) = Some s
    \<and> (\<forall>h h'. critical (pcs s h) \<and> critical (pcs s h') \<longrightarrow> h = h')
    \<and> (buf_lock s \<noteq> 0 \<longleftrightarrow> (\<exists>h. critical (pcs s h)))
    \<and> (buf_lock s = 0 \<longrightarrow> buf_initialized s \<noteq> 0 \<longrightarrow> pattern (buf s))
    \<and> (\<forall>h first offset i. pcs s h = Wait first offset i \<longrightarrow> i < 32 \<longrightarrow> ucast (buf s i) = expected_char first offset i)"
  by (rule harts_take_turns [where N = 2]) simp_all

end
