(* ===== verification/Debug_Translate.thy ===== *)
theory Debug_Translate
  imports Vm_Boot "HOL-Library.Monad_Syntax"
begin

text \<open>
  \<^verbatim>\<open>riscv-tests/debug/programs/translate.c\<close> on a 64-bit machine: page tables built in a static buffer,
  one page mapped, and four accesses with translation switched on. An address is a natural
  number. Page-table memory is a map from the addresses of its entries to their values, and the
  data page a map from the addresses of its words, as the program uses no other width on either.
  \<open>None\<close> is a loop that never ends: no page is left, or \<^verbatim>\<open>error\<close>.
\<close>

record virtual_memory_system_t =
  mode :: nat
  levels :: nat
  ppn_width_bits :: "nat list"
  ppn_offset_bits :: "nat list"
  entry_width_bytes :: nat
  vpn_width_bits :: nat
  vaddr_bits :: nat

definition sv32 :: virtual_memory_system_t where
  "sv32 = \<lparr> mode = 1, levels = 2, ppn_width_bits = [12, 10, 10], ppn_offset_bits = [0, 12, 22],
     entry_width_bytes = 4, vpn_width_bits = 10, vaddr_bits = 32 \<rparr>"

definition sv39 :: virtual_memory_system_t where
  "sv39 = \<lparr> mode = 8, levels = 3, ppn_width_bits = [12, 9, 9, 26], ppn_offset_bits = [0, 12, 21, 30],
     entry_width_bytes = 8, vpn_width_bits = 9, vaddr_bits = 39 \<rparr>"

definition sv48 :: virtual_memory_system_t where
  "sv48 = \<lparr> mode = 9, levels = 4, ppn_width_bits = [12, 9, 9, 9, 26], ppn_offset_bits = [0, 12, 21, 30, 39],
     entry_width_bytes = 8, vpn_width_bits = 9, vaddr_bits = 48 \<rparr>"

record memory =
  cells :: "nat \<Rightarrow> 64 word"
  data :: "nat \<Rightarrow> 32 word"
  page_buffer_next :: nat

text \<open>\<open>buf\<close> is the address of \<^verbatim>\<open>page_buffer\<close>.\<close>

definition page_buffer_size :: nat where "page_buffer_size = 4096 * 6"

definition get_page :: "nat \<Rightarrow> memory \<Rightarrow> (nat \<times> memory) option" where
  "get_page buf s =
     (let p = (page_buffer_next s + 4095) div 4096 * 4096
      in if p + 4096 \<ge> buf + page_buffer_size then None
         else Some (p, s\<lparr> page_buffer_next := p + 4096 \<rparr>))"

definition entry :: "virtual_memory_system_t \<Rightarrow> nat \<Rightarrow> nat \<Rightarrow> memory \<Rightarrow> 64 word option" where
  "entry vms table index s =
     (if entry_width_bytes vms = 4 then Some (take_bit 32 (cells s (table + 4 * index)))
      else if entry_width_bytes vms = 8 then Some (cells s (table + 8 * index))
      else None)"

definition entry_set :: "virtual_memory_system_t \<Rightarrow> nat \<Rightarrow> nat \<Rightarrow> 64 word \<Rightarrow> memory \<Rightarrow> memory option" where
  "entry_set vms table index v s =
     (if entry_width_bytes vms = 4 then Some (s\<lparr> cells := (cells s)(table + 4 * index := take_bit 32 v) \<rparr>)
      else if entry_width_bytes vms = 8 then Some (s\<lparr> cells := (cells s)(table + 8 * index := v) \<rparr>)
      else None)"

definition leaf_flags :: "64 word" where
  "leaf_flags = PTE_V OR PTE_R OR PTE_W OR PTE_X OR PTE_U OR PTE_A OR PTE_D"

definition setup_page_table :: "virtual_memory_system_t \<Rightarrow> nat \<Rightarrow> nat \<Rightarrow> 64 word \<Rightarrow> memory \<Rightarrow> memory option" where
  "setup_page_table vms table level physical s =
     c_for 0 (2 ^ vpn_width_bits vms) 1 (\<lambda>i r. do {
       s \<leftarrow> r;
       let pte = leaf_flags;
       let pte = pte OR (physical AND push_bit (PTE_PPN_SHIFT + (level + 1) * vpn_width_bits vms) (mask (vpn_width_bits vms)));
       let pte = pte OR push_bit (PTE_PPN_SHIFT + level * vpn_width_bits vms) (word_of_nat i);
       entry_set vms table i pte s }) (Some s)"

definition vpn_field :: "virtual_memory_system_t \<Rightarrow> 64 word \<Rightarrow> nat \<Rightarrow> nat" where
  "vpn_field vms virtual level =
     (let virtual = drop_bit (12 + vpn_width_bits vms * level) virtual
      in unat (virtual AND mask (vpn_width_bits vms)))"

fun add_entry_from :: "virtual_memory_system_t \<Rightarrow> nat \<Rightarrow> nat \<Rightarrow> 64 word \<Rightarrow> 64 word \<Rightarrow> nat \<Rightarrow> nat \<Rightarrow> memory \<Rightarrow> memory option" where
  "add_entry_from vms buf level virtual physical current_level table s =
     (let index = vpn_field vms virtual current_level
      in if current_level \<le> level
         then entry_set vms table index (leaf_flags OR
           (drop_bit 2 physical AND NOT (mask (PTE_PPN_SHIFT + current_level * vpn_width_bits vms)))) s
         else do {
           pte \<leftarrow> entry vms table index s;
           if pte AND PTE_V = 0 \<or> pte AND PTE_R \<noteq> 0 \<and> pte AND PTE_W \<noteq> 0
           then do {
             (new_page, s) \<leftarrow> get_page buf s;
             s \<leftarrow> setup_page_table vms new_page (current_level - 1) virtual s;
             s \<leftarrow> entry_set vms table index (PTE_V OR (drop_bit 2 (word_of_nat new_page) AND NOT (mask 10))) s;
             add_entry_from vms buf level virtual physical (current_level - 1) new_page s
           }
           else add_entry_from vms buf level virtual physical (current_level - 1) (unat (pte AND NOT 0xfff)) s
         })"

declare add_entry_from.simps [simp del]

definition add_entry :: "virtual_memory_system_t \<Rightarrow> nat \<Rightarrow> nat \<Rightarrow> nat \<Rightarrow> 64 word \<Rightarrow> 64 word \<Rightarrow> memory \<Rightarrow> memory option" where
  "add_entry vms buf table level virtual physical = add_entry_from vms buf level virtual physical (levels vms - 1) table"

subsection \<open>The memory access of the hardware\<close>

text \<open>
  The walk of the privileged specification for a data access at user privilege: \<open>need\<close> is the set
  of flags the leaf must have, and a large page must be aligned.
\<close>

fun mmu_walk :: "64 word \<Rightarrow> nat \<Rightarrow> (nat \<Rightarrow> 64 word) \<Rightarrow> 64 word \<Rightarrow> 64 word \<Rightarrow> 64 word option" where
  "mmu_walk need level mem root va =
     (let pte = mem (unat root * 4096 + 8 * vpn level va)
      in if pte AND PTE_V = 0 then None
         else if is_leaf pte
         then (if pte AND need = need \<and> take_bit (9 * level) (ppn pte) = 0
               then Some (push_bit 12 (ppn pte) + take_bit (12 + 9 * level) va) else None)
         else (case level of 0 \<Rightarrow> None | Suc l \<Rightarrow> mmu_walk need l mem (ppn pte) va))"

declare mmu_walk.simps [simp del]

definition load_needs :: "64 word" where "load_needs = PTE_V OR PTE_R OR PTE_U OR PTE_A"
definition store_needs :: "64 word" where "store_needs = load_needs OR PTE_W OR PTE_D"

definition MSTATUS_MPRV :: "64 word" where "MSTATUS_MPRV = 0x00020000"
definition MSTATUS_MPP :: "64 word" where "MSTATUS_MPP = 0x00001800"

record csrs =
  csr_satp :: "64 word"
  csr_mstatus :: "64 word"

text \<open>The program runs in machine mode: its accesses are translated when MPRV is set and MPP is user mode.\<close>

definition mmu :: "64 word \<Rightarrow> csrs \<Rightarrow> memory \<Rightarrow> 64 word \<Rightarrow> 64 word option" where
  "mmu need c s va =
     (if csr_mstatus c AND MSTATUS_MPRV = 0 \<or> csr_mstatus c AND MSTATUS_MPP \<noteq> 0 then Some va
      else if drop_bit 60 (csr_satp c) = 0 then Some va
      else let n = (if drop_bit 60 (csr_satp c) = 8 then 2 else 3)
           in if signed_take_bit (20 + 9 * n) va = va
              then mmu_walk need n (cells s) (take_bit 44 (csr_satp c)) va else None)"

subsection \<open>main\<close>

definition SATP_PPN :: "64 word" where "SATP_PPN = 0x00000FFFFFFFFFFF"

definition low_bit :: "64 word \<Rightarrow> 64 word" where "low_bit m = m AND NOT (push_bit 1 m)"

definition get_field :: "64 word \<Rightarrow> 64 word \<Rightarrow> 64 word" where
  "get_field reg m = (reg AND m) div low_bit m"

definition set_field :: "64 word \<Rightarrow> 64 word \<Rightarrow> 64 word \<Rightarrow> 64 word" where
  "set_field reg m v = (reg AND NOT m) OR ((v * low_bit m) AND m)"

text \<open>A store or a load of the program; \<open>Inl\<close> the address whose access faults.\<close>

definition store32 :: "csrs \<Rightarrow> 64 word \<Rightarrow> 32 word \<Rightarrow> memory \<Rightarrow> 64 word + memory" where
  "store32 c a v s = (case mmu store_needs c s a of None \<Rightarrow> Inl a | Some pa \<Rightarrow> Inr (s\<lparr> data := (data s)(unat pa := v) \<rparr>))"

definition load32 :: "csrs \<Rightarrow> 64 word \<Rightarrow> memory \<Rightarrow> 64 word + 32 word" where
  "load32 c a s = (case mmu load_needs c s a of None \<Rightarrow> Inl a | Some pa \<Rightarrow> Inr (data s (unat pa)))"

text \<open>How \<^verbatim>\<open>main\<close> goes on after the tables are built: a page fault, a failed assertion, or label \<^verbatim>\<open>active\<close>.\<close>

datatype outcome = Page_Fault "64 word" | Error | Active memory

definition check :: "csrs \<Rightarrow> 64 word \<Rightarrow> 32 word \<Rightarrow> memory \<Rightarrow> outcome \<Rightarrow> outcome" where
  "check c a v s k = (case load32 c a s of Inl f \<Rightarrow> Page_Fault f | Inr w \<Rightarrow> if w = v then k else Error)"

definition use_page :: "csrs \<Rightarrow> 64 word \<Rightarrow> 64 word \<Rightarrow> memory \<Rightarrow> outcome" where
  "use_page c physical virtual s =
     (case store32 c physical 0xdeadbeef s of Inl f \<Rightarrow> Page_Fault f | Inr s \<Rightarrow>
      case store32 c (virtual + 4) 0x55667788 s of Inl f \<Rightarrow> Page_Fault f | Inr s \<Rightarrow>
        check c virtual 0xdeadbeef s (check c physical 0xdeadbeef s
          (check c (virtual + 4) 0x55667788 s (check c (physical + 4) 0x55667788 s (Active s)))))"

definition virtual_of :: "virtual_memory_system_t \<Rightarrow> 64 word \<Rightarrow> 64 word" where
  "virtual_of vms physical =
     (let virtual = physical XOR push_bit (vaddr_bits vms - 4) 0xf
      in if vaddr_bits vms < 64 \<and> virtual AND push_bit (vaddr_bits vms - 1) 1 \<noteq> 0
         then virtual OR NOT (push_bit (vaddr_bits vms) 1 - 1) else virtual)"

text \<open>\<open>satp_read\<close> is what the register returns after the write, \<open>mstatus0\<close> the status on entry.\<close>

definition translate_main ::
  "virtual_memory_system_t \<Rightarrow> nat \<Rightarrow> (64 word \<Rightarrow> 64 word) \<Rightarrow> 64 word \<Rightarrow> memory \<Rightarrow> (64 word \<times> 64 word \<times> csrs \<times> outcome) option" where
  "translate_main vms buf satp_read mstatus0 s = do {
     (master_table, s) \<leftarrow> get_page buf s;
     s \<leftarrow> setup_page_table vms master_table (levels vms - 1) 0 s;
     (physical, s) \<leftarrow> get_page buf s;
     let physical = word_of_nat physical;
     let virtual = virtual_of vms physical;
     s \<leftarrow> add_entry vms buf master_table 0 virtual physical s;
     let satp = set_field 0 SATP_MODE (word_of_nat (mode vms));
     let satp = set_field satp SATP_PPN (drop_bit 12 (word_of_nat master_table));
     let satp = satp_read satp;
     if get_field satp SATP_MODE \<noteq> word_of_nat (mode vms) then None
     else (let c = \<lparr> csr_satp = satp, csr_mstatus = mstatus0 OR MSTATUS_MPRV \<rparr>
           in Some (physical, virtual, c, use_page c physical virtual s)) }"

subsection \<open>Building a table\<close>

lemmas flag_defs = leaf_flags_def load_needs_def store_needs_def pte_bits

text \<open>The two modes of a 64-bit machine.\<close>

definition vm64 :: "virtual_memory_system_t \<Rightarrow> bool" where
  "vm64 vms \<longleftrightarrow> vms = sv39 \<or> vms = sv48"

lemma vm64D:
  assumes "vm64 vms"
  shows "entry_width_bytes vms = 8" "vpn_width_bits vms = 9" "levels vms = 3 \<or> levels vms = 4"
    "vaddr_bits vms = 12 + 9 * levels vms" "mode vms = 5 + levels vms"
  using assms by (auto simp: vm64_def sv39_def sv48_def)

definition table_entry :: "nat \<Rightarrow> 64 word \<Rightarrow> nat \<Rightarrow> 64 word" where
  "table_entry level physical i = (leaf_flags OR (physical AND push_bit (10 + (level + 1) * 9) (mask 9)))
     OR push_bit (10 + level * 9) (word_of_nat i)"

lemma fold_entries:
  assumes "vm64 vms"
  shows "fold (\<lambda>i r. do { s \<leftarrow> r; entry_set vms table i (g i) s }) [0..<n] (Some s)
    = Some (s\<lparr> cells := (\<lambda>a. if \<exists>i < n. a = table + 8 * i then g ((a - table) div 8) else cells s a) \<rparr>)"
proof (induction n)
  case (Suc n)
  have "(\<lambda>a. if \<exists>i < Suc n. a = table + 8 * i then g ((a - table) div 8) else cells s a)
    = (\<lambda>a. if \<exists>i < n. a = table + 8 * i then g ((a - table) div 8) else cells s a)(table + 8 * n := g n)"
    by (rule ext) (auto simp: less_Suc_eq)
  with Suc show ?case by (simp add: entry_set_def vm64D [OF assms])
qed simp

lemma setup_page_table_eq:
  assumes "vm64 vms"
  shows "setup_page_table vms table level physical s = Some (s\<lparr> cells :=
    (\<lambda>a. if \<exists>i < 512. a = table + 8 * i then table_entry level physical ((a - table) div 8) else cells s a) \<rparr>)"
  unfolding setup_page_table_def c_for_fold One_nat_def c_range_1 Let_def
  using fold_entries [OF assms, where g = "table_entry level physical" and n = 512 and s = s and table = table]
  by (simp add: vm64D(2) [OF assms] table_entry_def PTE_PPN_SHIFT_def)

text \<open>A table read back after it was set up.\<close>

lemma setup_cells:
  assumes "vm64 vms" "setup_page_table vms table level physical s = Some s'"
  shows "i < 512 \<Longrightarrow> cells s' (table + 8 * i) = table_entry level physical i"
    and "a < table \<or> table + 4096 \<le> a \<Longrightarrow> cells s' a = cells s a"
    and "data s' = data s" "page_buffer_next s' = page_buffer_next s"
  using assms(2) unfolding setup_page_table_eq [OF assms(1)] by auto

lemma or_and_absorb:
  assumes "f AND n = (n :: 64 word)"
  shows "(f OR x) AND n = n"
proof (rule bit_word_eqI)
  fix i
  have "bit n i \<Longrightarrow> bit f i" using assms by (metis bit_and_iff)
  then show "bit ((f OR x) AND n) i \<longleftrightarrow> bit n i" by (auto simp: bit_simps)
qed

lemma flags_need: "leaf_flags AND need = need \<Longrightarrow> (leaf_flags OR x) AND need = need"
  by (rule or_and_absorb)

lemma table_entry_need:
  "leaf_flags AND need = need \<Longrightarrow> table_entry level physical i AND need = need"
  unfolding table_entry_def by (simp only: or.assoc flags_need)

subsection \<open>Entries as the hardware reads them\<close>

lemma leaf_flags_value: "leaf_flags = 0xDF"
  by (simp add: flag_defs)

lemma low_flags: "bit leaf_flags j \<Longrightarrow> j < 10" "bit PTE_V j \<Longrightarrow> j < 10"
proof -
  have "take_bit 10 leaf_flags = leaf_flags" "take_bit 10 PTE_V = PTE_V"
    by (simp_all add: leaf_flags_value PTE_V_def)
  then show "bit leaf_flags j \<Longrightarrow> j < 10" "bit PTE_V j \<Longrightarrow> j < 10"
    by (metis bit_take_bit_iff)+
qed

lemma ppn_flags:
  assumes "\<And>j. bit f j \<Longrightarrow> j < 10"
  shows "ppn (f OR x) = ppn x"
proof (rule bit_word_eqI)
  fix j
  show "bit (ppn (f OR x)) j \<longleftrightarrow> bit (ppn x) j"
    using assms [of "10 + j"] by (auto simp: ppn_def PTE_PPN_SHIFT_def bit_simps)
qed

lemma ppn_shifted:
  assumes "\<And>j. bit x j \<Longrightarrow> j < 44"
  shows "ppn (push_bit 10 x) = x"
proof (rule bit_word_eqI)
  fix j
  show "bit (ppn (push_bit 10 x)) j \<longleftrightarrow> bit x j"
    using assms [of j] by (auto simp: ppn_def PTE_PPN_SHIFT_def bit_simps)
qed

lemma small_bits:
  assumes "i < 2 ^ k" "bit (word_of_nat i :: 64 word) j"
  shows "j < k"
proof -
  have "take_bit k i = i" using assms(1) by (rule take_bit_nat_eq_self)
  moreover have "bit i j" using assms(2) by (simp add: bit_of_nat_iff)
  ultimately show ?thesis by (metis bit_take_bit_iff)
qed

lemma is_leaf_flags: "is_leaf (leaf_flags OR x)"
proof -
  have "(leaf_flags OR x) AND (PTE_R OR PTE_W OR PTE_X) = PTE_R OR PTE_W OR PTE_X"
    by (rule flags_need) (simp add: flag_defs)
  then show ?thesis unfolding is_leaf_def by (simp add: pte_bits)
qed

lemma valid_flags: "(leaf_flags OR x) AND PTE_V \<noteq> 0"
proof -
  have "(leaf_flags OR x) AND PTE_V = PTE_V" by (rule flags_need) (simp add: flag_defs)
  then show ?thesis by (simp add: pte_bits)
qed

lemma creates_flags: "(leaf_flags OR x) AND PTE_R \<noteq> 0 \<and> (leaf_flags OR x) AND PTE_W \<noteq> 0"
proof -
  have "(leaf_flags OR x) AND PTE_R = PTE_R" "(leaf_flags OR x) AND PTE_W = PTE_W"
    by (rule flags_need, simp add: flag_defs)+
  then show ?thesis by (simp add: pte_bits)
qed

lemma ppn_identity_entry:
  assumes "n \<le> 3" "i < 512"
  shows "ppn (table_entry n 0 i) = push_bit (9 * n) (word_of_nat i)"
proof -
  have "bit (push_bit (9 * n) (word_of_nat i :: 64 word)) j \<Longrightarrow> j < 44" for j
    using small_bits [of i 9 "j - 9 * n"] assms by (auto simp: bit_simps)
  then have "ppn (push_bit 10 (push_bit (9 * n) (word_of_nat i))) = push_bit (9 * n) (word_of_nat i)"
    by (rule ppn_shifted)
  then show ?thesis
    by (simp add: table_entry_def ppn_flags [OF low_flags(1)] mult.commute)
qed

text \<open>An entry of a table that maps addresses to themselves.\<close>

lemma walk_identity:
  assumes "n \<le> 3" "unat va < 2 ^ (21 + 9 * n)" "leaf_flags AND need = need"
    and "mem (unat root * 4096 + 8 * vpn n va) = table_entry n 0 (vpn n va)"
  shows "mmu_walk need n mem root va = Some va"
proof -
  let ?pte = "table_entry n 0 (vpn n va)"
  have te: "?pte = leaf_flags OR push_bit (10 + n * 9) (word_of_nat (vpn n va))" by (simp add: table_entry_def)
  have i: "vpn n va < 512" unfolding vpn_nat by simp
  have "unat va < 512 * 2 ^ (12 + 9 * n)" using assms(2) by (simp add: power_add)
  moreover have "unat (drop_bit (12 + 9 * n) va) = unat va div 2 ^ (12 + 9 * n)"
    by (simp only: unat_drop_bit_eq) (simp only: drop_bit_eq_div)
  ultimately have "unat (drop_bit (12 + 9 * n) va) < 2 ^ 9" by (simp add: less_mult_imp_div_less)
  then have "take_bit 9 (drop_bit (12 + 9 * n) va) = drop_bit (12 + 9 * n) va"
    by (simp only: word_unat_eq_iff unsigned_take_bit_eq take_bit_nat_eq_self)
  then have w: "word_of_nat (vpn n va) = drop_bit (12 + 9 * n) va" by (simp add: vpn_def)
  have p: "ppn ?pte = push_bit (9 * n) (drop_bit (12 + 9 * n) va)"
    unfolding ppn_identity_entry [OF assms(1) i] w ..
  have "push_bit 12 (ppn ?pte) + take_bit (12 + 9 * n) va = va"
    unfolding p push_bit_push_bit by (rule bits_ident)
  moreover have "take_bit (9 * n) (ppn ?pte) = 0" unfolding p by (simp add: take_bit_push_bit)
  moreover have "?pte AND need = need" by (rule table_entry_need [OF assms(3)])
  moreover have "?pte AND PTE_V \<noteq> 0" "is_leaf ?pte" unfolding te by (rule valid_flags, rule is_leaf_flags)
  ultimately show ?thesis
    by (subst mmu_walk.simps) (simp add: assms(4) Let_def)
qed

text \<open>A pointer entry to a page-aligned address, with or without flags.\<close>

lemma page_pointer:
  assumes "a mod 4096 = 0" "a < 2 ^ 56"
  shows "drop_bit 2 (word_of_nat a) AND NOT (mask 10) = (push_bit 10 (word_of_nat (a div 4096)) :: 64 word)"
proof -
  obtain f where f: "a = f * 4096" using assms(1) by auto
  have w: "(word_of_nat a :: 64 word) = push_bit 12 (word_of_nat f)" by (simp add: f push_bit_eq_mult)
  have fj: "bit (word_of_nat f :: 64 word) j \<Longrightarrow> j < 44" for j
    by (rule small_bits [of f 44]) (use assms f in simp_all)
  show ?thesis
  proof (rule bit_word_eqI)
    fix j
    show "bit (drop_bit 2 (word_of_nat a) AND NOT (mask 10) :: 64 word) j \<longleftrightarrow> bit (push_bit 10 (word_of_nat (a div 4096)) :: 64 word) j"
      unfolding w using fj [of "j - 10"] by (auto simp: f bit_simps)
  qed
qed

lemma ppn_pointer:
  assumes "a mod 4096 = 0" "a < 2 ^ 56" "\<And>j. bit f j \<Longrightarrow> j < 10"
  shows "ppn (f OR (drop_bit 2 (word_of_nat a) AND NOT (mask 10))) = word_of_nat (a div 4096)"
proof -
  have "bit (word_of_nat (a div 4096) :: 64 word) j \<Longrightarrow> j < 44" for j
    by (rule small_bits [of "a div 4096" 44]) (use assms(2) in simp_all)
  then have "ppn (push_bit 10 (word_of_nat (a div 4096))) = word_of_nat (a div 4096)"
    by (intro ppn_shifted) blast
  then show ?thesis by (simp only: page_pointer [OF assms(1,2)] ppn_flags [OF assms(3)])
qed

lemma frame_address:
  assumes "a mod 4096 = 0" "a < 2 ^ 56"
  shows "unat (word_of_nat (a div 4096) :: 64 word) * 4096 = a"
    "push_bit 12 (word_of_nat (a div 4096)) = (word_of_nat a :: 64 word)"
proof -
  have "a div 4096 < 2 ^ 64" using assms(2) by simp
  then have "unat (word_of_nat (a div 4096) :: 64 word) = a div 4096" by (simp add: unat_of_nat take_bit_nat_eq_self)
  moreover have a: "a = a div 4096 * 4096" using assms(1) div_mult_mod_eq [of a 4096] by simp
  ultimately show "unat (word_of_nat (a div 4096) :: 64 word) * 4096 = a" by simp
  have "(word_of_nat a :: 64 word) = word_of_nat (a div 4096 * 4096)" using a by simp
  then show "push_bit 12 (word_of_nat (a div 4096)) = (word_of_nat a :: 64 word)"
    by (simp add: push_bit_eq_mult)
qed

lemma walk_leaf:
  assumes "a mod 4096 = 0" "a < 2 ^ 56" "leaf_flags AND need = need"
    and "mem (unat root * 4096 + 8 * vpn 0 va) = leaf_flags OR (drop_bit 2 (word_of_nat a) AND NOT (mask 10))"
  shows "mmu_walk need 0 mem root va = Some (word_of_nat a + take_bit 12 va)"
  using flags_need [OF assms(3)] valid_flags is_leaf_flags
  by (subst mmu_walk.simps)
    (simp add: assms(4) ppn_pointer [OF assms(1,2) low_flags(1)] frame_address(2) [OF assms(1,2)])

lemma walk_pointer:
  assumes "a mod 4096 = 0" "a < 2 ^ 56"
    and "mem (unat root * 4096 + 8 * vpn (Suc n) va) = PTE_V OR (drop_bit 2 (word_of_nat a) AND NOT (mask 10))"
  shows "mmu_walk need (Suc n) mem root va = mmu_walk need n mem (word_of_nat (a div 4096)) va"
proof -
  let ?pte = "PTE_V OR push_bit 10 (word_of_nat (a div 4096))"
  have "\<not> is_leaf ?pte"
  proof -
    have m: "bit (PTE_R OR PTE_W OR PTE_X) j \<Longrightarrow> j < 10" for j
    proof -
      have "take_bit 10 (PTE_R OR PTE_W OR PTE_X) = PTE_R OR PTE_W OR PTE_X" by (simp add: pte_bits)
      then show "bit (PTE_R OR PTE_W OR PTE_X) j \<Longrightarrow> j < 10" by (metis bit_take_bit_iff)
    qed
    have "push_bit 10 (word_of_nat (a div 4096)) AND (PTE_R OR PTE_W OR PTE_X) = 0"
    proof (rule bit_word_eqI)
      fix j
      show "bit (push_bit 10 (word_of_nat (a div 4096)) AND (PTE_R OR PTE_W OR PTE_X) :: 64 word) j \<longleftrightarrow> bit (0 :: 64 word) j"
        using m [of j] by (cases "bit (PTE_R OR PTE_W OR PTE_X) j") (simp_all only: bit_and_iff bit_push_bit_iff bit_0_eq bot_apply bot_bool_def, simp_all)
    qed
    moreover have "PTE_V AND (PTE_R OR PTE_W OR PTE_X) = 0" by (simp add: pte_bits)
    ultimately have "?pte AND (PTE_R OR PTE_W OR PTE_X) = 0" by (simp only: bit.conj_disj_distrib2) simp
    then show ?thesis by (simp add: is_leaf_def)
  qed
  moreover have "?pte AND PTE_V \<noteq> 0"
    using or_and_absorb [of PTE_V PTE_V] by (simp add: PTE_V_def)
  ultimately show ?thesis
    using ppn_pointer [OF assms(1,2) low_flags(2)]
    by (subst mmu_walk.simps) (simp add: assms(3) page_pointer [OF assms(1,2)])
qed

subsection \<open>Adding an entry\<close>

lemma get_page_aligned:
  assumes "page_buffer_next s mod 4096 = 0" "page_buffer_next s + 4096 < buf + page_buffer_size"
  shows "get_page buf s = Some (page_buffer_next s, s\<lparr> page_buffer_next := page_buffer_next s + 4096 \<rparr>)"
proof -
  obtain f where "page_buffer_next s = f * 4096" using assms(1) by auto
  moreover have "(f * 4096 + 4095) div 4096 = f" by simp
  ultimately have "(page_buffer_next s + 4095) div 4096 * 4096 = page_buffer_next s" by simp
  then show ?thesis using assms(2) by (simp add: get_page_def Let_def)
qed

lemma vpn_field_vpn: "vm64 vms \<Longrightarrow> vpn_field vms va level = vpn level va"
  by (simp add: vpn_field_def vpn_def vm64D take_bit_eq_mask)

lemma vpn_512: "vpn level va < 512"
  by (simp add: vpn_nat)

lemma add_entry_walk:
  assumes "vm64 vms" "p mod 4096 = 0" "p < 2 ^ 56"
    and "T mod 4096 = 0" "T + 4096 \<le> page_buffer_next s" "page_buffer_next s mod 4096 = 0"
    and "page_buffer_next s + 4096 * n < buf + page_buffer_size" "buf + page_buffer_size \<le> 2 ^ 56"
    and "cells s (T + 8 * vpn n va) = leaf_flags OR x"
  shows "\<exists>s'. add_entry_from vms buf 0 va (word_of_nat p) n T s = Some s'
    \<and> data s' = data s \<and> page_buffer_next s' = page_buffer_next s + 4096 * n
    \<and> (\<forall>a < page_buffer_next s. a \<noteq> T + 8 * vpn n va \<longrightarrow> cells s' a = cells s a)
    \<and> (\<forall>va' need. leaf_flags AND need = need \<longrightarrow> (\<forall>l \<le> n. vpn l va' = vpn l va) \<longrightarrow>
         mmu_walk need n (cells s') (word_of_nat (T div 4096)) va' = Some (word_of_nat p + take_bit 12 va'))"
  using assms(4-9)
proof (induction n arbitrary: T s x)
  case 0
  have "T < 2 ^ 56" using 0 by (simp add: page_buffer_size_def)
  have step: "add_entry_from vms buf 0 va (word_of_nat p) 0 T s =
      Some (s\<lparr> cells := (cells s)(T + 8 * vpn 0 va := leaf_flags OR (drop_bit 2 (word_of_nat p) AND NOT (mask 10))) \<rparr>)"
    by (subst add_entry_from.simps)
      (simp add: entry_set_def vm64D(1,2) [OF assms(1)] vpn_field_vpn [OF assms(1)] PTE_PPN_SHIFT_def)
  show ?case
    unfolding step
  proof (intro exI conjI allI impI)
    fix va' need assume a: "leaf_flags AND need = need" "\<forall>l \<le> 0. vpn l va' = vpn l va"
    then have v: "vpn 0 va' = vpn 0 va" by simp
    show "mmu_walk need 0 (cells (s\<lparr> cells := (cells s)(T + 8 * vpn 0 va := leaf_flags OR (drop_bit 2 (word_of_nat p) AND NOT (mask 10))) \<rparr>))
        (word_of_nat (T div 4096)) va' = Some (word_of_nat p + take_bit 12 va')"
      by (rule walk_leaf [OF assms(2,3) a(1)])
        (simp add: v frame_address(1) [OF \<open>T mod 4096 = 0\<close> \<open>T < 2 ^ 56\<close>])
  qed simp_all
next
  case (Suc n)
  let ?q = "page_buffer_next s"
  let ?ptr = "PTE_V OR (drop_bit 2 (word_of_nat ?q) AND NOT (mask 10))"
  have q: "?q < 2 ^ 56" and T: "T < 2 ^ 56" using Suc.prems by (simp_all add: page_buffer_size_def)
  let ?s1 = "s\<lparr> page_buffer_next := ?q + 4096 \<rparr>"
  obtain s2 where s2: "setup_page_table vms ?q n va ?s1 = Some s2"
    unfolding setup_page_table_eq [OF assms(1)] by blast
  note c2 = setup_cells [OF assms(1) s2]
  define s3 where "s3 = s2\<lparr> cells := (cells s2)(T + 8 * vpn (Suc n) va := ?ptr) \<rparr>"
  have low: "T + 8 * vpn (Suc n) va < ?q" using vpn_512 [of "Suc n" va] Suc.prems(2) by simp
  have step: "add_entry_from vms buf 0 va (word_of_nat p) (Suc n) T s = add_entry_from vms buf 0 va (word_of_nat p) n ?q s3"
    using creates_flags [of x] Suc.prems(3,4)
    by (subst add_entry_from.simps)
      (simp add: entry_def entry_set_def vm64D(1,2) [OF assms(1)] vpn_field_vpn [OF assms(1)] Suc.prems(6)
        get_page_aligned s2 s3_def)
  have "cells s3 (?q + 8 * vpn n va) = leaf_flags OR (va AND push_bit (10 + (n + 1) * 9) (mask 9)
      OR push_bit (10 + n * 9) (word_of_nat (vpn n va)))"
    using low c2(1) [OF vpn_512 [of n va]] by (simp add: s3_def table_entry_def or.assoc)
  from Suc.IH [OF Suc.prems(3) _ _ _ Suc.prems(5) this] obtain s' where s':
    "add_entry_from vms buf 0 va (word_of_nat p) n ?q s3 = Some s'"
    "data s' = data s3" "page_buffer_next s' = page_buffer_next s3 + 4096 * n"
    "\<forall>a < page_buffer_next s3. a \<noteq> ?q + 8 * vpn n va \<longrightarrow> cells s' a = cells s3 a"
    "\<forall>va' need. leaf_flags AND need = need \<longrightarrow> (\<forall>l \<le> n. vpn l va' = vpn l va) \<longrightarrow>
         mmu_walk need n (cells s') (word_of_nat (?q div 4096)) va' = Some (word_of_nat p + take_bit 12 va')"
    using Suc.prems(3,4) c2(4) by (auto simp: s3_def)
  have next3: "page_buffer_next s3 = ?q + 4096" "data s3 = data s" using c2(3,4) by (simp_all add: s3_def)
  have frame: "cells s' a = cells s3 a" if "a < ?q" for a using s'(4) that next3(1) by simp
  have ptr: "cells s' (T + 8 * vpn (Suc n) va) = ?ptr" using frame [OF low] by (simp add: s3_def)
  show ?case
    unfolding step
  proof (intro exI conjI allI impI, rule s'(1))
    fix a assume "a < ?q" "a \<noteq> T + 8 * vpn (Suc n) va"
    then show "cells s' a = cells s a" using frame c2(2) [of a] by (simp add: s3_def)
  next
    fix va' need assume a: "leaf_flags AND need = need" "\<forall>l \<le> Suc n. vpn l va' = vpn l va"
    then have v: "vpn (Suc n) va' = vpn (Suc n) va" by simp
    have "mmu_walk need (Suc n) (cells s') (word_of_nat (T div 4096)) va' = mmu_walk need n (cells s') (word_of_nat (?q div 4096)) va'"
      by (rule walk_pointer [OF Suc.prems(3) q]) (simp add: v frame_address(1) [OF Suc.prems(1) T] ptr)
    then show "mmu_walk need (Suc n) (cells s') (word_of_nat (T div 4096)) va' = Some (word_of_nat p + take_bit 12 va')"
      using s'(5) a by simp
  qed (use s'(2,3) next3 in simp_all)
qed

subsection \<open>The whole program\<close>

lemma page_arith:
  assumes "take_bit 12 v = (0 :: 64 word)" "k < 4096"
  shows "drop_bit 12 (v + word_of_nat k) = drop_bit 12 v" "take_bit 12 (v + word_of_nat k) = word_of_nat k"
proof -
  have v: "\<not> bit v j" if "j < 12" for j
  proof -
    have "\<not> bit (take_bit 12 v) j" unfolding assms(1) by simp
    with that show ?thesis by (simp add: bit_take_bit_iff)
  qed
  have k: "bit (word_of_nat k :: 64 word) j \<Longrightarrow> j < 12" for j
    using small_bits [of k 12 j] assms(2) by simp
  have "v AND word_of_nat k = 0"
    by (rule bit_word_eqI) (use v k in \<open>auto simp: bit_and_iff\<close>)
  then have s: "v + word_of_nat k = v OR word_of_nat k" by (simp add: disjunctive_add_eq_or)
  show "drop_bit 12 (v + word_of_nat k) = drop_bit 12 v"
    unfolding s using k by (intro bit_word_eqI) (auto simp: bit_drop_bit_eq bit_or_iff)
  show "take_bit 12 (v + word_of_nat k) = word_of_nat k"
    unfolding s using k v by (intro bit_word_eqI) (auto simp: bit_take_bit_iff bit_or_iff)
qed

lemma virtual_of_eq:
  assumes "vm64 vms" "levels vms = Suc n" "p < 2 ^ (20 + 9 * n)"
  shows "virtual_of vms (word_of_nat p) = word_of_nat p XOR NOT (mask (17 + 9 * n))"
proof -
  have n: "n = 2 \<or> n = 3" using vm64D(3) [OF assms(1)] assms(2) by auto
  have w: "vaddr_bits vms = 21 + 9 * n" using vm64D(4) [OF assms(1)] assms(2) by simp
  have p: "bit (word_of_nat p :: 64 word) j \<Longrightarrow> j < 20 + 9 * n" for j
    by (rule small_bits [OF assms(3)])
  let ?v = "word_of_nat p XOR push_bit (17 + 9 * n) 0xf :: 64 word"
  have f: "bit (0xf :: 64 word) j \<longleftrightarrow> j < 4" for j
  proof -
    have "(0xf :: 64 word) = mask 4" by (simp add: mask_eq_exp_minus_1)
    show ?thesis unfolding \<open>0xf = mask 4\<close> by (auto simp: bit_mask_iff)
  qed
  have sign: "bit ?v (20 + 9 * n)" using p [of "20 + 9 * n"] n by (auto simp: bit_simps f)
  then have "?v AND push_bit (20 + 9 * n) 1 \<noteq> 0"
    using n by (metis and_exp_eq_0_iff_not_bit push_bit_of_1 possible_bit_word)
  moreover have "push_bit (21 + 9 * n) 1 - 1 = (mask (21 + 9 * n) :: 64 word)"
    by (simp add: mask_eq_exp_minus_1)
  ultimately have "virtual_of vms (word_of_nat p) = ?v OR NOT (mask (21 + 9 * n))"
    unfolding virtual_of_def w Let_def using n by auto
  also have "\<dots> = word_of_nat p XOR NOT (mask (17 + 9 * n))"
  proof (rule bit_word_eqI)
    fix j assume "j < LENGTH(64)"
    then show "bit (?v OR NOT (mask (21 + 9 * n))) j \<longleftrightarrow> bit (word_of_nat p XOR NOT (mask (17 + 9 * n)) :: 64 word) j"
      using p [of j] n by (auto simp only: bit_or_iff bit_xor_iff bit_push_bit_iff bit_not_iff bit_mask_iff f) simp_all
  qed
  finally show ?thesis .
qed

lemma vpn_page: "drop_bit 12 va = drop_bit 12 v \<Longrightarrow> vpn level va = vpn level v"
proof -
  assume "drop_bit 12 va = drop_bit 12 v"
  then have "drop_bit (9 * level) (drop_bit 12 va) = drop_bit (9 * level) (drop_bit 12 v)" by simp
  then show ?thesis by (simp add: vpn_def ac_simps)
qed

lemma bit_page:
  assumes "drop_bit 12 va = drop_bit 12 (v :: 64 word)" "12 \<le> j"
  shows "bit va j = bit v j"
proof -
  have "bit (drop_bit 12 va) (j - 12) = bit (drop_bit 12 v) (j - 12)" using assms(1) by simp
  then show ?thesis using assms(2) by (simp add: bit_drop_bit_eq)
qed

lemma canonical:
  assumes "\<And>j. m \<le> j \<Longrightarrow> j < 64 \<Longrightarrow> bit va j = bit va m" "m < 64"
  shows "signed_take_bit m va = (va :: 64 word)"
proof (rule bit_word_eqI)
  fix j assume "j < LENGTH(64)"
  then show "bit (signed_take_bit m va) j \<longleftrightarrow> bit va j"
    using assms(1) [of j] by (auto simp: bit_signed_take_bit_iff min_def)
qed

lemma low_vpn:
  assumes "unat va < 2 ^ (20 + 9 * n)"
  shows "vpn n va < 256"
proof -
  have "unat va < 256 * 2 ^ (12 + 9 * n)" using assms by (simp add: power_add)
  then have "unat va div 2 ^ (12 + 9 * n) < 256" by (simp add: less_mult_imp_div_less)
  then show ?thesis unfolding vpn_nat by simp
qed

lemma high_vpn:
  assumes "bit va (20 + 9 * n)"
  shows "256 \<le> vpn n va"
proof -
  have "bit (take_bit 9 (drop_bit (12 + 9 * n) va)) 8" using assms by (simp add: bit_take_bit_iff bit_drop_bit_eq)
  then have "bit (vpn n va) 8" unfolding vpn_def by (simp add: bit_unsigned_iff)
  moreover have "\<not> bit (x :: nat) 8" if "x < 256" for x using that by (simp add: bit_iff_odd)
  ultimately show ?thesis by (meson not_le)
qed

text \<open>The register \<^verbatim>\<open>satp\<close>: the mode in its four upper bits, the frame of the top table below.\<close>

lemma satp_fields:
  fixes f :: "64 word"
  assumes "m = 8 \<or> m = (9 :: nat)" "\<And>j. bit f j \<Longrightarrow> j < 44"
  defines "w \<equiv> set_field (set_field 0 SATP_MODE (word_of_nat m)) SATP_PPN f"
  shows "drop_bit 60 w = word_of_nat m" "take_bit 44 w = f" "get_field w SATP_MODE = word_of_nat m"
proof -
  have lows: "low_bit SATP_MODE = 0x1000000000000000" "low_bit SATP_PPN = 1"
    by (simp_all add: low_bit_def SATP_MODE_def SATP_PPN_def)
  have ppn: "SATP_PPN = mask 44" by (simp add: SATP_PPN_def mask_eq_exp_minus_1)
  have f: "f AND mask 44 = f" using assms(2) by (intro bit_word_eqI) (auto simp: bit_and_iff bit_mask_iff)
  have w: "w = push_bit 60 (word_of_nat m) OR f"
    using assms(1) unfolding w_def set_field_def lows mult_1_right unfolding ppn f
    by (auto simp: SATP_MODE_def push_bit_eq_mult mask_eq_exp_minus_1)
  have m: "bit (word_of_nat m :: 64 word) j \<Longrightarrow> j < 4" for j
    by (rule small_bits) (use assms(1) in auto)
  show d: "drop_bit 60 w = word_of_nat m"
  proof (rule bit_word_eqI)
    fix j assume "j < LENGTH(64)"
    show "bit (drop_bit 60 w) j \<longleftrightarrow> bit (word_of_nat m :: 64 word) j"
      unfolding w using m [of j] assms(2) [of "60 + j"] by (auto simp only: bit_drop_bit_eq bit_or_iff bit_push_bit_iff comp_def) simp_all
  qed
  show "take_bit 44 w = f"
  proof (rule bit_word_eqI)
    fix j assume "j < LENGTH(64)"
    show "bit (take_bit 44 w) j \<longleftrightarrow> bit f j"
      unfolding w using assms(2) [of j] by (cases "j < 44") (auto simp add: bit_take_bit_iff bit_or_iff bit_push_bit_iff)
  qed
  have "w AND SATP_MODE = push_bit 60 (drop_bit 60 w)"
  proof (rule bit_word_eqI)
    fix j assume j: "j < LENGTH(64)"
    have m4: "SATP_MODE = push_bit 60 (mask 4)" by (simp add: SATP_MODE_def push_bit_eq_mult mask_eq_exp_minus_1)
    show "bit (w AND SATP_MODE) j \<longleftrightarrow> bit (push_bit 60 (drop_bit 60 w)) j"
      unfolding m4 using j by (auto simp add: bit_and_iff bit_push_bit_iff bit_drop_bit_eq bit_mask_iff)
  qed
  then have "w AND SATP_MODE = push_bit 60 (word_of_nat m)" unfolding d .
  then show "get_field w SATP_MODE = word_of_nat m"
    unfolding get_field_def lows using assms(1) by (auto simp: push_bit_eq_mult)
qed

text \<open>Switched on, the translation is the walk from the top table, for canonical addresses.\<close>

lemma mmu_walks:
  assumes "n = 2 \<or> n = 3" "tab < 2 ^ 56" "csr_mstatus c AND MSTATUS_MPP = 0" "csr_mstatus c AND MSTATUS_MPRV \<noteq> 0"
    and "csr_satp c = set_field (set_field 0 SATP_MODE (word_of_nat (6 + n))) SATP_PPN (drop_bit 12 (word_of_nat tab))"
    and "signed_take_bit (20 + 9 * n) va = va"
  shows "mmu need c s va = mmu_walk need n (cells s) (word_of_nat (tab div 4096)) va"
proof -
  have f: "(drop_bit 12 (word_of_nat tab) :: 64 word) = word_of_nat (tab div 4096)"
  proof (rule word_unat_eq_iff [THEN iffD2])
    have "unat (drop_bit 12 (word_of_nat tab :: 64 word)) = tab div 4096"
      unfolding unat_drop_bit_eq using assms(2) by (simp add: unat_of_nat take_bit_nat_eq_self drop_bit_eq_div)
    moreover have "unat (word_of_nat (tab div 4096) :: 64 word) = tab div 4096"
      using assms(2) by (simp add: unat_of_nat take_bit_nat_eq_self)
    ultimately show "unat (drop_bit 12 (word_of_nat tab) :: 64 word) = unat (word_of_nat (tab div 4096) :: 64 word)" by simp
  qed
  have "bit (drop_bit 12 (word_of_nat tab :: 64 word)) j \<Longrightarrow> j < 44" for j
    unfolding f by (rule small_bits [of "tab div 4096" 44]) (use assms(2) in simp_all)
  from satp_fields [of "6 + n", OF _ this] assms(1)
  have "drop_bit 60 (csr_satp c) = word_of_nat (6 + n)" "take_bit 44 (csr_satp c) = word_of_nat (tab div 4096)"
    unfolding assms(5) f by auto
  then show ?thesis using assms(1,3,4,6) by (auto simp: mmu_def)
qed

lemma mmu_data: "mmu need c (s\<lparr> data := d \<rparr>) va = mmu need c s va"
  by (simp add: mmu_def)

lemma use_page_active:
  assumes "\<And>need. leaf_flags AND need = need \<Longrightarrow> mmu need c s p = Some p"
    "\<And>need. leaf_flags AND need = need \<Longrightarrow> mmu need c s (p + 4) = Some (p + 4)"
    "\<And>need. leaf_flags AND need = need \<Longrightarrow> mmu need c s v = Some p"
    "\<And>need. leaf_flags AND need = need \<Longrightarrow> mmu need c s (v + 4) = Some (p + 4)"
    and "unat (p + 4) \<noteq> unat p"
  shows "use_page c p v s = Active (s\<lparr> data := (data s)(unat p := 0xdeadbeef, unat (p + 4) := 0x55667788) \<rparr>)"
proof -
  have "leaf_flags AND load_needs = load_needs" "leaf_flags AND store_needs = store_needs"
    by (simp_all add: flag_defs)
  note m = assms(1-4) [OF this(1)] assms(1-4) [OF this(2)]
  show ?thesis using assms(5) by (simp add: use_page_def store32_def load32_def check_def m mmu_data fun_upd_twist)
qed

text \<open>The first page of the buffer, and where the program puts what it builds.\<close>

definition first_page :: "nat \<Rightarrow> nat" where
  "first_page buf = (buf + 4095) div 4096 * 4096"

lemma first_page: "first_page buf mod 4096 = 0" "buf \<le> first_page buf" "first_page buf < buf + 4096"
  using div_mult_mod_eq [of "buf + 4095" 4096] mod_less_divisor [of 4096 "buf + 4095"]
  by (simp_all add: first_page_def)

lemma main_tables:
  fixes mstatus0 :: "64 word" and n buf :: nat
  assumes vm: "vm64 vms" "levels vms = Suc n" and buf: "page_buffer_next s = buf" "buf + page_buffer_size \<le> 2 ^ (20 + 9 * n)"
    and satp: "\<And>v. satp_read v = v"
  defines "tab \<equiv> first_page buf"
  defines "p \<equiv> word_of_nat (tab + 4096)"
  defines "v \<equiv> virtual_of vms p"
  defines "c \<equiv> \<lparr> csr_satp = set_field (set_field 0 SATP_MODE (word_of_nat (6 + n))) SATP_PPN (drop_bit 12 (word_of_nat tab)),
      csr_mstatus = mstatus0 OR MSTATUS_MPRV \<rparr>"
  shows "\<exists>s'. translate_main vms buf satp_read mstatus0 s = Some (p, v, c, use_page c p v s')
    \<and> (\<forall>i < 512. i \<noteq> vpn n v \<longrightarrow> cells s' (tab + 8 * i) = table_entry n 0 i)
    \<and> (\<forall>va need. leaf_flags AND need = need \<longrightarrow> (\<forall>l \<le> n. vpn l va = vpn l v) \<longrightarrow>
         mmu_walk need n (cells s') (word_of_nat (tab div 4096)) va = Some (p + take_bit 12 va))"
proof -
  have n: "n = 2 \<or> n = 3" using vm64D(3) [OF vm(1)] vm(2) by auto
  note tab = first_page [of buf, folded tab_def]
  have size: "page_buffer_size = 24576" by (simp add: page_buffer_size_def)
  have big: "buf + page_buffer_size \<le> 2 ^ 56" using buf(2) n by auto
  let ?s1 = "s\<lparr> page_buffer_next := tab + 4096 \<rparr>"
  have g1: "get_page buf s = Some (tab, ?s1)"
    using tab(3) by (simp add: get_page_def buf(1) tab_def first_page_def size Let_def)
  obtain s2 where s2: "setup_page_table vms tab n 0 ?s1 = Some s2"
    unfolding setup_page_table_eq [OF vm(1)] by blast
  note c2 = setup_cells [OF vm(1) s2]
  have next2: "page_buffer_next s2 = tab + 4096" using c2(4) by simp
  let ?s3 = "s2\<lparr> page_buffer_next := tab + 8192 \<rparr>"
  have g3: "get_page buf s2 = Some (tab + 4096, ?s3)"
    using get_page_aligned [of s2 buf] tab(1,3) by (simp add: next2 size)
  have x: "cells ?s3 (tab + 8 * vpn n v) = leaf_flags OR push_bit (10 + n * 9) (word_of_nat (vpn n v))"
    using c2(1) [OF vpn_512 [of n v]] by (simp add: table_entry_def)
  obtain s' where s': "add_entry_from vms buf 0 v p n tab ?s3 = Some s'"
    "\<forall>a < tab + 8192. a \<noteq> tab + 8 * vpn n v \<longrightarrow> cells s' a = cells ?s3 a"
    "\<forall>va need. leaf_flags AND need = need \<longrightarrow> (\<forall>l \<le> n. vpn l va = vpn l v) \<longrightarrow>
       mmu_walk need n (cells s') (word_of_nat (tab div 4096)) va = Some (p + take_bit 12 va)"
  proof -
    have h: "(tab + 4096) mod 4096 = 0" "page_buffer_next ?s3 mod 4096 = 0" "tab + 4096 < 2 ^ 56"
      "tab + 4096 \<le> page_buffer_next ?s3" "page_buffer_next ?s3 + 4096 * n < buf + page_buffer_size"
      using tab(1,3) big n by (auto simp: size)
    obtain s' where "add_entry_from vms buf 0 v (word_of_nat (tab + 4096)) n tab ?s3 = Some s'"
      "\<forall>a < page_buffer_next ?s3. a \<noteq> tab + 8 * vpn n v \<longrightarrow> cells s' a = cells ?s3 a"
      "\<forall>va need. leaf_flags AND need = need \<longrightarrow> (\<forall>l \<le> n. vpn l va = vpn l v) \<longrightarrow>
         mmu_walk need n (cells s') (word_of_nat (tab div 4096)) va = Some (word_of_nat (tab + 4096) + take_bit 12 va)"
      using add_entry_walk [OF vm(1) h(1,3) tab(1) h(4,2,5) big x] by blast
    moreover have "page_buffer_next ?s3 = tab + 8192" by simp
    ultimately show ?thesis using that [of s'] unfolding p_def by (simp only:)
  qed
  have main: "translate_main vms buf satp_read mstatus0 s = Some (p, v, c, use_page c p v s')"
  proof -
    have f: "bit (drop_bit 12 (word_of_nat tab :: 64 word)) j \<Longrightarrow> j < 44" for j
      using small_bits [of tab 56 "12 + j"] tab(3) big by (simp add: bit_drop_bit_eq size)
    have m: "mode vms = 6 + n" using vm64D(5) [OF vm(1)] vm(2) by simp
    have "get_field (csr_satp c) SATP_MODE = word_of_nat (6 + n)"
      unfolding c_def csrs.simps using n by (intro satp_fields(3) f) auto
    then show ?thesis
      unfolding translate_main_def
      by (simp add: g1 g3 s2 vm(2) add_entry_def satp m p_def [symmetric] v_def [symmetric] s'(1) Let_def c_def del: of_nat_add)
  qed
  have "cells s' (tab + 8 * i) = table_entry n 0 i" if "i < 512" "i \<noteq> vpn n v" for i
    using s'(2) c2(1) [OF that(1)] that by simp
  with main s'(3) show ?thesis by blast
qed

text \<open>
  C20. For Sv39 and Sv48, wherever the buffer lies in the positive half of the address space,
  \<^verbatim>\<open>main\<close> of \<^verbatim>\<open>translate.c\<close> gets by with the pages of its buffer, reaches \<^verbatim>\<open>active\<close> without a page
  fault or a failed assertion, and leaves tables under which every address of the positive half
  is mapped to itself and every address of the virtual page to the physical page, all readable
  and writable at user privilege.
\<close>

theorem translation_program_maps:
  assumes "vms = sv39 \<or> vms = sv48" "page_buffer_next s = buf" "buf + page_buffer_size \<le> 2 ^ (vaddr_bits vms - 1)"
    and "\<And>w. satp_read w = w" "mstatus0 AND MSTATUS_MPP = 0"
  shows "\<exists>p v c s'. translate_main vms buf satp_read mstatus0 s = Some (p, v, c, Active s')
    \<and> take_bit 12 p = 0 \<and> buf \<le> unat p \<and> unat p + 4096 < buf + page_buffer_size
    \<and> (\<forall>va need. leaf_flags AND need = need \<longrightarrow> unat va < 2 ^ (vaddr_bits vms - 1) \<longrightarrow> mmu need c s' va = Some va)
    \<and> (\<forall>va need. leaf_flags AND need = need \<longrightarrow> drop_bit 12 va = drop_bit 12 v \<longrightarrow> mmu need c s' va = Some (p + take_bit 12 va))
    \<and> data s' (unat p) = 0xdeadbeef \<and> data s' (unat p + 4) = 0x55667788"
proof -
  have vm: "vm64 vms" using assms(1) by (simp add: vm64_def)
  obtain n where n: "levels vms = Suc n" "n = 2 \<or> n = 3" using assms(1) by (auto simp: sv39_def sv48_def)
  have w: "vaddr_bits vms - 1 = 20 + 9 * n" using vm64D(4) [OF vm] n(1) by simp
  have buf: "buf + page_buffer_size \<le> 2 ^ (20 + 9 * n)" using assms(3) unfolding w .
  define tab where "tab = first_page buf"
  define p :: "64 word" where "p = word_of_nat (tab + 4096)"
  define v where "v = virtual_of vms p"
  define c where "c = \<lparr> csr_satp = set_field (set_field 0 SATP_MODE (word_of_nat (6 + n))) SATP_PPN (drop_bit 12 (word_of_nat tab)),
      csr_mstatus = mstatus0 OR MSTATUS_MPRV \<rparr>"
  obtain s4 where main: "translate_main vms buf satp_read mstatus0 s = Some (p, v, c, use_page c p v s4)"
    and idents: "\<And>i. i < 512 \<Longrightarrow> i \<noteq> vpn n v \<Longrightarrow> cells s4 (tab + 8 * i) = table_entry n 0 i"
    and mapped: "\<And>va need. leaf_flags AND need = need \<Longrightarrow> \<forall>l \<le> n. vpn l va = vpn l v \<Longrightarrow>
       mmu_walk need n (cells s4) (word_of_nat (tab div 4096)) va = Some (p + take_bit 12 va)"
    using main_tables [OF vm n(1) assms(2) buf assms(4), of mstatus0]
    unfolding tab_def p_def v_def c_def by blast
  note tab = first_page [of buf, folded tab_def]
  have top: "(2 :: nat) ^ (20 + 9 * n) \<le> 2 ^ 47" using n(2) by auto
  have small: "tab + 4096 + 4096 \<le> 2 ^ (20 + 9 * n)" using tab(3) buf by (simp add: page_buffer_size_def)
  have up: "unat p = tab + 4096" unfolding p_def using small top by (simp add: unat_of_nat take_bit_nat_eq_self del: of_nat_add)
  have p0: "take_bit 12 p = 0"
    unfolding word_unat_eq_iff unsigned_take_bit_eq up using tab(1) by (simp add: take_bit_eq_mod)
  have pn: "bit p j \<Longrightarrow> j < 20 + 9 * n" for j
    unfolding p_def by (rule small_bits [of "tab + 4096"]) (use small in linarith)
  have vx: "v = p XOR NOT (mask (17 + 9 * n))"
    unfolding v_def p_def by (rule virtual_of_eq [OF vm n(1)]) (use small in linarith)
  have vhigh: "bit v j" if "20 + 9 * n \<le> j" "j < 64" for j
    unfolding vx using pn [of j] that by (auto simp: bit_xor_iff bit_not_iff bit_mask_iff)
  have v0: "take_bit 12 v = 0"
  proof (rule bit_word_eqI)
    fix j
    have "\<not> bit (take_bit 12 p) j" unfolding p0 by simp
    then show "bit (take_bit 12 v) j \<longleftrightarrow> bit (0 :: 64 word) j"
      by (auto simp: vx bit_take_bit_iff bit_xor_iff bit_not_iff bit_mask_iff)
  qed
  have tab56: "tab < 2 ^ 56" using small top by simp
  have "(mstatus0 OR MSTATUS_MPRV) AND MSTATUS_MPP = 0"
    unfolding bit.conj_disj_distrib2 assms(5) by (simp add: MSTATUS_MPRV_def MSTATUS_MPP_def)
  moreover have "(mstatus0 OR MSTATUS_MPRV) AND MSTATUS_MPRV \<noteq> 0"
    using or_and_absorb [of MSTATUS_MPRV MSTATUS_MPRV mstatus0] by (simp add: or.commute MSTATUS_MPRV_def)
  ultimately have mmu: "mmu need c s4 va = mmu_walk need n (cells s4) (word_of_nat (tab div 4096)) va"
    if "signed_take_bit (20 + 9 * n) va = va" for need va
    using that by (intro mmu_walks [OF n(2) tab56]) (simp_all add: c_def)
  have ident: "mmu need c s4 va = Some va" if a: "leaf_flags AND need = need" "unat va < 2 ^ (20 + 9 * n)" for need va
  proof -
    have "\<not> bit va j" if "20 + 9 * n \<le> j" for j
      using small_bits [OF a(2), of j] that by auto
    then have "signed_take_bit (20 + 9 * n) va = va" using n(2) by (intro canonical) auto
    moreover have "vpn n va \<noteq> vpn n v" using low_vpn [OF a(2)] high_vpn [of v n] vhigh n(2) by fastforce
    then have "cells s4 (tab + 8 * vpn n va) = table_entry n 0 (vpn n va)" by (rule idents [OF vpn_512])
    then have "mmu_walk need n (cells s4) (word_of_nat (tab div 4096)) va = Some va"
      using n(2) a by (intro walk_identity) (auto simp: frame_address(1) [OF tab(1) tab56] power_add)
    ultimately show ?thesis using mmu by simp
  qed
  have virt: "mmu need c s4 va = Some (p + take_bit 12 va)"
    if a: "leaf_flags AND need = need" "drop_bit 12 va = drop_bit 12 v" for need va
  proof -
    have "bit va j" if "20 + 9 * n \<le> j" "j < 64" for j
      using bit_page [OF a(2), of j] vhigh [OF that] that by simp
    then have "signed_take_bit (20 + 9 * n) va = va" using n(2) by (intro canonical) auto
    moreover have "\<forall>l \<le> n. vpn l va = vpn l v" using vpn_page [OF a(2)] by simp
    ultimately show ?thesis using mmu mapped [OF a(1)] by simp
  qed
  have p4: "unat (p + 4) = unat p + 4"
  proof -
    have "p + 4 = word_of_nat (tab + 4096 + 4)" by (simp add: p_def)
    moreover have "unat (word_of_nat (tab + 4096 + 4) :: 64 word) = tab + 4096 + 4"
      using small top by (simp add: unat_of_nat take_bit_nat_eq_self del: of_nat_add)
    ultimately show ?thesis unfolding up by simp
  qed
  have "use_page c p v s4 = Active (s4\<lparr> data := (data s4)(unat p := 0xdeadbeef, unat (p + 4) := 0x55667788) \<rparr>)"
  proof (rule use_page_active)
    fix need assume a: "leaf_flags AND need = need"
    show "mmu need c s4 p = Some p" "mmu need c s4 (p + 4) = Some (p + 4)"
      by (rule ident [OF a], use up p4 small in simp)+
    show "mmu need c s4 v = Some p" using virt [OF a, of v] v0 by simp
    show "mmu need c s4 (v + 4) = Some (p + 4)"
      using virt [OF a, of "v + 4"] page_arith [OF v0, of 4] by simp
  qed (simp add: p4)
  moreover have "unat p + 4096 < buf + page_buffer_size" "buf \<le> unat p"
    using up tab(2,3) by (simp_all add: page_buffer_size_def)
  ultimately show ?thesis
    using main p0 ident virt p4 unfolding w
    by (intro exI [of _ p] exI [of _ v] exI [of _ c]
        exI [of _ "s4\<lparr> data := (data s4)(unat p := 0xdeadbeef, unat (p + 4) := 0x55667788) \<rparr>"])
      (simp add: mmu_data)
qed

theorem translation_program_maps_witness:
  "\<exists>p v c s'. translate_main sv48 0x80001234 (\<lambda>w. w) 0
     \<lparr> cells = \<lambda>_. 0, data = \<lambda>_. 0, page_buffer_next = 0x80001234 \<rparr> = Some (p, v, c, Active s')
     \<and> mmu load_needs c s' 0x1234 = Some 0x1234 \<and> data s' (unat p + 4) = 0x55667788"
proof -
  have "leaf_flags AND load_needs = load_needs" by (simp add: flag_defs)
  then show ?thesis
    using translation_program_maps [where vms = sv48 and buf = "0x80001234" and satp_read = "\<lambda>w. w" and ?mstatus0.0 = "0"
        and s = "\<lparr> cells = \<lambda>_. 0, data = \<lambda>_. 0, page_buffer_next = 0x80001234 \<rparr>"]
    by (fastforce simp: sv48_def page_buffer_size_def MSTATUS_MPP_def)
qed

subsection \<open>What a second mapping would meet\<close>

text \<open>
  The program adds one entry only. A second one below an existing table takes the flag-free bits of
  the pointer for the address of the table, although the frame is shifted by two: it writes to
  the wrong table unless that table is at address 0.
\<close>

lemma next_table_address:
  assumes "a mod 4096 = 0" "a < 2 ^ 56"
  shows "unat ((PTE_V OR (drop_bit 2 (word_of_nat a) AND NOT (mask 10))) AND NOT 0xfff) = a div 16384 * 4096"
proof -
  let ?f = "word_of_nat (a div 4096) :: 64 word"
  have "(PTE_V OR push_bit 10 ?f) AND NOT 0xfff = push_bit 12 (drop_bit 2 ?f)"
  proof (rule bit_word_eqI)
    fix j assume j: "j < LENGTH(64)"
    have m12: "(0xfff :: 64 word) = mask 12" by (simp add: mask_eq_exp_minus_1)
    show "bit ((PTE_V OR push_bit 10 ?f) AND NOT 0xfff) j \<longleftrightarrow> bit (push_bit 12 (drop_bit 2 ?f)) j"
    proof (cases "12 \<le> j")
      case True
      then have "\<not> bit PTE_V j" "2 + (j - 12) = j - 10" using low_flags(2) [of j] by auto
      with True j show ?thesis
        unfolding m12 by (simp only: bit_and_iff bit_or_iff bit_not_iff bit_push_bit_iff bit_drop_bit_eq bit_mask_iff comp_def) auto
    next
      case False
      then show ?thesis
        unfolding m12 by (simp only: bit_and_iff bit_not_iff bit_push_bit_iff bit_mask_iff) simp
    qed
  qed
  also have "\<dots> = word_of_nat (a div 16384 * 4096)"
  proof -
    have "unat ?f = a div 4096" using assms(2) by (simp add: unat_of_nat take_bit_nat_eq_self)
    then have "unat (drop_bit 2 ?f) = a div 4096 div 4" by (simp only: unat_drop_bit_eq) (simp add: drop_bit_eq_div)
    moreover have "a div 4096 div 4 = a div 16384" by (simp flip: div_mult2_eq)
    moreover have "word_of_nat (unat (drop_bit 2 ?f)) = drop_bit 2 ?f" by (simp del: drop_bit_eq_div)
    ultimately have "drop_bit 2 ?f = word_of_nat (a div 16384)" by simp
    then show ?thesis by (simp add: push_bit_eq_mult)
  qed
  finally show ?thesis
    unfolding page_pointer [OF assms] using assms(2)
    by (simp add: unat_of_nat take_bit_nat_eq_self del: of_nat_mult)
qed

text \<open>
  Below the top level, \<^verbatim>\<open>setup_page_table\<close> adds the bits of the address at the place of the entry's
  frame without the shift by two: the first entry for the gigabyte at \<open>2 ^ 30\<close> maps to \<open>2 ^ 32\<close>.
\<close>

lemma sub_table_not_identity: "push_bit 12 (ppn (table_entry 1 0x40000000 0)) = 0x100000000"
  by (simp add: table_entry_def leaf_flags_value ppn_def PTE_PPN_SHIFT_def mask_eq_exp_minus_1 push_bit_eq_mult
      drop_bit_eq_div take_bit_eq_mod)

end
