(* ===== verification/Spec2Isabelle.thy ===== *)
theory Spec2Isabelle
  imports Isa_Refinement Data_Cache Exe_Pipeline Store_Buffer Reorder_Buffer Own_Benchmarks C_Format Barrier Bench_Parallel Sim_Main Vm_Boot Mt_Tiles Mt_Blocks Mt_Windows Mt_Registers Tiny_Client Debug_Checksum Debug_Multicore Debug_Translate
begin

text \<open>
  \<^bold>\<open>tartaruga: a pipelined RV32I core, its simulator and its test programs.\<close>

  The repository holds an in-order-issue, in-order-commit RISC-V core in SystemVerilog
  (\<^verbatim>\<open>includes\<close>, \<^verbatim>\<open>rtl\<close>), the C++ simulator around it (\<^verbatim>\<open>simulator\<close>) and the C programs that run on it
  (\<^verbatim>\<open>benchmarks\<close>, \<^verbatim>\<open>riscv-tests\<close>). Instructions pass fetch, decode, execute and memory; the
  reorder buffer takes them back in program order and tells the store buffer which stores may go
  to the data cache. The simulator clocks the core, serves its memory ports from an ELF image and
  writes a commit log and a pipeline trace. This theory imports the whole development; each theory
  opens with what it models.
\<close>

section \<open>The parts and their models\<close>

text \<open>
  \<^bold>\<open>The core.\<close> A register is a field of a record, a combinational output a function of registers and
  inputs, and a clock edge a function from state and inputs to the next state, with the phases of an
  \<^verbatim>\<open>always\<close> block composed in the order of the source.

  \<^item> \<open>Tartaruga_Pkg\<close>: types, opcodes and instruction fields of \<^verbatim>\<open>includes/*.sv\<close>.
  \<^item> \<open>Decode_Stage\<close>: \<^verbatim>\<open>decoder.sv\<close>, \<^verbatim>\<open>immediate.sv\<close>, \<^verbatim>\<open>regfile.sv\<close>.
  \<^item> \<open>Exe_Units\<close>, \<open>Exe_Pipeline\<close>: \<^verbatim>\<open>alu.sv\<close>, \<^verbatim>\<open>branch.sv\<close>, \<^verbatim>\<open>mul.sv\<close>, \<^verbatim>\<open>exe.sv\<close>, and the write-back selection of
    \<^verbatim>\<open>mem.sv\<close>.
  \<^item> \<open>Ring_Buffer\<close> holds what \<open>Store_Buffer\<close> (\<^verbatim>\<open>store_buffer.sv\<close>) and \<open>Reorder_Buffer\<close> (\<^verbatim>\<open>rob.sv\<close>) share: its locale
    \<open>ring_buffer\<close> turns head, tail and valid bits into a queue, and is interpreted on both.
  \<^item> \<open>Cache_Lines\<close>: the address arithmetic of both caches. \<open>Instr_Cache\<close>: \<^verbatim>\<open>fetch.sv\<close> with \<^verbatim>\<open>icache.sv\<close> and
    \<^verbatim>\<open>imem_wrapper.sv\<close>; \<open>flight\<close> says how many edges the one request in the wrapper still takes, which is all
    the cache relies on, and the memory is the same function of the address for the whole run.
  \<^item> \<open>Data_Cache\<close>: \<^verbatim>\<open>dcache.sv\<close> on \<^verbatim>\<open>dmem_wrapper.sv\<close>. The pipes are one shift register of valid bits (\<open>vld\<close>) whose
    requests all write one line (\<open>writes_of\<close>) or are one read (\<open>read_at\<close>); a client that leaves ten edges
    after a store sees a memory, and one that does not may load the wrong line.
  \<^item> \<open>Isa_Reference\<close> is the instruction set as the RISC-V manual gives it (not translated from the
    repository), \<open>Isa_Refinement\<close> the proof that decode, execute and write-back implement it, with
    the branch offsets and jump targets the code gets wrong stated exactly.

  \<^bold>\<open>The simulator.\<close> Files are lists of bytes read through a stream with a failure flag, outputs are
  the text written so far, and the Verilated core is a parameter.

  \<^item> \<open>Sim_Output\<close>: stream formatting and \<^verbatim>\<open>commit_log.cpp\<close>; \<open>Sim_Memory\<close>: \<^verbatim>\<open>unified_mem.cpp\<close>;
    \<open>Sim_Elf\<close>: \<^verbatim>\<open>elf_reader.cpp\<close>; \<open>Sim_Kanata\<close>: \<^verbatim>\<open>kanata.cpp\<close>; \<open>Sim_Main\<close>: the cycle loop of \<^verbatim>\<open>sim_main.cpp\<close>.

  \<^bold>\<open>The C programs.\<close> C integers are words of their width, pointers natural numbers, byte memory a
  function; a counted loop is \<open>c_for\<close> (\<open>Tartaruga_Prelude\<close>, \<open>C_Prelude\<close>), and a loop that need not end is a
  partial function whose value \<open>None\<close> means that it never ends.

  \<^item> \<open>C_Memory\<close>, \<open>C_Strings\<close>: \<^verbatim>\<open>memcpy\<close>, \<^verbatim>\<open>memset\<close>, \<^verbatim>\<open>memcmp\<close> and the string functions of
    \<^verbatim>\<open>benchmarks/common/syscalls.c\<close> and \<^verbatim>\<open>env/v/string.c\<close>; \<open>C_Printf\<close>: the formatted output of the former,
    \<open>C_Format\<close>: which arguments a format reads.
  \<^item> \<open>Bench_Util\<close>, \<open>Barrier\<close>: \<^verbatim>\<open>benchmarks/common/util.h\<close>; the barrier is an \<open>inductive\<close> step relation over
    any number of threads. \<open>Bench_Kernels\<close>, \<open>Bench_Parallel\<close>: multiply, median, vvadd, spmv and the
    multi-threaded vvadd, matmul and memcpy. \<open>Own_Benchmarks\<close>: the repository's own three programs.
  \<^item> \<open>Mt_Prelude\<close>, \<open>Mt_Tiles\<close>, \<open>Mt_Blocks\<close>, \<open>Mt_Windows\<close>, \<open>Mt_Registers\<close>: seventeen of the matmul kernels of
    \<^verbatim>\<open>riscv-tests/mt\<close>. A kernel maps the contents of \<^verbatim>\<open>C\<close> on entry to those on exit; the locales
    \<open>mt_share\<close>, \<open>mt_kernel\<close>, \<open>mt_adding\<close> and \<open>mt_storing\<close> state what a kernel may write and what it must add or
    store, prove once that the threads together compute the product, and are interpreted on every kernel.
  \<^item> \<open>Vm_Pages\<close>, \<open>Vm_Boot\<close>: the demand-paging kernel \<^verbatim>\<open>env/v/vm.c\<close> (Sv39) and its boot code. The kernel's
    tables, lists and stack lie in the memory it pages: which frames hold them, and their contents as a
    function of the kernel's state, are a parameter (\<open>layout\<close>), and all accesses go through \<open>pread\<close>, \<open>pwrite\<close>.
  \<^item> \<open>Tiny_Malloc\<close>, \<open>Tiny_Free\<close>, \<open>Tiny_Memalign\<close>, \<open>Tiny_Client\<close>: the allocator \<^verbatim>\<open>tiny-malloc.c\<close>; the locale
    \<open>allocator\<close> is its contract, with an abstract machine of independent blocks, and is interpreted on
    the model's \<^verbatim>\<open>malloc\<close>, \<^verbatim>\<open>realloc\<close> and \<^verbatim>\<open>free\<close>.
  \<^item> \<open>Debug_Checksum\<close>, \<open>Debug_Multicore\<close>, \<open>Debug_Translate\<close>: the other C programs of \<^verbatim>\<open>debug/programs\<close>.
\<close>

section \<open>What is shown\<close>

text \<open>
  \<^bold>\<open>Refinement.\<close> The decode-to-write-back logic implements the reference instruction set
  (\<open>core_implements_isa\<close>); the reorder buffer is a queue of in-flight instructions and the store
  buffer a bounded FIFO (\<open>reorder_buffer_refines_queue\<close>, \<open>store_buffer_refines_fifo\<close>), which give program
  order of commits and stores; demand paging is invisible to a
  user program whose pages hold no data of the kernel (\<open>demand_paging_is_transparent\<close>); any conversation with the allocator is one of the abstract machine
  (\<open>tiny_malloc_refines_blocks\<close>); the data cache on its wrapper is a memory for a client that spaces its
  stores (\<open>data_cache_implements_memory\<close>).

  \<^bold>\<open>Invariants and safety.\<close> The execute stage loses, duplicates and exchanges nothing (\<open>exe_conservation\<close>), the
  barrier holds every thread back until all have arrived and never deadlocks, the harts of the
  multi-core program take turns, the pipeline trace names only instructions it has announced.

  \<^bold>\<open>Functional results.\<close> ELF sections reach memory, page tables translate, the matrix kernels multiply,
  fetch serves the words of memory and serves a held program counter within 21 edges, formatted output
  reads back, the checksum is CRC-32 and detects a changed byte.

  Where the code falls short of its purpose the theorem states what it does: the condition under
  which a branch reaches its target (\<open>branch_target_exact_iff\<close>), register x31
  (\<open>regfile_tracks_all_but_x31\<close>), the unchecked \<^verbatim>\<open>func3\<close> (\<open>decoder_accepts_exactly\<close>), the entry the bypass scan
  misses (\<open>store_buffer_bypass_youngest\<close>); lemmas next to the components show the wrap-around of
  allocation sizes, the partial last word of an ELF section, the second mapping of \<^verbatim>\<open>translate.c\<close>, a
  user page that holds the page table, the trace before the first instruction leaves fetch.
\<close>

section \<open>Bounds and termination\<close>

text \<open>
  No fuel is used. Loops with a bound in the source are \<open>c_for\<close> or structural recursion; \<open>fun\<close> and
  \<open>function\<close> come with termination proofs; string scans, allocator scans, the simulator loop and the
  waits of the debug programs are \<open>partial_function (option)\<close> or return an option, and the theorems about
  them conclude \<open>Some\<close>. Hypotheses that bound numbers say that an object does not reach the end of the
  address space (for instance that a request plus 32 stays below \<open>2^64\<close>), that fewer than
  \<open>2^32\<close> events occur where the code counts in 32 bits, and that the matrix dimension is 32, for which
  the kernels are written. Thread counts are those that divide the rows as the kernels assume.
\<close>

section \<open>Not modelled\<close>

text \<open>
  \<^item> The wiring of the memory stage and of the top level (\<^verbatim>\<open>mem.sv\<close> apart from its data cache and write-back
    selection, \<^verbatim>\<open>datapath.sv\<close>, \<^verbatim>\<open>top.sv\<close>) and the hardware test benches: the stages are specified at their ports.
  \<^item> The downward growing heap (\<^verbatim>\<open>MALLOC_DIRECTION < 0\<close>) and \<^verbatim>\<open>malloc_stats\<close> of \<^verbatim>\<open>tiny-malloc.c\<close>; the 32-bit build
    of \<^verbatim>\<open>translate.c\<close> and of \<^verbatim>\<open>vm.c\<close>.
  \<^item> The other kernels of \<^verbatim>\<open>riscv-tests/mt\<close>, which differ in blocking and unrolling, and the benchmarks
    qsort, rsort, towers, mm, dhrystone, pmp and the vector programs.
  \<^item> Assembly (start-up code, trap entries, the instruction tests), which needs an instruction-set
    semantics with a program counter and memory; the macros of \<^verbatim>\<open>env/p\<close>, \<^verbatim>\<open>env/pm\<close>, \<^verbatim>\<open>env/pt\<close>; the
    constants of the generated \<^verbatim>\<open>encoding.h\<close> that nothing modelled uses.
  \<^item> \<^verbatim>\<open>semihosting.c\<close>, \<^verbatim>\<open>interrupt.c\<close>, the Python debug harness, build files: they drive tools or devices.
  \<^item> Waveform dumping, \<^verbatim>\<open>fclose\<close>, the waits for the host interface and the floating-point ratios of the
    simulator's summary, which do not change the modelled state.
\<close>

end
